(* ===== verification/Prelude.thy ===== *)
theory Prelude
  imports Main "HOL-Library.Word"
begin

text \<open>
  Shared vocabulary of the development.
  \<^item> The C++ failures of the sources as values: a result is \<open>exn + 'a\<close>, \<open>Inl\<close> holding the
    exception class thrown (the message text is not modelled), \<open>Terminate\<close> and \<open>Abort\<close> standing for
    \<^verbatim>\<open>std::terminate()\<close> and \<^verbatim>\<open>std::abort()\<close>, and \<open>Undefined\<close> for an
    unchecked access past the end of a vector, which the development shows unreachable.
  \<^item> Fixed-width unsigned arithmetic on \<open>nat\<close> with the wrap-around written out
    (\<^verbatim>\<open>uint32_t\<close>, \<^verbatim>\<open>uint64_t\<close>, \<^verbatim>\<open>size_t\<close>), and the laws that remove it where
    the operands are in range. Generation counters, whose wrap-around is part of the protocol, are
    machine words.
  \<^item> Generic lemmas on lists that several components use.
\<close>

section \<open>Failures\<close>

datatype exn =
    InvalidArgument
  | LogicError
  | OutOfRange
  | OverflowError
  | BadAlloc
  | Terminate
  | Abort
  | Undefined

type_synonym 'a res = "exn + 'a"

definition res_bind :: "'e + 'a \<Rightarrow> ('a \<Rightarrow> 'e + 'b) \<Rightarrow> 'e + 'b" where
  "res_bind m f = (case m of Inl e \<Rightarrow> Inl e | Inr x \<Rightarrow> f x)"

definition is_ok :: "'e + 'a \<Rightarrow> bool" where
  "is_ok m = (case m of Inl e \<Rightarrow> False | Inr x \<Rightarrow> True)"

lemma res_bind_simps [simp]:
  "res_bind (Inl e) f = Inl e"
  "res_bind (Inr x) f = f x"
  by (simp_all add: res_bind_def)

lemma res_bind_eq_Inr [simp]: "res_bind m f = Inr y \<longleftrightarrow> (\<exists>x. m = Inr x \<and> f x = Inr y)"
  by (cases m) simp_all

lemma res_bind_eq_Inl:
  "res_bind m f = Inl e \<longleftrightarrow> m = Inl e \<or> (\<exists>x. m = Inr x \<and> f x = Inl e)"
  by (cases m) simp_all

lemma is_ok_simps [simp]: "is_ok (Inr x)" "\<not> is_ok (Inl e)"
  by (simp_all add: is_ok_def)

lemma if_Inr_Inl [simp]:
  "((if b then Inl e else Inr x) = Inr y) \<longleftrightarrow> (\<not> b \<and> x = y)"
  by simp

section \<open>Fixed-width unsigned integers\<close>

type_synonym u8 = "8 word"
type_synonym u32 = "32 word"
type_synonym u64 = "64 word"

definition u32_max :: nat where "u32_max = 4294967295"
definition u64_max :: nat where "u64_max = 18446744073709551615"
definition i32_max :: nat where "i32_max = 2147483647"
definition i64_max :: nat where "i64_max = 9223372036854775807"

text \<open>Values of \<^verbatim>\<open>uint32_t\<close> are naturals up to \<^const>\<open>u32_max\<close>; \<^verbatim>\<open>size_t\<close> and
  \<^verbatim>\<open>uint64_t\<close> are naturals up to \<^const>\<open>u64_max\<close> (the sources target 64-bit hosts).\<close>

definition u32_add :: "nat \<Rightarrow> nat \<Rightarrow> nat" where
  "u32_add a b = (a + b) mod (u32_max + 1)"

definition u32_sub :: "nat \<Rightarrow> nat \<Rightarrow> nat" where
  "u32_sub a b = (if b \<le> a then a - b else a + (u32_max + 1) - b)"

definition u64_add :: "nat \<Rightarrow> nat \<Rightarrow> nat" where
  "u64_add a b = (a + b) mod (u64_max + 1)"

definition u64_sub :: "nat \<Rightarrow> nat \<Rightarrow> nat" where
  "u64_sub a b = (if b \<le> a then a - b else a + (u64_max + 1) - b)"

definition u64_mul :: "nat \<Rightarrow> nat \<Rightarrow> nat" where
  "u64_mul a b = (a * b) mod (u64_max + 1)"

text \<open>The cast of a \<^verbatim>\<open>uint32_t\<close> to \<^verbatim>\<open>int32_t\<close>.\<close>

definition i32_of_u32 :: "nat \<Rightarrow> int" where
  "i32_of_u32 n = (if n \<le> i32_max then int n else int n - int (u32_max + 1))"

named_theorems width_simps \<open>removal of the wrap-around where operands are in range\<close>

lemma u32_add_exact [width_simps]: "a + b \<le> u32_max \<Longrightarrow> u32_add a b = a + b"
  by (simp add: u32_add_def)

lemma u32_sub_exact [width_simps]: "b \<le> a \<Longrightarrow> u32_sub a b = a - b"
  by (simp add: u32_sub_def)

lemma u64_add_exact [width_simps]: "a + b \<le> u64_max \<Longrightarrow> u64_add a b = a + b"
  by (simp add: u64_add_def)

lemma u64_sub_exact [width_simps]: "b \<le> a \<Longrightarrow> u64_sub a b = a - b"
  by (simp add: u64_sub_def)

lemma u64_mul_exact [width_simps]: "a * b \<le> u64_max \<Longrightarrow> u64_mul a b = a * b"
  by (simp add: u64_mul_def)

lemma i32_of_u32_exact [width_simps]: "n \<le> i32_max \<Longrightarrow> i32_of_u32 n = int n"
  by (simp add: i32_of_u32_def)

lemma max_bounds [simp]: "i32_max < u32_max" "u32_max < u64_max" "i32_max < u64_max"
  "0 < u32_max" "0 < u64_max" "0 < i32_max" "i64_max < u64_max" "i32_max < i64_max"
  by (simp_all add: u32_max_def u64_max_def i32_max_def i64_max_def)

lemma div_le_mult_bound:
  assumes "a \<le> m div b" shows "a * b \<le> (m::nat)"
proof -
  have "a * b \<le> m div b * b" using assms by simp
  also have "\<dots> \<le> m" by simp
  finally show ?thesis .
qed

lemma mult_le_div_bound:
  assumes "a * b \<le> (m::nat)" "0 < b" shows "a \<le> m div b"
  using assms by (simp add: less_eq_div_iff_mult_less_eq)

text \<open>A 32-bit generation counter that skips zero, and the same on 64 bits.\<close>

definition increment_generation :: "u32 \<Rightarrow> u32" where
  "increment_generation g = (let g' = g + 1 in if g' = 0 then g' + 1 else g')"

definition bump_u64 :: "u64 \<Rightarrow> u64" where
  "bump_u64 r = (let r' = r + 1 in if r' = 0 then r' + 1 else r')"

lemma increment_generation_nonzero [simp]: "increment_generation g \<noteq> 0"
  by (simp add: increment_generation_def Let_def)

lemma word_add_one_neq: "(w::'a::len word) + 1 \<noteq> w"
  by (metis add_cancel_right_right one_neq_zero)

lemma increment_generation_changes: "g \<noteq> 0 \<Longrightarrow> increment_generation g \<noteq> g"
  by (auto simp: increment_generation_def Let_def word_add_one_neq)

lemma bump_u64_nonzero [simp]: "bump_u64 r \<noteq> 0"
  by (simp add: bump_u64_def Let_def)

lemma bump_u64_changes: "bump_u64 r \<noteq> r"
proof (cases "r + 1 = 0")
  case True
  then have "bump_u64 r = 1" by (simp add: bump_u64_def)
  moreover have "r \<noteq> 1"
  proof
    assume "r = 1"
    with True have "(2::u64) = 0" by (metis one_add_one)
    then show False by simp
  qed
  ultimately show ?thesis by simp
next
  case False
  then show ?thesis by (simp add: bump_u64_def Let_def word_add_one_neq)
qed

section \<open>Lists\<close>

text \<open>The position \<^verbatim>\<open>std::find_if\<close> returns, \<open>None\<close> standing for the end iterator.\<close>

fun find_index :: "('a \<Rightarrow> bool) \<Rightarrow> 'a list \<Rightarrow> nat option" where
  "find_index P [] = None"
| "find_index P (x # xs) = (if P x then Some 0 else map_option Suc (find_index P xs))"

lemma find_index_Some:
  "find_index P xs = Some i \<Longrightarrow> i < length xs \<and> P (xs ! i) \<and> (\<forall>j < i. \<not> P (xs ! j))"
proof (induction xs arbitrary: i)
  case (Cons x xs)
  then show ?case by (cases i) (auto simp: less_Suc_eq_0_disj split: if_splits)
qed simp

lemma find_index_None: "find_index P xs = None \<longleftrightarrow> (\<forall>x \<in> set xs. \<not> P x)"
  by (induction xs) auto

lemma find_index_map: "find_index P (map f xs) = find_index (\<lambda>x. P (f x)) xs"
  by (induction xs) auto

lemma takeWhile_map_comp: "map f (takeWhile (\<lambda>x. P (f x)) xs) = takeWhile P (map f xs)"
  by (induction xs) simp_all

lemma dropWhile_map_comp: "map f (dropWhile (\<lambda>x. P (f x)) xs) = dropWhile P (map f xs)"
  by (induction xs) simp_all

lemma map_butlast: "map f (butlast xs) = butlast (map f xs)"
  by (induction xs) auto

lemma count_list_True_update:
  assumes "i < length bs" "\<not> bs ! i"
  shows "count_list (bs[i := True]) True = Suc (count_list bs True)"
  using assms by (induction bs arbitrary: i) (auto split: nat.splits)

lemma count_list_False_update:
  assumes "i < length bs" "bs ! i"
  shows "Suc (count_list (bs[i := False]) True) = count_list bs True"
  using assms by (induction bs arbitrary: i) (auto split: nat.splits)

lemma count_list_le: "count_list xs x \<le> length xs"
  by (rule count_le_length)

lemma count_list_pos_if_nth: "i < length bs \<Longrightarrow> bs ! i \<Longrightarrow> 0 < count_list bs True"
  by (metis count_list_0_iff gr0I nth_mem)

lemma card_true_indices: "card {i. i < length bs \<and> bs ! i} = count_list bs True"
proof (induction bs)
  case Nil
  then show ?case by simp
next
  case (Cons b bs)
  have split: "{i. i < length (b # bs) \<and> (b # bs) ! i}
      = (if b then {0} else {}) \<union> Suc ` {i. i < length bs \<and> bs ! i}"
    by (auto simp: nth_Cons image_iff gr0_conv_Suc split: nat.splits) (metis not0_implies_Suc)
  have "card (Suc ` {i. i < length bs \<and> bs ! i}) = count_list bs True"
    using Cons.IH by (simp add: card_image)
  then show ?case unfolding split by (subst card_Un_disjoint) auto
qed

lemma sum_list_update_nat:
  assumes "i < length (xs :: nat list)"
  shows "sum_list (xs[i := v]) + xs ! i = sum_list xs + v"
  using assms by (simp add: sum_list_update) (metis elem_le_sum_list le_add_diff_inverse2 add.commute trans_le_add2)

end
