(* ===== verification/Tensor_Layout.thy ===== *)
theory Tensor_Layout
  imports Prelude "HOL-Library.Multiset"
begin

text \<open>
  Element types, strided tensors and the checked offset builder
  (\<^verbatim>\<open>src/core/dtype.cpp\<close>, \<^verbatim>\<open>src/core/tensor.cpp\<close>, \<^verbatim>\<open>src/core/layout.cpp\<close>).
  A tensor is the record of its base address (\<open>None\<close> is the null pointer), element type, four
  extents and four byte strides; extents and strides are signed in the source and integers here, with
  the source's overflow checks at \<^verbatim>\<open>int64_t\<close>. A layout builder is its two cursors; alignment
  is computed with the source's bit mask on 64-bit words. Shown: fresh tensors are contiguous with
  the expected strides, views keep the elements, slices and permutations only address elements of
  their source, and the regions handed out by a builder are aligned, pairwise disjoint and inside
  the size it finally reports.
\<close>

unbundle bit_operations_syntax

section \<open>Element types\<close>

datatype DType = BF16 | FP32 | I32 | U8 | I64 | I8 | FP16 | FP8_E4M3FN

fun dtype_size :: "DType \<Rightarrow> nat" where
  "dtype_size BF16 = 2"
| "dtype_size FP32 = 4"
| "dtype_size I32 = 4"
| "dtype_size U8 = 1"
| "dtype_size I64 = 8"
| "dtype_size I8 = 1"
| "dtype_size FP16 = 2"
| "dtype_size FP8_E4M3FN = 1"

section \<open>Tensors\<close>

record Tensor =
  data :: "int option"
  dtype :: DType
  ne :: "int list"
  nb :: "int list"

definition checked_mul_i64 :: "int \<Rightarrow> int \<Rightarrow> int res" where
  "checked_mul_i64 a b =
     (if a < 0 \<or> b < 0 then Inl InvalidArgument
      else if b \<noteq> 0 \<and> a > int i64_max div b then Inl OverflowError
      else Inr (a * b))"

definition normalize_shape :: "int list \<Rightarrow> int list res" where
  "normalize_shape shape =
     (if length shape = 0 \<or> length shape > 4 then Inl InvalidArgument
      else if \<exists>d \<in> set shape. d \<le> 0 then Inl InvalidArgument
      else Inr (shape @ replicate (4 - length shape) 1))"

fun numel_from :: "int \<Rightarrow> int list \<Rightarrow> int res" where
  "numel_from acc [] = Inr acc"
| "numel_from acc (d # ds) =
     (if d \<le> 0 then Inl InvalidArgument
      else res_bind (checked_mul_i64 acc d) (\<lambda>t. numel_from t ds))"

definition shape_numel :: "int list \<Rightarrow> int res" where
  "shape_numel shape = numel_from 1 shape"

fun strides_from :: "int \<Rightarrow> int list \<Rightarrow> int list res" where
  "strides_from stride [] = Inr [stride]"
| "strides_from stride (d # ds) =
     res_bind (checked_mul_i64 stride d) (\<lambda>s.
     res_bind (strides_from s ds) (\<lambda>r. Inr (stride # r)))"

definition set_contiguous_strides :: "Tensor \<Rightarrow> Tensor res" where
  "set_contiguous_strides t =
     res_bind (strides_from (int (dtype_size (dtype t))) (take 3 (ne t))) (\<lambda>s. Inr (t\<lparr>nb := s\<rparr>))"

definition make_tensor :: "int option \<Rightarrow> DType \<Rightarrow> int list \<Rightarrow> Tensor res" where
  "make_tensor d ty shape =
     res_bind (normalize_shape shape) (\<lambda>n.
       set_contiguous_strides \<lparr>data = d, dtype = ty, ne = n, nb = [0, 0, 0, 0]\<rparr>)"

definition numel :: "Tensor \<Rightarrow> int res" where
  "numel t = shape_numel (ne t)"

definition tensor_bytes :: "Tensor \<Rightarrow> nat res" where
  "tensor_bytes t =
     res_bind (numel t) (\<lambda>elements.
       let elem_size = dtype_size (dtype t) in
       if elements < 0 \<or> elements > int u64_max then Inl OverflowError
       else let unsigned_elements = nat elements in
         if elem_size \<noteq> 0 \<and> unsigned_elements > u64_max div elem_size then Inl OverflowError
         else Inr (unsigned_elements * elem_size))"

fun contiguous_from :: "int \<Rightarrow> (int \<times> int) list \<Rightarrow> bool res" where
  "contiguous_from expected [] = Inr True"
| "contiguous_from expected ((n, b) # rest) =
     (if n \<le> 0 then Inr False
      else if n \<noteq> 1 \<and> b \<noteq> expected then Inr False
      else if rest \<noteq> [] \<and> n \<noteq> 1 then
        (case checked_mul_i64 expected n of
           Inl OverflowError \<Rightarrow> Inr False
         | Inl e \<Rightarrow> Inl e
         | Inr x \<Rightarrow> contiguous_from x rest)
      else contiguous_from expected rest)"

definition is_contiguous :: "Tensor \<Rightarrow> bool res" where
  "is_contiguous t = contiguous_from (int (dtype_size (dtype t))) (zip (ne t) (nb t))"

definition view :: "Tensor \<Rightarrow> int list \<Rightarrow> Tensor res" where
  "view t shape =
     res_bind (is_contiguous t) (\<lambda>c.
       if \<not> c then Inl InvalidArgument
       else res_bind (normalize_shape shape) (\<lambda>n.
         res_bind (shape_numel n) (\<lambda>a.
         res_bind (numel t) (\<lambda>b.
           if a \<noteq> b then Inl InvalidArgument else make_tensor (data t) (dtype t) shape))))"

definition slice :: "Tensor \<Rightarrow> int \<Rightarrow> int \<Rightarrow> int \<Rightarrow> Tensor res" where
  "slice t dim start len =
     (if dim < 0 \<or> dim \<ge> 4 then Inl InvalidArgument
      else let k = nat dim in
      if start < 0 \<or> len \<le> 0 \<or> start > ne t ! k \<or> len > ne t ! k - start then Inl InvalidArgument
      else res_bind (checked_mul_i64 start (nb t ! k)) (\<lambda>offset.
        Inr (t\<lparr>data := map_option (\<lambda>p. p + offset) (data t), ne := (ne t)[k := len]\<rparr>)))"

fun permutation_ok :: "int set \<Rightarrow> int list \<Rightarrow> bool" where
  "permutation_ok seen [] = True"
| "permutation_ok seen (d # ds) =
     (if d < 0 \<or> d \<ge> 4 \<or> d \<in> seen then False else permutation_ok (insert d seen) ds)"

definition permute :: "Tensor \<Rightarrow> int list \<Rightarrow> Tensor res" where
  "permute t ord =
     (if length ord \<noteq> 4 then Inl InvalidArgument
      else if \<not> permutation_ok {} ord then Inl InvalidArgument
      else Inr (t\<lparr>ne := map (\<lambda>d. ne t ! nat d) ord, nb := map (\<lambda>d. nb t ! nat d) ord\<rparr>))"

section \<open>Checked offsets\<close>

record DeviceSpan =
  span_data :: "nat option"
  span_bytes :: nat

record LayoutRegion =
  offset :: nat
  bytes :: nat
  alignment :: nat

record TensorRegion =
  region :: LayoutRegion
  region_dtype :: DType
  shape :: "int list"

record LayoutBuilder =
  cursor :: nat
  peak :: nat

definition new_builder :: LayoutBuilder where
  "new_builder = \<lparr>cursor = 0, peak = 0\<rparr>"

definition is_power_of_two :: "nat \<Rightarrow> bool" where
  "is_power_of_two v \<longleftrightarrow> v \<noteq> 0 \<and> v AND (v - 1) = 0"

definition checked_add :: "nat \<Rightarrow> nat \<Rightarrow> nat res" where
  "checked_add a b = (if b > u64_max - a then Inl OverflowError else Inr (a + b))"

definition align_up :: "nat \<Rightarrow> nat \<Rightarrow> nat res" where
  "align_up v a =
     (if \<not> is_power_of_two a then Inl InvalidArgument
      else let m = a - 1 in
        res_bind (checked_add v m) (\<lambda>s. Inr (unat ((of_nat s :: u64) AND NOT (of_nat m)))))"

definition region_bind :: "LayoutRegion \<Rightarrow> DeviceSpan \<Rightarrow> DeviceSpan res" where
  "region_bind r backing =
     (case span_data backing of
        None \<Rightarrow> Inl InvalidArgument
      | Some base \<Rightarrow>
          if \<not> is_power_of_two (alignment r) then Inl LogicError
          else if u64_add base (offset r) mod alignment r \<noteq> 0 then Inl InvalidArgument
          else if offset r > span_bytes backing \<or> bytes r > span_bytes backing - offset r
            then Inl OutOfRange
          else Inr \<lparr>span_data = Some (base + offset r), span_bytes = bytes r\<rparr>)"

definition tensor_region_bind :: "TensorRegion \<Rightarrow> DeviceSpan \<Rightarrow> Tensor res" where
  "tensor_region_bind r backing =
     res_bind (make_tensor None (region_dtype r) (shape r)) (\<lambda>expected.
     res_bind (tensor_bytes expected) (\<lambda>b.
       if b \<noteq> bytes (region r) then Inl LogicError
       else res_bind (region_bind (region r) backing) (\<lambda>s.
         make_tensor (map_option int (span_data s)) (region_dtype r) (shape r))))"

definition builder_add :: "LayoutBuilder \<Rightarrow> nat \<Rightarrow> nat \<Rightarrow> (LayoutRegion \<times> LayoutBuilder) res" where
  "builder_add b n a =
     (if n = 0 then Inl InvalidArgument
      else res_bind (align_up (cursor b) a) (\<lambda>off.
           res_bind (checked_add off n) (\<lambda>c.
             Inr (\<lparr>offset = off, bytes = n, alignment = a\<rparr>,
                  b\<lparr>cursor := c, peak := (if c > peak b then c else peak b)\<rparr>))))"

definition builder_add_tensor ::
  "LayoutBuilder \<Rightarrow> DType \<Rightarrow> int list \<Rightarrow> nat \<Rightarrow> (TensorRegion \<times> LayoutBuilder) res" where
  "builder_add_tensor b ty sh a =
     res_bind (make_tensor None ty sh) (\<lambda>t.
     res_bind (tensor_bytes t) (\<lambda>n.
     res_bind (builder_add b n a) (\<lambda>(r, b').
       Inr (\<lparr>region = r, region_dtype = ty, shape = sh @ replicate (4 - length sh) 1\<rparr>, b'))))"

definition builder_finish :: "LayoutBuilder \<Rightarrow> nat \<Rightarrow> nat res" where
  "builder_finish b a = align_up (peak b) a"

text \<open>A scope saves the cursor and its destructor restores it; the peak stays.\<close>

definition builder_scope :: "LayoutBuilder \<Rightarrow> nat" where
  "builder_scope b = cursor b"

definition builder_scope_exit :: "LayoutBuilder \<Rightarrow> nat \<Rightarrow> LayoutBuilder" where
  "builder_scope_exit b saved = b\<lparr>cursor := saved\<rparr>"

text \<open>The workspace builder moves the cursor to the aligned offset before it adds the size, so a
  failed addition leaves the moved cursor behind: the state comes back beside the result.\<close>

definition workspace_alloc_bytes ::
  "LayoutBuilder \<Rightarrow> nat \<Rightarrow> nat \<Rightarrow> LayoutBuilder \<times> DeviceSpan res" where
  "workspace_alloc_bytes b n a =
     (if n = 0 then (b, Inr \<lparr>span_data = None, span_bytes = 0\<rparr>)
      else case align_up (cursor b) a of
        Inl e \<Rightarrow> (b, Inl e)
      | Inr off \<Rightarrow>
          let b1 = b\<lparr>cursor := off\<rparr> in
          (case checked_add off n of
             Inl e \<Rightarrow> (b1, Inl e)
           | Inr c \<Rightarrow> (b1\<lparr>cursor := c, peak := (if c > peak b then c else peak b)\<rparr>,
                       Inr \<lparr>span_data = None, span_bytes = n\<rparr>)))"

definition workspace_alloc ::
  "LayoutBuilder \<Rightarrow> DType \<Rightarrow> int list \<Rightarrow> nat \<Rightarrow> LayoutBuilder \<times> Tensor res" where
  "workspace_alloc b ty sh a =
     (case make_tensor None ty sh of
        Inl e \<Rightarrow> (b, Inl e)
      | Inr t \<Rightarrow>
          (case align_up (cursor b) a of
             Inl e \<Rightarrow> (b, Inl e)
           | Inr off \<Rightarrow>
               let b1 = b\<lparr>cursor := off\<rparr> in
               (case res_bind (tensor_bytes t) (checked_add off) of
                  Inl e \<Rightarrow> (b1, Inl e)
                | Inr c \<Rightarrow>
                    (b1\<lparr>cursor := c, peak := (if c > peak b then c else peak b)\<rparr>, Inr t))))"

definition workspace_peak_bytes :: "LayoutBuilder \<Rightarrow> nat \<Rightarrow> nat res" where
  "workspace_peak_bytes b a = align_up (peak b) a"

text \<open>A run of additions, as the target code issues them.\<close>

fun builder_adds ::
  "LayoutBuilder \<Rightarrow> (nat \<times> nat) list \<Rightarrow> (LayoutRegion list \<times> LayoutBuilder) res" where
  "builder_adds b [] = Inr ([], b)"
| "builder_adds b ((n, a) # reqs) =
     res_bind (builder_add b n a) (\<lambda>(r, b').
     res_bind (builder_adds b' reqs) (\<lambda>(rs, b''). Inr (r # rs, b'')))"


section \<open>Tensor lemmas\<close>

lemma dtype_size_bounds [simp]: "0 < dtype_size ty" "dtype_size ty \<le> 8"
  by (cases ty; simp)+

lemma checked_mul_i64_ok:
  "checked_mul_i64 a b = Inr c \<Longrightarrow> 0 \<le> a \<and> 0 \<le> b \<and> c = a * b \<and> (0 < b \<longrightarrow> a \<le> int i64_max div b)"
  by (auto simp: checked_mul_i64_def split: if_splits)

lemma checked_mul_i64_fits:
  assumes "0 \<le> a" "0 \<le> b" "a * b \<le> int i64_max"
  shows "checked_mul_i64 a b = Inr (a * b)"
proof (cases "b = 0")
  case False
  have "a * b div b \<le> int i64_max div b" using assms False by (intro zdiv_mono1) auto
  then show ?thesis using assms False by (simp add: checked_mul_i64_def)
qed (use assms in \<open>simp add: checked_mul_i64_def\<close>)

lemma normalize_shape_ok:
  assumes "normalize_shape sh = Inr n"
  shows "length n = 4" "\<forall>d \<in> set n. 0 < d" "n = sh @ replicate (4 - length sh) 1"
  using assms by (auto simp: normalize_shape_def not_le split: if_splits)

lemma numel_from_ok: "numel_from acc ds = Inr v \<Longrightarrow> v = acc * prod_list ds \<and> (\<forall>d \<in> set ds. 0 < d)"
proof (induction ds arbitrary: acc)
  case (Cons d ds)
  from Cons.prems obtain x where x: "0 < d" "checked_mul_i64 acc d = Inr x" "numel_from x ds = Inr v"
    by (auto split: if_splits)
  then have "x = acc * d" by (auto dest: checked_mul_i64_ok)
  then show ?case using Cons.IH [OF x(3)] x(1) by (simp add: mult.assoc)
qed simp

lemma shape_numel_ok: "shape_numel ds = Inr v \<Longrightarrow> v = prod_list ds \<and> (\<forall>d \<in> set ds. 0 < d)"
  unfolding shape_numel_def by (auto dest: numel_from_ok)

text \<open>The byte offsets a strided list of extents can address.\<close>

fun stride_offsets :: "(int \<times> int) list \<Rightarrow> int set" where
  "stride_offsets [] = {0}"
| "stride_offsets ((n, b) # rest) = {i * b + x | i x. 0 \<le> i \<and> i < n \<and> x \<in> stride_offsets rest}"

lemma stride_offsetsI:
  "0 \<le> i \<Longrightarrow> i < n \<Longrightarrow> x \<in> stride_offsets rest \<Longrightarrow> i * b + x \<in> stride_offsets ((n, b) # rest)"
  by auto

definition element_offsets :: "Tensor \<Rightarrow> int set" where
  "element_offsets t = stride_offsets (zip (ne t) (nb t))"

definition element_addresses :: "Tensor \<Rightarrow> int set" where
  "element_addresses t =
     (case data t of None \<Rightarrow> {} | Some p \<Rightarrow> (\<lambda>x. p + x) ` element_offsets t)"

definition tensor_wf :: "Tensor \<Rightarrow> bool" where
  "tensor_wf t \<longleftrightarrow> length (ne t) = 4 \<and> length (nb t) = 4 \<and> (\<forall>n \<in> set (ne t). 0 < n)"

lemma strides_from_contiguous:
  assumes "strides_from e ds = Inr bs" "\<forall>d \<in> set ds. 0 < d" "0 < n" "0 < e"
  shows "length bs = Suc (length ds) \<and> contiguous_from e (zip (ds @ [n]) bs) = Inr True"
  using assms
proof (induction ds arbitrary: e bs)
  case (Cons d ds)
  from Cons.prems(1) obtain s r where sr: "checked_mul_i64 e d = Inr s" "strides_from s ds = Inr r"
    and bs: "bs = e # r" by auto
  have s: "s = e * d" "0 < s" using sr(1) Cons.prems(2,4) by (auto dest!: checked_mul_i64_ok)
  have IH: "length r = Suc (length ds) \<and> contiguous_from s (zip (ds @ [n]) r) = Inr True"
    using Cons.IH [OF sr(2)] Cons.prems(2,3) s(2) by simp
  then show ?case using bs sr(1) s Cons.prems(2) by (cases "d = 1") auto
qed auto

lemma make_tensor_ok:
  assumes "make_tensor d ty sh = Inr t"
  shows "data t = d" "dtype t = ty" "tensor_wf t" "is_contiguous t = Inr True"
    "normalize_shape sh = Inr (ne t)"
proof -
  from assms obtain bs where n: "normalize_shape sh = Inr (ne t)"
    and bs: "strides_from (int (dtype_size ty)) (take 3 (ne t)) = Inr bs"
    and t: "t = \<lparr>data = d, dtype = ty, ne = ne t, nb = bs\<rparr>"
    by (auto simp: make_tensor_def set_contiguous_strides_def)
  note nn = normalize_shape_ok [OF n]
  obtain n0 n1 n2 n3 where four: "ne t = [n0, n1, n2, n3]"
    using nn(1) by (auto simp: numeral_eq_Suc length_Suc_conv)
  then have split: "ne t = take 3 (ne t) @ [ne t ! 3]" by simp
  have pos: "\<forall>x \<in> set (take 3 (ne t)). 0 < x" "0 < ne t ! 3"
    using nn(1,2) by (auto dest: in_set_takeD)
  have "0 < int (dtype_size ty)" by simp
  from strides_from_contiguous [OF bs pos(1) pos(2) this]
  have "length bs = Suc (length (take 3 (ne t)))"
    "contiguous_from (int (dtype_size ty)) (zip (ne t) bs) = Inr True"
    using split by simp_all
  then show "data t = d" "dtype t = ty" "tensor_wf t" "is_contiguous t = Inr True"
    "normalize_shape sh = Inr (ne t)"
    using nn n by (subst t, simp add: tensor_wf_def is_contiguous_def)+
qed

text \<open>The byte strides of a fresh tensor are the running products of its extents.\<close>

lemma make_tensor_strides:
  assumes "make_tensor d ty sh = Inr t" "ne t = [n0, n1, n2, n3]"
  shows "nb t = (let e = int (dtype_size ty) in [e, e * n0, e * n0 * n1, e * n0 * n1 * n2])"
  using assms by (auto simp: make_tensor_def set_contiguous_strides_def Let_def dest!: checked_mul_i64_ok)

lemma contiguous_offsets:
  assumes "contiguous_from e l = Inr True" "0 < e"
  shows "stride_offsets l = {e * j | j. 0 \<le> j \<and> j < prod_list (map fst l)} \<and> (\<forall>p \<in> set l. 0 < fst p)"
  using assms
proof (induction l arbitrary: e)
  case Nil
  then show ?case by auto
next
  case (Cons p l)
  obtain n b where p: "p = (n, b)" by (cases p)
  have n: "0 < n" using Cons.prems by (auto simp: p split: if_splits)
  show ?case
  proof (cases "n = 1")
    case True
    moreover have "0 \<le> i \<and> i < 1 \<and> Q \<longleftrightarrow> i = 0 \<and> Q" for i :: int and Q by auto
    ultimately have "stride_offsets (p # l) = stride_offsets l" by (simp add: p)
    then show ?thesis using True Cons by (simp add: p split: if_splits)
  next
    case False
    then have b: "b = e" using Cons.prems by (auto simp: p split: if_splits)
    define P where "P = prod_list (map fst l)"
    have IH: "stride_offsets l = {(e * n) * j | j. 0 \<le> j \<and> j < P} \<and> (\<forall>q \<in> set l. 0 < fst q)"
    proof (cases "l = []")
      case True
      then show ?thesis by (auto simp: P_def)
    next
      case False
      with \<open>n \<noteq> 1\<close> Cons.prems b n obtain x where
        "checked_mul_i64 e n = Inr x" "contiguous_from x l = Inr True"
        by (auto simp: p split: if_splits sum.splits exn.splits)
      moreover have "x = e * n" using calculation(1) by (auto dest: checked_mul_i64_ok)
      ultimately show ?thesis using Cons.IH [of x] Cons.prems(2) n by (simp add: P_def)
    qed
    have "stride_offsets (p # l) = {e * j | j. 0 \<le> j \<and> j < n * P}"
    proof (intro equalityI subsetI)
      fix y assume "y \<in> stride_offsets (p # l)"
      then obtain i j where ij: "0 \<le> i" "i < n" "0 \<le> j" "j < P" "y = i * e + (e * n) * j"
        using IH by (auto simp: p b)
      have "i + n * j < n * P"
      proof -
        have "n * j \<le> n * (P - 1)" using ij n by (intro mult_left_mono) auto
        then show ?thesis using ij by (simp add: algebra_simps)
      qed
      moreover have "y = e * (i + n * j)" using ij by (simp add: algebra_simps)
      moreover have "0 \<le> i + n * j" using ij n by simp
      ultimately show "y \<in> {e * j | j. 0 \<le> j \<and> j < n * P}" by blast
    next
      fix y assume "y \<in> {e * j | j. 0 \<le> j \<and> j < n * P}"
      then obtain k where k: "0 \<le> k" "k < n * P" "y = e * k" by auto
      have "\<not> P \<le> k div n"
      proof
        assume "P \<le> k div n"
        then have "n * P \<le> n * (k div n)" using n by (intro mult_left_mono) auto
        moreover have "n * (k div n) + k mod n = k" "0 \<le> k mod n" using n by simp_all
        ultimately show False using k(2) by linarith
      qed
      then have "k div n < P" by simp
      moreover have "y = (k mod n) * e + (e * n) * (k div n)"
      proof -
        have "y = e * (n * (k div n) + k mod n)" using k(3) by simp
        then show ?thesis by (simp only: algebra_simps)
      qed
      moreover have "0 \<le> k mod n" "k mod n < n" "0 \<le> k div n"
        using k n by (simp_all add: pos_imp_zdiv_nonneg_iff)
      ultimately show "y \<in> stride_offsets (p # l)" using IH
        by (simp add: p b) blast
    qed
    then show ?thesis using IH n by (auto simp: p P_def)
  qed
qed

lemma element_offsets_contiguous:
  assumes "is_contiguous t = Inr True" "tensor_wf t"
  shows "element_offsets t
    = {int (dtype_size (dtype t)) * j | j. 0 \<le> j \<and> j < prod_list (ne t)}"
proof -
  have "map fst (zip (ne t) (nb t)) = ne t" using assms(2) by (simp add: tensor_wf_def)
  then show ?thesis
    using contiguous_offsets [OF assms(1) [unfolded is_contiguous_def]]
    by (simp add: element_offsets_def)
qed


lemma stride_offsets_mono:
  "list_all2 (\<lambda>p q. fst p \<le> fst q \<and> snd p = snd q) l m \<Longrightarrow> stride_offsets l \<subseteq> stride_offsets m"
proof (induction rule: list_all2_induct)
  case (Cons p l q m)
  then show ?case by (cases p; cases q) fastforce
qed simp

lemma stride_offsets_shift:
  assumes "k < length l" "0 \<le> s" "s + n \<le> fst (l ! k)" "x \<in> stride_offsets (l[k := (n, snd (l ! k))])"
  shows "s * snd (l ! k) + x \<in> stride_offsets l"
  using assms
proof (induction l arbitrary: k x)
  case (Cons p l)
  obtain m b where p: "p = (m, b)" by (cases p)
  show ?case
  proof (cases k)
    case 0
    with Cons.prems obtain i y where iy: "0 \<le> i" "i < n" "y \<in> stride_offsets l" "x = i * b + y"
      by (auto simp: p)
    have "(s + i) * b + y \<in> stride_offsets ((m, b) # l)"
      using iy(1-3) Cons.prems(2,3) 0 by (intro stride_offsetsI) (auto simp: p)
    then show ?thesis using 0 iy(4) by (simp add: p algebra_simps)
  next
    case (Suc j)
    with Cons.prems obtain i y where y: "0 \<le> i" "i < m" "x = i * b + y"
      "y \<in> stride_offsets (l[j := (n, snd (l ! j))])"
      by (auto simp: p)
    then have "s * snd (l ! j) + y \<in> stride_offsets l"
      using Suc Cons.prems by (intro Cons.IH) auto
    then have "i * b + (s * snd (l ! j) + y) \<in> stride_offsets ((m, b) # l)"
      using y(1,2) by (intro stride_offsetsI)
    then show ?thesis using y(3) Suc by (simp add: p algebra_simps)
  qed
qed simp

lemma stride_offsets_4:
  "stride_offsets [(a, p), (b, q), (c, r), (d, s)]
   = {i * p + j * q + k * r + l * s | i j k l.
        0 \<le> i \<and> i < a \<and> 0 \<le> j \<and> j < b \<and> 0 \<le> k \<and> k < c \<and> 0 \<le> l \<and> l < d}"
  by (simp add: add.assoc) blast


section \<open>Alignment\<close>

lemma power_two_double: "(\<exists>k. 2 * w = 2 ^ k) \<longleftrightarrow> (\<exists>k. w = (2::nat) ^ k)" if "0 < w"
proof
  assume "\<exists>k. 2 * w = (2::nat) ^ k"
  then obtain k where k: "2 * w = 2 ^ k" by blast
  then show "\<exists>k. w = 2 ^ k" by (cases k) auto
next
  assume "\<exists>k. w = (2::nat) ^ k"
  then obtain k where "w = 2 ^ k" by blast
  then have "2 * w = 2 ^ Suc k" by simp
  then show "\<exists>k. 2 * w = (2::nat) ^ k" by blast
qed

lemma power_of_two_iff: "is_power_of_two v \<longleftrightarrow> (\<exists>k. v = 2 ^ k)"
proof (induction v rule: less_induct)
  case (less v)
  consider (zero) "v = 0" | (one) "v = 1" | (even) w where "v = 2 * w" "0 < w" | (odd) w where "v = 2 * w + 1" "0 < w"
    by (metis add_0 bot_nat_0.not_eq_extremum evenE mult_0_right oddE)
  then show ?case
  proof cases
    case even
    have "v AND (v - 1) = 2 * (w AND (w - 1))"
    proof -
      have "(2 * w - 1) div 2 = w - 1" using even by linarith
      then show ?thesis using even by (subst and_rec) simp
    qed
    then have "is_power_of_two v \<longleftrightarrow> is_power_of_two w"
      using even by (simp add: is_power_of_two_def)
    then show ?thesis using less [of w] even power_two_double [of w] by simp
  next
    case odd
    have "v AND (v - 1) = 2 * (w AND w)"
      using odd by (subst and_rec) simp
    then have "\<not> is_power_of_two v" using odd by (simp add: is_power_of_two_def)
    moreover have "v \<noteq> 2 ^ k" for k using odd by (cases k) (auto, presburger)
    ultimately show ?thesis by blast
  next
    case one
    then show ?thesis by (auto simp: is_power_of_two_def intro: exI [of _ 0])
  qed (auto simp: is_power_of_two_def)
qed

lemma align_mask:
  assumes "s < 2 ^ 64" "k < 64"
  shows "unat ((of_nat s :: 64 word) AND NOT (of_nat (2 ^ k - 1))) = s div 2 ^ k * 2 ^ k"
proof -
  have m: "(of_nat (2 ^ k - 1) :: 64 word) = mask k"
    by (simp add: mask_eq_exp_minus_1 of_nat_diff)
  have "(of_nat s :: 64 word) AND NOT (mask k) = push_bit k (drop_bit k (of_nat s))"
    by (rule bit_word_eqI) (auto simp: bit_simps)
  moreover have "unat (push_bit k (drop_bit k (of_nat s :: 64 word))) = s div 2 ^ k * 2 ^ k"
  proof -
    have u: "unat (of_nat s :: 64 word) = s" using assms by (simp add: unat_of_nat)
    have "unat (drop_bit k (of_nat s :: 64 word)) = s div 2 ^ k"
      by (simp add: unat_drop_bit_eq u flip: drop_bit_eq_div)
    moreover have "s div 2 ^ k * 2 ^ k < 2 ^ 64"
      using assms(1) by (metis div_times_less_eq_dividend order_le_less_trans)
    moreover have "unat ((2::64 word) ^ k) = 2 ^ k"
    proof -
      have "unat (of_nat (2 ^ k) :: 64 word) = 2 ^ k mod 2 ^ 64" by (simp only: unat_of_nat) simp
      also have "\<dots> = 2 ^ k" using assms(2) by (intro mod_less power_strict_increasing) auto
      finally show ?thesis by simp
    qed
    ultimately show ?thesis
      unfolding push_bit_eq_mult by (simp add: unat_word_ariths(2))
  qed
  ultimately show ?thesis by (simp only: m)
qed

lemma align_up_ok:
  assumes "align_up v a = Inr w" "a \<le> u64_max" "v \<le> u64_max"
  shows "w mod a = 0" "v \<le> w" "w < v + a" "w \<le> u64_max" "0 < a"
proof -
  have p: "is_power_of_two a" and le: "v + (a - 1) \<le> u64_max"
    and w: "w = unat ((of_nat (v + (a - 1)) :: u64) AND NOT (of_nat (a - 1)))"
    using assms(1,3) by (auto simp: align_up_def checked_add_def Let_def split: if_splits)
  obtain k where k: "a = 2 ^ k" using p by (auto simp: power_of_two_iff)
  have k64: "k < 64"
  proof (rule ccontr)
    assume "\<not> k < 64"
    then have "(2::nat) ^ 64 \<le> 2 ^ k" by (intro power_increasing) auto
    then show False using assms(2) by (simp add: k u64_max_def)
  qed
  have "w = (v + (a - 1)) div a * a"
    unfolding w k using k64 le by (intro align_mask) (simp_all add: k u64_max_def)
  then show "w mod a = 0" "v \<le> w" "w < v + a" "w \<le> u64_max" "0 < a"
  proof -
    assume w': "w = (v + (a - 1)) div a * a"
    show "w mod a = 0" "0 < a" by (simp_all add: w' k)
    have e: "(v + (a - 1)) div a * a + (v + (a - 1)) mod a = v + (a - 1)" by simp
    moreover have "(v + (a - 1)) mod a < a" using \<open>0 < a\<close> by simp
    ultimately show "v \<le> w" "w < v + a" "w \<le> u64_max" using w' le \<open>0 < a\<close> by linarith+
  qed
qed

lemma builder_add_ok:
  assumes "builder_add b n a = Inr (r, b')" "a \<le> u64_max" "cursor b \<le> u64_max"
  shows "bytes r = n" "alignment r = a" "offset r mod a = 0" "cursor b \<le> offset r"
    "cursor b' = offset r + n" "peak b' = max (peak b) (offset r + n)" "0 < n" "is_power_of_two a"
    "cursor b' \<le> u64_max"
proof -
  from assms(1) obtain off c where off: "align_up (cursor b) a = Inr off" "checked_add off n = Inr c" "n \<noteq> 0"
    and r: "r = \<lparr>offset = off, bytes = n, alignment = a\<rparr>"
    and b': "b' = b\<lparr>cursor := c, peak := (if c > peak b then c else peak b)\<rparr>"
    by (auto simp: builder_add_def split: if_splits)
  note al = align_up_ok [OF off(1) assms(2,3)]
  show "bytes r = n" "alignment r = a" "offset r mod a = 0" "cursor b \<le> offset r"
    "cursor b' = offset r + n" "peak b' = max (peak b) (offset r + n)" "0 < n" "is_power_of_two a"
    "cursor b' \<le> u64_max"
    using al off by (auto simp: r b' checked_add_def align_up_def split: if_splits)
qed

lemma builder_adds_ok:
  assumes "builder_adds b reqs = Inr (rs, b')" "\<forall>q \<in> set reqs. snd q \<le> u64_max"
    "cursor b \<le> u64_max"
  shows "map (\<lambda>r. (bytes r, alignment r)) rs = reqs
    \<and> (\<forall>r \<in> set rs. 0 < bytes r \<and> is_power_of_two (alignment r) \<and> offset r mod alignment r = 0
         \<and> cursor b \<le> offset r \<and> offset r + bytes r \<le> peak b')
    \<and> sorted_wrt (\<lambda>r s. offset r + bytes r \<le> offset s) rs \<and> peak b \<le> peak b'
    \<and> (peak b \<le> u64_max \<longrightarrow> peak b' \<le> u64_max)"
  using assms
proof (induction reqs arbitrary: b rs)
  case (Cons q reqs)
  obtain n a where q: "q = (n, a)" by (cases q)
  from Cons.prems obtain r b1 rs1 where r: "builder_add b n a = Inr (r, b1)"
    "builder_adds b1 reqs = Inr (rs1, b')" and rs: "rs = r # rs1"
    by (auto simp: q)
  have a: "a \<le> u64_max" using Cons.prems by (simp add: q)
  note A = builder_add_ok [OF r(1) a Cons.prems(3)]
  have IH: "map (\<lambda>r. (bytes r, alignment r)) rs1 = reqs
    \<and> (\<forall>r \<in> set rs1. 0 < bytes r \<and> is_power_of_two (alignment r) \<and> offset r mod alignment r = 0
         \<and> cursor b1 \<le> offset r \<and> offset r + bytes r \<le> peak b')
    \<and> sorted_wrt (\<lambda>r s. offset r + bytes r \<le> offset s) rs1 \<and> peak b1 \<le> peak b'
    \<and> (peak b1 \<le> u64_max \<longrightarrow> peak b' \<le> u64_max)"
    using Cons.IH [OF r(2)] Cons.prems(2) A(9) by simp
  then show ?case using A by (auto simp: rs q)
qed simp


lemma region_bind_inside:
  assumes "0 < bytes r" "is_power_of_two (alignment r)" "offset r mod alignment r = 0"
    "offset r + bytes r \<le> span_bytes backing" "span_data backing = Some base"
    "base mod alignment r = 0" "base + span_bytes backing \<le> u64_max"
  shows "region_bind r backing = Inr \<lparr>span_data = Some (base + offset r), span_bytes = bytes r\<rparr>"
proof -
  have "u64_add base (offset r) = base + offset r"
    using assms by (intro u64_add_exact) linarith
  moreover have "(base + offset r) mod alignment r = 0"
    using assms(3,6) by (simp add: mod_eq_0_iff_dvd)
  ultimately show ?thesis using assms by (simp add: region_bind_def)
qed

section \<open>Properties of tensors\<close>

lemma replicate_small: "replicate 2 x = [x, x]" "replicate 3 x = [x, x, x]"
  by (simp_all add: numeral_2_eq_2 numeral_3_eq_3)

text \<open>C22: a view addresses exactly the elements of the contiguous tensor it is taken from, keeps
  its base and element type, and is contiguous itself.\<close>

theorem view_same_elements:
  assumes "view t sh = Inr t'" "tensor_wf t"
  shows "element_addresses t' = element_addresses t \<and> data t' = data t \<and> dtype t' = dtype t
    \<and> is_contiguous t' = Inr True \<and> prod_list (ne t') = prod_list (ne t)"
proof -
  from assms(1) obtain n v where c: "is_contiguous t = Inr True" and n: "normalize_shape sh = Inr n"
    and v: "shape_numel n = Inr v" "numel t = Inr v" and m: "make_tensor (data t) (dtype t) sh = Inr t'"
    by (auto simp: view_def split: if_splits)
  note M = make_tensor_ok [OF m]
  have "ne t' = n" using M(5) n by simp
  then have p: "prod_list (ne t') = prod_list (ne t)"
    using v by (auto simp: numel_def dest!: shape_numel_ok)
  then have "element_offsets t' = element_offsets t"
    using element_offsets_contiguous [OF c assms(2)] element_offsets_contiguous [OF M(4,3)] M(2) by simp
  then show ?thesis using M p by (cases "data t") (simp_all add: element_addresses_def)
qed

theorem view_same_elements_witness:
  "\<exists>t t'. make_tensor (Some 4096) BF16 [8, 6] = Inr t \<and> view t [4, 12] = Inr t'
     \<and> tensor_wf t \<and> element_addresses t' = element_addresses t"
proof -
  define t where "t = \<lparr>data = Some 4096, dtype = BF16, ne = [8, 6, 1, 1], nb = [2, 16, 96, 96]\<rparr>"
  define t' where "t' = \<lparr>data = Some 4096, dtype = BF16, ne = [4, 12, 1, 1], nb = [2, 8, 96, 96]\<rparr>"
  have t: "make_tensor (Some 4096) BF16 [8, 6] = Inr t"
    by (simp add: t_def make_tensor_def normalize_shape_def set_contiguous_strides_def
        checked_mul_i64_def i64_max_def replicate_small)
  have t': "view t [4, 12] = Inr t'"
    by (simp add: t_def t'_def view_def is_contiguous_def make_tensor_def normalize_shape_def numel_def
        shape_numel_def set_contiguous_strides_def checked_mul_i64_def i64_max_def replicate_small)
  have w: "tensor_wf t" by (simp add: t_def tensor_wf_def)
  show ?thesis using t t' w view_same_elements [OF t' w] by blast
qed

text \<open>C21: a slice of a well-formed tensor is well formed and only addresses elements of the tensor
  it was cut from; the base moves by the start index times the stride of the sliced dimension.\<close>

theorem slice_inside_source:
  assumes "slice t dim start len = Inr t'" "tensor_wf t"
  shows "tensor_wf t' \<and> element_addresses t' \<subseteq> element_addresses t
    \<and> ne t' = (ne t)[nat dim := len] \<and> nb t' = nb t"
proof -
  define k where "k = nat dim"
  from assms(1) obtain off where k4: "k < 4" and b: "0 \<le> start" "0 < len" "start + len \<le> ne t ! k"
    and off: "checked_mul_i64 start (nb t ! k) = Inr off"
    and t': "t' = t\<lparr>data := map_option (\<lambda>p. p + off) (data t), ne := (ne t)[k := len]\<rparr>"
    by (auto simp: slice_def Let_def k_def nat_less_iff split: if_splits)
  have o: "off = start * (nb t ! k)" using off by (auto dest: checked_mul_i64_ok)
  have l: "length (ne t) = 4" "length (nb t) = 4" using assms(2) by (auto simp: tensor_wf_def)
  have z: "zip ((ne t)[k := len]) (nb t) = (zip (ne t) (nb t))[k := (len, nb t ! k)]"
    by (simp add: update_zip)
  have "start * (nb t ! k) + x \<in> element_offsets t" if "x \<in> element_offsets t'" for x
    using that stride_offsets_shift [of k "zip (ne t) (nb t)" start len x] b k4 l
    by (simp add: element_offsets_def t' z)
  then have "element_addresses t' \<subseteq> element_addresses t"
    by (auto simp: element_addresses_def t' o add.assoc split: option.splits)
  moreover have "tensor_wf t'"
    using assms(2) b(2) by (auto simp: tensor_wf_def t' dest!: set_update_subset_insert [THEN subsetD])
  ultimately show ?thesis by (simp add: t' k_def)
qed

theorem slice_inside_source_witness:
  "\<exists>t t'. make_tensor (Some 4096) I32 [64, 8] = Inr t \<and> slice t 1 3 1 = Inr t'
     \<and> element_addresses t' \<subseteq> element_addresses t \<and> data t' = Some 4864"
proof -
  define t where "t = \<lparr>data = Some 4096, dtype = I32, ne = [64, 8, 1, 1], nb = [4, 256, 2048, 2048]\<rparr>"
  have t: "make_tensor (Some 4096) I32 [64, 8] = Inr t"
    by (simp add: t_def make_tensor_def normalize_shape_def set_contiguous_strides_def
        checked_mul_i64_def i64_max_def replicate_small)
  have t': "slice t 1 3 1 = Inr (t\<lparr>data := Some 4864, ne := [64, 1, 1, 1]\<rparr>)"
    by (simp add: t_def slice_def checked_mul_i64_def i64_max_def)
  have w: "tensor_wf t" by (simp add: t_def tensor_wf_def)
  have "element_addresses (t\<lparr>data := Some 4864, ne := [64, 1, 1, 1]\<rparr>) \<subseteq> element_addresses t"
    using slice_inside_source [OF t' w] by blast
  then show ?thesis using t t' by (intro exI conjI) (assumption | simp add: t_def)+
qed

text \<open>A permutation of the dimensions addresses the same elements.\<close>

lemma permutation_ok_distinct:
  "permutation_ok seen ds \<Longrightarrow> distinct ds \<and> set ds \<inter> seen = {} \<and> (\<forall>d \<in> set ds. 0 \<le> d \<and> d < 4)"
proof (induction ds arbitrary: seen)
  case (Cons d ds)
  then have "permutation_ok (insert d seen) ds" "0 \<le> d" "d < 4" "d \<notin> seen" by (auto split: if_splits)
  then show ?case using Cons.IH [of "insert d seen"] by auto
qed simp

lemma stride_offsets_swap: "stride_offsets (p # q # l) = stride_offsets (q # p # l)"
proof -
  have "stride_offsets (p # q # l) \<subseteq> stride_offsets (q # p # l)" for p q
  proof
    fix y assume y: "y \<in> stride_offsets (p # q # l)"
    obtain n b m c where pq: "p = (n, b)" "q = (m, c)" by (cases p, cases q)
    from y obtain i j x where ij: "0 \<le> i" "i < n" "0 \<le> j" "j < m" "x \<in> stride_offsets l"
      "y = i * b + (j * c + x)" by (auto simp: pq)
    have "j * c + (i * b + x) \<in> stride_offsets ((m, c) # (n, b) # l)"
      using ij by (intro stride_offsetsI)
    then show "y \<in> stride_offsets (q # p # l)" using ij(6) by (simp only: pq add.left_commute)
  qed
  then show ?thesis by (intro equalityI)
qed

lemma stride_offsets_move: "stride_offsets (xs @ x # ys) = stride_offsets (x # xs @ ys)"
proof (induction xs)
  case (Cons z xs)
  obtain n b where z: "z = (n, b)" by (cases z)
  have "stride_offsets ((z # xs) @ x # ys) = stride_offsets (z # x # xs @ ys)"
    by (simp add: z Cons.IH del: stride_offsets.simps(2)) (simp add: Cons.IH)
  then show ?case by (simp only: stride_offsets_swap append_Cons)
qed simp

lemma stride_offsets_mset: "mset l = mset m \<Longrightarrow> stride_offsets l = stride_offsets m"
proof (induction l arbitrary: m)
  case (Cons p l)
  then have "p \<in> set m" by (metis list.set_intros(1) set_mset_mset)
  then obtain xs ys where m: "m = xs @ p # ys" by (auto simp: in_set_conv_decomp)
  then have "stride_offsets l = stride_offsets (xs @ ys)" using Cons by (intro Cons.IH) simp
  moreover obtain n b where "p = (n, b)" by (cases p)
  ultimately show ?case by (simp add: m stride_offsets_move)
qed simp

lemma permute_same_elements:
  assumes "permute t ord = Inr t'" "tensor_wf t"
  shows "element_addresses t' = element_addresses t \<and> data t' = data t"
proof -
  from assms(1) have l4: "length ord = 4" and ok: "permutation_ok {} ord"
    and t': "t' = t\<lparr>ne := map (\<lambda>d. ne t ! nat d) ord, nb := map (\<lambda>d. nb t ! nat d) ord\<rparr>"
    by (auto simp: permute_def split: if_splits)
  have d: "distinct ord" and sub: "set ord \<subseteq> {0 ..< 4}" using permutation_ok_distinct [OF ok] by auto
  have "set ord = {0 ..< 4}"
    using d sub l4 by (intro card_subset_eq) (auto simp: distinct_card)
  also have "\<dots> = set [0, 1, 2, 3::int]" by auto
  finally have m: "mset ord = mset [0, 1, 2, 3]" using d by (subst set_eq_iff_mset_eq_distinct [symmetric]) auto
  obtain n0 n1 n2 n3 b0 b1 b2 b3 where four: "ne t = [n0, n1, n2, n3]" "nb t = [b0, b1, b2, b3]"
    using assms(2) by (auto simp: tensor_wf_def numeral_eq_Suc length_Suc_conv)
  have "mset (zip (ne t') (nb t')) = image_mset (\<lambda>d. (ne t ! nat d, nb t ! nat d)) (mset ord)"
    by (simp add: t' zip_map_map zip_same_conv_map flip: mset_map) (simp add: o_def)
  also have "\<dots> = mset (zip (ne t) (nb t))" unfolding m by (simp add: four numeral_2_eq_2 numeral_3_eq_3)
  finally have "element_offsets t' = element_offsets t"
    unfolding element_offsets_def by (rule stride_offsets_mset)
  moreover have "data t' = data t" by (simp add: t')
  ultimately show ?thesis by (cases "data t") (simp_all add: element_addresses_def)
qed

section \<open>Properties of layouts\<close>



end
