(* ===== verification/KV_Geometry.thy ===== *)
theory KV_Geometry
  imports Tensor_Layout
begin

text \<open>
  The storage schema of the paged KV cache: the physical planes of one layer
  (\<^verbatim>\<open>src/core/paged_kv_storage.h\<close>), the page geometry and the planned device layout
  (\<^verbatim>\<open>src/core/paged_kv_cache.h\<close>, first part of \<^verbatim>\<open>paged_kv_cache.cpp\<close>), the packed host
  page record and the copy work of a transfer (first part of \<^verbatim>\<open>src/core/host_kv_arena.cpp\<close>).
  Shown: every accepted storage schema is no larger than the 16-bit one, a planned device layout
  gives every plane its own aligned bytes, and a planned host record gives every plane its own
  256-byte aligned range inside one page stride.
\<close>

section \<open>Storage schema\<close>

datatype KvCacheStorage =
    BFloat16 | Int8Group64 | Fp8E4M3Row256 | Nvfp4Group16 | Fp8KeyNvfp4Value

definition kD256KVCacheHeadDim :: int where
  "kD256KVCacheHeadDim = 256"

record PagedKVVectorLayout =
  data_dtype :: DType
  data_leading_extent :: int
  scale_dtype :: DType
  scale_leading_extent :: int

definition has_scale :: "PagedKVVectorLayout \<Rightarrow> bool" where
  "has_scale v \<longleftrightarrow> scale_leading_extent v \<noteq> 0"

definition physical_bytes :: "PagedKVVectorLayout \<Rightarrow> nat" where
  "physical_bytes v =
     u64_add (u64_mul (nat (data_leading_extent v)) (dtype_size (data_dtype v)))
             (u64_mul (nat (scale_leading_extent v)) (dtype_size (scale_dtype v)))"

record PagedKVStorageLayout =
  storage_kind :: KvCacheStorage
  head_dim :: int
  key_layout :: PagedKVVectorLayout
  value_layout :: PagedKVVectorLayout

definition planes_per_layer :: "PagedKVStorageLayout \<Rightarrow> nat" where
  "planes_per_layer l =
     2 + (if has_scale (key_layout l) then 1 else 0) + (if has_scale (value_layout l) then 1 else 0)"

definition logical_vector_bytes :: "PagedKVStorageLayout \<Rightarrow> nat" where
  "logical_vector_bytes l = u64_mul (nat (head_dim l)) 2"

definition logical_bytes_per_token_head :: "PagedKVStorageLayout \<Rightarrow> nat" where
  "logical_bytes_per_token_head l = u64_mul 2 (logical_vector_bytes l)"

definition physical_bytes_per_token_head :: "PagedKVStorageLayout \<Rightarrow> nat" where
  "physical_bytes_per_token_head l =
     u64_add (physical_bytes (key_layout l)) (physical_bytes (value_layout l))"

definition vector_layout :: "DType \<Rightarrow> int \<Rightarrow> DType \<Rightarrow> int \<Rightarrow> PagedKVVectorLayout" where
  "vector_layout dt de st se =
     \<lparr>data_dtype = dt, data_leading_extent = de, scale_dtype = st, scale_leading_extent = se\<rparr>"

definition paged_kv_storage_layout :: "KvCacheStorage \<Rightarrow> int \<Rightarrow> PagedKVStorageLayout res" where
  "paged_kv_storage_layout st hd_dim =
     (if hd_dim \<le> 0 then Inl InvalidArgument
      else let out = (\<lambda>k v. Inr \<lparr>storage_kind = st, head_dim = hd_dim, key_layout = k, value_layout = v\<rparr>);
               symmetric = (\<lambda>v. out v v);
               d256 = (hd_dim = kD256KVCacheHeadDim)
      in case st of
           BFloat16 \<Rightarrow> out (vector_layout BF16 hd_dim U8 0) (vector_layout FP16 hd_dim U8 0)
         | Int8Group64 \<Rightarrow>
             if d256 then symmetric (vector_layout I8 256 FP16 4) else Inl InvalidArgument
         | Fp8E4M3Row256 \<Rightarrow>
             if d256 then symmetric (vector_layout FP8_E4M3FN 256 FP16 1) else Inl InvalidArgument
         | Nvfp4Group16 \<Rightarrow>
             if d256 then symmetric (vector_layout U8 128 U8 16) else Inl InvalidArgument
         | Fp8KeyNvfp4Value \<Rightarrow>
             if d256 then out (vector_layout FP8_E4M3FN 256 FP16 1) (vector_layout U8 128 U8 16)
             else Inl InvalidArgument)"

section \<open>Page geometry and the planned device layout\<close>

definition kPagedKVPageSize :: int where
  "kPagedKVPageSize = 64"

record KVPlaneGeometry =
  plane_dtype :: DType
  leading_extent :: int
  head_extent :: int
  plane_alignment :: nat

datatype PagedKVPlaneOrder = PageMajor | HeadMajor

record KVPageGeometry =
  page_tokens :: nat
  device_plane_order :: PagedKVPlaneOrder
  geometry_planes :: "KVPlaneGeometry list"

record DeviceKVPagePoolSpec =
  page_group_count :: nat
  spec_geometry :: KVPageGeometry

record KVExecutionTableSpec =
  spec_logical_page_capacity :: nat
  table_rows :: int

record DeviceKVPlaneLayout =
  planned_geometry :: KVPlaneGeometry
  planned_storage :: TensorRegion

record DeviceKVPagePoolLayout =
  pool_layout_spec :: DeviceKVPagePoolSpec
  pool_layout_planes :: "DeviceKVPlaneLayout list"

record KVExecutionTableLayout =
  table_layout_spec :: KVExecutionTableSpec
  layout_block_tables :: TensorRegion

definition checked_i32 :: "nat \<Rightarrow> int res" where
  "checked_i32 v = (if v = 0 \<or> v > i32_max then Inl InvalidArgument else Inr (int v))"

definition checked_table_bytes :: "KVExecutionTableSpec \<Rightarrow> nat res" where
  "checked_table_bytes sp =
     res_bind (checked_i32 (spec_logical_page_capacity sp)) (\<lambda>logical.
       if table_rows sp \<le> 0 then Inl InvalidArgument
       else let rows = nat (table_rows sp) in
         if nat logical > u64_max div rows div 4 then Inl OverflowError
         else Inr (nat logical * rows * 4))"

definition validate_geometry :: "KVPageGeometry \<Rightarrow> unit res" where
  "validate_geometry g =
     (if page_tokens g \<noteq> nat kPagedKVPageSize then Inl InvalidArgument
      else if geometry_planes g = [] then Inl InvalidArgument
      else if \<exists>p \<in> set (geometry_planes g). leading_extent p \<le> 0 \<or> head_extent p \<le> 0
        then Inl InvalidArgument
      else Inr ())"

definition plane_shape :: "PagedKVPlaneOrder \<Rightarrow> KVPlaneGeometry \<Rightarrow> int \<Rightarrow> int list" where
  "plane_shape ord p physical_pages =
     (case ord of
        PageMajor \<Rightarrow> [leading_extent p, kPagedKVPageSize, head_extent p, physical_pages]
      | HeadMajor \<Rightarrow> [leading_extent p, kPagedKVPageSize, physical_pages, head_extent p])"

fun plan_planes ::
  "PagedKVPlaneOrder \<Rightarrow> int \<Rightarrow> LayoutBuilder \<Rightarrow> KVPlaneGeometry list
   \<Rightarrow> (DeviceKVPlaneLayout list \<times> LayoutBuilder) res" where
  "plan_planes ord physical_pages b [] = Inr ([], b)"
| "plan_planes ord physical_pages b (p # ps) =
     res_bind (builder_add_tensor b (plane_dtype p) (plane_shape ord p physical_pages)
       (plane_alignment p)) (\<lambda>(r, b').
     res_bind (plan_planes ord physical_pages b' ps) (\<lambda>(ls, b'').
       Inr (\<lparr>planned_geometry = p, planned_storage = r\<rparr> # ls, b'')))"

definition plan_device_kv_page_pool ::
  "LayoutBuilder \<Rightarrow> DeviceKVPagePoolSpec \<Rightarrow> (DeviceKVPagePoolLayout \<times> LayoutBuilder) res" where
  "plan_device_kv_page_pool b sp =
     res_bind (checked_i32 (page_group_count sp)) (\<lambda>physical_pages.
     res_bind (validate_geometry (spec_geometry sp)) (\<lambda>_.
     res_bind (plan_planes (device_plane_order (spec_geometry sp)) physical_pages b
       (geometry_planes (spec_geometry sp))) (\<lambda>(ls, b').
       Inr (\<lparr>pool_layout_spec = sp, pool_layout_planes = ls\<rparr>, b'))))"

definition plan_kv_execution_tables ::
  "LayoutBuilder \<Rightarrow> KVExecutionTableSpec \<Rightarrow> (KVExecutionTableLayout \<times> LayoutBuilder) res" where
  "plan_kv_execution_tables b sp =
     res_bind (checked_table_bytes sp) (\<lambda>_.
     res_bind (checked_i32 (spec_logical_page_capacity sp)) (\<lambda>logical.
     res_bind (builder_add_tensor b I32 [logical, table_rows sp] 256) (\<lambda>(r, b').
       Inr (\<lparr>table_layout_spec = sp, layout_block_tables = r\<rparr>, b'))))"

definition payload_bytes :: "DeviceKVPagePoolLayout \<Rightarrow> nat" where
  "payload_bytes l =
     foldl (\<lambda>acc p. u64_add acc (bytes (region (planned_storage p)))) 0 (pool_layout_planes l)"

definition metadata_bytes :: "KVExecutionTableLayout \<Rightarrow> nat" where
  "metadata_bytes l = bytes (region (layout_block_tables l))"

section \<open>The packed host page record\<close>

definition kHostKVAlignment :: nat where
  "kHostKVAlignment = 256"

definition checked_mul :: "nat \<Rightarrow> nat \<Rightarrow> nat res" where
  "checked_mul a b = (if b \<noteq> 0 \<and> a > u64_max div b then Inl OverflowError else Inr (a * b))"

definition host_align_up :: "nat \<Rightarrow> nat \<Rightarrow> nat res" where
  "host_align_up v a =
     (if a = 0 \<or> a AND (a - 1) \<noteq> 0 then Inl InvalidArgument
      else let m = a - 1 in
        if v > u64_max - m then Inl OverflowError
        else Inr (unat ((of_nat (v + m) :: u64) AND NOT (of_nat m))))"

record HostKVPlaneLayout =
  plane_offset :: nat
  page_payload_bytes :: nat
  head_payload_bytes :: nat

record HostKVPageLayout =
  host_geometry :: KVPageGeometry
  host_planes :: "HostKVPlaneLayout list"
  page_stride :: nat

fun plan_host_planes ::
  "nat \<Rightarrow> nat \<Rightarrow> KVPlaneGeometry list \<Rightarrow> (HostKVPlaneLayout list \<times> nat) res" where
  "plan_host_planes tokens c [] = Inr ([], c)"
| "plan_host_planes tokens c (p # ps) =
     (if leading_extent p \<le> 0 \<or> head_extent p \<le> 0 then Inl InvalidArgument
      else res_bind (host_align_up c kHostKVAlignment) (\<lambda>c1.
           res_bind (checked_mul (nat (leading_extent p)) tokens) (\<lambda>x.
           res_bind (checked_mul x (dtype_size (plane_dtype p))) (\<lambda>head_bytes.
           res_bind (checked_mul head_bytes (nat (head_extent p))) (\<lambda>page_bytes.
           res_bind (checked_add c1 page_bytes) (\<lambda>c2.
           res_bind (plan_host_planes tokens c2 ps) (\<lambda>(ls, c3).
             Inr (\<lparr>plane_offset = c1, page_payload_bytes = page_bytes,
                    head_payload_bytes = head_bytes\<rparr> # ls, c3))))))))"

definition plan_host_kv_page_layout :: "KVPageGeometry \<Rightarrow> HostKVPageLayout res" where
  "plan_host_kv_page_layout g =
     (if page_tokens g = 0 \<or> geometry_planes g = [] then Inl InvalidArgument
      else res_bind (plan_host_planes (page_tokens g) 0 (geometry_planes g)) (\<lambda>(ls, c).
           res_bind (host_align_up c kHostKVAlignment) (\<lambda>stride.
             Inr \<lparr>host_geometry = g, host_planes = ls, page_stride = stride\<rparr>)))"

section \<open>Copy work of a transfer\<close>

record TransferWork =
  work_payload_bytes :: nat
  copy_operations :: nat

definition no_work :: TransferWork where
  "no_work = \<lparr>work_payload_bytes = 0, copy_operations = 0\<rparr>"

fun transfer_totals ::
  "PagedKVPlaneOrder \<Rightarrow> nat \<Rightarrow> nat \<Rightarrow> (HostKVPlaneLayout \<times> KVPlaneGeometry) list \<Rightarrow> (nat \<times> nat) res"
where
  "transfer_totals ord bytes_per_page operations_per_run [] = Inr (bytes_per_page, operations_per_run)"
| "transfer_totals ord bytes_per_page operations_per_run ((h, p) # rest) =
     res_bind (checked_add bytes_per_page (page_payload_bytes h)) (\<lambda>b.
     res_bind (checked_add operations_per_run
       (case ord of PageMajor \<Rightarrow> 1 | HeadMajor \<Rightarrow> nat (head_extent p))) (\<lambda>n.
       transfer_totals ord b n rest))"

definition plan_host_kv_transfer_work :: "HostKVPageLayout \<Rightarrow> nat \<Rightarrow> nat \<Rightarrow> TransferWork res" where
  "plan_host_kv_transfer_work l pages contiguous_runs =
     (if pages = 0 then Inr no_work
      else if contiguous_runs = 0 \<or> contiguous_runs > pages \<or> host_planes l = [] \<or>
              length (host_planes l) \<noteq> length (geometry_planes (host_geometry l))
        then Inl InvalidArgument
      else res_bind (transfer_totals (device_plane_order (host_geometry l)) 0 0
             (zip (host_planes l) (geometry_planes (host_geometry l)))) (\<lambda>(b, n).
           res_bind (checked_mul b pages) (\<lambda>payload.
           res_bind (checked_mul n contiguous_runs) (\<lambda>operations.
             if operations > u32_max then Inl OverflowError
             else Inr \<lparr>work_payload_bytes = payload, copy_operations = operations\<rparr>))))"

fun payload_total :: "nat \<Rightarrow> HostKVPlaneLayout list \<Rightarrow> nat res" where
  "payload_total acc [] = Inr acc"
| "payload_total acc (h # hs) =
     res_bind (checked_add acc (page_payload_bytes h)) (\<lambda>b. payload_total b hs)"

definition plan_device_kv_copy_work :: "HostKVPageLayout \<Rightarrow> nat \<Rightarrow> TransferWork res" where
  "plan_device_kv_copy_work l pages =
     (if pages = 0 then Inr no_work
      else if host_planes l = [] \<or>
              length (host_planes l) \<noteq> length (geometry_planes (host_geometry l))
        then Inl InvalidArgument
      else res_bind (payload_total 0 (host_planes l)) (\<lambda>b.
           res_bind (checked_mul b pages) (\<lambda>payload.
           res_bind (checked_mul (length (host_planes l)) pages) (\<lambda>operations.
             if operations > u32_max then Inl OverflowError
             else Inr \<lparr>work_payload_bytes = payload, copy_operations = operations\<rparr>))))"

section \<open>Lemmas on planned layouts\<close>

lemma checked_i32_ok [simp]: "checked_i32 v = Inr w \<longleftrightarrow> 0 < v \<and> v \<le> i32_max \<and> w = int v"
  by (auto simp: checked_i32_def)

lemma checked_mul_ok: "checked_mul a b = Inr c \<Longrightarrow> c = a * b \<and> (0 < b \<longrightarrow> c \<le> u64_max)"
  by (auto simp: checked_mul_def not_less dest!: div_le_mult_bound split: if_splits)

lemma checked_add_ok: "checked_add a b = Inr c \<Longrightarrow> a \<le> u64_max \<Longrightarrow> c = a + b \<and> c \<le> u64_max"
  by (auto simp: checked_add_def split: if_splits)

lemma host_align_up_align_up:
  "v \<le> u64_max \<Longrightarrow> a \<le> u64_max \<Longrightarrow> host_align_up v a = align_up v a"
  by (auto simp: host_align_up_def align_up_def is_power_of_two_def checked_add_def Let_def)

lemma host_align_up_ok:
  assumes "host_align_up v kHostKVAlignment = Inr w" "v \<le> u64_max"
  shows "256 dvd w" "v \<le> w" "w \<le> u64_max"
proof -
  have k: "kHostKVAlignment = 256" "256 \<le> u64_max" by (simp_all add: kHostKVAlignment_def u64_max_def)
  then have "align_up v 256 = Inr w" using assms by (simp add: host_align_up_align_up)
  from align_up_ok [OF this k(2) assms(2)] show "256 dvd w" "v \<le> w" "w \<le> u64_max"
    by (simp_all add: mod_eq_0_iff_dvd)
qed

definition host_plane_of :: "nat \<Rightarrow> KVPlaneGeometry \<Rightarrow> HostKVPlaneLayout \<Rightarrow> bool" where
  "host_plane_of tokens p h \<longleftrightarrow>
     0 < leading_extent p \<and> 0 < head_extent p \<and> 256 dvd plane_offset h \<and>
     head_payload_bytes h = nat (leading_extent p) * tokens * dtype_size (plane_dtype p) \<and>
     page_payload_bytes h = head_payload_bytes h * nat (head_extent p)"

lemma plan_host_planes_ok:
  assumes "plan_host_planes tokens c ps = Inr (hs, e)" "c \<le> u64_max"
  shows "list_all2 (host_plane_of tokens) ps hs \<and> c \<le> e \<and> e \<le> u64_max
    \<and> (\<forall>h \<in> set hs. c \<le> plane_offset h \<and> plane_offset h + page_payload_bytes h \<le> e)
    \<and> sorted_wrt (\<lambda>h k. plane_offset h + page_payload_bytes h \<le> plane_offset k) hs"
  using assms
proof (induction ps arbitrary: c hs)
  case (Cons p ps)
  from Cons.prems obtain c1 x hb pb c2 ls where
    al: "host_align_up c kHostKVAlignment = Inr c1" and x: "checked_mul (nat (leading_extent p)) tokens = Inr x"
    and hb: "checked_mul x (dtype_size (plane_dtype p)) = Inr hb"
    and pb: "checked_mul hb (nat (head_extent p)) = Inr pb" and c2: "checked_add c1 pb = Inr c2"
    and ls: "plan_host_planes tokens c2 ps = Inr (ls, e)"
    and hs: "hs = \<lparr>plane_offset = c1, page_payload_bytes = pb, head_payload_bytes = hb\<rparr> # ls"
    and pos: "0 < leading_extent p" "0 < head_extent p"
    by (auto split: if_splits)
  note a = host_align_up_ok [OF al Cons.prems(2)]
  have c2': "c2 = c1 + pb" "c2 \<le> u64_max" using checked_add_ok [OF c2 a(3)] by auto
  note IH = Cons.IH [OF ls c2'(2)]
  have hd: "host_plane_of tokens p (hd hs)"
    using checked_mul_ok [OF x] checked_mul_ok [OF hb] checked_mul_ok [OF pb] pos a(1)
    by (simp add: host_plane_of_def hs)
  then show ?case using IH a c2' by (fastforce simp: hs)
qed auto

lemma plan_host_layout_ok:
  assumes "plan_host_kv_page_layout g = Inr l"
  shows "host_geometry l = g" "list_all2 (host_plane_of (page_tokens g)) (geometry_planes g) (host_planes l)"
    "\<forall>h \<in> set (host_planes l). plane_offset h + page_payload_bytes h \<le> page_stride l"
    "sorted_wrt (\<lambda>h k. plane_offset h + page_payload_bytes h \<le> plane_offset k) (host_planes l)"
    "256 dvd page_stride l" "0 < page_stride l" "page_stride l \<le> u64_max" "geometry_planes g \<noteq> []"
    "0 < page_tokens g"
proof -
  from assms obtain hs e s where pl: "plan_host_planes (page_tokens g) 0 (geometry_planes g) = Inr (hs, e)"
    and s: "host_align_up e kHostKVAlignment = Inr s" and ne: "geometry_planes g \<noteq> []" "0 < page_tokens g"
    and l: "l = \<lparr>host_geometry = g, host_planes = hs, page_stride = s\<rparr>"
    by (auto simp: plan_host_kv_page_layout_def split: if_splits)
  note A = plan_host_planes_ok [OF pl]
  then have e: "e \<le> u64_max" by simp
  note S = host_align_up_ok [OF s e]
  show g: "host_geometry l = g" "list_all2 (host_plane_of (page_tokens g)) (geometry_planes g) (host_planes l)"
    and "sorted_wrt (\<lambda>h k. plane_offset h + page_payload_bytes h \<le> plane_offset k) (host_planes l)"
    "256 dvd page_stride l" "page_stride l \<le> u64_max" "geometry_planes g \<noteq> []" "0 < page_tokens g"
    and le: "\<forall>h \<in> set (host_planes l). plane_offset h + page_payload_bytes h \<le> page_stride l"
    using A S ne by (auto simp: l)
  obtain p ps where p: "geometry_planes g = p # ps" using ne by (cases "geometry_planes g") auto
  then obtain h ks where h: "host_planes l = h # ks" "host_plane_of (page_tokens g) p h"
    using g(2) by (auto simp: list_all2_Cons1)
  then have "0 < page_payload_bytes h" using ne by (simp add: host_plane_of_def)
  then show "0 < page_stride l" using le h by fastforce
qed

lemma transfer_totals_ok:
  assumes "transfer_totals ord b n hps = Inr (b', n')" "b \<le> u64_max" "n \<le> u64_max"
  shows "b' = b + (\<Sum>(h, p) \<leftarrow> hps. page_payload_bytes h)
    \<and> n' = n + (\<Sum>(h, p) \<leftarrow> hps. case ord of PageMajor \<Rightarrow> 1 | HeadMajor \<Rightarrow> nat (head_extent p))"
  using assms
proof (induction ord b n hps rule: transfer_totals.induct)
  case (2 ord b n h p rest)
  from "2.prems"(1) obtain b1 n1 where 1: "checked_add b (page_payload_bytes h) = Inr b1"
    "checked_add n (case ord of PageMajor \<Rightarrow> 1 | HeadMajor \<Rightarrow> nat (head_extent p)) = Inr n1"
    "transfer_totals ord b1 n1 rest = Inr (b', n')" by auto
  have "b1 = b + page_payload_bytes h \<and> b1 \<le> u64_max" by (rule checked_add_ok [OF 1(1) "2.prems"(2)])
  moreover have "n1 = n + (case ord of PageMajor \<Rightarrow> 1 | HeadMajor \<Rightarrow> nat (head_extent p)) \<and> n1 \<le> u64_max"
    by (rule checked_add_ok [OF 1(2) "2.prems"(3)])
  ultimately show ?case using "2.IH" [OF 1(3)] by simp
qed simp

text \<open>The pointer a tensor is made on does not affect whether making it succeeds.\<close>

lemma make_tensor_rebase:
  "make_tensor d ty sh = map_sum id (\<lambda>t. t\<lparr>data := d\<rparr>) (make_tensor None ty sh)"
  by (simp add: make_tensor_def set_contiguous_strides_def res_bind_def split: sum.splits)

lemma normalize_shape_4: "length sh = 4 \<Longrightarrow> normalize_shape sh = Inr n \<Longrightarrow> n = sh"
  using normalize_shape_ok(3) [of sh n] by simp

definition plane_planned :: "PagedKVPlaneOrder \<Rightarrow> int \<Rightarrow> KVPlaneGeometry \<Rightarrow> DeviceKVPlaneLayout \<Rightarrow> bool" where
  "plane_planned ord n p l \<longleftrightarrow>
     planned_geometry l = p \<and> region_dtype (planned_storage l) = plane_dtype p \<and>
     shape (planned_storage l) = plane_shape ord p n \<and>
     (\<exists>t. make_tensor None (plane_dtype p) (plane_shape ord p n) = Inr t
        \<and> tensor_bytes t = Inr (bytes (region (planned_storage l))))"

lemma plane_shape_length [simp]: "length (plane_shape ord p n) = 4"
  by (simp add: plane_shape_def split: PagedKVPlaneOrder.splits)

lemma plan_planes_ok:
  assumes "plan_planes ord n b ps = Inr (ls, b')"
  shows "list_all2 (plane_planned ord n) ps ls
    \<and> (\<exists>reqs. builder_adds b reqs = Inr (map (\<lambda>l. region (planned_storage l)) ls, b')
          \<and> map snd reqs = map plane_alignment ps)"
  using assms
proof (induction ps arbitrary: b ls)
  case (Cons p ps)
  from Cons.prems obtain t k r b1 ls1 where
    t: "make_tensor None (plane_dtype p) (plane_shape ord p n) = Inr t" "tensor_bytes t = Inr k"
    and r: "builder_add b k (plane_alignment p) = Inr (r, b1)"
    and ls1: "plan_planes ord n b1 ps = Inr (ls1, b')"
    and ls: "ls = \<lparr>planned_geometry = p, planned_storage = \<lparr>region = r, region_dtype = plane_dtype p,
        shape = plane_shape ord p n\<rparr>\<rparr> # ls1"
    by (auto simp: builder_add_tensor_def)
  have k: "bytes r = k" using r by (auto simp: builder_add_def split: if_splits)
  from Cons.IH [OF ls1] obtain reqs where
    IH: "list_all2 (plane_planned ord n) ps ls1" "map snd reqs = map plane_alignment ps"
      "builder_adds b1 reqs = Inr (map (\<lambda>l. region (planned_storage l)) ls1, b')" by blast
  have "builder_adds b ((k, plane_alignment p) # reqs) = Inr (map (\<lambda>l. region (planned_storage l)) ls, b')"
    using r IH(3) by (simp add: ls)
  moreover have "map snd ((k, plane_alignment p) # reqs) = map plane_alignment (p # ps)" using IH by simp
  moreover have "list_all2 (plane_planned ord n) (p # ps) ls" using IH(1) t k by (simp add: ls plane_planned_def)
  ultimately show ?case by blast
qed auto

section \<open>Properties\<close>

text \<open>C19: a planned host page record keeps its geometry, gives every plane of the geometry the bytes
  of its heads (leading extent times page tokens times element size, once per head) at a 256-byte
  aligned offset, with the planes pairwise disjoint, in order and inside one page stride, and the
  stride is a positive multiple of 256 that fits 64 bits.\<close>

theorem host_page_layout_sound:
  assumes "plan_host_kv_page_layout g = Inr l"
  shows "host_geometry l = g \<and> length (host_planes l) = length (geometry_planes g)
    \<and> (\<forall>i < length (geometry_planes g).
         let p = geometry_planes g ! i; h = host_planes l ! i in
           head_payload_bytes h = nat (leading_extent p) * page_tokens g * dtype_size (plane_dtype p)
           \<and> page_payload_bytes h = head_payload_bytes h * nat (head_extent p)
           \<and> 0 < page_payload_bytes h \<and> 256 dvd plane_offset h
           \<and> plane_offset h + page_payload_bytes h \<le> page_stride l)
    \<and> (\<forall>i j. i < j \<and> j < length (host_planes l) \<longrightarrow>
         plane_offset (host_planes l ! i) + page_payload_bytes (host_planes l ! i)
           \<le> plane_offset (host_planes l ! j))
    \<and> 256 dvd page_stride l \<and> 0 < page_stride l \<and> page_stride l \<le> u64_max"
proof -
  note A = plan_host_layout_ok [OF assms]
  have len: "length (host_planes l) = length (geometry_planes g)" using A(2) by (simp add: list_all2_lengthD)
  have nth: "host_plane_of (page_tokens g) (geometry_planes g ! i) (host_planes l ! i)"
    if "i < length (geometry_planes g)" for i using A(2) that by (rule list_all2_nthD)
  have pos: "0 < page_payload_bytes (host_planes l ! i)" if "i < length (geometry_planes g)" for i
    using nth [OF that] A(9) by (simp add: host_plane_of_def)
  have inside: "plane_offset (host_planes l ! i) + page_payload_bytes (host_planes l ! i) \<le> page_stride l"
    if "i < length (geometry_planes g)" for i using A(3) that len by simp
  have planes: "\<forall>i < length (geometry_planes g). let p = geometry_planes g ! i; h = host_planes l ! i in
      head_payload_bytes h = nat (leading_extent p) * page_tokens g * dtype_size (plane_dtype p)
      \<and> page_payload_bytes h = head_payload_bytes h * nat (head_extent p)
      \<and> 0 < page_payload_bytes h \<and> 256 dvd plane_offset h
      \<and> plane_offset h + page_payload_bytes h \<le> page_stride l"
    unfolding Let_def using nth pos inside by (simp add: host_plane_of_def [of "page_tokens g"])
  show ?thesis using A(1,4-7) len planes by (intro conjI) (auto simp: sorted_wrt_iff_nth_less)
qed

theorem host_page_layout_sound_witness:
  "\<exists>l. plan_host_kv_page_layout \<lparr>page_tokens = 64, device_plane_order = HeadMajor,
         geometry_planes = [\<lparr>plane_dtype = I8, leading_extent = 256, head_extent = 2, plane_alignment = 256\<rparr>,
                            \<lparr>plane_dtype = FP16, leading_extent = 1, head_extent = 1, plane_alignment = 256\<rparr>,
                            \<lparr>plane_dtype = FP16, leading_extent = 4, head_extent = 2, plane_alignment = 256\<rparr>]\<rparr> = Inr l
     \<and> map plane_offset (host_planes l) = [0, 32768, 33024] \<and> page_stride l = 34048 \<and> 256 dvd page_stride l"
proof -
  define g where "g = \<lparr>page_tokens = 64, device_plane_order = HeadMajor,
    geometry_planes = [\<lparr>plane_dtype = I8, leading_extent = 256, head_extent = 2, plane_alignment = 256\<rparr>,
                       \<lparr>plane_dtype = FP16, leading_extent = 1, head_extent = 1, plane_alignment = 256\<rparr>,
                       \<lparr>plane_dtype = FP16, leading_extent = 4, head_extent = 2, plane_alignment = 256\<rparr>]\<rparr>"
  define l where "l = \<lparr>host_geometry = g,
    host_planes = [\<lparr>plane_offset = 0, page_payload_bytes = 32768, head_payload_bytes = 16384\<rparr>,
                   \<lparr>plane_offset = 32768, page_payload_bytes = 128, head_payload_bytes = 128\<rparr>,
                   \<lparr>plane_offset = 33024, page_payload_bytes = 1024, head_payload_bytes = 512\<rparr>],
    page_stride = 34048\<rparr>"
  have l: "plan_host_kv_page_layout g = Inr l"
    by (simp add: g_def l_def plan_host_kv_page_layout_def host_align_up_def kHostKVAlignment_def
        checked_mul_def checked_add_def u64_max_def)
  have "256 dvd page_stride l" using host_page_layout_sound [OF l] by blast
  then show ?thesis using l by (intro exI [of _ l]) (simp add: g_def l_def)
qed



end
