(* ===== verification/Free_Extents.thy ===== *)
theory Free_Extents
  imports Prelude
begin

text \<open>
  The abstract free-space list behind both allocators of the KV cache: the device page pool keeps
  runs of free pages (\<^verbatim>\<open>FreePageRun\<close>), the host arena keeps free byte extents
  (\<^verbatim>\<open>FreeExtent\<close>). Both are sorted lists of half-open intervals that are kept maximal: two
  neighbours never touch. Here such a list is a list of spans \<open>(lo, hi)\<close>; the abstract operations
  return a span with coalescing on both sides, cut a range out of one span, and cut a prefix of
  the whole list. The locale states what an implementation of the returning operation promises, and
  each allocator interprets it on its own function.
\<close>

type_synonym span = "int \<times> int"

definition span_set :: "span \<Rightarrow> int set" where
  "span_set s = {fst s ..< snd s}"

definition spans_set :: "span list \<Rightarrow> int set" where
  "spans_set ss = (\<Union>s \<in> set ss. span_set s)"

definition spans_ok :: "span list \<Rightarrow> bool" where
  "spans_ok ss \<longleftrightarrow> (\<forall>s \<in> set ss. fst s < snd s) \<and> sorted_wrt (\<lambda>s t. snd s < fst t) ss"

definition spans_total :: "span list \<Rightarrow> int" where
  "spans_total ss = (\<Sum>s \<leftarrow> ss. snd s - fst s)"

lemma spans_set_simps [simp]:
  "spans_set [] = {}"
  "spans_set (s # ss) = span_set s \<union> spans_set ss"
  "spans_set (xs @ ys) = spans_set xs \<union> spans_set ys"
  by (auto simp: spans_set_def)

lemma spans_total_simps [simp]:
  "spans_total [] = 0"
  "spans_total (s # ss) = (snd s - fst s) + spans_total ss"
  "spans_total (xs @ ys) = spans_total xs + spans_total ys"
  by (simp_all add: spans_total_def)

lemma spans_ok_simps [simp]:
  "spans_ok []"
  "spans_ok (s # ss) \<longleftrightarrow> fst s < snd s \<and> (\<forall>t \<in> set ss. snd s < fst t) \<and> spans_ok ss"
  by (auto simp: spans_ok_def)

lemma spans_ok_append:
  "spans_ok (xs @ ys) \<longleftrightarrow> spans_ok xs \<and> spans_ok ys \<and> (\<forall>s \<in> set xs. \<forall>t \<in> set ys. snd s < fst t)"
  by (auto simp: spans_ok_def sorted_wrt_append)

lemma spans_ok_nonempty: "spans_ok ss \<Longrightarrow> s \<in> set ss \<Longrightarrow> fst s < snd s"
  by (simp add: spans_ok_def)

lemma finite_span_set [simp]: "finite (span_set s)" "finite (spans_set ss)"
  by (auto simp: span_set_def spans_set_def)

lemma spans_set_mem: "x \<in> spans_set ss \<longleftrightarrow> (\<exists>s \<in> set ss. fst s \<le> x \<and> x < snd s)"
  by (auto simp: spans_set_def span_set_def)

lemma spans_total_card: "spans_ok ss \<Longrightarrow> spans_total ss = int (card (spans_set ss))"
proof (induction ss)
  case Nil
  then show ?case by simp
next
  case (Cons s ss)
  have "span_set s \<inter> spans_set ss = {}"
    using Cons.prems by (force simp: span_set_def spans_set_mem)
  then have "card (spans_set (s # ss)) = card (span_set s) + card (spans_set ss)"
    by (simp add: card_Un_disjoint)
  then show ?case using Cons by (simp add: span_set_def)
qed

lemma spans_total_nonneg: "spans_ok ss \<Longrightarrow> 0 \<le> spans_total ss"
  by (simp add: spans_total_card)

lemma span_le_total: "spans_ok ss \<Longrightarrow> s \<in> set ss \<Longrightarrow> snd s - fst s \<le> spans_total ss"
proof (induction ss)
  case (Cons t ss)
  then show ?case using spans_total_nonneg [of ss] spans_ok_nonempty [of "t # ss"]
    by fastforce
qed simp

lemma spans_unique_span:
  assumes "spans_ok ss" "s \<in> set ss" "t \<in> set ss" "x \<in> span_set s" "x \<in> span_set t"
  shows "s = t"
  using assms
proof (induction ss)
  case (Cons u ss)
  then show ?case by (fastforce simp: span_set_def)
qed simp

section \<open>Returning a span\<close>

definition span_insert :: "span \<Rightarrow> span list \<Rightarrow> span list" where
  "span_insert s ss =
     (let left = takeWhile (\<lambda>t. fst t < fst s) ss;
          right = dropWhile (\<lambda>t. fst t < fst s) ss;
          joins_left = left \<noteq> [] \<and> snd (last left) = fst s;
          left' = (if joins_left then butlast left else left);
          lo = (if joins_left then fst (last left) else fst s);
          joins_right = right \<noteq> [] \<and> snd s = fst (hd right);
          right' = (if joins_right then tl right else right);
          hi = (if joins_right then snd (hd right) else snd s)
      in left' @ (lo, hi) # right')"

lemma spans_split_at:
  assumes ok: "spans_ok ss" and ne: "fst s < snd s" and dis: "span_set s \<inter> spans_set ss = {}"
  shows "t \<in> set (takeWhile (\<lambda>t. fst t < fst s) ss) \<Longrightarrow> snd t \<le> fst s"
    and "t \<in> set (dropWhile (\<lambda>t. fst t < fst s) ss) \<Longrightarrow> snd s \<le> fst t"
proof -
  assume t: "t \<in> set (takeWhile (\<lambda>t. fst t < fst s) ss)"
  then have "t \<in> set ss" "fst t < fst s" by (auto dest: set_takeWhileD)
  then have "\<not> fst s < snd t"
    using dis ne by (auto simp: span_set_def spans_set_mem disjoint_iff)
  then show "snd t \<le> fst s" by simp
next
  assume t: "t \<in> set (dropWhile (\<lambda>t. fst t < fst s) ss)"
  have srt: "sorted_wrt (\<lambda>a b. fst a < fst b) ss"
    using ok unfolding spans_ok_def by (induction ss) fastforce+
  have "fst s \<le> fst t"
    using t srt by (induction ss) (auto split: if_splits)
  moreover have "t \<in> set ss" using t by (rule set_dropWhileD)
  ultimately show "snd s \<le> fst t"
    using dis ne ok by (force simp: span_set_def spans_set_mem dest: spans_ok_nonempty)
qed

lemma span_insert_correct:
  assumes ok: "spans_ok ss" and ne: "fst s < snd s" and dis: "span_set s \<inter> spans_set ss = {}"
  shows "spans_ok (span_insert s ss)"
    and "spans_set (span_insert s ss) = span_set s \<union> spans_set ss"
proof -
  define L where "L = takeWhile (\<lambda>t. fst t < fst s) ss"
  define R where "R = dropWhile (\<lambda>t. fst t < fst s) ss"
  have LR: "ss = L @ R" by (simp add: L_def R_def)
  have okL: "spans_ok L" and okR: "spans_ok R"
    and sep: "\<forall>a \<in> set L. \<forall>b \<in> set R. snd a < fst b"
    using ok by (auto simp: LR spans_ok_append)
  have Lle: "\<forall>a \<in> set L. snd a \<le> fst s" and Rge: "\<forall>b \<in> set R. snd s \<le> fst b"
    using spans_split_at [OF ok ne dis] by (auto simp: L_def R_def)
  define jl where "jl \<longleftrightarrow> L \<noteq> [] \<and> snd (last L) = fst s"
  define jr where "jr \<longleftrightarrow> R \<noteq> [] \<and> snd s = fst (hd R)"
  define L' where "L' = (if jl then butlast L else L)"
  define R' where "R' = (if jr then tl R else R)"
  define lo where "lo = (if jl then fst (last L) else fst s)"
  define hi where "hi = (if jr then snd (hd R) else snd s)"
  have res: "span_insert s ss = L' @ (lo, hi) # R'"
    by (simp add: span_insert_def L_def R_def jl_def jr_def L'_def R'_def lo_def hi_def Let_def)
  have left: "spans_ok L' \<and> (\<forall>a \<in> set L'. snd a < lo) \<and> lo \<le> fst s \<and>
      spans_set L' \<union> {lo ..< fst s} = spans_set L \<and> set L' \<subseteq> set L"
  proof (cases jl)
    case True
    then have Leq: "L = butlast L @ [last L]" by (simp add: jl_def)
    have "spans_ok (butlast L @ [last L])" using okL Leq by simp
    moreover have "spans_set L = spans_set (butlast L) \<union> span_set (last L)"
      by (subst Leq) simp
    ultimately show ?thesis using True
      by (auto simp: L'_def lo_def jl_def spans_ok_append span_set_def dest: in_set_butlastD)
  next
    case False
    then have "\<forall>a \<in> set L. snd a < fst s"
    proof (cases "L = []")
      case False
      with \<open>\<not> jl\<close> Lle have lst: "snd (last L) < fst s"
        by (metis jl_def last_in_set le_neq_trans)
      have Leq: "L = butlast L @ [last L]" using False by simp
      have "spans_ok (butlast L @ [last L])" using okL Leq by simp
      then have "\<forall>a \<in> set (butlast L). snd a < fst (last L)" "fst (last L) < snd (last L)"
        by (auto simp: spans_ok_append)
      then have "\<forall>a \<in> set (butlast L @ [last L]). snd a < fst s"
        using lst by (auto intro: less_trans)
      then show ?thesis using Leq by metis
    qed simp
    then show ?thesis using False okL by (simp add: L'_def lo_def)
  qed
  have right: "spans_ok R' \<and> (\<forall>b \<in> set R'. hi < fst b) \<and> snd s \<le> hi \<and>
      {snd s ..< hi} \<union> spans_set R' = spans_set R \<and> set R' \<subseteq> set R"
  proof (cases jr)
    case True
    then obtain r rs where "R = r # rs" "fst r = snd s" by (cases R) (auto simp: jr_def)
    then show ?thesis using True okR by (auto simp: R'_def hi_def span_set_def)
  next
    case False
    then show ?thesis
    proof (cases R)
      case (Cons r rs)
      with False Rge have "snd s < fst r" by (force simp: jr_def)
      then show ?thesis using False Cons okR by (fastforce simp: R'_def hi_def)
    qed (simp add: R'_def hi_def jr_def)
  qed
  show "spans_ok (span_insert s ss)"
  proof -
    have "lo < hi" using left right ne by simp
    moreover have "\<forall>a \<in> set L'. \<forall>b \<in> set R'. snd a < fst b" using left right sep by blast
    ultimately show ?thesis using left right by (auto simp: res spans_ok_append)
  qed
  have mid: "{lo ..< hi} = {lo ..< fst s} \<union> span_set s \<union> {snd s ..< hi}"
    using left right ne by (auto simp: span_set_def)
  have "spans_set (span_insert s ss)
      = (spans_set L' \<union> {lo ..< fst s}) \<union> span_set s \<union> ({snd s ..< hi} \<union> spans_set R')"
    by (simp add: res span_set_def [of "(lo, hi)"] mid) blast
  also have "\<dots> = spans_set L \<union> span_set s \<union> spans_set R" using left right by simp
  finally show "spans_set (span_insert s ss) = span_set s \<union> spans_set ss"
    by (auto simp: LR)
qed

section \<open>Cutting a range out of one span\<close>

definition span_carve :: "nat \<Rightarrow> int \<Rightarrow> int \<Rightarrow> span list \<Rightarrow> span list" where
  "span_carve k lo hi ss =
     take k ss @ (if fst (ss ! k) < lo then [(fst (ss ! k), lo)] else [])
       @ (if hi < snd (ss ! k) then [(hi, snd (ss ! k))] else []) @ drop (Suc k) ss"

lemma span_carve_correct:
  assumes ok: "spans_ok ss" and k: "k < length ss"
    and lo: "fst (ss ! k) \<le> lo" and ne: "lo < hi" and hi: "hi \<le> snd (ss ! k)"
  shows "spans_ok (span_carve k lo hi ss)"
    and "spans_set (span_carve k lo hi ss) = spans_set ss - {lo ..< hi}"
proof -
  define A where "A = take k ss"
  define B where "B = drop (Suc k) ss"
  define s where "s = ss ! k"
  have split: "ss = A @ s # B" using k by (simp add: A_def B_def s_def id_take_nth_drop)
  have okA: "spans_ok A" and okB: "spans_ok B" and s: "fst s < snd s"
    and As: "\<forall>a \<in> set A. snd a < fst s" and AB: "\<forall>a \<in> set A. \<forall>b \<in> set B. snd a < fst b"
    and sB: "\<forall>b \<in> set B. snd s < fst b"
    using ok by (auto simp: split spans_ok_append)
  have res: "span_carve k lo hi ss =
      A @ (if fst s < lo then [(fst s, lo)] else []) @ (if hi < snd s then [(hi, snd s)] else []) @ B"
    by (simp add: span_carve_def A_def B_def s_def)
  show "spans_ok (span_carve k lo hi ss)"
    using okA okB As AB sB lo hi ne unfolding res
    by (fastforce simp: spans_ok_append s_def [symmetric])
  have "spans_set A \<inter> {lo ..< hi} = {}" "spans_set B \<inter> {lo ..< hi} = {}"
    using As sB lo hi by (force simp: spans_set_mem s_def [symmetric])+
  moreover have "(if fst s < lo then span_set (fst s, lo) else {})
      \<union> (if hi < snd s then span_set (hi, snd s) else {}) = span_set s - {lo ..< hi}"
    using lo hi ne by (auto simp: span_set_def s_def [symmetric])
  ultimately show "spans_set (span_carve k lo hi ss) = spans_set ss - {lo ..< hi}"
    unfolding res by (subst split) (auto split: if_splits)
qed

lemma span_carve_subset:
  assumes "k < length ss" "fst (ss ! k) \<le> lo" "hi \<le> snd (ss ! k)"
  shows "{lo ..< hi} \<subseteq> spans_set ss"
proof
  fix x assume "x \<in> {lo ..< hi}"
  with assms have "fst (ss ! k) \<le> x" "x < snd (ss ! k)" by auto
  then show "x \<in> spans_set ss" using assms(1) by (auto simp: spans_set_mem)
qed

section \<open>Tilings\<close>

text \<open>Numbered blocks and a free list tile the range from zero to a bound: no overlap, no gap.\<close>

definition tiles :: "nat set \<Rightarrow> (nat \<Rightarrow> span) \<Rightarrow> span list \<Rightarrow> int \<Rightarrow> bool" where
  "tiles A f fs n \<longleftrightarrow>
     finite A \<and> 0 \<le> n \<and> (\<forall>i \<in> A. fst (f i) < snd (f i)) \<and>
     (\<forall>i \<in> A. \<forall>j \<in> A. i \<noteq> j \<longrightarrow> span_set (f i) \<inter> span_set (f j) = {}) \<and>
     spans_ok fs \<and> (\<forall>i \<in> A. span_set (f i) \<inter> spans_set fs = {}) \<and>
     (\<Union>i \<in> A. span_set (f i)) \<union> spans_set fs = {0 ..< n}"

lemma tiles_cong:
  assumes "tiles A f fs n" "\<And>i. i \<in> A \<Longrightarrow> g i = f i" shows "tiles A g fs n"
  using assms by (simp add: tiles_def cong: ball_cong)

lemma span_set_nonempty: "fst s < snd s \<Longrightarrow> span_set s \<noteq> {}"
  by (simp add: span_set_def)

lemma tiles_block_bounds:
  assumes "tiles A f fs n" "i \<in> A" shows "0 \<le> fst (f i)" "snd (f i) \<le> n" "fst (f i) < snd (f i)"
proof -
  show p: "fst (f i) < snd (f i)" using assms by (simp add: tiles_def)
  have sub: "span_set (f i) \<subseteq> {0 ..< n}" using assms unfolding tiles_def by blast
  have "fst (f i) \<in> span_set (f i)" "snd (f i) - 1 \<in> span_set (f i)" using p by (auto simp: span_set_def)
  then show "0 \<le> fst (f i)" "snd (f i) \<le> n" using sub by (fastforce)+
qed

lemma tiles_free_bounds:
  assumes "tiles A f fs n" "s \<in> set fs" shows "0 \<le> fst s" "snd s \<le> n" "fst s < snd s"
proof -
  show p: "fst s < snd s" using assms by (auto simp: tiles_def spans_ok_def)
  have sub: "spans_set fs \<subseteq> {0 ..< n}" using assms(1) unfolding tiles_def by blast
  have "fst s \<in> spans_set fs" "snd s - 1 \<in> spans_set fs"
    using p assms(2) by (auto simp: spans_set_mem intro!: bexI [of _ s])
  then show "0 \<le> fst s" "snd s \<le> n" using sub by fastforce+
qed

lemma tiles_take:
  assumes T: "tiles A f fs n" and i: "i \<notin> A" and k: "k < length fs"
    and lo: "lo = fst (fs ! k)" and b: "0 < b" "lo + b \<le> snd (fs ! k)"
  shows "tiles (insert i A) (f(i := (lo, lo + b))) (span_carve k lo (lo + b) fs) n"
proof -
  have ok: "spans_ok fs" using T by (simp add: tiles_def)
  have lt: "lo < lo + b" "fst (fs ! k) \<le> lo" using b lo by simp_all
  note C = span_carve_correct [OF ok k lt(2,1) b(2)] span_carve_subset [OF k lt(2) b(2)]
  have new: "span_set (lo, lo + b) = {lo ..< lo + b}" by (simp add: span_set_def)
  have ne: "\<And>j. j \<in> A \<Longrightarrow> j \<noteq> i" using i by blast
  have dis: "span_set (f j) \<inter> {lo ..< lo + b} = {}" if "j \<in> A" for j
    using T that C(3) unfolding tiles_def by blast
  have un: "(\<Union>j \<in> A. span_set ((f(i := (lo, lo + b))) j)) = (\<Union>j \<in> A. span_set (f j))"
    using ne by (intro SUP_cong) auto
  have "(\<Union>j \<in> insert i A. span_set ((f(i := (lo, lo + b))) j)) \<union> spans_set (span_carve k lo (lo + b) fs)
      = (\<Union>j \<in> A. span_set (f j)) \<union> spans_set fs"
    unfolding C(2) UN_insert un fun_upd_same new using C(3) by blast
  then have cover: "(\<Union>j \<in> insert i A. span_set ((f(i := (lo, lo + b))) j)) \<union> spans_set (span_carve k lo (lo + b) fs)
      = {0 ..< n}" using T by (simp add: tiles_def)
  show ?thesis unfolding tiles_def
  proof (intro conjI)
    show "\<forall>j \<in> insert i A. \<forall>m \<in> insert i A. j \<noteq> m \<longrightarrow>
        span_set ((f(i := (lo, lo + b))) j) \<inter> span_set ((f(i := (lo, lo + b))) m) = {}"
      using T dis ne unfolding tiles_def by (auto simp: new)
    show "\<forall>j \<in> insert i A. span_set ((f(i := (lo, lo + b))) j) \<inter> spans_set (span_carve k lo (lo + b) fs) = {}"
      using T ne unfolding tiles_def C(2) by (auto simp: new)
  qed (use T C(1) cover b in \<open>auto simp: tiles_def\<close>)
qed

lemma tiles_release:
  assumes T: "tiles A f fs n" and i: "i \<in> A"
  shows "tiles (A - {i}) f (span_insert (f i) fs) n"
proof -
  have I: "spans_ok fs" "fst (f i) < snd (f i)" "span_set (f i) \<inter> spans_set fs = {}"
    using T i by (simp_all add: tiles_def)
  note C = span_insert_correct [OF I]
  have "(\<Union>j \<in> A. span_set (f j)) = (\<Union>j \<in> A - {i}. span_set (f j)) \<union> span_set (f i)" using i by blast
  then show ?thesis using T C i unfolding tiles_def by (simp add: Un_assoc) blast
qed

lemma tiles_split:
  assumes T: "tiles A f fs n" and i: "i \<in> A" and j: "j \<notin> A" and m: "fst (f i) < m" "m < snd (f i)"
  shows "tiles (insert j A) (f(i := (fst (f i), m), j := (m, snd (f i)))) fs n"
proof -
  define g where "g = f(i := (fst (f i), m), j := (m, snd (f i)))"
  have ij: "i \<noteq> j" using i j by blast
  have gi: "span_set (g i) \<union> span_set (g j) = span_set (f i)" "span_set (g i) \<inter> span_set (g j) = {}"
    using m ij by (auto simp: g_def span_set_def)
  have go: "g k = f k" if "k \<in> A - {i}" for k using that j by (auto simp: g_def)
  have un: "(\<Union>k \<in> A - {i}. span_set (g k)) = (\<Union>k \<in> A - {i}. span_set (f k))" using go by simp
  have Ai: "A = insert i (A - {i})" using i by blast
  have cover: "(\<Union>k \<in> insert j A. span_set (g k)) = (\<Union>k \<in> A. span_set (f k))"
  proof -
    have "(\<Union>k \<in> insert j A. span_set (g k)) = span_set (g j) \<union> span_set (g i) \<union> (\<Union>k \<in> A - {i}. span_set (g k))"
      using Ai by blast
    also have "\<dots> = span_set (f i) \<union> (\<Union>k \<in> A - {i}. span_set (f k))" unfolding un using gi(1) by blast
    finally show ?thesis using Ai by blast
  qed
  have piece: "\<exists>l \<in> A. span_set (g k) \<subseteq> span_set (f l) \<and> (l = i \<longleftrightarrow> k = i \<or> k = j) \<and> (l \<noteq> i \<longrightarrow> l = k)" if "k \<in> insert j A" for k
    using that gi(1) go i j by (cases "k = i \<or> k = j") auto
  show ?thesis unfolding g_def [symmetric] tiles_def
  proof (intro conjI ballI impI)
    fix k l assume kl: "k \<in> insert j A" "l \<in> insert j A" "k \<noteq> l"
    obtain k' where k': "k' \<in> A" "span_set (g k) \<subseteq> span_set (f k')" "k' = i \<longleftrightarrow> k = i \<or> k = j" "k' \<noteq> i \<longrightarrow> k' = k"
      using piece [OF kl(1)] by blast
    obtain l' where l': "l' \<in> A" "span_set (g l) \<subseteq> span_set (f l')" "l' = i \<longleftrightarrow> l = i \<or> l = j" "l' \<noteq> i \<longrightarrow> l' = l"
      using piece [OF kl(2)] by blast
    show "span_set (g k) \<inter> span_set (g l) = {}"
    proof (cases "k' = l'")
      case True
      then have "k' = i" using k' l' kl(3) by metis
      then have "(k = i \<and> l = j) \<or> (k = j \<and> l = i)" using k' l' True kl(3) by metis
      then show ?thesis using gi(2) by (auto simp: Int_commute)
    next
      case False
      then have "span_set (f k') \<inter> span_set (f l') = {}" using T k' l' unfolding tiles_def by blast
      then show ?thesis using k'(2) l'(2) by blast
    qed
  next
    fix k assume k: "k \<in> insert j A"
    show "fst (g k) < snd (g k)" using k m ij T j unfolding tiles_def g_def by auto
    obtain k' where "k' \<in> A" "span_set (g k) \<subseteq> span_set (f k')" using piece [OF k] by blast
    then show "span_set (g k) \<inter> spans_set fs = {}" using T unfolding tiles_def by blast
  qed (use T cover in \<open>simp_all add: tiles_def\<close>)
qed

lemma tiles_total:
  assumes T: "tiles A f fs n"
  shows "(\<Sum>i \<in> A. snd (f i) - fst (f i)) + spans_total fs = n"
proof -
  have fin: "finite A" and ok: "spans_ok fs" and n: "0 \<le> n" using T by (simp_all add: tiles_def)
  have U: "(\<Union>i \<in> A. span_set (f i)) \<union> spans_set fs = {0 ..< n}"
    and D: "(\<Union>i \<in> A. span_set (f i)) \<inter> spans_set fs = {}" using T unfolding tiles_def by blast+
  have "int (card (\<Union>i \<in> A. span_set (f i))) = (\<Sum>i \<in> A. int (card (span_set (f i))))"
    using T fin by (subst card_UN_disjoint) (auto simp: tiles_def)
  also have "\<dots> = (\<Sum>i \<in> A. snd (f i) - fst (f i))"
    using T by (intro sum.cong) (auto simp: tiles_def span_set_def)
  finally have "int (card (\<Union>i \<in> A. span_set (f i))) = (\<Sum>i \<in> A. snd (f i) - fst (f i))" .
  moreover have "card {0 ..< n} = card (\<Union>i \<in> A. span_set (f i)) + card (spans_set fs)"
    unfolding U [symmetric] using fin D by (intro card_Un_disjoint) auto
  ultimately show ?thesis using n ok by (simp add: spans_total_card)
qed

section \<open>Interface of the returning operation\<close>

text \<open>An implementation keeps elements that stand for spans and returns a value that stands for a
  span; \<open>fits\<close> is the range of arguments for which its fixed-width arithmetic does not wrap.\<close>

locale coalescing_free_list =
  fixes span_of :: "'e \<Rightarrow> span"
    and returned :: "'x \<Rightarrow> span"
    and fits :: "'x \<Rightarrow> 'e list \<Rightarrow> bool"
    and give_back :: "'x \<Rightarrow> 'e list \<Rightarrow> 'e list"
  assumes refines:
    "spans_ok (map span_of es) \<Longrightarrow> fst (returned x) < snd (returned x) \<Longrightarrow>
     span_set (returned x) \<inter> spans_set (map span_of es) = {} \<Longrightarrow> fits x es \<Longrightarrow>
     map span_of (give_back x es) = span_insert (returned x) (map span_of es)"
begin

lemma give_back_ok:
  assumes "spans_ok (map span_of es)" "fst (returned x) < snd (returned x)"
    "span_set (returned x) \<inter> spans_set (map span_of es) = {}" "fits x es"
  shows "spans_ok (map span_of (give_back x es))"
  using span_insert_correct(1) [OF assms(1-3)] by (simp add: refines [OF assms])

lemma give_back_set:
  assumes "spans_ok (map span_of es)" "fst (returned x) < snd (returned x)"
    "span_set (returned x) \<inter> spans_set (map span_of es) = {}" "fits x es"
  shows "spans_set (map span_of (give_back x es))
    = span_set (returned x) \<union> spans_set (map span_of es)"
  using span_insert_correct(2) [OF assms(1-3)] by (simp add: refines [OF assms])

end

end
