(* ===== verification/Device_Page_Pool.thy ===== *)
theory Device_Page_Pool
  imports KV_Geometry Free_Extents
begin

text \<open>
  The pool of device page groups (\<^verbatim>\<open>class DeviceKVPagePool\<close> with its leases, handles and
  reservations, \<^verbatim>\<open>src/core/paged_kv_cache.cpp\<close>). A pool is the record of its members; the
  pointer identity of a pool object is the number \<open>pool_id\<close>, and an owner pointer is
  \<open>None\<close> (null) or \<open>Some\<close> of that number. Move-only leases and reservations are values that an
  operation consumes and returns. Every operation here is the whole method; a method that changes the
  pool returns the changed pool, a method that may throw before any change returns a result, and
  the mutable validation marks of a const method are returned beside its result.
  Shown: the pool invariant (free runs are exactly the unallocated pages, kept sorted and
  coalesced; the counters count; allocated plus reserved pages never exceed the capacity) is
  established by the constructor and kept by every operation, and under it materialisation succeeds
  for every count the reservation holds, never reaching the invariant-violation, termination or
  out-of-bounds branches.
\<close>

section \<open>State\<close>

record DeviceKVPageHandle =
  handle_owner :: "nat option"
  handle_index :: int
  handle_generation :: u32

record DeviceKVPageLease =
  lease_owner :: "nat option"
  lease_index :: int
  lease_generation :: u32

record DeviceKVPageReservation =
  reservation_owner :: "nat option"
  reservation_pages :: nat

record FreePageRun =
  run_begin :: int
  run_count :: nat

record DeviceKVPagePool =
  pool_id :: nat
  pool_spec :: DeviceKVPagePoolSpec
  pool_planes :: "Tensor list"
  free_page_runs :: "FreePageRun list"
  page_generations :: "u32 list"
  page_allocated :: "bool list"
  validation_marks :: "u32 list"
  validation_stamp :: u32
  allocated_pages :: nat
  reserved_pages :: nat

definition null_handle :: DeviceKVPageHandle where
  "null_handle = \<lparr>handle_owner = None, handle_index = -1, handle_generation = 0\<rparr>"

definition null_lease :: DeviceKVPageLease where
  "null_lease = \<lparr>lease_owner = None, lease_index = -1, lease_generation = 0\<rparr>"

definition null_reservation :: DeviceKVPageReservation where
  "null_reservation = \<lparr>reservation_owner = None, reservation_pages = 0\<rparr>"

definition lease_valid :: "DeviceKVPageLease \<Rightarrow> bool" where
  "lease_valid l \<longleftrightarrow> lease_owner l \<noteq> None"

definition lease_handle :: "DeviceKVPageLease \<Rightarrow> DeviceKVPageHandle" where
  "lease_handle l =
     (if lease_valid l
      then \<lparr>handle_owner = lease_owner l, handle_index = lease_index l, handle_generation = lease_generation l\<rparr>
      else null_handle)"

definition lease_belongs_to :: "DeviceKVPageLease \<Rightarrow> DeviceKVPagePool \<Rightarrow> bool" where
  "lease_belongs_to l p \<longleftrightarrow> lease_owner l = Some (pool_id p)"

definition reservation_belongs_to :: "DeviceKVPageReservation \<Rightarrow> DeviceKVPagePool \<Rightarrow> bool" where
  "reservation_belongs_to r p \<longleftrightarrow> reservation_owner r = Some (pool_id p)"

section \<open>Construction and queries\<close>

definition plane_matches :: "PagedKVPlaneOrder \<Rightarrow> int \<Rightarrow> KVPlaneGeometry \<Rightarrow> Tensor \<Rightarrow> bool" where
  "plane_matches ord physical_pages expected t \<longleftrightarrow>
     dtype t = plane_dtype expected \<and> ne t ! 0 = leading_extent expected \<and> ne t ! 1 = kPagedKVPageSize \<and>
     (case ord of
        PageMajor \<Rightarrow> ne t ! 2 = head_extent expected \<and> ne t ! 3 = physical_pages
      | HeadMajor \<Rightarrow> ne t ! 2 = physical_pages \<and> ne t ! 3 = head_extent expected)"

fun bind_planes ::
  "PagedKVPlaneOrder \<Rightarrow> int \<Rightarrow> DeviceSpan \<Rightarrow> (DeviceKVPlaneLayout \<times> KVPlaneGeometry) list \<Rightarrow> Tensor list res"
where
  "bind_planes ord physical_pages backing [] = Inr []"
| "bind_planes ord physical_pages backing ((planned, expected) # rest) =
     (if planned_geometry planned \<noteq> expected then Inl LogicError
      else res_bind (tensor_region_bind (planned_storage planned) backing) (\<lambda>t.
        if \<not> plane_matches ord physical_pages expected t then Inl LogicError
        else res_bind (bind_planes ord physical_pages backing rest) (\<lambda>ts. Inr (t # ts))))"

definition new_device_pool :: "nat \<Rightarrow> DeviceSpan \<Rightarrow> DeviceKVPagePoolLayout \<Rightarrow> DeviceKVPagePool res" where
  "new_device_pool self backing l =
     (let sp = pool_layout_spec l; g = spec_geometry sp in
      res_bind (validate_geometry g) (\<lambda>_.
        if length (pool_layout_planes l) \<noteq> length (geometry_planes g) \<or> pool_layout_planes l = []
          then Inl InvalidArgument
        else res_bind (checked_i32 (page_group_count sp)) (\<lambda>physical_pages.
          res_bind (bind_planes (device_plane_order g) physical_pages backing
            (zip (pool_layout_planes l) (geometry_planes g))) (\<lambda>ts.
            Inr \<lparr>pool_id = self, pool_spec = sp, pool_planes = ts,
                 free_page_runs = [\<lparr>run_begin = 0, run_count = page_group_count sp\<rparr>],
                 page_generations = replicate (page_group_count sp) 1,
                 page_allocated = replicate (page_group_count sp) False,
                 validation_marks = replicate (page_group_count sp) 0,
                 validation_stamp = 0, allocated_pages = 0, reserved_pages = 0\<rparr>))))"

definition capacity_pages :: "DeviceKVPagePool \<Rightarrow> nat" where
  "capacity_pages p = page_group_count (pool_spec p)"

definition pool_geometry :: "DeviceKVPagePool \<Rightarrow> KVPageGeometry" where
  "pool_geometry p = spec_geometry (pool_spec p)"

definition available_pages :: "DeviceKVPagePool \<Rightarrow> nat" where
  "available_pages p = u32_sub (u32_sub (capacity_pages p) (allocated_pages p)) (reserved_pages p)"

definition valid_handle :: "DeviceKVPagePool \<Rightarrow> DeviceKVPageHandle \<Rightarrow> bool" where
  "valid_handle p h \<longleftrightarrow>
     (if handle_owner h \<noteq> Some (pool_id p) \<or> handle_index h < 0 \<or>
         handle_index h \<ge> i32_of_u32 (capacity_pages p) then False
      else let i = nat (handle_index h) in
        page_allocated p ! i \<and> page_generations p ! i = handle_generation h)"

definition physical_index :: "DeviceKVPagePool \<Rightarrow> DeviceKVPageHandle \<Rightarrow> int res" where
  "physical_index p h = (if \<not> valid_handle p h then Inl InvalidArgument else Inr (handle_index h))"

fun run_count_from :: "DeviceKVPagePool \<Rightarrow> nat \<Rightarrow> int \<Rightarrow> DeviceKVPageHandle list \<Rightarrow> nat res" where
  "run_count_from p runs previous [] = Inr runs"
| "run_count_from p runs previous (h # hs) =
     res_bind (physical_index p h) (\<lambda>current.
       run_count_from p (if runs = 0 \<or> current \<noteq> previous + 1 then u32_add runs 1 else runs) current hs)"

definition contiguous_run_count :: "DeviceKVPagePool \<Rightarrow> DeviceKVPageHandle list \<Rightarrow> nat res" where
  "contiguous_run_count p hs = (if hs = [] then Inr 0 else run_count_from p 0 (-2) hs)"

section \<open>Free runs\<close>

definition consume_free_run :: "nat \<Rightarrow> int \<Rightarrow> nat \<Rightarrow> FreePageRun list \<Rightarrow> FreePageRun list res" where
  "consume_free_run k begin n_pages runs =
     (if k \<ge> length runs \<or> n_pages = 0 then Inl Terminate
      else let run = runs ! k; run_end = run_begin run + int (run_count run);
               consumed_end = begin + int n_pages in
        if begin < run_begin run \<or> consumed_end > run_end then Inl Terminate
        else if begin = run_begin run \<and> consumed_end = run_end then Inr (take k runs @ drop (Suc k) runs)
        else if begin = run_begin run
          then Inr (runs[k := \<lparr>run_begin = run_begin run + int n_pages,
                               run_count = u32_sub (run_count run) n_pages\<rparr>])
        else if consumed_end = run_end
          then Inr (runs[k := run\<lparr>run_count := nat (begin - run_begin run)\<rparr>])
        else Inr (take k runs @ run\<lparr>run_count := nat (begin - run_begin run)\<rparr> #
                  \<lparr>run_begin = consumed_end, run_count = nat (run_end - consumed_end)\<rparr> #
                  drop (Suc k) runs))"

definition release_free_page :: "int \<Rightarrow> FreePageRun list \<Rightarrow> FreePageRun list" where
  "release_free_page index runs =
     (let before = takeWhile (\<lambda>r. run_begin r < index) runs;
          nxt = dropWhile (\<lambda>r. run_begin r < index) runs;
          joins_right = nxt \<noteq> [] \<and> index + 1 = run_begin (hd nxt);
          joins_left = before \<noteq> [] \<and> run_begin (last before) + int (run_count (last before)) = index
      in if joins_left \<and> joins_right
           then butlast before
             @ (last before)\<lparr>run_count := u32_add (run_count (last before)) (u32_add 1 (run_count (hd nxt)))\<rparr>
             # tl nxt
         else if joins_left
           then butlast before @ (last before)\<lparr>run_count := u32_add (run_count (last before)) 1\<rparr> # nxt
         else if joins_right
           then before @ \<lparr>run_begin = index, run_count = u32_add (run_count (hd nxt)) 1\<rparr> # tl nxt
         else before @ \<lparr>run_begin = index, run_count = 1\<rparr> # nxt)"

section \<open>Reservations\<close>

definition reserve :: "DeviceKVPagePool \<Rightarrow> nat \<Rightarrow> DeviceKVPagePool \<times> DeviceKVPageReservation option" where
  "reserve p n =
     (if n = 0 \<or> n > available_pages p then (p, None)
      else (p\<lparr>reserved_pages := u32_add (reserved_pages p) n\<rparr>,
            Some \<lparr>reservation_owner = Some (pool_id p), reservation_pages = n\<rparr>))"

definition make_empty_reservation :: "DeviceKVPagePool \<Rightarrow> DeviceKVPageReservation" where
  "make_empty_reservation p = \<lparr>reservation_owner = Some (pool_id p), reservation_pages = 0\<rparr>"

definition can_resize_reservation :: "DeviceKVPagePool \<Rightarrow> DeviceKVPageReservation \<Rightarrow> nat \<Rightarrow> bool" where
  "can_resize_reservation p r n \<longleftrightarrow>
     (if \<not> reservation_belongs_to r p \<or> reservation_pages r > reserved_pages p then False
      else u64_add (u64_add (allocated_pages p) (u32_sub (reserved_pages p) (reservation_pages r))) n
             \<le> capacity_pages p)"

definition resize_reservation ::
  "DeviceKVPagePool \<Rightarrow> DeviceKVPageReservation \<Rightarrow> nat \<Rightarrow> (DeviceKVPagePool \<times> DeviceKVPageReservation) res" where
  "resize_reservation p r n =
     (if \<not> can_resize_reservation p r n then Inl BadAlloc
      else Inr (p\<lparr>reserved_pages := u32_add (u32_sub (reserved_pages p) (reservation_pages r)) n\<rparr>,
                r\<lparr>reservation_pages := n\<rparr>))"

definition release_reservation :: "DeviceKVPagePool \<Rightarrow> nat \<Rightarrow> DeviceKVPagePool res" where
  "release_reservation p n =
     (if n > reserved_pages p then Inl Terminate
      else Inr (p\<lparr>reserved_pages := u32_sub (reserved_pages p) n\<rparr>))"

text \<open>The two ways a reservation gives its pages back; the pool argument is the pool its owner
  pointer names.\<close>

definition reservation_clear ::
  "DeviceKVPagePool \<Rightarrow> DeviceKVPageReservation \<Rightarrow> (DeviceKVPagePool \<times> DeviceKVPageReservation) res" where
  "reservation_clear p r =
     (if reservation_owner r = None \<or> reservation_pages r = 0 then Inr (p, r)
      else res_bind (release_reservation p (reservation_pages r)) (\<lambda>p'.
        Inr (p', r\<lparr>reservation_pages := 0\<rparr>)))"

definition reservation_release ::
  "DeviceKVPagePool \<Rightarrow> DeviceKVPageReservation \<Rightarrow> (DeviceKVPagePool \<times> DeviceKVPageReservation) res" where
  "reservation_release p r =
     (if reservation_owner r = None then Inr (p, r)
      else res_bind (release_reservation p (reservation_pages r)) (\<lambda>p'. Inr (p', null_reservation)))"

section \<open>Releasing pages\<close>

definition release_page :: "DeviceKVPagePool \<Rightarrow> int \<Rightarrow> u32 \<Rightarrow> DeviceKVPagePool" where
  "release_page p index gen =
     (if index < 0 \<or> index \<ge> i32_of_u32 (capacity_pages p) then p
      else let i = nat index in
        if \<not> page_allocated p ! i \<or> page_generations p ! i \<noteq> gen then p
        else p\<lparr>page_allocated := (page_allocated p)[i := False],
               page_generations := (page_generations p)[i := increment_generation (page_generations p ! i)],
               free_page_runs := release_free_page index (free_page_runs p),
               allocated_pages := u32_sub (allocated_pages p) 1\<rparr>)"

text \<open>A lease gives its page back; the pool argument is the pool its owner pointer names. The
  destructor is this operation with its result ignored.\<close>

definition lease_release :: "DeviceKVPagePool \<Rightarrow> DeviceKVPageLease \<Rightarrow> DeviceKVPagePool \<times> DeviceKVPageLease \<times> bool"
where
  "lease_release p l =
     (if \<not> lease_valid l then (p, l, False)
      else if \<not> valid_handle p \<lparr>handle_owner = lease_owner l, handle_index = lease_index l,
                                 handle_generation = lease_generation l\<rparr>
        then (p, null_lease, False)
      else (release_page p (lease_index l) (lease_generation l), null_lease, True))"

fun destroy_leases :: "DeviceKVPagePool \<Rightarrow> DeviceKVPageLease list \<Rightarrow> DeviceKVPagePool" where
  "destroy_leases p [] = p"
| "destroy_leases p (l # ls) = destroy_leases (fst (lease_release p l)) ls"

section \<open>Materialisation\<close>

definition leases_current :: "DeviceKVPagePool \<Rightarrow> DeviceKVPageLease list \<Rightarrow> bool" where
  "leases_current p ls \<longleftrightarrow> (\<forall>l \<in> set ls. lease_belongs_to l p \<and> valid_handle p (lease_handle l))"

definition preferred_run :: "FreePageRun list \<Rightarrow> int option \<Rightarrow> nat \<Rightarrow> (nat \<times> int) option" where
  "preferred_run runs preferred n_pages =
     (case preferred of
        None \<Rightarrow> None
      | Some q \<Rightarrow>
          if q < 0 then None
          else let upper = length (takeWhile (\<lambda>r. \<not> q < run_begin r) runs) in
            if upper = 0 then None
            else let candidate = runs ! (upper - 1);
                     run_end = run_begin candidate + int (run_count candidate);
                     requested_end = q + int n_pages in
              if q \<ge> run_begin candidate \<and> requested_end \<le> run_end then Some (upper - 1, q) else None)"

definition select_run :: "FreePageRun list \<Rightarrow> int option \<Rightarrow> nat \<Rightarrow> (nat \<times> int) option" where
  "select_run runs preferred n_pages =
     (case preferred_run runs preferred n_pages of
        Some s \<Rightarrow> Some s
      | None \<Rightarrow> map_option (\<lambda>k. (k, run_begin (runs ! k))) (find_index (\<lambda>r. run_count r \<ge> n_pages) runs))"

definition append_page ::
  "DeviceKVPagePool \<times> DeviceKVPageLease list \<Rightarrow> int \<Rightarrow> DeviceKVPagePool \<times> DeviceKVPageLease list" where
  "append_page s page =
     (let p = fst s in
      (p\<lparr>page_allocated := (page_allocated p)[nat page := True]\<rparr>,
       snd s @ [\<lparr>lease_owner = Some (pool_id p), lease_index = page,
                 lease_generation = page_generations p ! nat page\<rparr>]))"

text \<open>The loop over the free runs in order when no single run holds the request: the pages taken,
  and the runs left after the consumed prefix is erased. A run that is only partly taken exhausts
  the request, which ends the loop.\<close>

fun take_from_runs :: "nat \<Rightarrow> FreePageRun list \<Rightarrow> (int list \<times> FreePageRun list) res" where
  "take_from_runs remaining [] = (if remaining = 0 then Inr ([], []) else Inl Undefined)"
| "take_from_runs remaining (run # runs) =
     (if remaining = 0 then Inr ([], run # runs)
      else let tk = min remaining (run_count run);
               taken = map (\<lambda>k. run_begin run + int k) [0..<tk] in
        if tk = run_count run
          then res_bind (take_from_runs (remaining - tk) runs) (\<lambda>(ps, rs). Inr (taken @ ps, rs))
        else Inr (taken, run\<lparr>run_begin := run_begin run + int tk, run_count := run_count run - tk\<rparr> # runs))"

definition materialize_pages ::
  "DeviceKVPagePool \<Rightarrow> int option \<Rightarrow> nat \<Rightarrow> (int list \<times> FreePageRun list) res" where
  "materialize_pages p preferred n_pages =
     (case select_run (free_page_runs p) preferred n_pages of
        Some (k, begin) \<Rightarrow>
          res_bind (consume_free_run k begin n_pages (free_page_runs p)) (\<lambda>runs.
            Inr (map (\<lambda>i. begin + int i) [0..<n_pages], runs))
      | None \<Rightarrow> take_from_runs n_pages (free_page_runs p))"

definition materialize ::
  "DeviceKVPagePool \<Rightarrow> DeviceKVPageReservation \<Rightarrow> nat \<Rightarrow> nat \<Rightarrow> DeviceKVPageLease list
   \<Rightarrow> DeviceKVPageHandle option
   \<Rightarrow> (DeviceKVPagePool \<times> DeviceKVPageReservation \<times> DeviceKVPageLease list) res" where
  "materialize p r target_page_count dest_capacity destination preferred_predecessor =
     (if \<not> reservation_belongs_to r p \<or> target_page_count < length destination then Inl InvalidArgument
      else let n_pages = u32_sub target_page_count (length destination) in
      if n_pages > reservation_pages r \<or> target_page_count > dest_capacity then Inl InvalidArgument
      else if \<not> leases_current p destination then Inl InvalidArgument
      else if n_pages = 0 then Inr (p, r, destination)
      else if n_pages > u32_sub (capacity_pages p) (allocated_pages p) then Inl LogicError
      else res_bind (case preferred_predecessor of
                       Some h \<Rightarrow> res_bind (physical_index p h) (\<lambda>i. Inr (Some (i + 1)))
                     | None \<Rightarrow> Inr (if destination \<noteq> [] then Some (lease_index (last destination) + 1) else None))
             (\<lambda>preferred.
        res_bind (materialize_pages p preferred n_pages) (\<lambda>(ps, runs).
          let (p', destination') = foldl append_page (p, destination) ps in
          Inr (p'\<lparr>free_page_runs := runs,
                  allocated_pages := u32_add (allocated_pages p') n_pages,
                  reserved_pages := u32_sub (reserved_pages p') n_pages\<rparr>,
               r\<lparr>reservation_pages := u32_sub (reservation_pages r) n_pages\<rparr>, destination'))))"

definition materialize_one ::
  "DeviceKVPagePool \<Rightarrow> DeviceKVPageReservation
   \<Rightarrow> (DeviceKVPagePool \<times> DeviceKVPageReservation \<times> DeviceKVPageLease) res" where
  "materialize_one p r =
     (if \<not> reservation_belongs_to r p \<or> reservation_pages r = 0 then Inl InvalidArgument
      else case free_page_runs p of
        [] \<Rightarrow> Inl LogicError
      | run # runs \<Rightarrow>
          let page = run_begin run; left = u32_sub (run_count run) 1 in
          Inr (p\<lparr>free_page_runs :=
                    (if left = 0 then runs else \<lparr>run_begin = page + 1, run_count = left\<rparr> # runs),
                 page_allocated := (page_allocated p)[nat page := True],
                 allocated_pages := u32_add (allocated_pages p) 1,
                 reserved_pages := u32_sub (reserved_pages p) 1\<rparr>,
               r\<lparr>reservation_pages := u32_sub (reservation_pages r) 1\<rparr>,
               \<lparr>lease_owner = Some (pool_id p), lease_index = page,
                lease_generation = page_generations p ! nat page\<rparr>))"

definition dematerialize ::
  "DeviceKVPagePool \<Rightarrow> DeviceKVPageReservation \<Rightarrow> nat \<Rightarrow> DeviceKVPageLease list
   \<Rightarrow> (DeviceKVPagePool \<times> DeviceKVPageReservation \<times> DeviceKVPageLease list) res" where
  "dematerialize p r target_page_count source =
     (if \<not> reservation_belongs_to r p \<or> target_page_count > length source then Inl InvalidArgument
      else if \<not> leases_current p source then Inl InvalidArgument
      else let released = (length source - target_page_count) mod (u32_max + 1) in
      if released = 0 then Inr (p, r, source)
      else if released > u32_max - reservation_pages r then Inl OverflowError
      else let p' = destroy_leases p (drop target_page_count source) in
        Inr (p'\<lparr>reserved_pages := u32_add (reserved_pages p') released\<rparr>,
             r\<lparr>reservation_pages := u32_add (reservation_pages r) released\<rparr>,
             take target_page_count source))"

definition dematerialize_one ::
  "DeviceKVPagePool \<Rightarrow> DeviceKVPageReservation \<Rightarrow> DeviceKVPageLease
   \<Rightarrow> (DeviceKVPagePool \<times> DeviceKVPageReservation \<times> DeviceKVPageLease) res" where
  "dematerialize_one p r l =
     (if \<not> reservation_belongs_to r p \<or> \<not> lease_belongs_to l p \<or> \<not> valid_handle p (lease_handle l) \<or>
         reservation_pages r = u32_max then Inl InvalidArgument
      else case lease_release p l of
        (p', l', ok) \<Rightarrow>
          if \<not> ok then Inl LogicError
          else Inr (p'\<lparr>reserved_pages := u32_add (reserved_pages p') 1\<rparr>,
                    r\<lparr>reservation_pages := u32_add (reservation_pages r) 1\<rparr>, l'))"

section \<open>Distinct pages\<close>

fun mark_pages :: "DeviceKVPagePool \<Rightarrow> DeviceKVPageHandle list \<Rightarrow> DeviceKVPagePool \<times> unit res" where
  "mark_pages p [] = (p, Inr ())"
| "mark_pages p (h # hs) =
     (case physical_index p h of
        Inl e \<Rightarrow> (p, Inl e)
      | Inr i \<Rightarrow>
          if validation_marks p ! nat i = validation_stamp p then (p, Inl InvalidArgument)
          else mark_pages (p\<lparr>validation_marks := (validation_marks p)[nat i := validation_stamp p]\<rparr>) hs)"

definition validate_distinct_pages ::
  "DeviceKVPagePool \<Rightarrow> DeviceKVPageHandle list \<Rightarrow> DeviceKVPagePool \<times> unit res" where
  "validate_distinct_pages p hs =
     (let s = validation_stamp p + 1;
          p' = (if s = 0
                then p\<lparr>validation_stamp := 1, validation_marks := replicate (length (validation_marks p)) 0\<rparr>
                else p\<lparr>validation_stamp := s\<rparr>)
      in mark_pages p' hs)"

section \<open>Free runs as spans\<close>

definition run_span :: "FreePageRun \<Rightarrow> span" where
  "run_span r = (run_begin r, run_begin r + int (run_count r))"

definition free_indices :: "bool list \<Rightarrow> int set" where
  "free_indices bs = {int i | i. i < length bs \<and> \<not> bs ! i}"

definition runs_inv :: "bool list \<Rightarrow> FreePageRun list \<Rightarrow> bool" where
  "runs_inv bs runs \<longleftrightarrow>
     spans_ok (map run_span runs) \<and> spans_set (map run_span runs) = free_indices bs"

definition pool_inv :: "DeviceKVPagePool \<Rightarrow> bool" where
  "pool_inv p \<longleftrightarrow>
     0 < capacity_pages p \<and> capacity_pages p \<le> i32_max \<and>
     length (page_allocated p) = capacity_pages p \<and> length (page_generations p) = capacity_pages p \<and>
     length (validation_marks p) = capacity_pages p \<and>
     runs_inv (page_allocated p) (free_page_runs p) \<and>
     allocated_pages p = count_list (page_allocated p) True \<and>
     allocated_pages p + reserved_pages p \<le> capacity_pages p \<and>
     (\<forall>g \<in> set (page_generations p). g \<noteq> 0) \<and>
     (\<forall>m \<in> set (validation_marks p). m \<le> validation_stamp p)"

lemma free_indices_mem: "int i \<in> free_indices bs \<longleftrightarrow> i < length bs \<and> \<not> bs ! i"
  by (auto simp: free_indices_def)

lemma free_indices_iff: "x \<in> free_indices bs \<longleftrightarrow> 0 \<le> x \<and> nat x < length bs \<and> \<not> bs ! nat x"
  by (auto simp: free_indices_def) (metis int_nat_eq)

lemma free_indices_update:
  assumes "i < length bs"
  shows "free_indices (bs[i := False]) = insert (int i) (free_indices bs)"
    and "free_indices (bs[i := True]) = free_indices bs - {int i}"
  using assms by (auto simp: free_indices_def nth_list_update split: if_splits)

lemma free_indices_card: "card (free_indices bs) + count_list bs True = length bs"
proof -
  have "free_indices bs = int ` {i. i < length bs \<and> \<not> bs ! i}" by (auto simp: free_indices_def)
  then have "card (free_indices bs) = card {i. i < length bs \<and> \<not> bs ! i}" by (simp add: card_image)
  moreover have "{i. i < length bs \<and> \<not> bs ! i} \<union> {i. i < length bs \<and> bs ! i} = {..< length bs}" by auto
  moreover have "card ({i. i < length bs \<and> \<not> bs ! i} \<union> {i. i < length bs \<and> bs ! i})
      = card {i. i < length bs \<and> \<not> bs ! i} + card {i. i < length bs \<and> bs ! i}"
    by (rule card_Un_disjoint) auto
  ultimately show ?thesis by (simp add: card_true_indices)
qed

lemma runs_total:
  "runs_inv bs runs \<Longrightarrow> spans_total (map run_span runs) = int (length bs - count_list bs True)"
  using free_indices_card [of bs] by (simp add: runs_inv_def spans_total_card)

lemma run_span_simps [simp]:
  "fst (run_span r) = run_begin r" "snd (run_span r) = run_begin r + int (run_count r)"
  by (simp_all add: run_span_def)

subsection \<open>Returning a page\<close>

definition page_fits :: "int \<Rightarrow> FreePageRun list \<Rightarrow> bool" where
  "page_fits index runs \<longleftrightarrow> (\<forall>r \<in> set runs. 0 \<le> run_begin r \<and> run_begin r + int (run_count r) \<le> int i32_max)"

lemma release_free_page_refines:
  assumes "page_fits index runs"
  shows "map run_span (release_free_page index runs) = span_insert (index, index + 1) (map run_span runs)"
proof -
  define before where "before = takeWhile (\<lambda>r. run_begin r < index) runs"
  define nxt where "nxt = dropWhile (\<lambda>r. run_begin r < index) runs"
  have tw: "takeWhile (\<lambda>t. fst t < index) (map run_span runs) = map run_span before"
    unfolding before_def using takeWhile_map_comp [of run_span "\<lambda>t. fst t < index" runs] by simp
  have dw: "dropWhile (\<lambda>t. fst t < index) (map run_span runs) = map run_span nxt"
    unfolding nxt_def using dropWhile_map_comp [of run_span "\<lambda>t. fst t < index" runs] by simp
  have small: "run_count r \<le> i32_max" if "r \<in> set runs" for r
    using assms that by (auto simp: page_fits_def)
  have b: "run_count (last before) \<le> i32_max" if "before \<noteq> []"
    using small that set_takeWhileD last_in_set unfolding before_def by metis
  have n: "run_count (hd nxt) \<le> i32_max" if "nxt \<noteq> []"
    using small that set_dropWhileD list.set_sel(1) unfolding nxt_def by metis
  have add: "u32_add x (u32_add 1 y) = x + (1 + y)" "u32_add x 1 = x + 1"
    if "x \<le> i32_max" "y \<le> i32_max" for x y
    using that by (simp_all add: u32_add_def i32_max_def u32_max_def)
  show ?thesis
  proof (cases "before = []"; cases "nxt = []")
    assume "before = []" "nxt = []"
    then show ?thesis
      unfolding release_free_page_def span_insert_def fst_conv snd_conv tw dw
        before_def [symmetric] nxt_def [symmetric] by (simp add: run_span_def)
  next
    assume e: "before = []" "nxt \<noteq> []"
    then have "u32_add (run_count (hd nxt)) 1 = run_count (hd nxt) + 1" using n add(2) by blast
    then show ?thesis using e
      unfolding release_free_page_def span_insert_def fst_conv snd_conv tw dw
        before_def [symmetric] nxt_def [symmetric]
      by (cases nxt) (auto simp: Let_def run_span_def)
  next
    assume e: "before \<noteq> []" "nxt = []"
    then have "u32_add (run_count (last before)) 1 = run_count (last before) + 1" using b add(2) by blast
    then show ?thesis using e
      unfolding release_free_page_def span_insert_def fst_conv snd_conv tw dw
        before_def [symmetric] nxt_def [symmetric]
      by (cases before rule: rev_cases) (auto simp: Let_def run_span_def)
  next
    assume e: "before \<noteq> []" "nxt \<noteq> []"
    then have "u32_add (run_count (last before)) (u32_add 1 (run_count (hd nxt)))
        = run_count (last before) + (1 + run_count (hd nxt))"
      "u32_add (run_count (last before)) 1 = run_count (last before) + 1"
      "u32_add (run_count (hd nxt)) 1 = run_count (hd nxt) + 1"
      using b n add by blast+
    then show ?thesis using e
      unfolding release_free_page_def span_insert_def fst_conv snd_conv tw dw
        before_def [symmetric] nxt_def [symmetric]
      by (cases before rule: rev_cases; cases nxt) (auto simp: Let_def run_span_def)
  qed
qed

interpretation page_runs: coalescing_free_list run_span "\<lambda>i. (i, i + 1)" page_fits release_free_page
  by unfold_locales (rule release_free_page_refines)

subsection \<open>Taking pages\<close>

lemma consume_free_run_refines:
  assumes k: "k < length runs" and n: "0 < n"
    and lo: "run_begin (runs ! k) \<le> b" and hi: "b + int n \<le> run_begin (runs ! k) + int (run_count (runs ! k))"
  shows "\<exists>runs'. consume_free_run k b n runs = Inr runs'
    \<and> map run_span runs' = span_carve k b (b + int n) (map run_span runs)"
proof -
  define r where "r = runs ! k"
  have nn: "n \<le> run_count r" using lo hi by (simp add: r_def)
  have upd: "runs[k := x] = take k runs @ x # drop (Suc k) runs" for x
    using k by (rule upd_conv_take_nth_drop)
  have carve: "span_carve k b (b + int n) (map run_span runs)
     = map run_span (take k runs) @ (if run_begin r < b then [(run_begin r, b)] else [])
       @ (if b + int n < run_begin r + int (run_count r) then [(b + int n, run_begin r + int (run_count r))] else [])
       @ map run_span (drop (Suc k) runs)"
    using k by (simp add: span_carve_def r_def take_map drop_map)
  show ?thesis unfolding carve using k n lo hi nn unfolding consume_free_run_def r_def [symmetric]
    by (auto simp: Let_def upd width_simps run_span_def)
qed

lemma select_run_sound:
  assumes "select_run runs preferred n = Some (k, b)"
  shows "k < length runs \<and> run_begin (runs ! k) \<le> b \<and> b + int n \<le> run_begin (runs ! k) + int (run_count (runs ! k))"
proof (cases "preferred_run runs preferred n")
  case None
  with assms have "find_index (\<lambda>r. run_count r \<ge> n) runs = Some k" "b = run_begin (runs ! k)"
    by (auto simp: select_run_def)
  then show ?thesis using find_index_Some by fastforce
next
  case (Some s)
  with assms have "preferred_run runs preferred n = Some (k, b)" by (simp add: select_run_def)
  then obtain q where q: "k = length (takeWhile (\<lambda>r. \<not> q < run_begin r) runs) - 1" "b = q"
    "length (takeWhile (\<lambda>r. \<not> q < run_begin r) runs) \<noteq> 0" "run_begin (runs ! k) \<le> q"
    "q + int n \<le> run_begin (runs ! k) + int (run_count (runs ! k))"
    by (auto simp: preferred_run_def Let_def split: option.splits if_splits)
  have "length (takeWhile (\<lambda>r. \<not> q < run_begin r) runs) \<le> length runs" by (rule length_takeWhile_le)
  then have "k < length runs" using q(1,3) by linarith
  then show ?thesis using q by simp
qed

definition page_range :: "int \<Rightarrow> nat \<Rightarrow> int list" where
  "page_range b n = map (\<lambda>i. b + int i) [0..<n]"

lemma page_range_facts [simp]:
  "length (page_range b n) = n" "distinct (page_range b n)" "set (page_range b n) = {b ..< b + int n}"
proof -
  show "length (page_range b n) = n" "distinct (page_range b n)"
    by (auto simp: page_range_def distinct_map inj_on_def)
  have "x \<in> set (page_range b n)" if "b \<le> x" "x < b + int n" for x
    using that unfolding page_range_def by (auto intro!: image_eqI [of _ _ "nat (x - b)"])
  then show "set (page_range b n) = {b ..< b + int n}" by (auto simp: page_range_def)
qed

definition takes_pages :: "int list \<Rightarrow> nat \<Rightarrow> FreePageRun list \<Rightarrow> FreePageRun list \<Rightarrow> bool" where
  "takes_pages ps n runs runs' \<longleftrightarrow>
     length ps = n \<and> distinct ps \<and> set ps \<subseteq> spans_set (map run_span runs) \<and>
     spans_ok (map run_span runs') \<and> spans_set (map run_span runs') = spans_set (map run_span runs) - set ps"

lemma take_from_runs_ok:
  assumes "spans_ok (map run_span runs)" "int n \<le> spans_total (map run_span runs)"
  shows "\<exists>ps runs'. take_from_runs n runs = Inr (ps, runs') \<and> takes_pages ps n runs runs'"
  using assms
proof (induction n runs rule: take_from_runs.induct)
  case (1 n)
  then show ?case by (simp add: takes_pages_def)
next
  case (2 n run runs)
  have ok: "spans_ok (map run_span runs)" and pos: "0 < run_count run"
    and sep: "\<forall>t \<in> set (map run_span runs). run_begin run + int (run_count run) < fst t"
    using "2.prems"(1) by auto
  have dis: "{run_begin run ..< run_begin run + int (run_count run)} \<inter> spans_set (map run_span runs) = {}"
    using sep by (fastforce simp: spans_set_mem)
  consider (zero) "n = 0" | (part) "0 < n" "n < run_count run" | (full) "run_count run \<le> n" "0 < n" by linarith
  then show ?case
  proof cases
    case zero
    then show ?thesis using "2.prems" by (simp add: takes_pages_def)
  next
    case part
    let ?r = "run\<lparr>run_begin := run_begin run + int n, run_count := run_count run - n\<rparr>"
    have res: "take_from_runs n (run # runs) = Inr (page_range (run_begin run) n, ?r # runs)"
      using part by (simp add: page_range_def)
    have sp: "span_set (run_span ?r) = span_set (run_span run) - {run_begin run ..< run_begin run + int n}"
      using part by (auto simp: span_set_def)
    have "{run_begin run ..< run_begin run + int n} \<subseteq> span_set (run_span run)"
      using part by (auto simp: span_set_def)
    moreover have "{run_begin run ..< run_begin run + int n} \<inter> spans_set (map run_span runs) = {}"
      using calculation dis [folded run_span_simps, folded span_set_def] by blast
    then have "spans_set (map run_span (?r # runs))
        = spans_set (map run_span (run # runs)) - {run_begin run ..< run_begin run + int n}"
      unfolding list.map spans_set_simps sp by (auto simp: span_set_def)
    moreover have "spans_ok (map run_span (?r # runs))" using ok sep part by auto
    ultimately have "takes_pages (page_range (run_begin run) n) n (run # runs) (?r # runs)"
      unfolding takes_pages_def by auto
    then show ?thesis using res by blast
  next
    case full
    have "int (n - run_count run) \<le> spans_total (map run_span runs)" using "2.prems"(2) full by simp
    moreover have mn: "min n (run_count run) = run_count run" using full by simp
    ultimately obtain ps rs where IH: "take_from_runs (n - run_count run) runs = Inr (ps, rs)"
      "takes_pages ps (n - run_count run) runs rs"
      using "2.IH" ok full by (metis less_not_refl)
    have res: "take_from_runs n (run # runs) = Inr (page_range (run_begin run) (run_count run) @ ps, rs)"
      using full mn IH(1) by (simp add: page_range_def)
    have "takes_pages (page_range (run_begin run) (run_count run) @ ps) n (run # runs) rs"
      using IH(2) dis full unfolding takes_pages_def by (auto simp: span_set_def)
    then show ?thesis using res by blast
  qed
qed

lemma materialize_pages_ok:
  assumes "runs_inv bs (free_page_runs p)" "0 < n" "n \<le> length bs - count_list bs True"
  shows "\<exists>ps runs'. materialize_pages p preferred n = Inr (ps, runs') \<and> takes_pages ps n (free_page_runs p) runs'"
proof (cases "select_run (free_page_runs p) preferred n")
  case None
  have "int n \<le> spans_total (map run_span (free_page_runs p))" using assms by (simp add: runs_total)
  then show ?thesis using take_from_runs_ok assms(1) None by (simp add: materialize_pages_def runs_inv_def)
next
  case (Some s)
  then obtain k b where s: "select_run (free_page_runs p) preferred n = Some (k, b)" by (cases s) auto
  note S = select_run_sound [OF s]
  have ok: "spans_ok (map run_span (free_page_runs p))" using assms(1) by (simp add: runs_inv_def)
  obtain runs' where r: "consume_free_run k b n (free_page_runs p) = Inr runs'"
    "map run_span runs' = span_carve k b (b + int n) (map run_span (free_page_runs p))"
    using consume_free_run_refines assms(2) S by blast
  have k: "k < length (map run_span (free_page_runs p))" using S by simp
  have "fst (map run_span (free_page_runs p) ! k) \<le> b" "b + int n \<le> snd (map run_span (free_page_runs p) ! k)"
    using S by simp_all
  note C = span_carve_correct [OF ok k this(1) _ this(2)] span_carve_subset [OF k this]
  have "takes_pages (page_range b n) n (free_page_runs p) runs'"
    unfolding takes_pages_def r(2) using C assms(2) by simp
  then show ?thesis using r(1) s by (simp add: materialize_pages_def page_range_def)
qed

section \<open>Invariant of the pool\<close>

lemma pool_inv_room: "pool_inv p \<Longrightarrow> allocated_pages p + reserved_pages p \<le> capacity_pages p"
  unfolding pool_inv_def by blast

lemma pool_inv_u32:
  assumes "pool_inv p"
  shows "capacity_pages p \<le> u32_max" "allocated_pages p + reserved_pages p \<le> u32_max"
    "i32_of_u32 (capacity_pages p) = int (capacity_pages p)"
    "available_pages p = capacity_pages p - allocated_pages p - reserved_pages p"
proof -
  have c: "capacity_pages p \<le> i32_max" "allocated_pages p + reserved_pages p \<le> capacity_pages p"
    using assms by (simp_all add: pool_inv_def)
  moreover have "i32_max \<le> u32_max" by (simp add: i32_max_def u32_max_def)
  ultimately show "capacity_pages p \<le> u32_max" "allocated_pages p + reserved_pages p \<le> u32_max"
    "i32_of_u32 (capacity_pages p) = int (capacity_pages p)"
    "available_pages p = capacity_pages p - allocated_pages p - reserved_pages p"
    by (simp_all add: width_simps available_pages_def)
qed

lemma valid_handle_iff:
  assumes "pool_inv p"
  shows "valid_handle p h \<longleftrightarrow> handle_owner h = Some (pool_id p) \<and> 0 \<le> handle_index h
    \<and> nat (handle_index h) < capacity_pages p \<and> page_allocated p ! nat (handle_index h)
    \<and> page_generations p ! nat (handle_index h) = handle_generation h"
  by (auto simp: valid_handle_def pool_inv_u32 [OF assms] Let_def)

theorem new_device_pool_inv: "new_device_pool self backing l = Inr p \<Longrightarrow> pool_inv p"
proof -
  assume "new_device_pool self backing l = Inr p"
  then obtain n ts where n: "0 < n" "n \<le> i32_max" "n = page_group_count (pool_layout_spec l)"
    and p: "p = \<lparr>pool_id = self, pool_spec = pool_layout_spec l, pool_planes = ts,
      free_page_runs = [\<lparr>run_begin = 0, run_count = n\<rparr>], page_generations = replicate n 1,
      page_allocated = replicate n False, validation_marks = replicate n 0,
      validation_stamp = 0, allocated_pages = 0, reserved_pages = 0\<rparr>"
    by (auto simp: new_device_pool_def Let_def split: if_splits)
  have "{0 ..< int n} = free_indices (replicate n False)" by (auto simp: free_indices_iff)
  then show ?thesis using n
    by (simp add: pool_inv_def p capacity_pages_def runs_inv_def span_set_def count_list_0_iff)
qed

subsection \<open>Reservations\<close>

lemma reserve_inv:
  assumes "pool_inv p" "reserve p n = (p', r)"
  shows "pool_inv p'"
    and "r = None \<longleftrightarrow> n = 0 \<or> capacity_pages p < allocated_pages p + reserved_pages p + n"
    and "r = None \<Longrightarrow> p' = p"
    and "r = Some v \<Longrightarrow> p' = p\<lparr>reserved_pages := reserved_pages p + n\<rparr>
       \<and> v = \<lparr>reservation_owner = Some (pool_id p), reservation_pages = n\<rparr> \<and> 0 < n"
proof -
  note u = pool_inv_u32 [OF assms(1)]
  have le: "allocated_pages p + reserved_pages p \<le> capacity_pages p" using assms(1) by (simp add: pool_inv_def)
  have add: "u32_add (reserved_pages p) n = reserved_pages p + n" if "n \<le> available_pages p"
    using that u le by (intro u32_add_exact) linarith
  show "r = None \<longleftrightarrow> n = 0 \<or> capacity_pages p < allocated_pages p + reserved_pages p + n"
    using assms(2) u(4) le by (auto simp: reserve_def split: if_splits)
  show "r = None \<Longrightarrow> p' = p" using assms(2) by (auto simp: reserve_def split: if_splits)
  show s: "r = Some v \<Longrightarrow> p' = p\<lparr>reserved_pages := reserved_pages p + n\<rparr>
       \<and> v = \<lparr>reservation_owner = Some (pool_id p), reservation_pages = n\<rparr> \<and> 0 < n" for v
    using assms(2) add by (auto simp: reserve_def split: if_splits)
  show "pool_inv p'"
  proof (cases r)
    case None
    then show ?thesis using assms by (auto simp: reserve_def split: if_splits)
  next
    case (Some v)
    then have "n \<le> available_pages p" using assms(2) by (auto simp: reserve_def split: if_splits)
    then show ?thesis using s [OF Some] assms(1) u(4) le by (auto simp: pool_inv_def capacity_pages_def)
  qed
qed

lemma resize_reservation_inv:
  assumes "pool_inv p" "reservation_pages r \<le> reserved_pages p" "n \<le> u32_max"
  shows "can_resize_reservation p r n \<longleftrightarrow> reservation_belongs_to r p
      \<and> allocated_pages p + (reserved_pages p - reservation_pages r) + n \<le> capacity_pages p"
    and "resize_reservation p r n = Inr (p', r') \<Longrightarrow> pool_inv p'
      \<and> p' = p\<lparr>reserved_pages := reserved_pages p - reservation_pages r + n\<rparr> \<and> r' = r\<lparr>reservation_pages := n\<rparr>"
proof -
  have c: "capacity_pages p \<le> i32_max" "allocated_pages p + reserved_pages p \<le> capacity_pages p"
    using assms(1) by (simp_all add: pool_inv_def)
  have sub: "u32_sub (reserved_pages p) (reservation_pages r) = reserved_pages p - reservation_pages r"
    using assms(2) by (rule u32_sub_exact)
  have u64: "u64_add (u64_add (allocated_pages p) (reserved_pages p - reservation_pages r)) n
      = allocated_pages p + (reserved_pages p - reservation_pages r) + n"
  proof -
    have "allocated_pages p + (reserved_pages p - reservation_pages r) \<le> i32_max" using c by linarith
    moreover have "i32_max + u32_max \<le> u64_max" by (simp add: i32_max_def u32_max_def u64_max_def)
    ultimately have "allocated_pages p + (reserved_pages p - reservation_pages r) + n \<le> u64_max"
      using assms(3) by linarith
    then show ?thesis by (simp add: u64_add_exact)
  qed
  show can: "can_resize_reservation p r n \<longleftrightarrow> reservation_belongs_to r p
      \<and> allocated_pages p + (reserved_pages p - reservation_pages r) + n \<le> capacity_pages p"
    using assms(2) by (auto simp: can_resize_reservation_def sub u64)
  assume "resize_reservation p r n = Inr (p', r')"
  then have cr: "can_resize_reservation p r n" and r': "r' = r\<lparr>reservation_pages := n\<rparr>"
    and p': "p' = p\<lparr>reserved_pages := u32_add (reserved_pages p - reservation_pages r) n\<rparr>"
    by (auto simp: resize_reservation_def sub split: if_splits)
  have "i32_max < u32_max" by simp
  then have "u32_add (reserved_pages p - reservation_pages r) n = reserved_pages p - reservation_pages r + n"
    using cr c unfolding can by (intro u32_add_exact) linarith
  then show "pool_inv p' \<and> p' = p\<lparr>reserved_pages := reserved_pages p - reservation_pages r + n\<rparr>
      \<and> r' = r\<lparr>reservation_pages := n\<rparr>"
    using cr r' p' assms(1) unfolding can by (simp add: pool_inv_def capacity_pages_def)
qed

lemma release_reservation_inv:
  assumes "pool_inv p" "n \<le> reserved_pages p"
  shows "release_reservation p n = Inr (p\<lparr>reserved_pages := reserved_pages p - n\<rparr>)"
    and "pool_inv (p\<lparr>reserved_pages := reserved_pages p - n\<rparr>)"
proof -
  show "release_reservation p n = Inr (p\<lparr>reserved_pages := reserved_pages p - n\<rparr>)"
    using assms by (simp add: release_reservation_def width_simps)
  have "allocated_pages p + (reserved_pages p - n) \<le> capacity_pages p"
    using pool_inv_room [OF assms(1)] by linarith
  then show "pool_inv (p\<lparr>reserved_pages := reserved_pages p - n\<rparr>)"
    using assms by (simp add: pool_inv_def capacity_pages_def)
qed

subsection \<open>Releasing a page\<close>

lemma release_page_inv:
  assumes inv: "pool_inv p" and v: "valid_handle p h"
    and p': "p' = release_page p (handle_index h) (handle_generation h)"
  shows "pool_inv p'" "pool_id p' = pool_id p" "pool_spec p' = pool_spec p" "capacity_pages p' = capacity_pages p"
    "reserved_pages p' = reserved_pages p" "Suc (allocated_pages p') = allocated_pages p" "\<not> valid_handle p' h"
    "\<And>g. handle_index g \<noteq> handle_index h \<Longrightarrow> valid_handle p' g = valid_handle p g"
proof -
  define i where "i = nat (handle_index h)"
  have V: "handle_owner h = Some (pool_id p)" "handle_index h = int i" "i < capacity_pages p" "page_allocated p ! i"
    "page_generations p ! i = handle_generation h"
    using v by (auto simp: valid_handle_iff [OF inv] i_def)
  have len: "length (page_allocated p) = capacity_pages p" "length (page_generations p) = capacity_pages p"
    using inv by (simp_all add: pool_inv_def)
  have P: "p' = p\<lparr>page_allocated := (page_allocated p)[i := False],
      page_generations := (page_generations p)[i := increment_generation (handle_generation h)],
      free_page_runs := release_free_page (int i) (free_page_runs p),
      allocated_pages := allocated_pages p - 1\<rparr>"
  proof -
    have "1 \<le> allocated_pages p"
      using V len inv count_list_pos_if_nth [of i "page_allocated p"] by (simp add: pool_inv_def Suc_leI)
    then show ?thesis using V unfolding p' release_page_def
      by (simp add: pool_inv_u32(3) [OF inv] Let_def width_simps)
  qed
  have cnt: "Suc (count_list ((page_allocated p)[i := False]) True) = count_list (page_allocated p) True"
    using V len by (intro count_list_False_update) simp_all
  have R: "spans_ok (map run_span (free_page_runs p))"
    "spans_set (map run_span (free_page_runs p)) = free_indices (page_allocated p)"
    using inv by (simp_all add: pool_inv_def runs_inv_def)
  have fits: "page_fits (int i) (free_page_runs p)" unfolding page_fits_def
  proof
    fix r assume r: "r \<in> set (free_page_runs p)"
    then have "0 < run_count r" using R(1) by (auto simp: spans_ok_def)
    then have "run_begin r \<in> free_indices (page_allocated p)"
      "run_begin r + int (run_count r) - 1 \<in> free_indices (page_allocated p)"
      unfolding R(2) [symmetric] spans_set_mem using r by (auto intro!: bexI [of _ r])
    then show "0 \<le> run_begin r \<and> run_begin r + int (run_count r) \<le> int i32_max"
      using inv by (auto simp: free_indices_iff pool_inv_def)
  qed
  have dis: "span_set (int i, int i + 1) \<inter> spans_set (map run_span (free_page_runs p)) = {}"
    using V(4) by (auto simp: R(2) span_set_def free_indices_iff)
  have "runs_inv ((page_allocated p)[i := False]) (release_free_page (int i) (free_page_runs p))"
  proof -
    have "{int i ..< int i + 1} \<union> free_indices (page_allocated p) = free_indices ((page_allocated p)[i := False])"
      using V(3) len by (auto simp: free_indices_update)
    then show ?thesis
      using page_runs.give_back_ok [OF R(1) _ dis fits] page_runs.give_back_set [OF R(1) _ dis fits]
      by (simp add: runs_inv_def R(2) span_set_def [of "(int i, int i + 1)"])
  qed
  moreover have "\<forall>g \<in> set ((page_generations p)[i := increment_generation (handle_generation h)]). g \<noteq> 0"
    using inv set_update_subset_insert by (fastforce simp: pool_inv_def)
  ultimately show I: "pool_inv p'" using inv cnt by (auto simp: pool_inv_def P capacity_pages_def)
  show id: "pool_id p' = pool_id p" "pool_spec p' = pool_spec p" "reserved_pages p' = reserved_pages p"
    "capacity_pages p' = capacity_pages p" by (simp_all add: P capacity_pages_def)
  show "Suc (allocated_pages p') = allocated_pages p" using inv cnt by (simp add: P pool_inv_def)
  show "\<not> valid_handle p' h" unfolding valid_handle_iff [OF I] using V len by (simp add: P)
  show "valid_handle p' g = valid_handle p g" if "handle_index g \<noteq> handle_index h" for g
    using that V(2) unfolding valid_handle_iff [OF I] valid_handle_iff [OF inv] id
    by (auto simp: P nth_list_update)
qed

subsection \<open>Materialisation\<close>

definition mark_all :: "int list \<Rightarrow> bool list \<Rightarrow> bool list" where
  "mark_all ps bs = foldl (\<lambda>bs i. bs[nat i := True]) bs ps"

definition minted :: "DeviceKVPagePool \<Rightarrow> int \<Rightarrow> DeviceKVPageLease" where
  "minted p i = \<lparr>lease_owner = Some (pool_id p), lease_index = i, lease_generation = page_generations p ! nat i\<rparr>"

lemma foldl_append_page:
  "foldl append_page (p, d) ps = (p\<lparr>page_allocated := mark_all ps (page_allocated p)\<rparr>, d @ map (minted p) ps)"
proof (induction ps arbitrary: p d)
  case (Cons i ps)
  have "foldl append_page (p, d) (i # ps)
      = foldl append_page (p\<lparr>page_allocated := (page_allocated p)[nat i := True]\<rparr>, d @ [minted p i]) ps"
    by (simp add: append_page_def minted_def)
  also have "\<dots> = (p\<lparr>page_allocated := mark_all (i # ps) (page_allocated p)\<rparr>, d @ map (minted p) (i # ps))"
    unfolding Cons.IH by (simp add: mark_all_def minted_def)
  finally show ?case .
qed (simp add: mark_all_def)

lemma mark_all_facts:
  assumes "set ps \<subseteq> free_indices bs" "distinct ps"
  shows "length (mark_all ps bs) = length bs \<and> free_indices (mark_all ps bs) = free_indices bs - set ps
    \<and> count_list (mark_all ps bs) True = count_list bs True + length ps"
  using assms
proof (induction ps arbitrary: bs)
  case (Cons x ps)
  obtain i where i: "x = int i" "i < length bs" "\<not> bs ! i" using Cons.prems by (auto simp: free_indices_def)
  have "set ps \<subseteq> free_indices (bs[i := True])" "distinct ps"
    using Cons.prems i by (auto simp: free_indices_update)
  note IH = Cons.IH [OF this]
  have "mark_all (x # ps) bs = mark_all ps (bs[i := True])" by (simp add: mark_all_def i(1))
  then show ?case using IH i by (auto simp: free_indices_update count_list_True_update)
qed (simp add: mark_all_def)

text \<open>What handing out leases means: the new leases are live, name distinct pages that no handle
  named before, live handles stay live, and the pages move from the reserved to the allocated
  count.\<close>

definition grants :: "DeviceKVPagePool \<Rightarrow> DeviceKVPagePool \<Rightarrow> DeviceKVPageLease list \<Rightarrow> bool" where
  "grants p p' ls \<longleftrightarrow>
     pool_inv p' \<and> pool_id p' = pool_id p \<and> pool_spec p' = pool_spec p \<and>
     reserved_pages p' + length ls = reserved_pages p \<and>
     allocated_pages p' = allocated_pages p + length ls \<and>
     distinct (map lease_index ls) \<and>
     (\<forall>l \<in> set ls. lease_belongs_to l p \<and> valid_handle p' (lease_handle l)
        \<and> (\<forall>h. valid_handle p h \<longrightarrow> handle_index h \<noteq> lease_index l)) \<and>
     (\<forall>h. valid_handle p h \<longrightarrow> valid_handle p' h)"

lemma grants_refl: "pool_inv p \<Longrightarrow> grants p p []"
  by (simp add: grants_def)

lemma grant_pages:
  assumes inv: "pool_inv p" and tk: "takes_pages ps n (free_page_runs p) runs'" and n: "n \<le> reserved_pages p"
    and p': "p' = p\<lparr>free_page_runs := runs', page_allocated := mark_all ps (page_allocated p),
      allocated_pages := allocated_pages p + n, reserved_pages := reserved_pages p - n\<rparr>"
  shows "grants p p' (map (minted p) ps)"
proof -
  have R: "spans_set (map run_span (free_page_runs p)) = free_indices (page_allocated p)"
    and len: "length (page_allocated p) = capacity_pages p"
    using inv by (simp_all add: pool_inv_def runs_inv_def)
  have T: "length ps = n" "distinct ps" "set ps \<subseteq> free_indices (page_allocated p)"
    "spans_ok (map run_span runs')" "spans_set (map run_span runs') = free_indices (page_allocated p) - set ps"
    using tk by (auto simp: takes_pages_def R)
  note M = mark_all_facts [OF T(3,2)]
  have al: "allocated_pages p + n + (reserved_pages p - n) \<le> capacity_pages p"
    using pool_inv_room [OF inv] n by linarith
  have inv': "pool_inv p'" using inv M T al unfolding p' pool_inv_def capacity_pages_def runs_inv_def by simp
  have ids: "pool_id p' = pool_id p" "pool_spec p' = pool_spec p" "capacity_pages p' = capacity_pages p"
    "page_generations p' = page_generations p" by (simp_all add: p' capacity_pages_def)
  have alloc: "page_allocated p' ! i \<longleftrightarrow> page_allocated p ! i \<or> int i \<in> set ps" if "i < capacity_pages p" for i
    using M that free_indices_mem [of i "mark_all ps (page_allocated p)"] free_indices_mem [of i "page_allocated p"]
      len by (auto simp: p')
  have new: "valid_handle p' (lease_handle (minted p i)) \<and> lease_belongs_to (minted p i) p
      \<and> (\<forall>h. valid_handle p h \<longrightarrow> handle_index h \<noteq> lease_index (minted p i))" if i: "i \<in> set ps" for i
  proof -
    have f: "0 \<le> i" "nat i < capacity_pages p" "\<not> page_allocated p ! nat i"
      using i T(3) len by (auto simp: free_indices_iff dest!: subsetD)
    then show ?thesis unfolding valid_handle_iff [OF inv'] valid_handle_iff [OF inv] ids
      using i by (auto simp: minted_def lease_handle_def lease_valid_def lease_belongs_to_def alloc)
  qed
  have "map lease_index (map (minted p) ps) = ps" by (simp add: minted_def o_def)
  moreover have "\<forall>h. valid_handle p h \<longrightarrow> valid_handle p' h"
    unfolding valid_handle_iff [OF inv'] valid_handle_iff [OF inv] ids using alloc by auto
  ultimately show ?thesis unfolding grants_def using inv' ids new T n by (auto simp: p')
qed

lemma materialize_grants:
  assumes inv: "pool_inv p" and own: "reservation_belongs_to r p" and res: "reservation_pages r \<le> reserved_pages p"
    and len: "length d \<le> target" "target - length d \<le> reservation_pages r" "target \<le> dest_capacity"
    and cur: "leases_current p d" and pred: "\<forall>h. pred = Some h \<longrightarrow> valid_handle p h"
  shows "\<exists>p' ls. materialize p r target dest_capacity d pred
      = Inr (p', r\<lparr>reservation_pages := reservation_pages r - (target - length d)\<rparr>, d @ ls)
    \<and> length ls = target - length d \<and> grants p p' ls"
proof (cases "target = length d")
  case True
  then show ?thesis using assms by (auto simp: materialize_def width_simps intro: grants_refl)
next
  case False
  define n where "n = target - length d"
  have n: "0 < n" "n \<le> reservation_pages r" "u32_sub target (length d) = n"
    using False len by (simp_all add: n_def width_simps)
  have room: "n \<le> capacity_pages p - allocated_pages p" using pool_inv_room [OF inv] n(2) res by linarith
  have cap: "u32_sub (capacity_pages p) (allocated_pages p) = capacity_pages p - allocated_pages p"
    using pool_inv_room [OF inv] by (simp add: width_simps)
  have bs: "runs_inv (page_allocated p) (free_page_runs p)"
    "n \<le> length (page_allocated p) - count_list (page_allocated p) True"
    using inv room by (simp_all add: pool_inv_def)
  obtain preferred where pref: "(case pred of
        Some h \<Rightarrow> res_bind (physical_index p h) (\<lambda>i. Inr (Some (i + 1)))
      | None \<Rightarrow> Inr (if d \<noteq> [] then Some (lease_index (last d) + 1) else None)) = Inr preferred"
    using pred by (cases pred) (auto simp: physical_index_def)
  obtain ps runs' where ps: "materialize_pages p preferred n = Inr (ps, runs')"
    "takes_pages ps n (free_page_runs p) runs'"
    using materialize_pages_ok [OF bs(1) n(1) bs(2)] by blast
  define p' where "p' = p\<lparr>free_page_runs := runs', page_allocated := mark_all ps (page_allocated p),
      allocated_pages := allocated_pages p + n, reserved_pages := reserved_pages p - n\<rparr>"
  have g: "grants p p' (map (minted p) ps)"
    using n(2) res by (intro grant_pages [OF inv ps(2)]) (simp_all add: p'_def)
  have "allocated_pages p + n \<le> u32_max" using room pool_inv_room [OF inv] pool_inv_u32(1) [OF inv] by linarith
  then have arith: "u32_add (allocated_pages p) n = allocated_pages p + n"
    "u32_sub (reserved_pages p) n = reserved_pages p - n" "u32_sub (reservation_pages r) n = reservation_pages r - n"
    using n(2) res by (simp_all add: width_simps)
  have "materialize p r target dest_capacity d pred
      = Inr (p', r\<lparr>reservation_pages := reservation_pages r - n\<rparr>, d @ map (minted p) ps)"
    using own len cur n room unfolding materialize_def
    by (simp add: Let_def pref ps(1) foldl_append_page arith cap p'_def)
  moreover have "length (map (minted p) ps) = n" using ps(2) by (simp add: takes_pages_def)
  ultimately show ?thesis using g unfolding n_def by blast
qed

lemma materialize_cases:
  assumes "pool_inv p" "reservation_belongs_to r p" "reservation_pages r \<le> reserved_pages p" "leases_current p d"
  shows "materialize p r target dest_capacity d pred = Inl InvalidArgument
    \<or> (\<exists>p' r' ls. materialize p r target dest_capacity d pred = Inr (p', r', d @ ls) \<and> grants p p' ls
         \<and> reservation_owner r' = reservation_owner r \<and> reservation_pages r' + length ls = reservation_pages r
         \<and> length d + length ls = target)"
proof (cases "length d \<le> target \<and> target - length d \<le> reservation_pages r \<and> target \<le> dest_capacity")
  case False
  then show ?thesis by (auto simp: materialize_def width_simps not_le Let_def)
next
  case True
  note T = True
  consider (same) "target = length d" | (stale) h where "pred = Some h" "\<not> valid_handle p h" "length d < target"
    | (ok) "\<forall>h. pred = Some h \<longrightarrow> valid_handle p h" using T le_neq_implies_less by fastforce
  then show ?thesis
  proof cases
    case same
    then show ?thesis using T assms
      by (intro disjI2 exI [of _ p] exI [of _ r] exI [of _ "[]"]) (simp add: materialize_def width_simps grants_refl)
  next
    case stale
    have "target - length d \<le> capacity_pages p - allocated_pages p"
      using T assms(3) pool_inv_room [OF assms(1)] by linarith
    moreover have "u32_sub (capacity_pages p) (allocated_pages p) = capacity_pages p - allocated_pages p"
      "u32_sub target (length d) = target - length d"
      using pool_inv_room [OF assms(1)] T by (simp_all add: width_simps)
    ultimately show ?thesis using stale T assms by (simp add: materialize_def physical_index_def Let_def)
  next
    case ok
    then obtain p' ls where m: "materialize p r target dest_capacity d pred
      = Inr (p', r\<lparr>reservation_pages := reservation_pages r - (target - length d)\<rparr>, d @ ls)"
      "length ls = target - length d" "grants p p' ls"
      using materialize_grants [OF assms(1-3) _ _ _ assms(4)] T by blast
    have "reservation_pages r - (target - length d) + length ls = reservation_pages r" "length d + length ls = target"
      using m(2) T by arith+
    then show ?thesis using m(1,3) by (intro disjI2 exI conjI) (assumption | simp)+
  qed
qed

lemma materialize_one_grants:
  assumes inv: "pool_inv p" and own: "reservation_belongs_to r p" and res: "reservation_pages r \<le> reserved_pages p"
    and pos: "0 < reservation_pages r"
  shows "\<exists>p' l. materialize_one p r = Inr (p', r\<lparr>reservation_pages := reservation_pages r - 1\<rparr>, l) \<and> grants p p' [l]"
proof -
  have room: "1 \<le> capacity_pages p - allocated_pages p" using pool_inv_room [OF inv] pos res by linarith
  have bs: "runs_inv (page_allocated p) (free_page_runs p)"
    "capacity_pages p - allocated_pages p = length (page_allocated p) - count_list (page_allocated p) True"
    using inv by (simp_all add: pool_inv_def)
  have "free_page_runs p \<noteq> []" using runs_total [OF bs(1)] room bs(2) by auto
  then obtain run runs where runs: "free_page_runs p = run # runs" by (cases "free_page_runs p") auto
  have ok: "spans_ok (map run_span (free_page_runs p))" using bs(1) by (simp add: runs_inv_def)
  then have rc: "0 < run_count run" by (simp add: runs)
  define runs' where "runs' = (if run_count run - 1 = 0 then runs
    else \<lparr>run_begin = run_begin run + 1, run_count = run_count run - 1\<rparr> # runs)"
  have tk: "take_from_runs 1 (free_page_runs p) = Inr ([run_begin run], runs')"
  proof (cases "run_count run = 1")
    case True
    have "take_from_runs 0 runs = Inr ([], runs)" by (cases runs) simp_all
    then show ?thesis using True by (simp add: runs runs'_def)
  next
    case False
    then show ?thesis using rc by (cases run) (auto simp: runs runs'_def min_def)
  qed
  have "int 1 \<le> spans_total (map run_span (free_page_runs p))" using runs_total [OF bs(1)] bs(2) room by simp
  from take_from_runs_ok [OF ok this] tk have T: "takes_pages [run_begin run] 1 (free_page_runs p) runs'" by simp
  define p' where "p' = p\<lparr>free_page_runs := runs', page_allocated := mark_all [run_begin run] (page_allocated p),
      allocated_pages := allocated_pages p + 1, reserved_pages := reserved_pages p - 1\<rparr>"
  have g: "grants p p' (map (minted p) [run_begin run])"
    using pos res by (intro grant_pages [OF inv T]) (simp_all add: p'_def)
  have "allocated_pages p + 1 \<le> u32_max" using room pool_inv_room [OF inv] pool_inv_u32(1) [OF inv] by linarith
  then have arith: "u32_add (allocated_pages p) 1 = allocated_pages p + 1"
    "u32_sub (reserved_pages p) 1 = reserved_pages p - 1" "u32_sub (reservation_pages r) 1 = reservation_pages r - 1"
    "u32_sub (run_count run) 1 = run_count run - 1"
    using pos res rc by (simp_all add: width_simps)
  have "materialize_one p r = Inr (p', r\<lparr>reservation_pages := reservation_pages r - 1\<rparr>, minted p (run_begin run))"
    using own pos unfolding materialize_one_def
    by (simp add: runs arith [unfolded One_nat_def] Let_def p'_def runs'_def mark_all_def minted_def)
  then show ?thesis using g by auto
qed

subsection \<open>Giving pages back\<close>

text \<open>What taking leases back means: their handles are dead, every handle to another page keeps its
  status, and only the allocated count changes.\<close>

definition returns :: "DeviceKVPagePool \<Rightarrow> DeviceKVPagePool \<Rightarrow> DeviceKVPageLease list \<Rightarrow> bool" where
  "returns p p' ls \<longleftrightarrow>
     pool_inv p' \<and> pool_id p' = pool_id p \<and> pool_spec p' = pool_spec p \<and>
     reserved_pages p' = reserved_pages p \<and> allocated_pages p' + length ls = allocated_pages p \<and>
     (\<forall>l \<in> set ls. \<not> valid_handle p' (lease_handle l)) \<and>
     (\<forall>h. handle_index h \<notin> lease_index ` set ls \<longrightarrow> valid_handle p' h = valid_handle p h)"

lemma lease_handle_live:
  "lease_belongs_to l p \<Longrightarrow> lease_handle l = \<lparr>handle_owner = lease_owner l, handle_index = lease_index l,
     handle_generation = lease_generation l\<rparr> \<and> lease_valid l"
  by (simp add: lease_handle_def lease_valid_def lease_belongs_to_def)

lemma lease_release_live:
  assumes "pool_inv p" "lease_belongs_to l p" "valid_handle p (lease_handle l)"
  shows "lease_release p l = (release_page p (lease_index l) (lease_generation l), null_lease, True)"
    and "returns p (release_page p (lease_index l) (lease_generation l)) [l]"
proof -
  note L = lease_handle_live [OF assms(2)]
  show "lease_release p l = (release_page p (lease_index l) (lease_generation l), null_lease, True)"
    using L assms(3) by (simp add: lease_release_def)
  have "release_page p (lease_index l) (lease_generation l)
      = release_page p (handle_index (lease_handle l)) (handle_generation (lease_handle l))" using L by simp
  from release_page_inv [OF assms(1,3) this]
  show "returns p (release_page p (lease_index l) (lease_generation l)) [l]" using L by (simp add: returns_def)
qed

text \<open>Releasing a lease that is no longer live changes nothing.\<close>

lemma lease_release_stale:
  "\<not> valid_handle p (lease_handle l) \<Longrightarrow> fst (lease_release p l) = p \<and> \<not> snd (snd (lease_release p l))"
  by (auto simp: lease_release_def lease_handle_def)

lemma destroy_leases_returns:
  assumes "pool_inv p" "leases_current p ls" "distinct (map lease_index ls)"
  shows "returns p (destroy_leases p ls) ls"
  using assms
proof (induction ls arbitrary: p)
  case Nil
  then show ?case by (simp add: returns_def)
next
  case (Cons l ls)
  have l: "lease_belongs_to l p" "valid_handle p (lease_handle l)" using Cons.prems by (auto simp: leases_current_def)
  define p1 where "p1 = release_page p (lease_index l) (lease_generation l)"
  note R = lease_release_live [OF Cons.prems(1) l, folded p1_def]
  have inv1: "pool_inv p1" "pool_id p1 = pool_id p" using R(2) by (simp_all add: returns_def)
  have idx: "lease_belongs_to m p \<Longrightarrow> handle_index (lease_handle m) = lease_index m" for m
    using lease_handle_live [of m p] by simp
  have cur1: "leases_current p1 ls" unfolding leases_current_def
  proof
    fix m assume m: "m \<in> set ls"
    then have mp: "lease_belongs_to m p" "valid_handle p (lease_handle m)" using Cons.prems(2)
      by (auto simp: leases_current_def)
    have "lease_index m \<in> lease_index ` set ls" using m by (rule imageI)
    then have "lease_index m \<noteq> lease_index l" using Cons.prems(3) by auto
    then have "valid_handle p1 (lease_handle m)" using R(2) mp idx [OF mp(1)] by (simp add: returns_def)
    then show "lease_belongs_to m p1 \<and> valid_handle p1 (lease_handle m)"
      using mp inv1 by (simp add: lease_belongs_to_def)
  qed
  have IH: "returns p1 (destroy_leases p1 ls) ls" using Cons.IH [OF inv1(1) cur1] Cons.prems(3) by simp
  have "lease_index l \<notin> lease_index ` set ls" using Cons.prems(3) by auto
  then have "\<not> valid_handle (destroy_leases p1 ls) (lease_handle l)"
    using IH R(2) idx [OF l(1)] by (simp add: returns_def)
  then show ?case using IH R by (auto simp: returns_def)
qed

lemma reserved_grow:
  assumes "pool_inv p" "allocated_pages p + reserved_pages p + n \<le> capacity_pages p"
  shows "pool_inv (p\<lparr>reserved_pages := reserved_pages p + n\<rparr>)" "u32_add (reserved_pages p) n = reserved_pages p + n"
  using assms pool_inv_u32(1) [OF assms(1)]
  by (auto simp: pool_inv_def capacity_pages_def u32_add_exact)

lemma valid_handle_reserved [simp]: "valid_handle (p\<lparr>reserved_pages := n\<rparr>) h = valid_handle p h"
  by (simp add: valid_handle_def capacity_pages_def)

lemma dematerialize_returns:
  assumes inv: "pool_inv p" and own: "reservation_belongs_to r p" and res: "reservation_pages r \<le> reserved_pages p"
    and t: "target \<le> length s" and cur: "leases_current p s" and dist: "distinct (map lease_index s)"
    and held: "length s \<le> allocated_pages p"
  shows "\<exists>p'. dematerialize p r target s
      = Inr (p'\<lparr>reserved_pages := reserved_pages p + (length s - target)\<rparr>,
             r\<lparr>reservation_pages := reservation_pages r + (length s - target)\<rparr>, take target s)
    \<and> returns p p' (drop target s)
    \<and> pool_inv (p'\<lparr>reserved_pages := reserved_pages p + (length s - target)\<rparr>)"
proof -
  define n where "n = length s - target"
  define p' where "p' = destroy_leases p (drop target s)"
  have cap: "allocated_pages p + reserved_pages p \<le> u32_max" using pool_inv_u32(2) [OF inv] .
  then have n: "n mod Suc u32_max = n" "\<not> u32_max - reservation_pages r < n"
    "u32_add (reservation_pages r) n = reservation_pages r + n"
    using held res by (simp_all add: n_def u32_add_exact not_less)
  have R: "returns p p' (drop target s)"
    unfolding p'_def using cur dist
    by (intro destroy_leases_returns [OF inv]) (auto simp: leases_current_def drop_map [symmetric] dest: in_set_dropD)
  have "allocated_pages p' + reserved_pages p' + n \<le> capacity_pages p'"
    using R pool_inv_room [OF inv] by (simp add: returns_def n_def capacity_pages_def)
  moreover have "pool_inv p'" "reserved_pages p' = reserved_pages p" using R by (simp_all add: returns_def)
  ultimately have G: "pool_inv (p'\<lparr>reserved_pages := reserved_pages p + n\<rparr>)"
    "u32_add (reserved_pages p') n = reserved_pages p + n" using reserved_grow [of p' n] by simp_all
  show ?thesis
  proof (cases "n = 0")
    case True
    then have "dematerialize p r target s = Inr (p, r, s)" "p' = p" "take target s = s"
      using own t cur by (simp_all add: dematerialize_def n_def p'_def)
    then show ?thesis using True R G unfolding n_def [symmetric] by (intro exI [of _ p]) simp
  next
    case False
    have "dematerialize p r target s = Inr (p'\<lparr>reserved_pages := reserved_pages p + n\<rparr>,
        r\<lparr>reservation_pages := reservation_pages r + n\<rparr>, take target s)"
      using own t cur False unfolding dematerialize_def n_def [symmetric]
      by (simp add: n G(2) p'_def [symmetric] not_less [symmetric])
    then show ?thesis using R G unfolding n_def [symmetric] by blast
  qed
qed

lemma dematerialize_one_returns:
  assumes inv: "pool_inv p" and own: "reservation_belongs_to r p" and res: "reservation_pages r \<le> reserved_pages p"
    and l: "lease_belongs_to l p" "valid_handle p (lease_handle l)"
  shows "\<exists>p'. dematerialize_one p r l
      = Inr (p'\<lparr>reserved_pages := reserved_pages p + 1\<rparr>, r\<lparr>reservation_pages := reservation_pages r + 1\<rparr>, null_lease)
    \<and> returns p p' [l] \<and> pool_inv (p'\<lparr>reserved_pages := reserved_pages p + 1\<rparr>)"
proof -
  define p' where "p' = release_page p (lease_index l) (lease_generation l)"
  note R = lease_release_live [OF inv l, folded p'_def]
  have al: "1 \<le> allocated_pages p" using R(2) by (simp add: returns_def)
  have cap: "allocated_pages p + reserved_pages p \<le> u32_max" using pool_inv_u32(2) [OF inv] .
  have lt: "reservation_pages r < u32_max" using al cap res by linarith
  have room: "allocated_pages p' + reserved_pages p' + 1 \<le> capacity_pages p'"
    using R(2) pool_inv_room [OF inv] by (simp add: returns_def capacity_pages_def)
  have rp: "reserved_pages p' = reserved_pages p" "pool_inv p'" using R(2) by (simp_all add: returns_def)
  note G = reserved_grow [OF rp(2) room, unfolded rp(1)]
  have "dematerialize_one p r l = Inr (p'\<lparr>reserved_pages := reserved_pages p + 1\<rparr>,
      r\<lparr>reservation_pages := reservation_pages r + 1\<rparr>, null_lease)"
    using own l lt R(1) G(2) rp unfolding dematerialize_one_def by (simp add: u32_add_exact)
  then show ?thesis using R(2) G(1) by blast
qed

section \<open>Distinct pages\<close>

lemma mark_pages_spec:
  assumes "pool_inv p"
  shows "(\<exists>ms. fst (mark_pages p hs) = p\<lparr>validation_marks := ms\<rparr> \<and> length ms = capacity_pages p
        \<and> (\<forall>m \<in> set ms. m \<le> validation_stamp p))
    \<and> (is_ok (snd (mark_pages p hs)) \<longleftrightarrow>
        (\<forall>h \<in> set hs. valid_handle p h \<and> validation_marks p ! nat (handle_index h) \<noteq> validation_stamp p)
        \<and> distinct (map handle_index hs))"
  using assms
proof (induction hs arbitrary: p)
  case Nil
  then show ?case by (auto simp: pool_inv_def intro!: exI [of _ "validation_marks p"])
next
  case (Cons h hs)
  define i where "i = nat (handle_index h)"
  define p1 where "p1 = p\<lparr>validation_marks := (validation_marks p)[i := validation_stamp p]\<rparr>"
  have same: "capacity_pages p1 = capacity_pages p" "validation_stamp p1 = validation_stamp p"
    "valid_handle p1 g = valid_handle p g" for g by (simp_all add: p1_def capacity_pages_def valid_handle_def)
  have inv1: "pool_inv p1"
  proof -
    have "\<forall>m \<in> set ((validation_marks p)[i := validation_stamp p]). m \<le> validation_stamp p"
      using Cons.prems set_update_subset_insert by (fastforce simp: pool_inv_def)
    then show ?thesis using Cons.prems by (simp add: pool_inv_def p1_def capacity_pages_def)
  qed
  show ?case
  proof (cases "valid_handle p h \<and> validation_marks p ! i \<noteq> validation_stamp p")
    case False
    have self: "\<exists>ms. p = p\<lparr>validation_marks := ms\<rparr> \<and> length ms = capacity_pages p
        \<and> (\<forall>m \<in> set ms. m \<le> validation_stamp p)"
      using Cons.prems by (intro exI [of _ "validation_marks p"]) (simp add: pool_inv_def)
    from False consider "\<not> valid_handle p h" | "valid_handle p h" "validation_marks p ! i = validation_stamp p" by blast
    then show ?thesis using self by cases (auto simp: physical_index_def i_def)
  next
    case True
    then have step: "mark_pages p (h # hs) = mark_pages p1 hs" by (simp add: physical_index_def i_def p1_def)
    have hi: "0 \<le> handle_index h" "i < length (validation_marks p)"
      using True Cons.prems by (auto simp: valid_handle_iff i_def pool_inv_def)
    have marks: "validation_marks p1 ! nat (handle_index g) \<noteq> validation_stamp p
        \<longleftrightarrow> handle_index g \<noteq> handle_index h \<and> validation_marks p ! nat (handle_index g) \<noteq> validation_stamp p"
      if "valid_handle p g" for g
    proof -
      have "0 \<le> handle_index g" using that Cons.prems by (simp add: valid_handle_iff)
      then have "nat (handle_index g) = i \<longleftrightarrow> handle_index g = handle_index h"
        using hi(1) by (auto simp: i_def)
      then show ?thesis using hi(2) by (auto simp: p1_def nth_list_update)
    qed
    note IH = Cons.IH [OF inv1, unfolded same]
    have "(\<exists>ms. fst (mark_pages p1 hs) = p\<lparr>validation_marks := ms\<rparr> \<and> length ms = capacity_pages p
        \<and> (\<forall>m \<in> set ms. m \<le> validation_stamp p))" using IH by (simp add: p1_def)
    moreover have "is_ok (snd (mark_pages p1 hs)) \<longleftrightarrow>
        (\<forall>g \<in> set (h # hs). valid_handle p g \<and> validation_marks p ! nat (handle_index g) \<noteq> validation_stamp p)
        \<and> distinct (map handle_index (h # hs))"
    proof -
      have "valid_handle p g \<and> validation_marks p1 ! nat (handle_index g) \<noteq> validation_stamp p
          \<longleftrightarrow> valid_handle p g \<and> validation_marks p ! nat (handle_index g) \<noteq> validation_stamp p
            \<and> handle_index g \<noteq> handle_index h" for g using marks by blast
      then have "(\<forall>g \<in> set hs. valid_handle p g \<and> validation_marks p1 ! nat (handle_index g) \<noteq> validation_stamp p)
          \<longleftrightarrow> (\<forall>g \<in> set hs. valid_handle p g \<and> validation_marks p ! nat (handle_index g) \<noteq> validation_stamp p)
            \<and> handle_index h \<notin> handle_index ` set hs" by (simp only:) (auto simp: image_iff)
      then show ?thesis using IH True by (simp add: i_def)
    qed
    ultimately show ?thesis unfolding step by blast
  qed
qed

lemma validate_distinct_pages_spec:
  assumes inv: "pool_inv p"
  shows "(\<exists>ms s. fst (validate_distinct_pages p hs) = p\<lparr>validation_stamp := s, validation_marks := ms\<rparr>)
    \<and> pool_inv (fst (validate_distinct_pages p hs))
    \<and> (is_ok (snd (validate_distinct_pages p hs)) \<longleftrightarrow>
        (\<forall>h \<in> set hs. valid_handle p h) \<and> distinct (map handle_index hs))"
proof -
  define s where "s = (if validation_stamp p + 1 = 0 then 1 else validation_stamp p + 1)"
  define ms0 where "ms0 = (if validation_stamp p + 1 = 0 then replicate (length (validation_marks p)) 0
    else validation_marks p)"
  define q where "q = p\<lparr>validation_stamp := s, validation_marks := ms0\<rparr>"
  have run: "validate_distinct_pages p hs = mark_pages q hs"
    by (simp add: validate_distinct_pages_def q_def s_def ms0_def)
  have lt: "m < s" if "m \<in> set ms0" for m
  proof (cases "validation_stamp p + 1 = 0")
    case True
    then show ?thesis using that by (simp add: ms0_def s_def)
  next
    case False
    then have "validation_stamp p < validation_stamp p + 1" using unatSuc [of "validation_stamp p"] by (simp add: word_less_nat_alt add.commute)
    moreover have "m \<le> validation_stamp p" using that inv False by (simp add: ms0_def pool_inv_def)
    ultimately show ?thesis using False by (simp add: s_def)
  qed
  have len: "length ms0 = length (validation_marks p)" by (simp add: ms0_def)
  have invq: "pool_inv q" using inv lt len by (auto simp: pool_inv_def q_def capacity_pages_def less_imp_le)
  have vq: "valid_handle q h = valid_handle p h" for h by (simp add: q_def valid_handle_def capacity_pages_def)
  note M = mark_pages_spec [OF invq, of hs]
  from M obtain ms where ms: "fst (mark_pages q hs) = q\<lparr>validation_marks := ms\<rparr>" "length ms = capacity_pages q"
    "\<forall>m \<in> set ms. m \<le> validation_stamp q" by blast
  have "validation_marks q ! nat (handle_index h) \<noteq> validation_stamp q" if "valid_handle p h" for h
  proof -
    have "nat (handle_index h) < length ms0"
      using that inv len by (simp add: valid_handle_iff pool_inv_def)
    then show ?thesis using lt by (auto simp: q_def dest!: nth_mem)
  qed
  then have "is_ok (snd (mark_pages q hs)) \<longleftrightarrow> (\<forall>h \<in> set hs. valid_handle p h) \<and> distinct (map handle_index hs)"
    using M vq by auto
  moreover have "pool_inv (q\<lparr>validation_marks := ms\<rparr>)"
    using invq ms(2,3) by (simp add: pool_inv_def capacity_pages_def)
  ultimately show ?thesis unfolding run ms(1) by (auto simp: q_def)
qed

end
