(* ===== verification/Example_Pool.thy ===== *)
theory Example_Pool
  imports Device_Page_Pool
begin

text \<open>
  One concrete device page pool, planned, bound and constructed by the functions of the model:
  four one-plane pages on a 256-byte backing. It instantiates the hypotheses of properties elsewhere.
\<close>

definition example_geometry :: KVPageGeometry where
  "example_geometry = \<lparr>page_tokens = 64, device_plane_order = PageMajor,
     geometry_planes = [\<lparr>plane_dtype = U8, leading_extent = 1, head_extent = 1, plane_alignment = 256\<rparr>]\<rparr>"

definition example_spec :: DeviceKVPagePoolSpec where
  "example_spec = \<lparr>page_group_count = 4, spec_geometry = example_geometry\<rparr>"

definition example_layout :: DeviceKVPagePoolLayout where
  "example_layout = \<lparr>pool_layout_spec = example_spec,
     pool_layout_planes = [\<lparr>planned_geometry = hd (geometry_planes example_geometry),
       planned_storage = \<lparr>region = \<lparr>offset = 0, bytes = 256, alignment = 256\<rparr>, region_dtype = U8, shape = [1, 64, 1, 4]\<rparr>\<rparr>]\<rparr>"

definition example_backing :: DeviceSpan where
  "example_backing = \<lparr>span_data = Some 4096, span_bytes = 256\<rparr>"

definition example_pool :: DeviceKVPagePool where
  "example_pool = \<lparr>pool_id = 7, pool_spec = example_spec,
     pool_planes = [\<lparr>data = Some 4096, dtype = U8, ne = [1, 64, 1, 4], nb = [1, 1, 64, 64]\<rparr>],
     free_page_runs = [\<lparr>run_begin = 0, run_count = 4\<rparr>], page_generations = [1, 1, 1, 1],
     page_allocated = [False, False, False, False], validation_marks = [0, 0, 0, 0],
     validation_stamp = 0, allocated_pages = 0, reserved_pages = 0\<rparr>"

lemma four_and_two: "replicate 4 x = [x, x, x, x]" "[0..<2] = [0, 1]"
  by (simp_all add: numeral_eq_Suc)

lemma example_pool_new: "new_device_pool 7 example_backing example_layout = Inr example_pool"
proof -
  have "is_power_of_two 256" unfolding power_of_two_iff by (rule exI [of _ 8]) simp
  then show ?thesis
    by (simp add: four_and_two new_device_pool_def example_layout_def example_spec_def example_geometry_def example_backing_def
        example_pool_def validate_geometry_def kPagedKVPageSize_def checked_i32_def i32_max_def tensor_region_bind_def
        make_tensor_def normalize_shape_def set_contiguous_strides_def checked_mul_i64_def i64_max_def
        tensor_bytes_def numel_def shape_numel_def u64_max_def region_bind_def u64_add_def plane_matches_def Let_def)
qed

lemma example_pool_inv: "pool_inv example_pool"
  using new_device_pool_inv [OF example_pool_new] .

end
