(* ===== verification/Page_Clients.thy ===== *)
theory Page_Clients
  imports Example_Pool
begin

text \<open>
  The device page pool in use: one pool and the clients that hold its capabilities, each client one
  reservation and one vector of page leases (the pattern of the sequence caches and of the logical
  page stores). A client operation is one call of the pool's interface on the capabilities of one
  client, moved-out leases and reservations being replaced by what the call returns; a system step is
  any such call, with arguments in the range of their C++ types. Shown for every reachable system:
  two leases never name the same page, the handles the pool accepts are exactly those of the leases
  held, the counters are the sums over the clients, and no call ever reaches an invariant-violation
  exception, \<^verbatim>\<open>std::terminate\<close> or an access outside the run vector.
\<close>

record page_client =
  entitlement :: DeviceKVPageReservation
  held_pages :: "DeviceKVPageLease list"

record page_system =
  sys_pool :: DeviceKVPagePool
  clients :: "page_client list"

datatype client_op =
    Reserve nat
  | Resize nat nat
  | Materialize nat nat nat "DeviceKVPageHandle option"
  | MaterializeOne nat
  | Dematerialize nat nat
  | DematerializeOne nat nat
  | ReleaseLease nat nat
  | ClearReservation nat
  | Close nat
  | ValidateDistinct "DeviceKVPageHandle list"

definition remove_nth :: "nat \<Rightarrow> 'a list \<Rightarrow> 'a list" where
  "remove_nth j xs = take j xs @ drop (Suc j) xs"

text \<open>The effect of a call that either throws before changing anything or returns the new pool,
  reservation and leases of client \<open>k\<close>.\<close>

definition settle ::
  "nat \<Rightarrow> page_system \<Rightarrow> (DeviceKVPagePool \<times> DeviceKVPageReservation \<times> DeviceKVPageLease list) res
   \<Rightarrow> page_system \<times> unit res" where
  "settle k s m =
     (case m of
        Inl e \<Rightarrow> (s, Inl e)
      | Inr (p, r, ls) \<Rightarrow>
          (\<lparr>sys_pool = p, clients = (clients s)[k := \<lparr>entitlement = r, held_pages = ls\<rparr>]\<rparr>, Inr ()))"

fun exec_op :: "client_op \<Rightarrow> page_system \<Rightarrow> page_system \<times> unit res" where
  "exec_op (Reserve n) s =
     (case reserve (sys_pool s) n of
        (p, None) \<Rightarrow> (s\<lparr>sys_pool := p\<rparr>, Inr ())
      | (p, Some r) \<Rightarrow> (\<lparr>sys_pool = p, clients = clients s @ [\<lparr>entitlement = r, held_pages = []\<rparr>]\<rparr>, Inr ()))"
| "exec_op (Resize k n) s =
     (let c = clients s ! k in
      settle k s (map_sum id (\<lambda>(p, r). (p, r, held_pages c)) (resize_reservation (sys_pool s) (entitlement c) n)))"
| "exec_op (Materialize k target dest_capacity pred) s =
     (let c = clients s ! k in
      settle k s (materialize (sys_pool s) (entitlement c) target dest_capacity (held_pages c) pred))"
| "exec_op (MaterializeOne k) s =
     (let c = clients s ! k in
      settle k s (map_sum id (\<lambda>(p, r, l). (p, r, held_pages c @ [l])) (materialize_one (sys_pool s) (entitlement c))))"
| "exec_op (Dematerialize k target) s =
     (let c = clients s ! k in
      settle k s (dematerialize (sys_pool s) (entitlement c) target (held_pages c)))"
| "exec_op (DematerializeOne k j) s =
     (let c = clients s ! k in
      settle k s (map_sum id (\<lambda>(p, r, l). (p, r, remove_nth j (held_pages c)))
        (dematerialize_one (sys_pool s) (entitlement c) (held_pages c ! j))))"
| "exec_op (ReleaseLease k j) s =
     (let c = clients s ! k in
      case lease_release (sys_pool s) (held_pages c ! j) of
        (p, l, ok) \<Rightarrow> settle k s (Inr (p, entitlement c, remove_nth j (held_pages c))))"
| "exec_op (ClearReservation k) s =
     (let c = clients s ! k in
      settle k s (map_sum id (\<lambda>(p, r). (p, r, held_pages c)) (reservation_clear (sys_pool s) (entitlement c))))"
| "exec_op (Close k) s =
     (let c = clients s ! k in
      case reservation_release (sys_pool s) (entitlement c) of
        Inl e \<Rightarrow> (s, Inl e)
      | Inr (p, r) \<Rightarrow>
          (\<lparr>sys_pool = destroy_leases p (held_pages c), clients = remove_nth k (clients s)\<rparr>, Inr ()))"
| "exec_op (ValidateDistinct hs) s =
     (case validate_distinct_pages (sys_pool s) hs of (p, e) \<Rightarrow> (s\<lparr>sys_pool := p\<rparr>, e))"

text \<open>An operation names an existing client and lease, and its page counts are 32-bit values.\<close>

fun op_wf :: "client_op \<Rightarrow> page_system \<Rightarrow> bool" where
  "op_wf (Reserve n) s \<longleftrightarrow> n \<le> u32_max"
| "op_wf (Resize k n) s \<longleftrightarrow> k < length (clients s) \<and> n \<le> u32_max"
| "op_wf (Materialize k target dest_capacity pred) s \<longleftrightarrow> k < length (clients s) \<and> target \<le> u32_max"
| "op_wf (MaterializeOne k) s \<longleftrightarrow> k < length (clients s)"
| "op_wf (Dematerialize k target) s \<longleftrightarrow> k < length (clients s) \<and> target \<le> u32_max"
| "op_wf (DematerializeOne k j) s \<longleftrightarrow> k < length (clients s) \<and> j < length (held_pages (clients s ! k))"
| "op_wf (ReleaseLease k j) s \<longleftrightarrow> k < length (clients s) \<and> j < length (held_pages (clients s ! k))"
| "op_wf (ClearReservation k) s \<longleftrightarrow> k < length (clients s)"
| "op_wf (Close k) s \<longleftrightarrow> k < length (clients s)"
| "op_wf (ValidateDistinct hs) s \<longleftrightarrow> True"

inductive system_step :: "page_system \<Rightarrow> page_system \<Rightarrow> bool" where
  step: "op_wf op s \<Longrightarrow> system_step s (fst (exec_op op s))"

inductive system_reachable :: "page_system \<Rightarrow> bool" where
  init: "new_device_pool self backing l = Inr p \<Longrightarrow> system_reachable \<lparr>sys_pool = p, clients = []\<rparr>"
| step: "system_reachable s \<Longrightarrow> system_step s t \<Longrightarrow> system_reachable t"

inductive_simps system_step_iff: "system_step s t"

definition held_leases :: "page_system \<Rightarrow> DeviceKVPageLease list" where
  "held_leases s = concat (map held_pages (clients s))"

section \<open>Invariant\<close>

definition system_inv :: "page_system \<Rightarrow> bool" where
  "system_inv s \<longleftrightarrow>
     pool_inv (sys_pool s) \<and>
     (\<forall>c \<in> set (clients s). reservation_belongs_to (entitlement c) (sys_pool s)) \<and>
     leases_current (sys_pool s) (held_leases s) \<and>
     distinct (map lease_index (held_leases s)) \<and>
     (\<Sum>c \<leftarrow> clients s. reservation_pages (entitlement c)) = reserved_pages (sys_pool s) \<and>
     length (held_leases s) = allocated_pages (sys_pool s)"

lemma leases_current_append [simp]:
  "leases_current p (xs @ ys) \<longleftrightarrow> leases_current p xs \<and> leases_current p ys"
  by (auto simp: leases_current_def)

lemma lease_index_handle: "lease_belongs_to l p \<Longrightarrow> handle_index (lease_handle l) = lease_index l"
  using lease_handle_live [of l p] by simp

lemma belongs_same_id:
  "pool_id q = pool_id p \<Longrightarrow> lease_belongs_to l q = lease_belongs_to l p"
  "pool_id q = pool_id p \<Longrightarrow> reservation_belongs_to r q = reservation_belongs_to r p"
  by (simp_all add: lease_belongs_to_def reservation_belongs_to_def)

text \<open>Replacing the capabilities of one client.\<close>

lemma system_inv_split:
  assumes "system_inv s" "k < length (clients s)"
  obtains xs ys c where "clients s = xs @ c # ys" "k = length xs" "c = clients s ! k"
  using assms(2) by (metis id_take_nth_drop length_take min.absorb4)

definition others :: "page_client list \<Rightarrow> page_client list \<Rightarrow> DeviceKVPageLease list" where
  "others xs ys = concat (map held_pages xs) @ concat (map held_pages ys)"

definition page_indices :: "DeviceKVPageLease list \<Rightarrow> int set" where
  "page_indices ls = lease_index ` set ls"

lemma page_indices_simps [simp]:
  "page_indices [] = {}" "page_indices (xs @ ys) = page_indices xs \<union> page_indices ys"
  by (auto simp: page_indices_def)

lemma page_indicesI: "l \<in> set ls \<Longrightarrow> lease_index l \<in> page_indices ls"
  by (simp add: page_indices_def)

lemma system_inv_client:
  assumes cl: "clients s = xs @ c # ys"
  shows "system_inv s \<longleftrightarrow> pool_inv (sys_pool s)
    \<and> (\<forall>d \<in> set xs \<union> set ys. reservation_belongs_to (entitlement d) (sys_pool s))
    \<and> reservation_belongs_to (entitlement c) (sys_pool s)
    \<and> leases_current (sys_pool s) (held_pages c) \<and> leases_current (sys_pool s) (others xs ys)
    \<and> distinct (map lease_index (held_pages c)) \<and> distinct (map lease_index (others xs ys))
    \<and> page_indices (held_pages c) \<inter> page_indices (others xs ys) = {}
    \<and> (\<Sum>d \<leftarrow> xs @ ys. reservation_pages (entitlement d)) + reservation_pages (entitlement c) = reserved_pages (sys_pool s)
    \<and> length (others xs ys) + length (held_pages c) = allocated_pages (sys_pool s)"
proof -
  define A where "A = concat (map held_pages xs)"
  define B where "B = concat (map held_pages ys)"
  have h: "held_leases s = A @ held_pages c @ B" by (simp add: held_leases_def cl A_def B_def)
  have o: "others xs ys = A @ B" by (simp add: others_def A_def B_def)
  have d: "distinct (map lease_index (A @ held_pages c @ B)) \<longleftrightarrow>
      distinct (map lease_index (held_pages c)) \<and> distinct (map lease_index (A @ B))
      \<and> page_indices (held_pages c) \<inter> page_indices (A @ B) = {}"
    unfolding map_append distinct_append set_append set_map page_indices_def image_Un by blast
  show ?thesis unfolding system_inv_def h o d
    by (simp add: cl) (use add.assoc add.commute in \<open>auto simp: ac_simps\<close>)
qed

lemma system_replace:
  assumes inv: "system_inv s" and cl: "clients s = xs @ c # ys"
    and q: "pool_inv q" "pool_id q = pool_id (sys_pool s)"
    and old: "leases_current q (others xs ys)"
    and new: "leases_current q ls" "distinct (map lease_index ls)"
    and apart: "page_indices ls \<inter> page_indices (others xs ys) = {}"
    and res: "reservation_belongs_to r q"
    and rc: "reserved_pages q + reservation_pages (entitlement c) = reserved_pages (sys_pool s) + reservation_pages r"
    and ac: "allocated_pages q + length (held_pages c) = allocated_pages (sys_pool s) + length ls"
  shows "system_inv \<lparr>sys_pool = q, clients = xs @ \<lparr>entitlement = r, held_pages = ls\<rparr> # ys\<rparr>"
proof -
  have cl': "clients \<lparr>sys_pool = q, clients = xs @ \<lparr>entitlement = r, held_pages = ls\<rparr> # ys\<rparr>
      = xs @ \<lparr>entitlement = r, held_pages = ls\<rparr> # ys" by simp
  show ?thesis using inv q old new apart res rc ac
    unfolding system_inv_client [OF cl] system_inv_client [OF cl'] by (simp add: belongs_same_id [OF q(2)])
qed

lemma system_grant:
  assumes inv: "system_inv s" and cl: "clients s = xs @ c # ys" and g: "grants (sys_pool s) q ls"
    and r: "reservation_owner r = reservation_owner (entitlement c)"
      "reservation_pages r + length ls = reservation_pages (entitlement c)"
  shows "system_inv \<lparr>sys_pool = q, clients = xs @ \<lparr>entitlement = r, held_pages = held_pages c @ ls\<rparr> # ys\<rparr>"
proof (rule system_replace [OF inv cl])
  note I = inv [unfolded system_inv_client [OF cl]]
  show id: "pool_inv q" "pool_id q = pool_id (sys_pool s)" using g by (simp_all add: grants_def)
  have keep: "leases_current (sys_pool s) ms \<Longrightarrow> leases_current q ms" for ms
    using g by (auto simp: leases_current_def grants_def belongs_same_id [OF id(2)])
  then show "leases_current q (others xs ys)" using I by blast
  have "leases_current q ls" using g by (auto simp: leases_current_def grants_def belongs_same_id [OF id(2)])
  then show "leases_current q (held_pages c @ ls)" using I keep by simp
  have fresh: "page_indices ls \<inter> page_indices ms = {}" if ms: "leases_current (sys_pool s) ms" for ms
  proof -
    have "lease_index l \<noteq> lease_index m" if "l \<in> set ls" "m \<in> set ms" for l m
    proof -
      have m: "lease_belongs_to m (sys_pool s)" "valid_handle (sys_pool s) (lease_handle m)"
        using ms that(2) by (auto simp: leases_current_def)
      have "\<forall>h. valid_handle (sys_pool s) h \<longrightarrow> handle_index h \<noteq> lease_index l"
        using g that(1) unfolding grants_def by blast
      then have "handle_index (lease_handle m) \<noteq> lease_index l" using m(2) by blast
      then show ?thesis using lease_index_handle [OF m(1)] by simp
    qed
    then show ?thesis by (auto simp: page_indices_def)
  qed
  show "distinct (map lease_index (held_pages c @ ls))"
    using I g fresh [of "held_pages c"] by (auto simp: grants_def page_indices_def)
  show "page_indices (held_pages c @ ls) \<inter> page_indices (others xs ys) = {}"
    using I fresh [of "others xs ys"] by auto
  show "reservation_belongs_to r q"
    using I r(1) id by (simp add: reservation_belongs_to_def)
  show "reserved_pages q + reservation_pages (entitlement c) = reserved_pages (sys_pool s) + reservation_pages r"
    "allocated_pages q + length (held_pages c) = allocated_pages (sys_pool s) + length (held_pages c @ ls)"
    using g r(2) by (simp_all add: grants_def)
qed

lemma system_return:
  assumes inv: "system_inv s" and cl: "clients s = xs @ c # ys" and g: "returns (sys_pool s) q out"
    and perm: "mset (held_pages c) = mset ls + mset out"
    and r: "reservation_owner r = reservation_owner (entitlement c)"
    and rc: "n + reservation_pages (entitlement c) = reserved_pages (sys_pool s) + reservation_pages r"
    and qn: "pool_inv (q\<lparr>reserved_pages := n\<rparr>)"
  shows "system_inv \<lparr>sys_pool = q\<lparr>reserved_pages := n\<rparr>, clients = xs @ \<lparr>entitlement = r, held_pages = ls\<rparr> # ys\<rparr>"
proof (rule system_replace [OF inv cl])
  note I = inv [unfolded system_inv_client [OF cl]]
  have id: "pool_id q = pool_id (sys_pool s)" using g by (simp add: returns_def)
  show "pool_inv (q\<lparr>reserved_pages := n\<rparr>)" "pool_id (q\<lparr>reserved_pages := n\<rparr>) = pool_id (sys_pool s)"
    using qn id by simp_all
  have sets: "set (held_pages c) = set ls \<union> set out"
    using perm by (metis set_mset_mset set_mset_union)
  then have idx: "page_indices (held_pages c) = page_indices ls \<union> page_indices out"
    by (simp add: page_indices_def image_Un)
  have "mset (map lease_index (held_pages c)) = mset (map lease_index (ls @ out))" using perm by simp
  then have "distinct (map lease_index (ls @ out))" using I mset_eq_imp_distinct_iff by blast
  then have d: "distinct (map lease_index ls)" "page_indices ls \<inter> page_indices out = {}"
    by (auto simp: page_indices_def)
  have keep: "leases_current (q\<lparr>reserved_pages := n\<rparr>) ms"
    if "leases_current (sys_pool s) ms" "page_indices ms \<inter> page_indices out = {}" for ms
    unfolding leases_current_def
  proof
    fix m assume m: "m \<in> set ms"
    then have b: "lease_belongs_to m (sys_pool s)" "valid_handle (sys_pool s) (lease_handle m)"
      using that(1) by (auto simp: leases_current_def)
    have "lease_index m \<notin> page_indices out" using that(2) page_indicesI [OF m] by blast
    then have "valid_handle q (lease_handle m)"
      using g b lease_index_handle [OF b(1)] by (simp add: returns_def page_indices_def)
    then show "lease_belongs_to m (q\<lparr>reserved_pages := n\<rparr>) \<and> valid_handle (q\<lparr>reserved_pages := n\<rparr>) (lease_handle m)"
      using b(1) id by (simp add: lease_belongs_to_def)
  qed
  show "leases_current (q\<lparr>reserved_pages := n\<rparr>) (others xs ys)" using I idx by (intro keep) auto
  show "leases_current (q\<lparr>reserved_pages := n\<rparr>) ls"
    using d I sets by (intro keep) (auto simp: leases_current_def)
  show "distinct (map lease_index ls)" by (rule d(1))
  show "page_indices ls \<inter> page_indices (others xs ys) = {}" using I idx by auto
  show "reservation_belongs_to r (q\<lparr>reserved_pages := n\<rparr>)"
    using I r id by (simp add: reservation_belongs_to_def)
  show "reserved_pages (q\<lparr>reserved_pages := n\<rparr>) + reservation_pages (entitlement c)
      = reserved_pages (sys_pool s) + reservation_pages r" using rc by simp
  have "length (held_pages c) = length ls + length out"
    using perm by (metis size_mset size_union)
  then show "allocated_pages (q\<lparr>reserved_pages := n\<rparr>) + length (held_pages c) = allocated_pages (sys_pool s) + length ls"
    using g by (simp add: returns_def)
qed

section \<open>Every call keeps the invariant\<close>

definition faultless :: "'a res \<Rightarrow> bool" where
  "faultless m \<longleftrightarrow> (case m of Inl e \<Rightarrow> e = InvalidArgument \<or> e = BadAlloc | Inr x \<Rightarrow> True)"

definition sound_outcome :: "page_system \<times> unit res \<Rightarrow> bool" where
  "sound_outcome x \<longleftrightarrow> system_inv (fst x) \<and> faultless (snd x)"

lemma settle_simps:
  "settle k s (Inl e) = (s, Inl e)"
  "settle (length xs) s (Inr (p, r, ls)) = (\<lparr>sys_pool = p, clients = (clients s)[length xs := \<lparr>entitlement = r, held_pages = ls\<rparr>]\<rparr>, Inr ())"
  by (simp_all add: settle_def)

lemma settle_error: "system_inv s \<Longrightarrow> e = InvalidArgument \<or> e = BadAlloc \<Longrightarrow> sound_outcome (settle k s (Inl e))"
  by (auto simp: settle_simps sound_outcome_def faultless_def)

lemma settle_ok:
  assumes "clients s = xs @ c # ys"
    "system_inv \<lparr>sys_pool = p, clients = xs @ \<lparr>entitlement = r, held_pages = ls\<rparr> # ys\<rparr>"
  shows "sound_outcome (settle (length xs) s (Inr (p, r, ls)))"
  using assms by (simp add: settle_simps sound_outcome_def faultless_def)

lemma client_facts:
  assumes "system_inv s" "clients s = xs @ c # ys"
  shows "pool_inv (sys_pool s)" "reservation_belongs_to (entitlement c) (sys_pool s)"
    "reservation_pages (entitlement c) \<le> reserved_pages (sys_pool s)" "leases_current (sys_pool s) (held_pages c)"
    "distinct (map lease_index (held_pages c))" "length (held_pages c) \<le> allocated_pages (sys_pool s)"
    "clients s ! length xs = c"
  using assms(1) unfolding system_inv_client [OF assms(2)] by (auto simp: assms(2))

lemma exec_reserve:
  assumes "system_inv s" shows "sound_outcome (exec_op (Reserve n) s)"
proof -
  obtain p r where r: "reserve (sys_pool s) n = (p, r)" by (cases "reserve (sys_pool s) n")
  have pi: "pool_inv (sys_pool s)" using assms by (simp add: system_inv_def)
  note R = reserve_inv [OF pi r]
  show ?thesis
  proof (cases r)
    case None
    then show ?thesis using r R(3) assms by (simp add: sound_outcome_def faultless_def)
  next
    case (Some v)
    have v: "p = (sys_pool s)\<lparr>reserved_pages := reserved_pages (sys_pool s) + n\<rparr>"
      "v = \<lparr>reservation_owner = Some (pool_id (sys_pool s)), reservation_pages = n\<rparr>"
      using R(4) [OF Some] by simp_all
    have "system_inv \<lparr>sys_pool = p, clients = clients s @ [\<lparr>entitlement = v, held_pages = []\<rparr>]\<rparr>"
      using assms R(1) by (simp add: system_inv_def held_leases_def v reservation_belongs_to_def
          leases_current_def lease_belongs_to_def)
    then show ?thesis using r Some by (simp add: sound_outcome_def faultless_def)
  qed
qed

lemma returns_none: "pool_inv p \<Longrightarrow> returns p p []"
  by (simp add: returns_def)

text \<open>Steps that only move a reservation.\<close>

lemma system_reservation:
  assumes "system_inv s" "clients s = xs @ c # ys" "pool_inv ((sys_pool s)\<lparr>reserved_pages := n\<rparr>)"
    "n + reservation_pages (entitlement c) = reserved_pages (sys_pool s) + m"
  shows "sound_outcome (settle (length xs) s
    (Inr ((sys_pool s)\<lparr>reserved_pages := n\<rparr>, (entitlement c)\<lparr>reservation_pages := m\<rparr>, held_pages c)))"
  by (rule settle_ok [OF assms(2)], rule system_return [OF assms(1,2) returns_none])
    (use assms in \<open>auto simp: system_inv_def\<close>)

lemma exec_resize:
  assumes inv: "system_inv s" and cl: "clients s = xs @ c # ys" and n: "n \<le> u32_max"
  shows "sound_outcome (exec_op (Resize (length xs) n) s)"
proof -
  note F = client_facts [OF inv cl]
  show ?thesis
  proof (cases "resize_reservation (sys_pool s) (entitlement c) n")
    case (Inl e)
    then have "e = BadAlloc" by (auto simp: resize_reservation_def split: if_splits)
    then show ?thesis using Inl F(7) settle_error [OF inv] by simp
  next
    case (Inr q)
    then obtain p r where q: "resize_reservation (sys_pool s) (entitlement c) n = Inr (p, r)" by (cases q) auto
    note R = resize_reservation_inv(2) [OF F(1,3) n q]
    let ?n = "reserved_pages (sys_pool s) - reservation_pages (entitlement c) + n"
    have "pool_inv ((sys_pool s)\<lparr>reserved_pages := ?n\<rparr>)" using R by blast
    moreover have "?n + reservation_pages (entitlement c) = reserved_pages (sys_pool s) + n" using F(3) by simp
    ultimately have "sound_outcome (settle (length xs) s (Inr (p, r, held_pages c)))"
      using R system_reservation [OF inv cl, of ?n n] by blast
    then show ?thesis using q F(7) by simp
  qed
qed

lemma exec_materialize:
  assumes inv: "system_inv s" and cl: "clients s = xs @ c # ys"
  shows "sound_outcome (exec_op (Materialize (length xs) target dest_capacity pred) s)"
proof -
  note F = client_facts [OF inv cl]
  from materialize_cases [OF F(1-4), of target dest_capacity pred] show ?thesis
  proof (elim disjE exE conjE)
    assume "materialize (sys_pool s) (entitlement c) target dest_capacity (held_pages c) pred = Inl InvalidArgument"
    then show ?thesis using F(7) settle_error [OF inv] by simp
  next
    fix p' r' ls
    assume m: "materialize (sys_pool s) (entitlement c) target dest_capacity (held_pages c) pred
        = Inr (p', r', held_pages c @ ls)" and g: "grants (sys_pool s) p' ls"
      and r: "reservation_owner r' = reservation_owner (entitlement c)"
        "reservation_pages r' + length ls = reservation_pages (entitlement c)"
    show ?thesis using m F(7) settle_ok [OF cl system_grant [OF inv cl g r]] by simp
  qed
qed

lemma exec_materialize_one:
  assumes inv: "system_inv s" and cl: "clients s = xs @ c # ys"
  shows "sound_outcome (exec_op (MaterializeOne (length xs)) s)"
proof -
  note F = client_facts [OF inv cl]
  show ?thesis
  proof (cases "reservation_pages (entitlement c) = 0")
    case True
    then have "materialize_one (sys_pool s) (entitlement c) = Inl InvalidArgument" by (simp add: materialize_one_def)
    then show ?thesis using F(7) settle_error [OF inv] by simp
  next
    case False
    then obtain p' l where m: "materialize_one (sys_pool s) (entitlement c)
        = Inr (p', (entitlement c)\<lparr>reservation_pages := reservation_pages (entitlement c) - 1\<rparr>, l)"
      "grants (sys_pool s) p' [l]" using materialize_one_grants [OF F(1-3)] by auto
    have "system_inv \<lparr>sys_pool = p', clients = xs @ \<lparr>entitlement = (entitlement c)\<lparr>reservation_pages :=
        reservation_pages (entitlement c) - 1\<rparr>, held_pages = held_pages c @ [l]\<rparr> # ys\<rparr>"
      using False by (intro system_grant [OF inv cl m(2)]) simp_all
    from settle_ok [OF cl this] show ?thesis using m(1) F(7) by simp
  qed
qed

lemma mset_remove_nth: "j < length xs \<Longrightarrow> mset xs = mset (remove_nth j xs) + mset [xs ! j]"
  unfolding remove_nth_def by (subst id_take_nth_drop [of j xs]) simp_all

lemma exec_dematerialize:
  assumes inv: "system_inv s" and cl: "clients s = xs @ c # ys"
  shows "sound_outcome (exec_op (Dematerialize (length xs) target) s)"
proof -
  note F = client_facts [OF inv cl]
  show ?thesis
  proof (cases "target \<le> length (held_pages c)")
    case False
    then have "dematerialize (sys_pool s) (entitlement c) target (held_pages c) = Inl InvalidArgument"
      by (simp add: dematerialize_def)
    then show ?thesis using F(7) settle_error [OF inv] by simp
  next
    case True
    let ?n = "length (held_pages c) - target"
    from dematerialize_returns [OF F(1-3) True F(4-6)] obtain p' where
      d: "dematerialize (sys_pool s) (entitlement c) target (held_pages c)
        = Inr (p'\<lparr>reserved_pages := reserved_pages (sys_pool s) + ?n\<rparr>,
               (entitlement c)\<lparr>reservation_pages := reservation_pages (entitlement c) + ?n\<rparr>, take target (held_pages c))"
      "returns (sys_pool s) p' (drop target (held_pages c))"
      "pool_inv (p'\<lparr>reserved_pages := reserved_pages (sys_pool s) + ?n\<rparr>)" by blast
    have "mset (held_pages c) = mset (take target (held_pages c)) + mset (drop target (held_pages c))"
      by (metis append_take_drop_id mset_append)
    from settle_ok [OF cl system_return [OF inv cl d(2) this _ _ d(3),
        of "(entitlement c)\<lparr>reservation_pages := reservation_pages (entitlement c) + ?n\<rparr>"]]
    show ?thesis using d(1) F(7) by simp
  qed
qed

lemma exec_dematerialize_one:
  assumes inv: "system_inv s" and cl: "clients s = xs @ c # ys" and j: "j < length (held_pages c)"
  shows "sound_outcome (exec_op (DematerializeOne (length xs) j) s)"
proof -
  note F = client_facts [OF inv cl]
  let ?l = "held_pages c ! j"
  have l: "lease_belongs_to ?l (sys_pool s)" "valid_handle (sys_pool s) (lease_handle ?l)"
    using F(4) j by (auto simp: leases_current_def)
  from dematerialize_one_returns [OF F(1-3) l] obtain p' where
    d: "dematerialize_one (sys_pool s) (entitlement c) ?l
      = Inr (p'\<lparr>reserved_pages := reserved_pages (sys_pool s) + 1\<rparr>,
             (entitlement c)\<lparr>reservation_pages := reservation_pages (entitlement c) + 1\<rparr>, null_lease)"
    "returns (sys_pool s) p' [?l]" "pool_inv (p'\<lparr>reserved_pages := reserved_pages (sys_pool s) + 1\<rparr>)" by blast
  from settle_ok [OF cl system_return [OF inv cl d(2) mset_remove_nth [OF j] _ _ d(3),
      of "(entitlement c)\<lparr>reservation_pages := reservation_pages (entitlement c) + 1\<rparr>"]]
  show ?thesis using d(1) F(7) by simp
qed

lemma returns_pool:
  assumes "returns p q ls" shows "q\<lparr>reserved_pages := reserved_pages p\<rparr> = q" "pool_inv q"
  using assms by (auto simp: returns_def intro: DeviceKVPagePool.equality)

lemma exec_release_lease:
  assumes inv: "system_inv s" and cl: "clients s = xs @ c # ys" and j: "j < length (held_pages c)"
  shows "sound_outcome (exec_op (ReleaseLease (length xs) j) s)"
proof -
  note F = client_facts [OF inv cl]
  let ?l = "held_pages c ! j"
  have l: "lease_belongs_to ?l (sys_pool s)" "valid_handle (sys_pool s) (lease_handle ?l)"
    using F(4) j by (auto simp: leases_current_def)
  note R = lease_release_live [OF F(1) l]
  have "sound_outcome (settle (length xs) s
      (Inr (release_page (sys_pool s) (lease_index ?l) (lease_generation ?l), entitlement c, remove_nth j (held_pages c))))"
    using settle_ok [OF cl system_return [OF inv cl R(2) mset_remove_nth [OF j], of "entitlement c" "reserved_pages (sys_pool s)"]]
      returns_pool [OF R(2)] by simp
  then show ?thesis using R(1) F(7) by simp
qed

lemma exec_clear:
  assumes inv: "system_inv s" and cl: "clients s = xs @ c # ys"
  shows "sound_outcome (exec_op (ClearReservation (length xs)) s)"
proof -
  note F = client_facts [OF inv cl]
  have own: "reservation_owner (entitlement c) \<noteq> None" using F(2) by (simp add: reservation_belongs_to_def)
  note R = release_reservation_inv [OF F(1,3)]
  have "sound_outcome (settle (length xs) s (map_sum id (\<lambda>(p, r). (p, r, held_pages c))
      (reservation_clear (sys_pool s) (entitlement c))))"
  proof (cases "reservation_pages (entitlement c) = 0")
    case True
    have "sound_outcome (settle (length xs) s (Inr (sys_pool s, entitlement c, held_pages c)))"
      using system_reservation [OF inv cl, of "reserved_pages (sys_pool s)" "reservation_pages (entitlement c)"] F(1)
      by simp
    then show ?thesis using True by (simp add: reservation_clear_def)
  next
    case False
    then show ?thesis using own R F(3) system_reservation [OF inv cl R(2), of 0] by (auto simp: reservation_clear_def)
  qed
  then show ?thesis using F(7) by simp
qed

lemma exec_close:
  assumes inv: "system_inv s" and cl: "clients s = xs @ c # ys"
  shows "sound_outcome (exec_op (Close (length xs)) s)"
proof -
  note F = client_facts [OF inv cl]
  have own: "reservation_owner (entitlement c) \<noteq> None" using F(2) by (simp add: reservation_belongs_to_def)
  define p1 where "p1 = (sys_pool s)\<lparr>reserved_pages := reserved_pages (sys_pool s) - reservation_pages (entitlement c)\<rparr>"
  note R = release_reservation_inv [OF F(1,3), folded p1_def]
  define s1 where "s1 = \<lparr>sys_pool = p1, clients = xs @ \<lparr>entitlement =
    (entitlement c)\<lparr>reservation_pages := 0\<rparr>, held_pages = held_pages c\<rparr> # ys\<rparr>"
  have inv1: "system_inv s1"
    using system_return [OF inv cl returns_none [OF F(1)], of "held_pages c" "(entitlement c)\<lparr>reservation_pages := 0\<rparr>"
        "reserved_pages p1"] R F(3) by (simp add: s1_def p1_def)
  have cl1: "clients s1 = xs @ \<lparr>entitlement = (entitlement c)\<lparr>reservation_pages := 0\<rparr>, held_pages = held_pages c\<rparr> # ys"
    by (simp add: s1_def)
  note F1 = client_facts [OF inv1 cl1, simplified]
  have p1: "sys_pool s1 = p1" by (simp add: s1_def)
  have D: "returns p1 (destroy_leases p1 (held_pages c)) (held_pages c)"
    using F1 by (intro destroy_leases_returns) (simp_all add: p1)
  have inv2: "system_inv \<lparr>sys_pool = destroy_leases p1 (held_pages c), clients = xs @ \<lparr>entitlement =
      (entitlement c)\<lparr>reservation_pages := 0\<rparr>, held_pages = []\<rparr> # ys\<rparr>"
    using system_return [OF inv1 cl1 D [folded p1], of "[]" "(entitlement c)\<lparr>reservation_pages := 0\<rparr>"
        "reserved_pages p1"] returns_pool [OF D] by (simp add: p1)
  then have "system_inv \<lparr>sys_pool = destroy_leases p1 (held_pages c), clients = xs @ ys\<rparr>"
    by (auto simp: system_inv_def held_leases_def)
  moreover have "remove_nth (length xs) (clients s) = xs @ ys" by (simp add: remove_nth_def cl)
  moreover have "reservation_release (sys_pool s) (entitlement c) = Inr (p1, null_reservation)"
    using own R(1) by (auto simp: reservation_release_def)
  ultimately show ?thesis using F(7) by (simp add: sound_outcome_def faultless_def)
qed

lemma exec_validate:
  assumes "system_inv s" shows "sound_outcome (exec_op (ValidateDistinct hs) s)"
proof -
  obtain p e where v: "validate_distinct_pages (sys_pool s) hs = (p, e)" by (cases "validate_distinct_pages (sys_pool s) hs")
  have pi: "pool_inv (sys_pool s)" using assms by (simp add: system_inv_def)
  from validate_distinct_pages_spec [OF pi, of hs] v obtain ms st where
    p: "p = (sys_pool s)\<lparr>validation_stamp := st, validation_marks := ms\<rparr>" "pool_inv p" by auto
  have vh: "valid_handle p h = valid_handle (sys_pool s) h" for h by (simp add: p valid_handle_def capacity_pages_def)
  have "system_inv (s\<lparr>sys_pool := p\<rparr>)" using assms p(2)
    by (simp add: system_inv_def held_leases_def leases_current_def vh)
      (simp add: p lease_belongs_to_def reservation_belongs_to_def)
  moreover have "faultless (snd (mark_pages q gs))" for q gs
    by (induction q gs rule: mark_pages.induct) (auto simp: faultless_def physical_index_def)
  then have "faultless e" using v by (auto simp: validate_distinct_pages_def Let_def) (metis snd_conv)+
  ultimately show ?thesis using v by (simp add: sound_outcome_def)
qed

lemma exec_sound:
  assumes inv: "system_inv s" and wf: "op_wf op s"
  shows "sound_outcome (exec_op op s)"
proof -
  have split: "\<exists>xs c ys. clients s = xs @ c # ys \<and> k = length xs \<and> c = clients s ! k" if "k < length (clients s)" for k
    using system_inv_split [OF inv that] by metis
  show ?thesis
  proof (cases op)
    case (Reserve n)
    then show ?thesis using exec_reserve [OF inv] by simp
  next
    case (ValidateDistinct hs)
    then show ?thesis using exec_validate [OF inv] by simp
  next
    case (Resize k n)
    then show ?thesis using wf split [of k] exec_resize [OF inv] by (auto simp del: exec_op.simps)
  next
    case (Materialize k t d pr)
    then show ?thesis using wf split [of k] exec_materialize [OF inv] by (auto simp del: exec_op.simps)
  next
    case (MaterializeOne k)
    then show ?thesis using wf split [of k] exec_materialize_one [OF inv] by (auto simp del: exec_op.simps)
  next
    case (Dematerialize k t)
    then show ?thesis using wf split [of k] exec_dematerialize [OF inv] by (auto simp del: exec_op.simps)
  next
    case (DematerializeOne k j)
    then show ?thesis using wf split [of k] exec_dematerialize_one [OF inv] by (auto simp del: exec_op.simps)
  next
    case (ReleaseLease k j)
    then show ?thesis using wf split [of k] exec_release_lease [OF inv] by (auto simp del: exec_op.simps)
  next
    case (ClearReservation k)
    then show ?thesis using wf split [of k] exec_clear [OF inv] by (auto simp del: exec_op.simps)
  next
    case (Close k)
    then show ?thesis using wf split [of k] exec_close [OF inv] by (auto simp del: exec_op.simps)
  qed
qed

lemma reachable_inv: "system_reachable s \<Longrightarrow> system_inv s"
proof (induction rule: system_reachable.induct)
  case (init self backing l p)
  then have "pool_inv p" "allocated_pages p = 0" "reserved_pages p = 0"
    using new_device_pool_inv by (auto simp: new_device_pool_def Let_def split: if_splits)
  then show ?case by (simp add: system_inv_def held_leases_def leases_current_def)
next
  case (step s t)
  then show ?case using exec_sound by (auto simp: system_step_iff sound_outcome_def)
qed

lemma held_leases_cover:
  assumes inv: "system_inv s" and h: "valid_handle (sys_pool s) h"
  shows "\<exists>l \<in> set (held_leases s). lease_handle l = h"
proof -
  let ?p = "sys_pool s" and ?ls = "held_leases s"
  have pi: "pool_inv ?p" and cur: "leases_current ?p ?ls" and d: "distinct (map lease_index ?ls)"
    and len: "length ?ls = allocated_pages ?p" using inv by (simp_all add: system_inv_def)
  define A where "A = int ` {i. i < length (page_allocated ?p) \<and> page_allocated ?p ! i}"
  have lp: "length (page_allocated ?p) = capacity_pages ?p" using pi by (simp add: pool_inv_def)
  have L: "lease_index l \<in> A \<and> lease_handle l = \<lparr>handle_owner = Some (pool_id ?p), handle_index = lease_index l,
      handle_generation = page_generations ?p ! nat (lease_index l)\<rparr>" if "l \<in> set ?ls" for l
  proof -
    have b: "lease_belongs_to l ?p" "valid_handle ?p (lease_handle l)" using cur that by (auto simp: leases_current_def)
    have v: "0 \<le> lease_index l \<and> nat (lease_index l) < capacity_pages ?p \<and> page_allocated ?p ! nat (lease_index l)
        \<and> page_generations ?p ! nat (lease_index l) = lease_generation l"
      using b lease_handle_live [OF b(1)] by (simp add: valid_handle_iff [OF pi])
    then have "int (nat (lease_index l)) \<in> A" unfolding A_def using lp by (intro imageI) simp
    then show ?thesis using v b(1) lease_handle_live [OF b(1)] by (simp add: lease_belongs_to_def)
  qed
  have "card A = allocated_pages ?p"
    using pi unfolding A_def by (simp add: card_image pool_inv_def flip: card_true_indices)
  moreover have "card (lease_index ` set ?ls) = length ?ls" using d by (metis distinct_card length_map set_map)
  ultimately have "lease_index ` set ?ls = A" using L len by (intro card_subset_eq) (auto simp: A_def)
  moreover have "handle_index h \<in> A"
    using h lp unfolding valid_handle_iff [OF pi] A_def by (auto intro!: image_eqI [of _ _ "nat (handle_index h)"])
  ultimately obtain l where l: "l \<in> set ?ls" "lease_index l = handle_index h" by auto
  then have "lease_handle l = h" using L [OF l(1)] h unfolding valid_handle_iff [OF pi] by (cases h) simp
  then show ?thesis using l(1) by blast
qed

section \<open>A concrete system\<close>

lemmas example_simps = four_and_two Let_def example_pool_def example_spec_def capacity_pages_def available_pages_def
  u32_sub_def u32_add_def u32_max_def reservation_belongs_to_def leases_current_def settle_def materialize_def
  materialize_pages_def select_run_def preferred_run_def consume_free_run_def append_page_def held_leases_def
  lease_release_def lease_valid_def valid_handle_def i32_of_u32_def i32_max_def release_page_def
  release_free_page_def increment_generation_def remove_nth_def null_lease_def

definition example_two_pages :: page_system where
  "example_two_pages = fst (exec_op (Materialize 0 2 8 None) (fst (exec_op (Reserve 3)
     \<lparr>sys_pool = example_pool, clients = []\<rparr>)))"

lemma example_two_pages_reachable: "system_reachable example_two_pages"
proof -
  have 0: "system_reachable \<lparr>sys_pool = example_pool, clients = []\<rparr>"
    using example_pool_new by (rule system_reachable.init)
  have 1: "system_reachable (fst (exec_op (Reserve 3) \<lparr>sys_pool = example_pool, clients = []\<rparr>))"
    using 0 by (rule system_reachable.step) (rule system_step.step, simp add: u32_max_def)
  show ?thesis unfolding example_two_pages_def
    using 1 by (rule system_reachable.step) (rule system_step.step, simp add: u32_max_def reserve_def example_simps)
qed

lemma example_two_pages_state:
  "map lease_index (held_leases example_two_pages) = [0, 1]" "length (clients example_two_pages) = 1"
  "length (held_pages (clients example_two_pages ! 0)) = 2"
  by (simp_all add: example_two_pages_def reserve_def example_simps)

section \<open>Properties\<close>

text \<open>C1: in every reachable system the pages of two held leases are different, the handles the
  pool accepts are exactly the handles of the held leases (so a handle of a released lease is
  rejected even after its page was handed out again), the allocated and reserved counters are the
  sums over the clients, and together they fit the capacity.\<close>

theorem reachable_leases_exclusive:
  assumes "system_reachable s"
  shows "(\<forall>i j. i < j \<and> j < length (held_leases s) \<longrightarrow>
            lease_index (held_leases s ! i) \<noteq> lease_index (held_leases s ! j))
    \<and> (\<forall>h. valid_handle (sys_pool s) h \<longleftrightarrow> (\<exists>l \<in> set (held_leases s). lease_handle l = h))
    \<and> allocated_pages (sys_pool s) = length (held_leases s)
    \<and> reserved_pages (sys_pool s) = (\<Sum>c \<leftarrow> clients s. reservation_pages (entitlement c))
    \<and> allocated_pages (sys_pool s) + reserved_pages (sys_pool s) \<le> capacity_pages (sys_pool s)"
proof -
  have inv: "system_inv s" using assms by (rule reachable_inv)
  then have "pool_inv (sys_pool s)" "leases_current (sys_pool s) (held_leases s)"
    "distinct (map lease_index (held_leases s))" by (simp_all add: system_inv_def)
  then show ?thesis using inv held_leases_cover [OF inv] pool_inv_room [of "sys_pool s"]
    by (auto simp: system_inv_def leases_current_def distinct_conv_nth)
qed

theorem reachable_leases_exclusive_witness:
  "system_reachable example_two_pages \<and> allocated_pages (sys_pool example_two_pages) = 2
     \<and> lease_index (held_leases example_two_pages ! 0) \<noteq> lease_index (held_leases example_two_pages ! 1)"
proof -
  have "length (held_leases example_two_pages) = 2"
    using example_two_pages_state(1) by (metis length_map length_Cons list.size(3) numeral_2_eq_2)
  then show ?thesis
    using reachable_leases_exclusive [OF example_two_pages_reachable] example_two_pages_reachable
    by (metis less_numeral_extra(1) one_less_numeral_iff semiring_norm(76))
qed



text \<open>C3: a client whose reservation holds the missing pages always gets them: materialising up to a
  target within its vector's capacity succeeds, keeps the leases it had as a prefix, returns live
  leases on distinct pages that no handle named before, keeps every live handle live, and takes
  exactly the new pages from the reservation.\<close>

theorem materialize_delivers:
  assumes "pool_inv p" "reservation_belongs_to r p" "reservation_pages r \<le> reserved_pages p"
    and "length d \<le> target" "target - length d \<le> reservation_pages r" "target \<le> dest_capacity"
    and "leases_current p d" "\<forall>h. pred = Some h \<longrightarrow> valid_handle p h"
  shows "\<exists>p' r' ls. materialize p r target dest_capacity d pred = Inr (p', r', d @ ls)
    \<and> length (d @ ls) = target \<and> distinct (map lease_index ls)
    \<and> (\<forall>l \<in> set ls. valid_handle p' (lease_handle l) \<and> (\<forall>h. valid_handle p h \<longrightarrow> handle_index h \<noteq> lease_index l))
    \<and> (\<forall>h. valid_handle p h \<longrightarrow> valid_handle p' h)
    \<and> reservation_pages r' + length ls = reservation_pages r
    \<and> available_pages p' = available_pages p \<and> pool_inv p'"
proof -
  obtain p' ls where m: "materialize p r target dest_capacity d pred
      = Inr (p', r\<lparr>reservation_pages := reservation_pages r - (target - length d)\<rparr>, d @ ls)"
    "length ls = target - length d" "grants p p' ls"
    using materialize_grants [OF assms] by blast
  have "available_pages p' = available_pages p"
  proof -
    have g: "pool_inv p'" "reserved_pages p = reserved_pages p' + length ls"
      "allocated_pages p' = allocated_pages p + length ls" "capacity_pages p' = capacity_pages p"
      using m(3) by (simp_all add: grants_def capacity_pages_def)
    show ?thesis unfolding pool_inv_u32(4) [OF g(1)] pool_inv_u32(4) [OF assms(1)] g(2-4) by simp
  qed
  then show ?thesis using m assms(4,5)
    by (intro exI [of _ p'] exI [of _ "r\<lparr>reservation_pages := reservation_pages r - (target - length d)\<rparr>"]
        exI [of _ ls] conjI) (auto simp: grants_def)
qed

theorem materialize_delivers_witness:
  "\<exists>p' r' ls. materialize (example_pool\<lparr>reserved_pages := 3\<rparr>) \<lparr>reservation_owner = Some 7, reservation_pages = 3\<rparr> 2 8 [] None
       = Inr (p', r', ls)
     \<and> length ls = 2 \<and> distinct (map lease_index ls) \<and> reservation_pages r' = 1 \<and> pool_inv p'"
proof -
  let ?p = "example_pool\<lparr>reserved_pages := 3\<rparr>"
  let ?r = "\<lparr>reservation_owner = Some 7, reservation_pages = 3\<rparr>"
  have inv: "pool_inv ?p" using reserved_grow(1) [OF example_pool_inv, of 3] by (simp add: example_pool_def capacity_pages_def example_spec_def)
  have "reservation_belongs_to ?r ?p" "reservation_pages ?r \<le> reserved_pages ?p" "leases_current ?p []"
    by (simp_all add: reservation_belongs_to_def example_pool_def leases_current_def)
  then obtain p' r' ls where "materialize ?p ?r 2 8 [] None = Inr (p', r', [] @ ls)" "length ([] @ ls) = 2"
    "distinct (map lease_index ls)" "reservation_pages r' + length ls = reservation_pages ?r" "pool_inv p'"
    using materialize_delivers [OF inv, of ?r "[]" 2 8 None] by auto
  then show ?thesis by (intro exI [of _ p'] exI [of _ r'] exI [of _ ls]) simp
qed

end
