(* ===== verification/Reservation_Bundle.thy ===== *)
theory Reservation_Bundle
  imports Example_Pool
begin

text \<open>
  Reserving pages in several pools at once (\<^verbatim>\<open>reserve_device_kv_page_bundle\<close> in
  \<^verbatim>\<open>src/core/paged_kv_cache.cpp\<close>). The pools live in a store that maps a pool pointer to
  the pool object; a request names a pool pointer and a page count. The first loop validates every
  request, the second takes the reservations; the destructors of the reservations already taken
  run when the second loop throws. Shown: the call either fails with the store unchanged, or takes
  exactly the requested pages in every named pool and touches no other, and it succeeds whenever
  every request alone would.
\<close>

type_synonym pool_store = "nat \<Rightarrow> DeviceKVPagePool option"

record DeviceKVPageReservationRequest =
  request_pool :: "nat option"
  request_pages :: nat

fun bundle_check ::
  "pool_store \<Rightarrow> DeviceKVPageReservationRequest list \<Rightarrow> DeviceKVPageReservationRequest list \<Rightarrow> unit res" where
  "bundle_check st previous [] = Inr ()"
| "bundle_check st previous (q # qs) =
     (if request_pool q = None \<or> request_pages q = 0 then Inl InvalidArgument
      else if \<exists>o' \<in> set previous. request_pool o' = request_pool q then Inl InvalidArgument
      else case st (the (request_pool q)) of
        None \<Rightarrow> Inl Undefined
      | Some p \<Rightarrow>
          if request_pages q > available_pages p then Inl BadAlloc
          else bundle_check st (previous @ [q]) qs)"

text \<open>The destructors of the vector of reservations.\<close>

fun release_all :: "pool_store \<Rightarrow> DeviceKVPageReservation list \<Rightarrow> pool_store res" where
  "release_all st [] = Inr st"
| "release_all st (r # rs) =
     (case reservation_owner r of
        None \<Rightarrow> release_all st rs
      | Some a \<Rightarrow>
          (case st a of
             None \<Rightarrow> Inl Undefined
           | Some p \<Rightarrow>
               res_bind (release_reservation p (reservation_pages r)) (\<lambda>p'. release_all (st(a \<mapsto> p')) rs)))"

fun bundle_take ::
  "pool_store \<Rightarrow> DeviceKVPageReservation list \<Rightarrow> DeviceKVPageReservationRequest list
   \<Rightarrow> pool_store \<times> DeviceKVPageReservation list res" where
  "bundle_take st acc [] = (st, Inr acc)"
| "bundle_take st acc (q # qs) =
     (let a = the (request_pool q) in
      case st a of
        None \<Rightarrow> (st, Inl Undefined)
      | Some p \<Rightarrow>
          (case reserve p (request_pages q) of
             (p', Some r) \<Rightarrow> bundle_take (st(a \<mapsto> p')) (acc @ [r]) qs
           | (p', None) \<Rightarrow>
               (case release_all (st(a \<mapsto> p')) acc of
                  Inl e \<Rightarrow> (st, Inl e)
                | Inr st' \<Rightarrow> (st', Inl LogicError))))"

definition reserve_device_kv_page_bundle ::
  "pool_store \<Rightarrow> DeviceKVPageReservationRequest list \<Rightarrow> pool_store \<times> DeviceKVPageReservation list res" where
  "reserve_device_kv_page_bundle st qs =
     (case bundle_check st [] qs of Inl e \<Rightarrow> (st, Inl e) | Inr u \<Rightarrow> bundle_take st [] qs)"

section \<open>Lemmas\<close>

definition store_inv :: "pool_store \<Rightarrow> bool" where
  "store_inv st \<longleftrightarrow> (\<forall>a p. st a = Some p \<longrightarrow> pool_inv p \<and> pool_id p = a)"

definition request_ok :: "pool_store \<Rightarrow> DeviceKVPageReservationRequest \<Rightarrow> bool" where
  "request_ok st q \<longleftrightarrow>
     (case request_pool q of
        None \<Rightarrow> False
      | Some a \<Rightarrow> (case st a of None \<Rightarrow> False | Some p \<Rightarrow> 0 < request_pages q \<and> request_pages q \<le> available_pages p))"

text \<open>The store after every request has been granted.\<close>

definition granted :: "pool_store \<Rightarrow> DeviceKVPageReservationRequest list \<Rightarrow> pool_store" where
  "granted st qs = (\<lambda>a. case find (\<lambda>q. request_pool q = Some a) qs of
     None \<Rightarrow> st a
   | Some q \<Rightarrow> map_option (\<lambda>p. p\<lparr>reserved_pages := reserved_pages p + request_pages q\<rparr>) (st a))"

lemma bundle_check_iff:
  "bundle_check st prev qs = Inr () \<longleftrightarrow>
     (\<forall>q \<in> set qs. request_ok st q) \<and> distinct (map request_pool qs)
     \<and> request_pool ` set prev \<inter> request_pool ` set qs = {}"
proof (induction qs arbitrary: prev)
  case (Cons q qs)
  show ?case
  proof (cases "request_ok st q \<and> request_pool q \<notin> request_pool ` set prev")
    case True
    then have "bundle_check st prev (q # qs) = bundle_check st (prev @ [q]) qs"
      by (auto simp: request_ok_def not_less image_iff split: option.splits)
    then show ?thesis using Cons.IH [of "prev @ [q]"] True by auto
  next
    case False
    then have "bundle_check st prev (q # qs) \<noteq> Inr ()"
      by (auto simp: request_ok_def image_iff split: option.splits)
    then show ?thesis using False by auto
  qed
qed simp

lemma bundle_take_grants:
  assumes "store_inv st" "\<forall>q \<in> set qs. request_ok st q" "distinct (map request_pool qs)"
  shows "bundle_take st acc qs = (granted st qs, Inr (acc @
    map (\<lambda>q. \<lparr>reservation_owner = request_pool q, reservation_pages = request_pages q\<rparr>) qs))
    \<and> store_inv (granted st qs)"
  using assms
proof (induction qs arbitrary: st acc)
  case Nil
  then show ?case by (simp add: granted_def)
next
  case (Cons q qs)
  obtain a p where a: "request_pool q = Some a" "st a = Some p" "0 < request_pages q" "request_pages q \<le> available_pages p"
    using Cons.prems(2) by (auto simp: request_ok_def split: option.splits)
  have p: "pool_inv p" "pool_id p = a" using Cons.prems(1) a by (auto simp: store_inv_def)
  obtain p' r where r: "reserve p (request_pages q) = (p', r)" by (cases "reserve p (request_pages q)")
  note R = reserve_inv [OF p(1) r]
  have "r \<noteq> None" using a(3,4) r by (auto simp: reserve_def split: if_splits)
  then obtain v where v: "r = Some v" by auto
  define st1 where "st1 = st(a \<mapsto> p')"
  have p': "p' = p\<lparr>reserved_pages := reserved_pages p + request_pages q\<rparr>"
    "v = \<lparr>reservation_owner = Some a, reservation_pages = request_pages q\<rparr>" using R(4) [OF v] p by auto
  have inv1: "store_inv st1" using Cons.prems(1) R(1) p' p by (auto simp: store_inv_def st1_def)
  have others: "request_pool q' \<noteq> Some a" if "q' \<in> set qs" for q' using Cons.prems(3) a(1) that by force
  have "\<forall>q' \<in> set qs. request_ok st1 q'"
    using Cons.prems(2) others by (fastforce simp: request_ok_def st1_def split: option.splits)
  note IH = Cons.IH [OF inv1 this, of "acc @ [v]"]
  have "find (\<lambda>q. request_pool q = Some a) qs = None" using others by (auto simp: find_None_iff)
  then have g: "granted st1 qs = granted st (q # qs)"
    using a p' by (auto simp: granted_def st1_def fun_eq_iff split: option.splits)
  have "bundle_take st acc (q # qs) = bundle_take st1 (acc @ [v]) qs"
    using a r v by (simp add: st1_def)
  then show ?case using IH Cons.prems(3) g a(1) p'(2) by simp
qed

text \<open>C11: reserving in several pools is all or nothing. With well-formed pools the call succeeds
  exactly when every request names a pool of its own and asks for at least one page and at most the
  pages available there; then each named pool has exactly the requested pages more reserved, the
  reservations come back in request order, and every other pool is unchanged. When it fails, no
  pool has changed, and a failure is never the unstable-prevalidation error or
  \<^verbatim>\<open>std::terminate\<close>.\<close>

theorem bundle_all_or_nothing:
  assumes "store_inv st" "\<forall>q \<in> set qs. \<forall>a. request_pool q = Some a \<longrightarrow> st a \<noteq> None"
  shows "(is_ok (snd (reserve_device_kv_page_bundle st qs)) \<longleftrightarrow>
            (\<forall>q \<in> set qs. request_ok st q) \<and> distinct (map request_pool qs))
    \<and> (\<forall>rs. snd (reserve_device_kv_page_bundle st qs) = Inr rs \<longrightarrow>
          rs = map (\<lambda>q. \<lparr>reservation_owner = request_pool q, reservation_pages = request_pages q\<rparr>) qs
          \<and> fst (reserve_device_kv_page_bundle st qs) = granted st qs
          \<and> store_inv (granted st qs))
    \<and> (\<forall>e. snd (reserve_device_kv_page_bundle st qs) = Inl e \<longrightarrow>
          fst (reserve_device_kv_page_bundle st qs) = st \<and> (e = InvalidArgument \<or> e = BadAlloc))"
proof (cases "bundle_check st [] qs")
  case (Inl e)
  then have "\<not> ((\<forall>q \<in> set qs. request_ok st q) \<and> distinct (map request_pool qs))"
    using bundle_check_iff [of st "[]" qs] by auto
  moreover have "bundle_check st prev qs = Inl e \<Longrightarrow> e = InvalidArgument \<or> e = BadAlloc" for prev
    using assms(2) by (induction qs arbitrary: prev) (auto split: if_splits option.splits)
  ultimately show ?thesis using Inl by (auto simp: reserve_device_kv_page_bundle_def)
next
  case (Inr u)
  then have ok: "\<forall>q \<in> set qs. request_ok st q" "distinct (map request_pool qs)"
    using bundle_check_iff [of st "[]" qs] by auto
  show ?thesis using Inr ok bundle_take_grants [OF assms(1) ok, of "[]"]
    by (simp add: reserve_device_kv_page_bundle_def)
qed

theorem bundle_all_or_nothing_witness:
  "\<exists>st rs. reserve_device_kv_page_bundle [7 \<mapsto> example_pool] [\<lparr>request_pool = Some 7, request_pages = 4\<rparr>] = (st, Inr rs)
     \<and> map reservation_pages rs = [4]
     \<and> reserve_device_kv_page_bundle [7 \<mapsto> example_pool] [\<lparr>request_pool = Some 7, request_pages = 5\<rparr>]
         = ([7 \<mapsto> example_pool], Inl BadAlloc)"
proof -
  let ?st = "[7 \<mapsto> example_pool] :: pool_store"
  let ?q = "\<lambda>n. [\<lparr>request_pool = Some 7, request_pages = n\<rparr>]"
  have inv: "store_inv ?st"
    using example_pool_inv by (simp add: store_inv_def example_pool_def)
  have av: "available_pages example_pool = 4"
    by (simp add: available_pages_def example_pool_def example_spec_def capacity_pages_def u32_sub_def)
  note T = bundle_all_or_nothing [OF inv]
  have "is_ok (snd (reserve_device_kv_page_bundle ?st (?q 4)))"
    using T [of "?q 4"] av by (simp add: request_ok_def)
  then obtain st rs where s: "reserve_device_kv_page_bundle ?st (?q 4) = (st, Inr rs)"
    by (cases "reserve_device_kv_page_bundle ?st (?q 4)") (auto simp: is_ok_def split: sum.splits)
  then have "map reservation_pages rs = [4]" using T [of "?q 4"] by simp
  moreover have "reserve_device_kv_page_bundle ?st (?q 5) = (?st, Inl BadAlloc)"
    by (simp add: reserve_device_kv_page_bundle_def av)
  ultimately show ?thesis using s by (intro exI conjI)
qed

end
