(* ===== verification/Execution_Table.thy ===== *)
theory Execution_Table
  imports Example_Pool
begin

text \<open>
  The execution tables that map the logical pages of a sequence to physical page indices
  (\<^verbatim>\<open>class KVExecutionTablePool\<close> in \<^verbatim>\<open>src/core/paged_kv_cache.cpp\<close>). The pinned host shadow
  is a list of 32-bit indices, row after row; its initial contents are whatever the allocation holds
  and are an argument of the constructor. The asynchronous copy a publication issues is a value: the
  device address, the range of the shadow and the element count. A publication writes the
  shadow before a later handle may be found stale, so its state comes back beside its result.
  Shown: a publication writes exactly the physical indices of its handles at its position of its
  own row and copies exactly that range to the same position of the row's device table, rows never
  overlap, and a row is held by at most one live lease.
\<close>

section \<open>State\<close>

record KVExecutionRowHandle =
  row_owner :: "nat option"
  row_number :: int
  row_generation :: u32

record KVExecutionRowLease =
  row_lease_owner :: "nat option"
  row_lease_number :: int
  row_lease_generation :: u32

record KVExecutionTablePool =
  table_id :: nat
  table_spec :: KVExecutionTableSpec
  table_pages :: nat
  block_tables :: Tensor
  host_shadow :: "int list"
  row_in_use :: "bool list"
  row_generations :: "u32 list"

record table_copy =
  copy_address :: int
  copy_shadow_begin :: nat
  copy_elements :: nat

definition null_row_lease :: KVExecutionRowLease where
  "null_row_lease = \<lparr>row_lease_owner = None, row_lease_number = -1, row_lease_generation = 0\<rparr>"

definition row_lease_handle :: "KVExecutionRowLease \<Rightarrow> KVExecutionRowHandle" where
  "row_lease_handle l =
     (if row_lease_owner l \<noteq> None
      then \<lparr>row_owner = row_lease_owner l, row_number = row_lease_number l, row_generation = row_lease_generation l\<rparr>
      else \<lparr>row_owner = None, row_number = -1, row_generation = 0\<rparr>)"

definition logical_page_capacity :: "KVExecutionTablePool \<Rightarrow> nat" where
  "logical_page_capacity t = spec_logical_page_capacity (table_spec t)"

definition table_row_count :: "KVExecutionTablePool \<Rightarrow> int" where
  "table_row_count t = table_rows (table_spec t)"

section \<open>Operations\<close>

definition new_execution_table ::
  "nat \<Rightarrow> DeviceSpan \<Rightarrow> KVExecutionTableLayout \<Rightarrow> DeviceKVPagePool \<Rightarrow> int list \<Rightarrow> KVExecutionTablePool res" where
  "new_execution_table self backing l pages shadow =
     (let sp = table_layout_spec l in
      res_bind (tensor_region_bind (layout_block_tables l) backing) (\<lambda>bt.
      res_bind (checked_table_bytes sp) (\<lambda>_.
      res_bind (checked_i32 (spec_logical_page_capacity sp)) (\<lambda>logical.
        if dtype bt \<noteq> I32 \<or> ne bt ! 0 \<noteq> logical \<or> ne bt ! 1 \<noteq> table_rows sp then Inl LogicError
        else Inr \<lparr>table_id = self, table_spec = sp, table_pages = pool_id pages, block_tables = bt,
                  host_shadow = shadow, row_in_use = replicate (nat (table_rows sp)) False,
                  row_generations = replicate (nat (table_rows sp)) 1\<rparr>))))"

definition acquire :: "KVExecutionTablePool \<Rightarrow> int \<Rightarrow> (KVExecutionTablePool \<times> KVExecutionRowLease) res" where
  "acquire t row_index =
     (if row_index < 0 \<or> row_index \<ge> table_row_count t then Inl OutOfRange
      else let i = nat row_index in
        if row_in_use t ! i then Inl LogicError
        else Inr (t\<lparr>row_in_use := (row_in_use t)[i := True]\<rparr>,
                  \<lparr>row_lease_owner = Some (table_id t), row_lease_number = row_index,
                   row_lease_generation = row_generations t ! i\<rparr>))"

definition valid_row_handle :: "KVExecutionTablePool \<Rightarrow> KVExecutionRowHandle \<Rightarrow> bool" where
  "valid_row_handle t h \<longleftrightarrow>
     (if row_owner h \<noteq> Some (table_id t) \<or> row_number h < 0 \<or> row_number h \<ge> table_row_count t then False
      else let i = nat (row_number h) in row_in_use t ! i \<and> row_generations t ! i = row_generation h)"

definition release_row :: "KVExecutionTablePool \<Rightarrow> int \<Rightarrow> u32 \<Rightarrow> KVExecutionTablePool \<times> bool" where
  "release_row t row_index gen =
     (if row_index < 0 \<or> row_index \<ge> table_row_count t then (t, False)
      else let i = nat row_index in
        if \<not> row_in_use t ! i \<or> row_generations t ! i \<noteq> gen then (t, False)
        else (t\<lparr>row_in_use := (row_in_use t)[i := False],
                row_generations := (row_generations t)[i := increment_generation (row_generations t ! i)]\<rparr>, True))"

definition row_lease_release :: "KVExecutionTablePool \<Rightarrow> KVExecutionRowLease \<Rightarrow> KVExecutionTablePool \<times> KVExecutionRowLease \<times> bool"
where
  "row_lease_release t l =
     (if row_lease_owner l = None then (t, l, False)
      else case release_row t (row_lease_number l) (row_lease_generation l) of (t', ok) \<Rightarrow> (t', null_row_lease, ok))"

definition table_row :: "KVExecutionTablePool \<Rightarrow> KVExecutionRowHandle \<Rightarrow> Tensor res" where
  "table_row t h =
     (if \<not> valid_row_handle t h then Inl InvalidArgument
      else res_bind (slice (block_tables t) 1 (row_number h) 1) (\<lambda>s. view s [i32_of_u32 (logical_page_capacity t)]))"

definition publish_indices ::
  "KVExecutionTablePool \<Rightarrow> KVExecutionRowHandle \<Rightarrow> nat \<Rightarrow> nat \<Rightarrow> nat \<Rightarrow> table_copy list res" where
  "publish_indices t h logical_begin shadow_begin n =
     (if n = 0 then Inr []
      else res_bind (table_row t h) (\<lambda>destination_row.
        case data destination_row of
          None \<Rightarrow> Inl Undefined
        | Some base \<Rightarrow> Inr [\<lparr>copy_address = base + 4 * int logical_begin, copy_shadow_begin = shadow_begin,
                              copy_elements = n\<rparr>]))"

fun write_handles :: "DeviceKVPagePool \<Rightarrow> int list \<Rightarrow> nat \<Rightarrow> DeviceKVPageHandle list \<Rightarrow> int list \<times> unit res" where
  "write_handles p shadow pos [] = (shadow, Inr ())"
| "write_handles p shadow pos (h # hs) =
     (case physical_index p h of
        Inl e \<Rightarrow> (shadow, Inl e)
      | Inr i \<Rightarrow> write_handles p (shadow[pos := i]) (Suc pos) hs)"

definition publish ::
  "KVExecutionTablePool \<Rightarrow> DeviceKVPagePool \<Rightarrow> KVExecutionRowHandle \<Rightarrow> nat \<Rightarrow> DeviceKVPageHandle list
   \<Rightarrow> KVExecutionTablePool \<times> table_copy list res" where
  "publish t p row_handle logical_begin page_handles =
     (if \<not> valid_row_handle t row_handle \<or> logical_begin > logical_page_capacity t \<or>
         length page_handles > u32_sub (logical_page_capacity t) logical_begin then (t, Inl InvalidArgument)
      else let pos = nat (row_number row_handle) * logical_page_capacity t + logical_begin in
        case write_handles p (host_shadow t) pos page_handles of
          (shadow, Inl e) \<Rightarrow> (t\<lparr>host_shadow := shadow\<rparr>, Inl e)
        | (shadow, Inr u) \<Rightarrow>
            (let t' = t\<lparr>host_shadow := shadow\<rparr> in
             (t', publish_indices t' row_handle logical_begin pos (length page_handles))))"

fun write_leases :: "DeviceKVPagePool \<Rightarrow> int list \<Rightarrow> nat \<Rightarrow> DeviceKVPageLease list \<Rightarrow> int list \<times> unit res" where
  "write_leases p shadow pos [] = (shadow, Inr ())"
| "write_leases p shadow pos (l # ls) =
     (if \<not> lease_belongs_to l p then (shadow, Inl InvalidArgument)
      else case physical_index p (lease_handle l) of
        Inl e \<Rightarrow> (shadow, Inl e)
      | Inr i \<Rightarrow> write_leases p (shadow[pos := i]) (Suc pos) ls)"

definition publish_leases ::
  "KVExecutionTablePool \<Rightarrow> DeviceKVPagePool \<Rightarrow> KVExecutionRowHandle \<Rightarrow> nat \<Rightarrow> DeviceKVPageLease list
   \<Rightarrow> KVExecutionTablePool \<times> table_copy list res" where
  "publish_leases t p row_handle logical_begin page_leases =
     (if \<not> valid_row_handle t row_handle \<or> logical_begin > logical_page_capacity t \<or>
         length page_leases > u32_sub (logical_page_capacity t) logical_begin then (t, Inl InvalidArgument)
      else let pos = nat (row_number row_handle) * logical_page_capacity t + logical_begin in
        case write_leases p (host_shadow t) pos page_leases of
          (shadow, Inl e) \<Rightarrow> (t\<lparr>host_shadow := shadow\<rparr>, Inl e)
        | (shadow, Inr u) \<Rightarrow>
            (let t' = t\<lparr>host_shadow := shadow\<rparr> in
             (t', publish_indices t' row_handle logical_begin pos (length page_leases))))"

fun fill_n :: "int list \<Rightarrow> nat \<Rightarrow> nat \<Rightarrow> int \<Rightarrow> int list" where
  "fill_n xs pos 0 v = xs"
| "fill_n xs pos (Suc n) v = fill_n (xs[pos := v]) (Suc pos) n v"

definition publish_repeated ::
  "KVExecutionTablePool \<Rightarrow> DeviceKVPagePool \<Rightarrow> KVExecutionRowHandle \<Rightarrow> DeviceKVPageHandle \<Rightarrow> nat
   \<Rightarrow> KVExecutionTablePool \<times> table_copy list res" where
  "publish_repeated t p row_handle page n =
     (if \<not> valid_row_handle t row_handle \<or> n > logical_page_capacity t then (t, Inl InvalidArgument)
      else case physical_index p page of
        Inl e \<Rightarrow> (t, Inl e)
      | Inr physical \<Rightarrow>
          (let pos = nat (row_number row_handle) * logical_page_capacity t;
               t' = t\<lparr>host_shadow := fill_n (host_shadow t) pos n physical\<rparr> in
           (t', publish_indices t' row_handle 0 pos n)))"

section \<open>Invariant\<close>

definition table_inv :: "KVExecutionTablePool \<Rightarrow> bool" where
  "table_inv t \<longleftrightarrow>
     0 < logical_page_capacity t \<and> logical_page_capacity t \<le> i32_max \<and> 0 < table_row_count t \<and>
     length (host_shadow t) = nat (table_row_count t) * logical_page_capacity t \<and>
     length (row_in_use t) = nat (table_row_count t) \<and> length (row_generations t) = nat (table_row_count t) \<and>
     (\<forall>g \<in> set (row_generations t). g \<noteq> 0) \<and>
     dtype (block_tables t) = I32 \<and> data (block_tables t) \<noteq> None \<and>
     (\<exists>n2 n3. ne (block_tables t) = [int (logical_page_capacity t), table_row_count t, n2, n3] \<and> n2 = 1 \<and> n3 = 1) \<and>
     take 2 (nb (block_tables t)) = [4, 4 * int (logical_page_capacity t)] \<and> length (nb (block_tables t)) = 4"

definition table_base :: "KVExecutionTablePool \<Rightarrow> int" where
  "table_base t = the (data (block_tables t))"

lemma valid_row_handle_iff:
  "valid_row_handle t h \<longleftrightarrow> row_owner h = Some (table_id t) \<and> 0 \<le> row_number h \<and> row_number h < table_row_count t
    \<and> row_in_use t ! nat (row_number h) \<and> row_generations t ! nat (row_number h) = row_generation h"
  by (auto simp: valid_row_handle_def Let_def)

text \<open>The row tensor of a live handle: one row of the matrix, at its own address.\<close>

lemma table_row_ok:
  assumes inv: "table_inv t" and v: "valid_row_handle t h"
    and fits: "4 * int (logical_page_capacity t) * row_number h \<le> int i64_max"
  shows "\<exists>r. table_row t h = Inr r \<and> ne r = [int (logical_page_capacity t), 1, 1, 1]
    \<and> data r = Some (table_base t + 4 * int (logical_page_capacity t) * row_number h)"
proof -
  define c where "c = int (logical_page_capacity t)"
  have c: "0 < c" "c \<le> int i32_max" "i32_of_u32 (logical_page_capacity t) = c"
    using inv by (simp_all add: table_inv_def c_def width_simps)
  obtain base where base: "data (block_tables t) = Some base" using inv by (auto simp: table_inv_def)
  have bt: "dtype (block_tables t) = I32" "ne (block_tables t) = [c, table_row_count t, 1, 1]"
    using inv by (auto simp: table_inv_def c_def)
  obtain s2 s3 where nb: "nb (block_tables t) = [4, 4 * c, s2, s3]"
    using inv by (auto simp: table_inv_def c_def length_Suc_conv numeral_eq_Suc)
  have r: "0 \<le> row_number h" "row_number h < table_row_count t" using v by (simp_all add: valid_row_handle_iff)
  have mul: "checked_mul_i64 (row_number h) (4 * c) = Inr (row_number h * (4 * c))"
    using r c(1) fits by (intro checked_mul_i64_fits) (simp_all add: c_def algebra_simps)
  define sl where "sl = (block_tables t)\<lparr>data := Some (base + row_number h * (4 * c)), ne := [c, 1, 1, 1]\<rparr>"
  have s: "slice (block_tables t) 1 (row_number h) 1 = Inr sl"
    using r mul by (simp add: slice_def bt nb base sl_def)
  have small: "c \<le> int i64_max" "4 * c \<le> int i64_max" using c(2) by (simp_all add: i32_max_def i64_max_def)
  have cont: "is_contiguous sl = Inr True"
    using c(1) small(2) by (simp add: is_contiguous_def sl_def bt nb checked_mul_i64_fits)
  have nrm: "normalize_shape [c] = Inr [c, 1, 1, 1]" using c(1) by (simp add: normalize_shape_def numeral_eq_Suc)
  have num: "shape_numel [c, 1, 1, 1] = Inr c"
    using c(1) small by (simp add: shape_numel_def checked_mul_i64_fits)
  have "\<exists>r. make_tensor (data sl) I32 [c] = Inr r \<and> ne r = [c, 1, 1, 1] \<and> data r = data sl"
    using c(1) small
    by (simp add: make_tensor_def nrm set_contiguous_strides_def checked_mul_i64_fits [of 4 c] checked_mul_i64_fits [of "4 * c" 1])
  then obtain r where r: "make_tensor (data sl) I32 [c] = Inr r" "ne r = [c, 1, 1, 1]" "data r = data sl" by blast
  have "view sl [c] = Inr r"
    using cont nrm num r(1) by (simp add: view_def numel_def sl_def bt)
  then have "table_row t h = Inr r" using v s c(3) by (simp add: table_row_def)
  moreover have "data r = Some (table_base t + 4 * c * row_number h)"
    using r(3) base by (simp add: sl_def table_base_def algebra_simps)
  ultimately show ?thesis using r(2) unfolding c_def by blast
qed

section \<open>Writing the shadow\<close>

definition overwrite :: "'a list \<Rightarrow> nat \<Rightarrow> 'a list \<Rightarrow> 'a list" where
  "overwrite xs pos vs = take pos xs @ vs @ drop (pos + length vs) xs"

lemma overwrite_length [simp]: "pos + length vs \<le> length xs \<Longrightarrow> length (overwrite xs pos vs) = length xs"
  by (simp add: overwrite_def)

lemma overwrite_nth:
  assumes "pos + length vs \<le> length xs" "i < length xs"
  shows "overwrite xs pos vs ! i = (if pos \<le> i \<and> i < pos + length vs then vs ! (i - pos) else xs ! i)"
  using assms by (auto simp: overwrite_def nth_append)

lemma overwrite_Nil [simp]: "overwrite xs pos [] = xs"
  by (simp add: overwrite_def)

lemma overwrite_Cons:
  assumes "pos < length xs"
  shows "overwrite (xs[pos := v]) (Suc pos) vs = overwrite xs pos (v # vs)"
proof -
  have "take (Suc pos) (xs[pos := v]) = take pos xs @ [v]"
    using assms by (simp add: take_Suc_conv_app_nth)
  then show ?thesis by (simp add: overwrite_def)
qed

lemma write_handles_spec:
  assumes "pos + length hs \<le> length shadow"
  shows "write_handles p shadow pos hs =
    (overwrite shadow pos (map handle_index (takeWhile (valid_handle p) hs)),
     if \<forall>h \<in> set hs. valid_handle p h then Inr () else Inl InvalidArgument)"
  using assms
proof (induction hs arbitrary: shadow pos)
  case (Cons h hs)
  then show ?case by (auto simp: physical_index_def overwrite_Cons)
qed simp

lemma write_leases_handles:
  "\<forall>l \<in> set ls. lease_belongs_to l p \<Longrightarrow> write_leases p shadow pos ls = write_handles p shadow pos (map lease_handle ls)"
  by (induction ls arbitrary: shadow pos) (auto split: sum.splits)

lemma fill_n_overwrite: "pos + n \<le> length xs \<Longrightarrow> fill_n xs pos n v = overwrite xs pos (replicate n v)"
proof (induction n arbitrary: xs pos)
  case (Suc n)
  then show ?case using overwrite_Cons [of pos xs v "replicate n v"] by simp
qed simp

lemma row_position:
  assumes "table_inv t" "valid_row_handle t h" "b + n \<le> logical_page_capacity t"
  shows "nat (row_number h) * logical_page_capacity t + b + n \<le> length (host_shadow t)"
proof -
  have "Suc (nat (row_number h)) \<le> nat (table_row_count t)" using assms(2) by (auto simp: valid_row_handle_iff)
  then have "Suc (nat (row_number h)) * logical_page_capacity t \<le> nat (table_row_count t) * logical_page_capacity t"
    by (rule mult_le_mono1)
  then show ?thesis using assms(1,3) by (simp add: table_inv_def)
qed

lemma publish_fails_or_writes:
  assumes inv: "table_inv t"
  shows "fst (publish t p h b hs) = t
    \<or> (valid_row_handle t h \<and> b + length hs \<le> logical_page_capacity t
       \<and> fst (publish t p h b hs) = t\<lparr>host_shadow := overwrite (host_shadow t)
            (nat (row_number h) * logical_page_capacity t + b) (map handle_index (takeWhile (valid_handle p) hs))\<rparr>)"
proof (cases "valid_row_handle t h \<and> b + length hs \<le> logical_page_capacity t")
  case False
  then show ?thesis by (auto simp: publish_def width_simps not_le)
next
  case True
  have pos: "nat (row_number h) * logical_page_capacity t + b + length hs \<le> length (host_shadow t)"
    using row_position [OF inv] True by blast
  show ?thesis using True write_handles_spec [OF pos, of p]
    by (auto simp: publish_def Let_def width_simps split: prod.splits sum.splits if_splits)
qed

lemma valid_row_shadow [simp]: "valid_row_handle (t\<lparr>host_shadow := s\<rparr>) h = valid_row_handle t h"
  by (simp add: valid_row_handle_iff table_row_count_def)

lemma table_inv_shadow: "table_inv t \<Longrightarrow> length s = length (host_shadow t) \<Longrightarrow> table_inv (t\<lparr>host_shadow := s\<rparr>)"
  by (simp add: table_inv_def table_row_count_def logical_page_capacity_def)

section \<open>Row leases\<close>

lemma acquire_ok:
  assumes "table_inv t" "acquire t r = Inr (t', l)"
  shows "table_inv t'" "valid_row_handle t' (row_lease_handle l)" "row_lease_number l = r"
    "\<not> valid_row_handle t h \<or> row_number h \<noteq> r"
    "valid_row_handle t h \<Longrightarrow> valid_row_handle t' h"
proof -
  have A: "0 \<le> r" "r < table_row_count t" "\<not> row_in_use t ! nat r"
    and t': "t' = t\<lparr>row_in_use := (row_in_use t)[nat r := True]\<rparr>"
    and l: "l = \<lparr>row_lease_owner = Some (table_id t), row_lease_number = r, row_lease_generation = row_generations t ! nat r\<rparr>"
    using assms(2) by (auto simp: acquire_def Let_def split: if_splits)
  have len: "nat r < length (row_in_use t)" using A assms(1) by (simp add: table_inv_def)
  show "table_inv t'" using assms(1) by (simp add: t' table_inv_def table_row_count_def logical_page_capacity_def)
  show "valid_row_handle t' (row_lease_handle l)"
    using A len by (simp add: valid_row_handle_iff row_lease_handle_def t' l table_row_count_def)
  show "row_lease_number l = r" by (simp add: l)
  show "\<not> valid_row_handle t h \<or> row_number h \<noteq> r" using A by (auto simp: valid_row_handle_iff)
  show "valid_row_handle t h \<Longrightarrow> valid_row_handle t' h"
    using len by (auto simp: valid_row_handle_iff t' table_row_count_def nth_list_update)
qed

lemma release_row_ok:
  assumes "table_inv t" "valid_row_handle t h" "release_row t (row_number h) (row_generation h) = (t', ok)"
  shows "table_inv t'" "ok" "\<not> valid_row_handle t' h"
    "row_number g \<noteq> row_number h \<Longrightarrow> valid_row_handle t' g = valid_row_handle t g"
    "\<exists>t'' l. acquire t' (row_number h) = Inr (t'', l) \<and> \<not> valid_row_handle t'' h"
proof -
  define i where "i = nat (row_number h)"
  have V: "row_owner h = Some (table_id t)" "0 \<le> row_number h" "row_number h < table_row_count t"
    "row_in_use t ! i" "row_generations t ! i = row_generation h"
    using assms(2) by (auto simp: valid_row_handle_iff i_def)
  have t': "t' = t\<lparr>row_in_use := (row_in_use t)[i := False],
      row_generations := (row_generations t)[i := increment_generation (row_generation h)]\<rparr>" and ok: "ok"
    using assms(3) V by (auto simp: release_row_def Let_def i_def)
  have len: "i < length (row_in_use t)" "i < length (row_generations t)" "int i = row_number h"
    using V assms(1) by (simp_all add: table_inv_def i_def)
  have "\<forall>g \<in> set ((row_generations t)[i := increment_generation (row_generation h)]). g \<noteq> 0"
    using assms(1) set_update_subset_insert by (fastforce simp: table_inv_def)
  then show "table_inv t'" using assms(1) by (simp add: t' table_inv_def table_row_count_def logical_page_capacity_def)
  show "ok" by (rule ok)
  show "\<not> valid_row_handle t' h" using len by (simp add: valid_row_handle_iff t' i_def)
  show "row_number g \<noteq> row_number h \<Longrightarrow> valid_row_handle t' g = valid_row_handle t g"
    using len by (auto simp: valid_row_handle_iff t' table_row_count_def nth_list_update)
  have "row_generation h \<noteq> 0" using assms(1) V(5) len(2) by (auto simp: table_inv_def dest!: nth_mem)
  then have "increment_generation (row_generation h) \<noteq> row_generation h" by (rule increment_generation_changes)
  then show "\<exists>t'' l. acquire t' (row_number h) = Inr (t'', l) \<and> \<not> valid_row_handle t'' h"
    using V len by (auto simp: acquire_def t' i_def [symmetric] table_row_count_def valid_row_handle_iff)
qed

section \<open>A concrete table\<close>

definition example_table_layout :: KVExecutionTableLayout where
  "example_table_layout = \<lparr>table_layout_spec = \<lparr>spec_logical_page_capacity = 4, table_rows = 2\<rparr>,
     layout_block_tables = \<lparr>region = \<lparr>offset = 0, bytes = 32, alignment = 256\<rparr>, region_dtype = I32,
       shape = [4, 2, 1, 1]\<rparr>\<rparr>"

definition example_table :: KVExecutionTablePool where
  "example_table = \<lparr>table_id = 9, table_spec = \<lparr>spec_logical_page_capacity = 4, table_rows = 2\<rparr>, table_pages = 7,
     block_tables = \<lparr>data = Some 8192, dtype = I32, ne = [4, 2, 1, 1], nb = [4, 16, 32, 32]\<rparr>,
     host_shadow = [0, 0, 0, 0, 0, 0, 0, 0], row_in_use = [False, False], row_generations = [1, 1]\<rparr>"

lemma example_table_new:
  "new_execution_table 9 \<lparr>span_data = Some 8192, span_bytes = 32\<rparr> example_table_layout example_pool
     [0, 0, 0, 0, 0, 0, 0, 0] = Inr example_table"
proof -
  have "is_power_of_two 256" unfolding power_of_two_iff by (rule exI [of _ 8]) simp
  moreover have "replicate 2 (x :: bool) = [x, x]" "replicate 2 (y :: u32) = [y, y]" for x y
    by (simp_all add: numeral_eq_Suc)
  ultimately show ?thesis
    by (simp add: new_execution_table_def example_table_layout_def example_table_def example_pool_def
        checked_table_bytes_def checked_i32_def i32_max_def u64_max_def tensor_region_bind_def make_tensor_def
        normalize_shape_def set_contiguous_strides_def checked_mul_i64_def i64_max_def tensor_bytes_def numel_def
        shape_numel_def region_bind_def u64_add_def Let_def)
qed

text \<open>Row 1 of the table is bound; page 2 of the pool is held.\<close>

definition example_bound_table :: KVExecutionTablePool where
  "example_bound_table = example_table\<lparr>row_in_use := [False, True]\<rparr>"

definition example_row :: KVExecutionRowHandle where
  "example_row = \<lparr>row_owner = Some 9, row_number = 1, row_generation = 1\<rparr>"

definition example_page :: DeviceKVPageHandle where
  "example_page = \<lparr>handle_owner = Some 7, handle_index = 2, handle_generation = 1\<rparr>"

definition example_held_pool :: DeviceKVPagePool where
  "example_held_pool = example_pool\<lparr>page_allocated := [False, False, True, False]\<rparr>"

lemma example_bound: "acquire example_table 1 = Inr (example_bound_table,
    \<lparr>row_lease_owner = Some 9, row_lease_number = 1, row_lease_generation = 1\<rparr>)"
  by (simp add: acquire_def example_table_def example_bound_table_def table_row_count_def)

lemma example_table_facts:
  "table_inv example_bound_table" "valid_row_handle example_bound_table example_row"
  "logical_page_capacity example_bound_table = 4" "valid_handle example_held_pool example_page"
  by (simp_all add: table_inv_def example_bound_table_def example_table_def logical_page_capacity_def
      table_row_count_def i32_max_def valid_row_handle_def example_row_def valid_handle_def example_held_pool_def
      example_page_def example_pool_def example_spec_def capacity_pages_def i32_of_u32_def)

section \<open>Properties\<close>

text \<open>C12: publishing live pages at a position of a live row succeeds when the range fits the row; the
  shadow then holds the physical index of each page at its position, and exactly that shadow range
  is copied to the same position of the row in the device table.\<close>

theorem publish_exact:
  assumes "table_inv t" "valid_row_handle t h" "b + length hs \<le> logical_page_capacity t"
    and "\<forall>g \<in> set hs. valid_handle p g" "hs \<noteq> []"
    and "4 * int (logical_page_capacity t) * row_number h \<le> int i64_max"
  shows "\<exists>t'. publish t p h b hs = (t', Inr [\<lparr>
        copy_address = table_base t + 4 * (int (logical_page_capacity t) * row_number h + int b),
        copy_shadow_begin = nat (row_number h) * logical_page_capacity t + b, copy_elements = length hs\<rparr>])
    \<and> table_inv t'
    \<and> (\<forall>k < length hs. host_shadow t' ! (nat (row_number h) * logical_page_capacity t + b + k) = handle_index (hs ! k))"
proof -
  define pos where "pos = nat (row_number h) * logical_page_capacity t + b"
  define t' where "t' = t\<lparr>host_shadow := overwrite (host_shadow t) pos (map handle_index hs)\<rparr>"
  have pos: "pos + length hs \<le> length (host_shadow t)"
    unfolding pos_def using row_position [OF assms(1-3)] .
  have w: "write_handles p (host_shadow t) pos hs = (host_shadow t', Inr ())"
    using write_handles_spec [OF pos, of p] assms(4) by (simp add: t'_def takeWhile_eq_all_conv [THEN iffD2])
  have inv': "table_inv t'" unfolding t'_def using pos by (intro table_inv_shadow [OF assms(1)]) simp
  have v': "valid_row_handle t' h" using assms(2) by (simp add: t'_def)
  have same: "logical_page_capacity t' = logical_page_capacity t" "table_base t' = table_base t"
    by (simp_all add: t'_def logical_page_capacity_def table_base_def)
  obtain r where r: "table_row t' h = Inr r" "data r = Some (table_base t + 4 * int (logical_page_capacity t) * row_number h)"
    using table_row_ok [OF inv' v'] assms(6) same by auto
  have "\<not> logical_page_capacity t - b < length hs" using assms(3) by linarith
  then have "publish t p h b hs = (t', publish_indices t' h b pos (length hs))"
    using assms(2,3) w by (simp add: publish_def pos_def [symmetric] width_simps t'_def Let_def)
  moreover have "publish_indices t' h b pos (length hs) = Inr [\<lparr>
      copy_address = table_base t + 4 * (int (logical_page_capacity t) * row_number h + int b),
      copy_shadow_begin = pos, copy_elements = length hs\<rparr>]"
    using r assms(5) by (simp add: publish_indices_def algebra_simps)
  moreover have "host_shadow t' ! (pos + k) = handle_index (hs ! k)" if "k < length hs" for k
    using that pos by (simp add: t'_def overwrite_nth)
  ultimately show ?thesis using inv' unfolding pos_def by (intro exI [of _ t']) simp
qed

theorem publish_exact_witness:
  "\<exists>t'. publish example_bound_table example_held_pool example_row 3 [example_page]
       = (t', Inr [\<lparr>copy_address = 8220, copy_shadow_begin = 7, copy_elements = 1\<rparr>])
     \<and> host_shadow t' ! 7 = 2"
proof -
  have "table_base example_bound_table = 8192" "row_number example_row = 1" "handle_index example_page = 2"
    by (simp_all add: table_base_def example_bound_table_def example_table_def example_row_def example_page_def)
  then show ?thesis
    using publish_exact [OF example_table_facts(1,2), of 3 "[example_page]" example_held_pool] example_table_facts(3,4)
    by (fastforce simp: i64_max_def)
qed

text \<open>C13: whatever a publication does, also when it stops at a stale page, it changes no entry of
  the shadow outside the requested range of its own row, so the rows of other sequences are never
  touched, and it keeps the table well formed.\<close>

theorem publish_confined:
  assumes "table_inv t" "fst (publish t p h b hs) = t'"
  shows "table_inv t' \<and> row_in_use t' = row_in_use t \<and> row_generations t' = row_generations t
    \<and> (\<forall>row col. row < nat (table_row_count t) \<and> col < logical_page_capacity t
         \<and> (int row \<noteq> row_number h \<or> col < b \<or> b + length hs \<le> col) \<longrightarrow>
         host_shadow t' ! (row * logical_page_capacity t + col) = host_shadow t ! (row * logical_page_capacity t + col))"
proof (cases "t' = t")
  case True
  then show ?thesis using assms(1) by simp
next
  case False
  define c where "c = logical_page_capacity t"
  define vs where "vs = map handle_index (takeWhile (valid_handle p) hs)"
  define pos where "pos = nat (row_number h) * c + b"
  have v: "valid_row_handle t h" "b + length hs \<le> c" and t': "t' = t\<lparr>host_shadow := overwrite (host_shadow t) pos vs\<rparr>"
    using publish_fails_or_writes [OF assms(1), of p h b hs] False assms(2) by (auto simp: c_def vs_def pos_def)
  have vl: "length vs \<le> length hs" by (simp add: vs_def length_takeWhile_le)
  have len: "length (host_shadow t) = nat (table_row_count t) * c" using assms(1) by (simp add: table_inv_def c_def)
  have pl: "pos + length vs \<le> length (host_shadow t)"
    using row_position [OF assms(1) v(1)] v(2) vl unfolding pos_def c_def [symmetric] by fastforce
  have "overwrite (host_shadow t) pos vs ! (row * c + col) = host_shadow t ! (row * c + col)"
    if rc: "row < nat (table_row_count t)" "col < c" "int row \<noteq> row_number h \<or> col < b \<or> b + length hs \<le> col" for row col
  proof -
    have "Suc row * c \<le> nat (table_row_count t) * c" using rc(1) by (intro mult_le_mono1) simp
    then have lt: "row * c + col < length (host_shadow t)" using rc(2) len by simp
    have "\<not> (pos \<le> row * c + col \<and> row * c + col < pos + length vs)"
    proof (cases "int row = row_number h")
      case True
      then have "nat (row_number h) = row" by simp
      then show ?thesis using rc(3) True vl by (auto simp: pos_def)
    next
      case False
      have "0 \<le> row_number h" using v(1) by (simp add: valid_row_handle_iff)
      then have "row \<noteq> nat (row_number h)" using False by auto
      then consider "Suc row \<le> nat (row_number h)" | "Suc (nat (row_number h)) \<le> row" by linarith
      then show ?thesis
      proof cases
        case 1
        then have "Suc row * c \<le> nat (row_number h) * c" by (rule mult_le_mono1)
        then show ?thesis using rc(2) by (simp add: pos_def)
      next
        case 2
        then have "Suc (nat (row_number h)) * c \<le> row * c" by (rule mult_le_mono1)
        then show ?thesis using v(2) vl by (simp add: pos_def)
      qed
    qed
    then show ?thesis unfolding overwrite_nth [OF pl lt] by (rule if_not_P)
  qed
  moreover have "table_inv t'" unfolding t' using pl by (intro table_inv_shadow [OF assms(1)]) simp
  ultimately show ?thesis by (auto simp: t' c_def)
qed

theorem publish_confined_witness:
  "\<exists>t'. fst (publish example_bound_table example_held_pool example_row 3 [example_page]) = t' \<and> table_inv t'
     \<and> host_shadow t' ! (0 * 4 + 3) = 0"
proof -
  define t' where "t' = fst (publish example_bound_table example_held_pool example_row 3 [example_page])"
  note T = publish_confined [OF example_table_facts(1) t'_def [symmetric]]
  have "host_shadow t' ! (0 * 4 + 3) = host_shadow example_bound_table ! (0 * 4 + 3)"
  proof -
    have "table_row_count example_bound_table = 2" "row_number example_row = 1"
      by (simp_all add: table_row_count_def example_bound_table_def example_table_def example_row_def)
    then show ?thesis using T [THEN conjunct2, THEN conjunct2, THEN conjunct2, rule_format, of 0 3]
      by (simp add: example_table_facts(3))
  qed
  also have "\<dots> = 0" by (simp add: example_bound_table_def example_table_def)
  finally show ?thesis using T t'_def by blast
qed

end
