(* ===== verification/Host_KV_Arena.thy ===== *)
theory Host_KV_Arena
  imports KV_Geometry Free_Extents "HOL-Library.Product_Lexorder"
begin

text \<open>
  The pinned host arena that keeps evicted KV pages (\<^verbatim>\<open>class HostKVArena\<close>, its allocations,
  handles, views and recipes, \<^verbatim>\<open>src/core/host_kv_arena.cpp\<close>). The arena is the record of its
  members; the address of the pinned buffer, which the CUDA runtime chooses, is an argument of the
  constructor. A pointer to a page layout is \<open>None\<close> or the layout it points to, since the layouts of an
  arena never change. \<^verbatim>\<open>std::lower_bound\<close> on the sorted extents is the split into the extents
  before and after the position. Shown: active allocations and free extents partition the arena,
  each allocation is exactly its pages, the byte counter counts, the extents stay coalesced, and
  every operation keeps this; a free descriptor exists whenever bytes allow a split; a
  recipe planned at the current revision always applies and places its targets where it planned.
\<close>

section \<open>State\<close>

record HostKVAllocationHandle =
  alloc_handle_owner :: "nat option"
  alloc_handle_descriptor :: nat
  alloc_handle_generation :: u32

record HostKVAllocation =
  alloc_owner :: "nat option"
  alloc_descriptor :: nat
  alloc_generation :: u32

record Descriptor =
  desc_offset :: nat
  desc_bytes :: nat
  desc_layout :: nat
  desc_pages :: nat
  desc_generation :: u32
  desc_active :: bool

record FreeExtent =
  ext_offset :: nat
  ext_bytes :: nat

record HostKVArena =
  arena_id :: nat
  arena_backing :: "nat option"
  capacity_bytes :: nat
  occupied_bytes :: nat
  layouts :: "HostKVPageLayout list"
  descriptors :: "Descriptor list"
  free_descriptors :: "nat list"
  free_extents :: "FreeExtent list"
  revision :: u64

record HostKVAllocationRequest =
  request_layout :: "HostKVPageLayout option"
  request_page_count :: nat

record HostKVSuballocationRelease =
  sub_allocation :: HostKVAllocationHandle
  begin_page :: nat
  release_page_count :: nat

record RecipeTarget =
  target_layout :: nat
  target_pages :: nat
  target_offset :: nat
  target_bytes :: nat

record HostKVAllocationRecipe =
  recipe_owner :: "nat option"
  recipe_revision :: u64
  recipe_releases :: "HostKVAllocationHandle list"
  recipe_targets :: "RecipeTarget list"

record HostKVAllocationView =
  view_handle :: HostKVAllocationHandle
  view_data :: "nat option"
  view_layout :: "HostKVPageLayout option"
  view_page_count :: nat

definition null_alloc_handle :: HostKVAllocationHandle where
  "null_alloc_handle = \<lparr>alloc_handle_owner = None, alloc_handle_descriptor = 0, alloc_handle_generation = 0\<rparr>"

definition null_allocation :: HostKVAllocation where
  "null_allocation = \<lparr>alloc_owner = None, alloc_descriptor = 0, alloc_generation = 0\<rparr>"

definition alloc_handle :: "HostKVAllocation \<Rightarrow> HostKVAllocationHandle" where
  "alloc_handle a =
     (if alloc_owner a \<noteq> None
      then \<lparr>alloc_handle_owner = alloc_owner a, alloc_handle_descriptor = alloc_descriptor a,
            alloc_handle_generation = alloc_generation a\<rparr>
      else null_alloc_handle)"

section \<open>Construction and queries\<close>

fun check_layouts :: "HostKVPageLayout list \<Rightarrow> HostKVPageLayout list \<Rightarrow> unit res" where
  "check_layouts previous [] = Inr ()"
| "check_layouts previous (l # ls) =
     res_bind (plan_host_kv_page_layout (host_geometry l)) (\<lambda>planned.
       if planned \<noteq> l then Inl InvalidArgument
       else if l \<in> set previous then Inl InvalidArgument
       else check_layouts (previous @ [l]) ls)"

fun smallest_stride :: "HostKVPageLayout list \<Rightarrow> nat" where
  "smallest_stride [] = 0"
| "smallest_stride [l] = page_stride l"
| "smallest_stride (l # ls) = (let m = smallest_stride ls in if m < page_stride l then m else page_stride l)"

definition new_host_arena :: "nat \<Rightarrow> nat \<Rightarrow> nat \<Rightarrow> HostKVPageLayout list \<Rightarrow> HostKVArena res" where
  "new_host_arena self base capacity supported =
     res_bind (check_layouts [] supported) (\<lambda>_.
       let empty = \<lparr>arena_id = self, arena_backing = None, capacity_bytes = capacity, occupied_bytes = 0,
                    layouts = supported, descriptors = [], free_descriptors = [], free_extents = [],
                    revision = 1\<rparr> in
       if capacity = 0 then Inr empty
       else if supported = [] then Inl InvalidArgument
       else let maximum_descriptors = capacity div smallest_stride supported in
         if maximum_descriptors > u32_max then Inl OverflowError
         else Inr (empty\<lparr>arena_backing := Some base,
                descriptors := replicate maximum_descriptors
                  \<lparr>desc_offset = 0, desc_bytes = 0, desc_layout = 0, desc_pages = 0, desc_generation = 1,
                   desc_active = False\<rparr>,
                free_descriptors := rev [0..<maximum_descriptors],
                free_extents := [\<lparr>ext_offset = 0, ext_bytes = capacity\<rparr>]\<rparr>))"

definition free_bytes :: "HostKVArena \<Rightarrow> nat" where
  "free_bytes h = u64_sub (capacity_bytes h) (occupied_bytes h)"

definition find_layout :: "HostKVArena \<Rightarrow> HostKVPageLayout \<Rightarrow> nat option" where
  "find_layout h l = find_index (\<lambda>x. x = l) (layouts h)"

definition layout_for :: "HostKVArena \<Rightarrow> KVPageGeometry \<Rightarrow> HostKVPageLayout option" where
  "layout_for h g = find (\<lambda>l. host_geometry l = g) (layouts h)"

definition find_free_extent :: "nat \<Rightarrow> FreeExtent list \<Rightarrow> nat option" where
  "find_free_extent n es = find_index (\<lambda>e. ext_bytes e \<ge> n) es"

definition can_allocate :: "HostKVArena \<Rightarrow> HostKVPageLayout \<Rightarrow> nat \<Rightarrow> bool" where
  "can_allocate h l pages \<longleftrightarrow>
     (if pages = 0 \<or> free_descriptors h = [] \<or> find_layout h l = None \<or> page_stride l > u64_max div pages then False
      else find_free_extent (u64_mul (page_stride l) pages) (free_extents h) \<noteq> None)"

definition valid_alloc_handle :: "HostKVArena \<Rightarrow> HostKVAllocationHandle \<Rightarrow> bool" where
  "valid_alloc_handle h a \<longleftrightarrow>
     (if alloc_handle_owner a \<noteq> Some (arena_id h) \<or> alloc_handle_descriptor a \<ge> length (descriptors h) then False
      else let d = descriptors h ! alloc_handle_descriptor a in
        desc_active d \<and> desc_generation d = alloc_handle_generation a)"

definition alloc_page_count :: "HostKVArena \<Rightarrow> HostKVAllocation \<Rightarrow> nat" where
  "alloc_page_count h a =
     (if alloc_owner a = None \<or> alloc_descriptor a \<ge> length (descriptors h) then 0
      else let d = descriptors h ! alloc_descriptor a in
        if desc_active d \<and> desc_generation d = alloc_generation a then desc_pages d else 0)"

section \<open>Allocation and release\<close>

definition take_descriptor :: "HostKVArena \<Rightarrow> nat \<times> HostKVArena" where
  "take_descriptor h =
     (if free_descriptors h = [] then (u32_max, h)
      else (last (free_descriptors h), h\<lparr>free_descriptors := butlast (free_descriptors h)\<rparr>))"

text \<open>The front of extent \<open>k\<close> is cut off; an exhausted extent is erased.\<close>

definition take_extent :: "nat \<Rightarrow> nat \<Rightarrow> FreeExtent list \<Rightarrow> FreeExtent list" where
  "take_extent k n es =
     (let e = \<lparr>ext_offset = u64_add (ext_offset (es ! k)) n, ext_bytes = u64_sub (ext_bytes (es ! k)) n\<rparr> in
      if ext_bytes e = 0 then take k es @ drop (Suc k) es else es[k := e])"

definition allocate :: "HostKVArena \<Rightarrow> HostKVPageLayout \<Rightarrow> nat \<Rightarrow> HostKVArena \<times> HostKVAllocation option" where
  "allocate h l pages =
     (case find_layout h l of
        None \<Rightarrow> (h, None)
      | Some layout_index \<Rightarrow>
          if pages = 0 \<or> free_descriptors h = [] \<or> page_stride l > u64_max div pages then (h, None)
          else let n = u64_mul (page_stride l) pages in
            case find_free_extent n (free_extents h) of
              None \<Rightarrow> (h, None)
            | Some free_index \<Rightarrow>
                (case take_descriptor h of (i, h1) \<Rightarrow>
                   if i = u32_max then (h1, None)
                   else let at = ext_offset (free_extents h ! free_index);
                            d = (descriptors h1 ! i)\<lparr>desc_offset := at, desc_bytes := n, desc_layout := layout_index,
                                  desc_pages := pages, desc_active := True\<rparr> in
                     (h1\<lparr>free_extents := take_extent free_index n (free_extents h1),
                         descriptors := (descriptors h1)[i := d],
                         occupied_bytes := u64_add (occupied_bytes h1) n,
                         revision := bump_u64 (revision h1)\<rparr>,
                      Some \<lparr>alloc_owner = Some (arena_id h), alloc_descriptor = i,
                            alloc_generation = desc_generation d\<rparr>)))"

definition insert_free_extent :: "FreeExtent \<Rightarrow> FreeExtent list \<Rightarrow> FreeExtent list" where
  "insert_free_extent x es =
     (let before = takeWhile (\<lambda>e. ext_offset e < ext_offset x) es;
          after = dropWhile (\<lambda>e. ext_offset e < ext_offset x) es;
          joins = before \<noteq> [] \<and> u64_add (ext_offset (last before)) (ext_bytes (last before)) = ext_offset x;
          front = (if joins then butlast before else before);
          inserted = (if joins then (last before)\<lparr>ext_bytes := u64_add (ext_bytes (last before)) (ext_bytes x)\<rparr> else x)
      in if after \<noteq> [] \<and> u64_add (ext_offset inserted) (ext_bytes inserted) = ext_offset (hd after)
           then front @ inserted\<lparr>ext_bytes := u64_add (ext_bytes inserted) (ext_bytes (hd after))\<rparr> # tl after
         else front @ inserted # after)"

definition release_descriptor :: "HostKVArena \<Rightarrow> nat \<Rightarrow> u32 \<Rightarrow> HostKVArena \<times> bool" where
  "release_descriptor h i gen =
     (if i \<ge> length (descriptors h) then (h, False)
      else let d = descriptors h ! i in
        if \<not> desc_active d \<or> desc_generation d \<noteq> gen then (h, False)
        else (h\<lparr>occupied_bytes := u64_sub (occupied_bytes h) (desc_bytes d),
                descriptors := (descriptors h)[i := d\<lparr>desc_active := False, desc_offset := 0, desc_bytes := 0,
                  desc_pages := 0, desc_generation := increment_generation (desc_generation d)\<rparr>],
                free_descriptors := free_descriptors h @ [i],
                free_extents := insert_free_extent \<lparr>ext_offset = desc_offset d, ext_bytes = desc_bytes d\<rparr> (free_extents h),
                revision := bump_u64 (revision h)\<rparr>, True))"

text \<open>The arena argument is the arena the allocation's owner pointer names.\<close>

definition allocation_release :: "HostKVArena \<Rightarrow> HostKVAllocation \<Rightarrow> HostKVArena \<times> HostKVAllocation \<times> bool" where
  "allocation_release h a =
     (if alloc_owner a = None then (h, a, False)
      else case release_descriptor h (alloc_descriptor a) (alloc_generation a) of
        (h', released) \<Rightarrow> (h', null_allocation, released))"

section \<open>Recipes\<close>

fun plan_releases ::
  "HostKVArena \<Rightarrow> FreeExtent list \<Rightarrow> HostKVAllocationHandle list \<Rightarrow> HostKVAllocationHandle list \<Rightarrow> FreeExtent list option"
where
  "plan_releases h simulated previous [] = Some simulated"
| "plan_releases h simulated previous (a # as) =
     (if \<not> valid_alloc_handle h a \<or> a \<in> set previous then None
      else let d = descriptors h ! alloc_handle_descriptor a in
        plan_releases h (insert_free_extent \<lparr>ext_offset = desc_offset d, ext_bytes = desc_bytes d\<rparr> simulated)
          (previous @ [a]) as)"

fun plan_targets ::
  "HostKVArena \<Rightarrow> FreeExtent list \<Rightarrow> HostKVAllocationRequest list \<Rightarrow> RecipeTarget list option" where
  "plan_targets h simulated [] = Some []"
| "plan_targets h simulated (q # qs) =
     (case request_layout q of
        None \<Rightarrow> None
      | Some l \<Rightarrow>
          if request_page_count q = 0 then None
          else case find_layout h l of
            None \<Rightarrow> None
          | Some i \<Rightarrow>
              if page_stride l > u64_max div request_page_count q then None
              else let n = u64_mul (page_stride l) (request_page_count q) in
                case find_free_extent n simulated of
                  None \<Rightarrow> None
                | Some k \<Rightarrow>
                    map_option (\<lambda>ts. \<lparr>target_layout = i, target_pages = request_page_count q,
                                       target_offset = ext_offset (simulated ! k), target_bytes = n\<rparr> # ts)
                      (plan_targets h (take_extent k n simulated) qs))"

definition plan_after_releases ::
  "HostKVArena \<Rightarrow> HostKVAllocationHandle list \<Rightarrow> HostKVAllocationRequest list \<Rightarrow> HostKVAllocationRecipe option" where
  "plan_after_releases h releases targets =
     (if releases = [] \<and> targets = [] then None
      else if length targets > length (free_descriptors h) + length releases then None
      else case plan_releases h (free_extents h) [] releases of
        None \<Rightarrow> None
      | Some simulated \<Rightarrow>
          map_option (\<lambda>ts. \<lparr>recipe_owner = Some (arena_id h), recipe_revision = revision h,
                             recipe_releases = releases, recipe_targets = ts\<rparr>)
            (plan_targets h simulated targets))"

fun releases_match :: "HostKVArena \<Rightarrow> HostKVAllocationHandle list \<Rightarrow> HostKVAllocation option list \<Rightarrow> bool" where
  "releases_match h (a # as) (x # xs) =
     (case x of
        None \<Rightarrow> False
      | Some y \<Rightarrow> alloc_handle y = a \<and> valid_alloc_handle h a \<and> releases_match h as xs)"
| "releases_match h as xs = True"

definition target_adoptable :: "HostKVArena \<Rightarrow> RecipeTarget \<Rightarrow> HostKVAllocation \<Rightarrow> bool" where
  "target_adoptable h t out \<longleftrightarrow>
     \<not> (alloc_owner out \<noteq> None \<or> target_layout t \<ge> length (layouts h) \<or> target_pages t = 0 \<or>
         page_stride (layouts h ! target_layout t) > u64_max div target_pages t \<or>
         u64_mul (page_stride (layouts h ! target_layout t)) (target_pages t) \<noteq> target_bytes t)"

fun adopt_releases :: "HostKVArena \<Rightarrow> HostKVAllocation option list \<Rightarrow> HostKVArena res" where
  "adopt_releases h [] = Inr h"
| "adopt_releases h (x # xs) =
     (case allocation_release h (the x) of
        (h', a, released) \<Rightarrow> if \<not> released then Inl Terminate else adopt_releases h' xs)"

fun adopt_targets :: "HostKVArena \<Rightarrow> RecipeTarget list \<Rightarrow> (HostKVArena \<times> HostKVAllocation list) res" where
  "adopt_targets h [] = Inr (h, [])"
| "adopt_targets h (t # ts) =
     (case allocate h (layouts h ! target_layout t) (target_pages t) of
        (h', None) \<Rightarrow> Inl Terminate
      | (h', Some a) \<Rightarrow>
          (let d = descriptors h' ! alloc_descriptor a in
           if desc_offset d \<noteq> target_offset t \<or> desc_bytes d \<noteq> target_bytes t then Inl Terminate
           else res_bind (adopt_targets h' ts) (\<lambda>(h'', as). Inr (h'', a # as))))"

text \<open>The released allocations come back disarmed, the targets hold the new allocations, and the
  recipe is spent.\<close>

definition apply_recipe ::
  "HostKVArena \<Rightarrow> HostKVAllocationRecipe \<Rightarrow> HostKVAllocation option list \<Rightarrow> HostKVAllocation list
   \<Rightarrow> (HostKVArena \<times> HostKVAllocationRecipe \<times> HostKVAllocation option list \<times> HostKVAllocation list \<times> bool) res" where
  "apply_recipe h r releases outs =
     (if recipe_owner r \<noteq> Some (arena_id h) \<or> recipe_revision r \<noteq> revision h \<or>
         length (recipe_releases r) \<noteq> length releases \<or> length (recipe_targets r) \<noteq> length outs
        then Inr (h, r, releases, outs, False)
      else if \<not> releases_match h (recipe_releases r) releases then Inr (h, r, releases, outs, False)
      else if \<not> list_all2 (target_adoptable h) (recipe_targets r) outs then Inr (h, r, releases, outs, False)
      else res_bind (adopt_releases h releases) (\<lambda>h1.
           res_bind (adopt_targets h1 (recipe_targets r)) (\<lambda>(h2, as).
             Inr (h2, \<lparr>recipe_owner = None, recipe_revision = 0, recipe_releases = [], recipe_targets = []\<rparr>,
                  map (\<lambda>_. Some null_allocation) releases, as, True))))"

section \<open>Feasibility with partial releases\<close>

fun sub_releases ::
  "HostKVArena \<Rightarrow> FreeExtent list \<Rightarrow> HostKVSuballocationRelease list \<Rightarrow> HostKVSuballocationRelease list
   \<Rightarrow> FreeExtent list option res" where
  "sub_releases h simulated previous [] = Inr (Some simulated)"
| "sub_releases h simulated previous (r # rs) =
     (if \<not> valid_alloc_handle h (sub_allocation r) \<or> release_page_count r = 0 then Inr None
      else let d = descriptors h ! alloc_handle_descriptor (sub_allocation r) in
        if begin_page r > desc_pages d \<or> release_page_count r > u32_sub (desc_pages d) (begin_page r) then Inr None
        else let last_page = u32_add (begin_page r) (release_page_count r) in
          if \<exists>other \<in> set previous. sub_allocation other = sub_allocation r
               \<and> begin_page r < u32_add (begin_page other) (release_page_count other)
               \<and> begin_page other < last_page then Inr None
          else let stride = page_stride (layouts h ! desc_layout d) in
            res_bind (checked_mul (begin_page r) stride) (\<lambda>skip.
            res_bind (checked_add (desc_offset d) skip) (\<lambda>at.
            res_bind (checked_mul (release_page_count r) stride) (\<lambda>n.
              sub_releases h (insert_free_extent \<lparr>ext_offset = at, ext_bytes = n\<rparr> simulated) (previous @ [r]) rs))))"

fun retained_runs :: "nat \<Rightarrow> nat \<Rightarrow> nat \<Rightarrow> (nat \<times> nat) list \<Rightarrow> nat" where
  "retained_runs pages c runs [] = (if c < pages then Suc runs else runs)"
| "retained_runs pages c runs ((b, e) # ivs) = retained_runs pages e (if b > c then Suc runs else runs) ivs"

fun descriptor_balance ::
  "HostKVArena \<Rightarrow> HostKVSuballocationRelease list \<Rightarrow> HostKVSuballocationRelease list \<Rightarrow> HostKVSuballocationRelease list
   \<Rightarrow> nat \<Rightarrow> nat \<Rightarrow> nat \<times> nat" where
  "descriptor_balance h every previous [] available required = (available, required)"
| "descriptor_balance h every previous (r # rs) available required =
     (if \<exists>other \<in> set previous. sub_allocation other = sub_allocation r
        then descriptor_balance h every (previous @ [r]) rs available required
      else let intervals = sort (map (\<lambda>x. (begin_page x, u32_add (begin_page x) (release_page_count x)))
                 (filter (\<lambda>x. sub_allocation x = sub_allocation r) every));
               d = descriptors h ! alloc_handle_descriptor (sub_allocation r);
               kept = retained_runs (desc_pages d) 0 0 intervals in
        if kept = 0 then descriptor_balance h every (previous @ [r]) rs (available + 1) required
        else if kept > 1 then descriptor_balance h every (previous @ [r]) rs available (required + (kept - 1))
        else descriptor_balance h every (previous @ [r]) rs available required)"

definition can_allocate_after_suballocation_releases ::
  "HostKVArena \<Rightarrow> HostKVSuballocationRelease list \<Rightarrow> HostKVAllocationRequest list \<Rightarrow> bool res" where
  "can_allocate_after_suballocation_releases h releases targets =
     (if releases = [] \<and> targets = [] then Inr True
      else res_bind (sub_releases h (free_extents h) [] releases) (\<lambda>sim.
        case sim of
          None \<Rightarrow> Inr False
        | Some simulated \<Rightarrow>
            (case descriptor_balance h releases [] releases (length (free_descriptors h)) (length targets) of
               (available, required) \<Rightarrow>
                 if required > available then Inr False
                 else Inr (plan_targets h simulated targets \<noteq> None))))"

section \<open>Splitting and views\<close>

definition split_allocation ::
  "HostKVArena \<Rightarrow> HostKVAllocation \<Rightarrow> nat \<Rightarrow> (HostKVArena \<times> HostKVAllocation \<times> HostKVAllocation) res" where
  "split_allocation h a page_offset =
     (if \<not> valid_alloc_handle h (alloc_handle a) then Inl InvalidArgument
      else let left_index = alloc_descriptor a; original = descriptors h ! left_index in
        if page_offset = 0 \<or> page_offset \<ge> desc_pages original then Inl OutOfRange
        else case take_descriptor h of (right_index, h1) \<Rightarrow>
          if right_index = u32_max then Inl LogicError
          else let stride = page_stride (layouts h ! desc_layout original);
                   right_pages = u32_sub (desc_pages original) page_offset;
                   right = (descriptors h ! right_index)\<lparr>
                     desc_offset := u64_add (desc_offset original) (u64_mul page_offset stride),
                     desc_bytes := u64_mul right_pages stride, desc_layout := desc_layout original,
                     desc_pages := right_pages, desc_active := True\<rparr>;
                   left = original\<lparr>desc_generation := increment_generation (desc_generation original),
                     desc_pages := page_offset, desc_bytes := u64_mul page_offset stride\<rparr> in
            Inr (h1\<lparr>descriptors := (descriptors h1)[right_index := right, left_index := left],
                    revision := bump_u64 (revision h1)\<rparr>,
                 \<lparr>alloc_owner = Some (arena_id h), alloc_descriptor = left_index,
                  alloc_generation = desc_generation left\<rparr>,
                 \<lparr>alloc_owner = Some (arena_id h), alloc_descriptor = right_index,
                  alloc_generation = desc_generation right\<rparr>))"

definition allocation_data :: "HostKVArena \<Rightarrow> Descriptor \<Rightarrow> nat option" where
  "allocation_data h d = map_option (\<lambda>base. base + desc_offset d) (arena_backing h)"

definition allocation_view :: "HostKVArena \<Rightarrow> HostKVAllocation \<Rightarrow> HostKVAllocationView res" where
  "allocation_view h a =
     (if \<not> valid_alloc_handle h (alloc_handle a) then Inl InvalidArgument
      else let d = descriptors h ! alloc_descriptor a in
        Inr \<lparr>view_handle = alloc_handle a, view_data = allocation_data h d,
             view_layout = Some (layouts h ! desc_layout d), view_page_count = desc_pages d\<rparr>)"

definition view_valid :: "HostKVArena \<Rightarrow> HostKVAllocationView \<Rightarrow> bool" where
  "view_valid h v \<longleftrightarrow> alloc_handle_owner (view_handle v) \<noteq> None \<and> valid_alloc_handle h (view_handle v)"

definition view_page_layout :: "HostKVArena \<Rightarrow> HostKVAllocationView \<Rightarrow> HostKVPageLayout res" where
  "view_page_layout h v =
     (if \<not> view_valid h v then Inl LogicError
      else case view_layout v of None \<Rightarrow> Inl LogicError | Some l \<Rightarrow> Inr l)"

definition subview :: "HostKVArena \<Rightarrow> HostKVAllocationView \<Rightarrow> nat \<Rightarrow> nat \<Rightarrow> HostKVAllocationView res" where
  "subview h v begin n =
     (if \<not> view_valid h v \<or> n = 0 \<or> begin > view_page_count v \<or> n > u32_sub (view_page_count v) begin
        then Inl OutOfRange
      else case view_layout v of
        None \<Rightarrow> Inl Undefined
      | Some l \<Rightarrow>
          Inr (v\<lparr>view_data := map_option (\<lambda>p. p + u64_mul begin (page_stride l)) (view_data v), view_page_count := n\<rparr>))"

section \<open>Extents as spans\<close>

definition ext_span :: "FreeExtent \<Rightarrow> span" where
  "ext_span e = (int (ext_offset e), int (ext_offset e) + int (ext_bytes e))"

definition desc_span :: "Descriptor \<Rightarrow> span" where
  "desc_span d = (int (desc_offset d), int (desc_offset d) + int (desc_bytes d))"

lemma ext_span_simps [simp]:
  "fst (ext_span e) = int (ext_offset e)" "snd (ext_span e) = int (ext_offset e) + int (ext_bytes e)"
  "fst (desc_span d) = int (desc_offset d)" "snd (desc_span d) = int (desc_offset d) + int (desc_bytes d)"
  by (simp_all add: ext_span_def desc_span_def)

definition extent_fits :: "FreeExtent \<Rightarrow> FreeExtent list \<Rightarrow> bool" where
  "extent_fits x es \<longleftrightarrow> (\<forall>e \<in> set (x # es). ext_offset e + ext_bytes e \<le> u64_max)"

lemma insert_free_extent_refines:
  assumes fits: "extent_fits x es"
  shows "map ext_span (insert_free_extent x es) = span_insert (ext_span x) (map ext_span es)"
proof -
  define before where "before = takeWhile (\<lambda>e. ext_offset e < ext_offset x) es"
  define after where "after = dropWhile (\<lambda>e. ext_offset e < ext_offset x) es"
  have tw: "takeWhile (\<lambda>t. fst t < fst (ext_span x)) (map ext_span es) = map ext_span before"
    unfolding before_def using takeWhile_map_comp [of ext_span "\<lambda>t. fst t < fst (ext_span x)" es] by simp
  have dw: "dropWhile (\<lambda>t. fst t < fst (ext_span x)) (map ext_span es) = map ext_span after"
    unfolding after_def using dropWhile_map_comp [of ext_span "\<lambda>t. fst t < fst (ext_span x)" es] by simp
  have fb: "ext_offset e + ext_bytes e \<le> u64_max" if "e \<in> set before" for e
    using that fits set_takeWhileD [of e _ es] by (auto simp: before_def extent_fits_def)
  have fa: "ext_offset e + ext_bytes e \<le> u64_max" if "e \<in> set after" for e
    using that fits set_dropWhileD [of e _ es] by (auto simp: after_def extent_fits_def)
  have fx: "ext_offset x + ext_bytes x \<le> u64_max" using fits by (simp add: extent_fits_def)
  define joins where "joins \<longleftrightarrow> before \<noteq> [] \<and> ext_offset (last before) + ext_bytes (last before) = ext_offset x"
  define front where "front = (if joins then butlast before else before)"
  define ins where "ins = (if joins then (last before)\<lparr>ext_bytes := ext_bytes (last before) + ext_bytes x\<rparr> else x)"
  have lb: "before \<noteq> [] \<Longrightarrow> u64_add (ext_offset (last before)) (ext_bytes (last before))
      = ext_offset (last before) + ext_bytes (last before)" using fb by (intro u64_add_exact) simp
  have jb: "joins \<Longrightarrow> u64_add (ext_bytes (last before)) (ext_bytes x) = ext_bytes (last before) + ext_bytes x"
    using fx by (intro u64_add_exact) (simp add: joins_def)
  have ie: "ext_offset ins + ext_bytes ins = ext_offset x + ext_bytes x" by (simp add: ins_def joins_def)
  have ia: "u64_add (ext_offset ins) (ext_bytes ins) = ext_offset x + ext_bytes x"
    using fx ie by (metis u64_add_exact)
  have ja: "u64_add (ext_bytes ins) (ext_bytes (hd after)) = ext_bytes ins + ext_bytes (hd after)"
    if "after \<noteq> []" "ext_offset x + ext_bytes x = ext_offset (hd after)"
    using fa [of "hd after"] that ie by (intro u64_add_exact) simp
  have model: "insert_free_extent x es =
      (if after \<noteq> [] \<and> ext_offset x + ext_bytes x = ext_offset (hd after)
       then front @ ins\<lparr>ext_bytes := ext_bytes ins + ext_bytes (hd after)\<rparr> # tl after else front @ ins # after)"
  proof -
    have j: "(before \<noteq> [] \<and> u64_add (ext_offset (last before)) (ext_bytes (last before)) = ext_offset x) = joins"
      using lb by (auto simp: joins_def)
    have i: "(if joins then (last before)\<lparr>ext_bytes := u64_add (ext_bytes (last before)) (ext_bytes x)\<rparr> else x) = ins"
      using jb by (simp add: ins_def)
    show ?thesis unfolding insert_free_extent_def before_def [symmetric] after_def [symmetric] Let_def j i
      front_def [symmetric] ia using ja by auto
  qed
  have lo: "int (ext_offset ins) = (if joins then fst (last (map ext_span before)) else fst (ext_span x))"
    by (auto simp: ins_def joins_def last_map)
  have bl: "map ext_span front = (if joins then butlast (map ext_span before) else map ext_span before)"
    by (simp add: front_def map_butlast)
  have jj: "(map ext_span before \<noteq> [] \<and> snd (last (map ext_span before)) = fst (ext_span x)) = joins"
    by (auto simp: joins_def last_map)
  have rr: "(map ext_span after \<noteq> [] \<and> snd (ext_span x) = fst (hd (map ext_span after)))
      = (after \<noteq> [] \<and> ext_offset x + ext_bytes x = ext_offset (hd after))"
    by (auto simp: hd_map simp flip: of_nat_add)
  show ?thesis unfolding model span_insert_def tw dw Let_def jj rr bl [symmetric] lo [symmetric]
    using ie by (auto simp: ext_span_def hd_map map_tl simp flip: of_nat_add)
qed

interpretation host_extents: coalescing_free_list ext_span ext_span extent_fits insert_free_extent
  by unfold_locales (rule insert_free_extent_refines)

lemma take_extent_refines:
  assumes k: "k < length es" and n: "0 < n" "n \<le> ext_bytes (es ! k)"
    and fit: "ext_offset (es ! k) + ext_bytes (es ! k) \<le> u64_max"
  shows "map ext_span (take_extent k n es)
    = span_carve k (int (ext_offset (es ! k))) (int (ext_offset (es ! k)) + int n) (map ext_span es)"
proof -
  have a: "u64_add (ext_offset (es ! k)) n = ext_offset (es ! k) + n" using n fit by (intro u64_add_exact) linarith
  have s: "u64_sub (ext_bytes (es ! k)) n = ext_bytes (es ! k) - n" using n by (intro u64_sub_exact)
  show ?thesis using k n
    by (auto simp: take_extent_def span_carve_def a s ext_span_def take_map drop_map upd_conv_take_nth_drop)
qed

section \<open>Invariant\<close>

definition layouts_ok :: "HostKVPageLayout list \<Rightarrow> bool" where
  "layouts_ok ls \<longleftrightarrow> distinct ls \<and> (\<forall>l \<in> set ls. plan_host_kv_page_layout (host_geometry l) = Inr l)"

definition active_ids :: "HostKVArena \<Rightarrow> nat set" where
  "active_ids h = {i. i < length (descriptors h) \<and> desc_active (descriptors h ! i)}"

definition desc_wf :: "HostKVPageLayout list \<Rightarrow> Descriptor \<Rightarrow> bool" where
  "desc_wf ls d \<longleftrightarrow> desc_layout d < length ls \<and> 0 < desc_pages d \<and> desc_pages d \<le> u32_max \<and>
     desc_bytes d = desc_pages d * page_stride (ls ! desc_layout d)"

definition arena_tiles :: "HostKVArena \<Rightarrow> bool" where
  "arena_tiles h \<longleftrightarrow>
     tiles (active_ids h) (\<lambda>i. desc_span (descriptors h ! i)) (map ext_span (free_extents h)) (int (capacity_bytes h))"

definition arena_inv :: "HostKVArena \<Rightarrow> bool" where
  "arena_inv h \<longleftrightarrow>
     capacity_bytes h \<le> u64_max \<and> layouts_ok (layouts h) \<and> length (descriptors h) \<le> u32_max \<and>
     length (descriptors h) = (if capacity_bytes h = 0 then 0 else capacity_bytes h div smallest_stride (layouts h)) \<and>
     distinct (free_descriptors h) \<and>
     set (free_descriptors h) = {i. i < length (descriptors h) \<and> \<not> desc_active (descriptors h ! i)} \<and>
     (\<forall>d \<in> set (descriptors h). desc_generation d \<noteq> 0) \<and>
     (\<forall>i \<in> active_ids h. desc_wf (layouts h) (descriptors h ! i)) \<and>
     arena_tiles h \<and>
     occupied_bytes h = (\<Sum>i \<in> active_ids h. desc_bytes (descriptors h ! i))"

lemma arena_occupied:
  assumes "arena_inv h"
  shows "int (occupied_bytes h) + spans_total (map ext_span (free_extents h)) = int (capacity_bytes h)"
    "occupied_bytes h \<le> capacity_bytes h"
proof -
  have T: "arena_tiles h" and o: "occupied_bytes h = (\<Sum>i \<in> active_ids h. desc_bytes (descriptors h ! i))"
    using assms by (simp_all add: arena_inv_def)
  show e: "int (occupied_bytes h) + spans_total (map ext_span (free_extents h)) = int (capacity_bytes h)"
    using tiles_total [OF T [unfolded arena_tiles_def]] by (simp add: o)
  have "0 \<le> spans_total (map ext_span (free_extents h))"
    using T by (intro spans_total_nonneg) (simp add: arena_tiles_def tiles_def)
  then show "occupied_bytes h \<le> capacity_bytes h" using e by linarith
qed

lemma arena_extent_fits:
  assumes "arena_inv h" "e \<in> set (free_extents h)"
  shows "ext_offset e + ext_bytes e \<le> capacity_bytes h" "0 < ext_bytes e" "ext_offset e + ext_bytes e \<le> u64_max"
proof -
  have T: "tiles (active_ids h) (\<lambda>i. desc_span (descriptors h ! i)) (map ext_span (free_extents h)) (int (capacity_bytes h))"
    and c: "capacity_bytes h \<le> u64_max" using assms(1) by (simp_all add: arena_inv_def arena_tiles_def)
  have "ext_span e \<in> set (map ext_span (free_extents h))" using assms(2) by simp
  note B = tiles_free_bounds [OF T this]
  show "ext_offset e + ext_bytes e \<le> capacity_bytes h" "0 < ext_bytes e" "ext_offset e + ext_bytes e \<le> u64_max"
    using B c by simp_all
qed

lemma arena_block_fits:
  assumes "arena_inv h" "i \<in> active_ids h"
  shows "desc_offset (descriptors h ! i) + desc_bytes (descriptors h ! i) \<le> capacity_bytes h"
    "0 < desc_bytes (descriptors h ! i)"
proof -
  have T: "tiles (active_ids h) (\<lambda>i. desc_span (descriptors h ! i)) (map ext_span (free_extents h)) (int (capacity_bytes h))"
    using assms(1) by (simp add: arena_inv_def arena_tiles_def)
  note B = tiles_block_bounds [OF T assms(2)]
  show "desc_offset (descriptors h ! i) + desc_bytes (descriptors h ! i) \<le> capacity_bytes h"
    "0 < desc_bytes (descriptors h ! i)" using B by simp_all
qed

lemma layout_stride:
  assumes "layouts_ok ls" "l \<in> set ls"
  shows "0 < page_stride l" "page_stride l \<le> u64_max"
  using plan_host_layout_ok(6,7) [of "host_geometry l" l] assms by (simp_all add: layouts_ok_def)

lemma smallest_stride_le: "l \<in> set ls \<Longrightarrow> smallest_stride ls \<le> page_stride l"
  by (induction ls rule: smallest_stride.induct) (auto simp: Let_def split: if_splits)

lemma smallest_stride_mem: "ls \<noteq> [] \<Longrightarrow> \<exists>l \<in> set ls. smallest_stride ls = page_stride l"
  by (induction ls rule: smallest_stride.induct) (auto simp: Let_def)

lemma find_layout_Some:
  assumes "find_layout h l = Some i" shows "i < length (layouts h)" "layouts h ! i = l"
  using find_index_Some [of _ "layouts h" i] assms by (auto simp: find_layout_def)

lemma find_layout_nth: "layouts_ok (layouts h) \<Longrightarrow> i < length (layouts h) \<Longrightarrow> find_layout h (layouts h ! i) = Some i"
proof -
  assume ok: "layouts_ok (layouts h)" and i: "i < length (layouts h)"
  have "find_layout h (layouts h ! i) \<noteq> None" using i by (auto simp: find_layout_def find_index_None)
  then obtain j where j: "find_layout h (layouts h ! i) = Some j" by auto
  then show ?thesis using find_layout_Some [OF j] ok i by (simp add: layouts_ok_def nth_eq_iff_index_eq)
qed

subsection \<open>Construction\<close>

lemma check_layouts_ok:
  "check_layouts previous ls = Inr () \<Longrightarrow>
     (\<forall>l \<in> set ls. plan_host_kv_page_layout (host_geometry l) = Inr l) \<and> distinct ls \<and> set ls \<inter> set previous = {}"
proof (induction ls arbitrary: previous)
  case (Cons l ls)
  then show ?case using Cons.IH [of "previous @ [l]"] by (auto split: if_splits)
qed simp

lemma new_host_arena_inv:
  assumes "new_host_arena self base capacity supported = Inr h" "capacity \<le> u64_max"
  shows "arena_inv h"
proof -
  have ok: "layouts_ok supported" using assms(1) check_layouts_ok [of "[]" supported]
    by (auto simp: new_host_arena_def layouts_ok_def)
  show ?thesis
  proof (cases "capacity = 0")
    case True
    then show ?thesis using assms ok
      by (auto simp: new_host_arena_def arena_inv_def active_ids_def arena_tiles_def tiles_def)
  next
    case False
    then have h: "h = \<lparr>arena_id = self, arena_backing = Some base, capacity_bytes = capacity, occupied_bytes = 0,
        layouts = supported, descriptors = replicate (capacity div smallest_stride supported)
          \<lparr>desc_offset = 0, desc_bytes = 0, desc_layout = 0, desc_pages = 0, desc_generation = 1, desc_active = False\<rparr>,
        free_descriptors = rev [0..<capacity div smallest_stride supported],
        free_extents = [\<lparr>ext_offset = 0, ext_bytes = capacity\<rparr>], revision = 1\<rparr>"
      and n: "capacity div smallest_stride supported \<le> u32_max"
      using assms(1) by (auto simp: new_host_arena_def Let_def split: if_splits)
    have act: "active_ids h = {}" by (auto simp: active_ids_def h)
    have "arena_tiles h" unfolding arena_tiles_def act using False by (simp add: tiles_def h span_set_def)
    then show ?thesis using assms(2) ok n False unfolding arena_inv_def act by (auto simp: h)
  qed
qed

subsection \<open>Allocation\<close>

lemma arena_free_descriptor:
  assumes "arena_inv h" "free_descriptors h \<noteq> []"
  shows "take_descriptor h = (last (free_descriptors h), h\<lparr>free_descriptors := butlast (free_descriptors h)\<rparr>)"
    "last (free_descriptors h) < length (descriptors h)" "last (free_descriptors h) \<notin> active_ids h"
    "last (free_descriptors h) \<noteq> u32_max"
    "set (butlast (free_descriptors h)) = set (free_descriptors h) - {last (free_descriptors h)}"
    "distinct (butlast (free_descriptors h))"
proof -
  have d: "distinct (free_descriptors h)" and s: "set (free_descriptors h)
      = {i. i < length (descriptors h) \<and> \<not> desc_active (descriptors h ! i)}"
    and len: "length (descriptors h) \<le> u32_max" using assms(1) by (simp_all add: arena_inv_def)
  have e: "free_descriptors h = butlast (free_descriptors h) @ [last (free_descriptors h)]" using assms(2) by simp
  have m: "last (free_descriptors h) \<in> set (free_descriptors h)" using assms(2) by simp
  show "take_descriptor h = (last (free_descriptors h), h\<lparr>free_descriptors := butlast (free_descriptors h)\<rparr>)"
    using assms(2) by (simp add: take_descriptor_def)
  show lt: "last (free_descriptors h) < length (descriptors h)" "last (free_descriptors h) \<notin> active_ids h"
    using m s by (auto simp: active_ids_def)
  show "last (free_descriptors h) \<noteq> u32_max" using lt(1) len by linarith
  have "distinct (butlast (free_descriptors h) @ [last (free_descriptors h)])" using d e by metis
  then show "set (butlast (free_descriptors h)) = set (free_descriptors h) - {last (free_descriptors h)}"
    "distinct (butlast (free_descriptors h))"
    by (metis Diff_insert_absorb distinct.simps(2) distinct1_rotate e list.simps(15) rotate1.simps(2) set_rotate1)
      (metis \<open>distinct (butlast (free_descriptors h) @ [last (free_descriptors h)])\<close> distinct_append)
qed

lemma u64_mul_pages:
  assumes "0 < pages" "\<not> page_stride l > u64_max div pages"
  shows "u64_mul (page_stride l) pages = pages * page_stride l" "pages * page_stride l \<le> u64_max"
proof -
  show b: "pages * page_stride l \<le> u64_max"
    using div_le_mult_bound [of "page_stride l" u64_max pages] assms(2) by (simp add: not_less mult.commute)
  then show "u64_mul (page_stride l) pages = pages * page_stride l" by (simp add: u64_mul_exact mult.commute)
qed

text \<open>What a successful allocation does: one idle descriptor becomes the block at the front of the
  first extent that is large enough.\<close>

definition allocates :: "HostKVArena \<Rightarrow> HostKVPageLayout \<Rightarrow> nat \<Rightarrow> HostKVArena \<Rightarrow> HostKVAllocation \<Rightarrow> bool" where
  "allocates h l pages h' a \<longleftrightarrow>
     (let i = alloc_descriptor a; n = pages * page_stride l in
      alloc_owner a = Some (arena_id h) \<and> free_descriptors h \<noteq> [] \<and> i = last (free_descriptors h) \<and> 0 < pages \<and>
      alloc_generation a = desc_generation (descriptors h ! i) \<and>
      (\<exists>j k. find_layout h l = Some j \<and> find_free_extent n (free_extents h) = Some k \<and>
        h' = h\<lparr>descriptors := (descriptors h)[i := (descriptors h ! i)\<lparr>
                   desc_offset := ext_offset (free_extents h ! k), desc_bytes := n, desc_layout := j,
                   desc_pages := pages, desc_active := True\<rparr>],
               free_descriptors := butlast (free_descriptors h),
               free_extents := take_extent k n (free_extents h),
               occupied_bytes := occupied_bytes h + n, revision := bump_u64 (revision h)\<rparr>))"

lemma allocate_cases:
  assumes inv: "arena_inv h" and r: "allocate h l pages = (h', r)"
  shows "r = None \<Longrightarrow> h' = h" "r = Some a \<Longrightarrow> allocates h l pages h' a" "r \<noteq> None \<longleftrightarrow> can_allocate h l pages"
proof -
  have "(r = None \<longrightarrow> h' = h) \<and> (\<forall>a. r = Some a \<longrightarrow> allocates h l pages h' a) \<and> (r \<noteq> None \<longleftrightarrow> can_allocate h l pages)"
  proof (cases "\<exists>j k. find_layout h l = Some j \<and> 0 < pages \<and> free_descriptors h \<noteq> [] \<and> \<not> page_stride l > u64_max div pages
      \<and> find_free_extent (u64_mul (page_stride l) pages) (free_extents h) = Some k")
    case False
    then show ?thesis using r by (auto simp: allocate_def can_allocate_def Let_def split: option.splits if_splits)
  next
    case True
    then obtain j k where g: "find_layout h l = Some j" "0 < pages" "free_descriptors h \<noteq> []"
      "\<not> page_stride l > u64_max div pages"
      "find_free_extent (u64_mul (page_stride l) pages) (free_extents h) = Some k" by blast
    define n where "n = pages * page_stride l"
    have n: "u64_mul (page_stride l) pages = n" using u64_mul_pages [OF g(2,4)] by (simp add: n_def)
    have k: "k < length (free_extents h)" "n \<le> ext_bytes (free_extents h ! k)"
      using find_index_Some g(5) unfolding n find_free_extent_def by fastforce+
    note D = arena_free_descriptor [OF inv g(3)]
    define i where "i = last (free_descriptors h)"
    have e: "free_extents h ! k \<in> set (free_extents h)" using k(1) by simp
    have "int (ext_bytes (free_extents h ! k)) \<le> spans_total (map ext_span (free_extents h))"
      using span_le_total [of "map ext_span (free_extents h)" "ext_span (free_extents h ! k)"] inv e
      by (simp add: arena_inv_def arena_tiles_def tiles_def)
    then have "occupied_bytes h + n \<le> capacity_bytes h" using arena_occupied(1) [OF inv] k(2) by linarith
    then have occ: "u64_add (occupied_bytes h) n = occupied_bytes h + n"
      using inv by (intro u64_add_exact) (simp add: arena_inv_def)
    have "allocate h l pages = (h\<lparr>descriptors := (descriptors h)[i := (descriptors h ! i)\<lparr>
                   desc_offset := ext_offset (free_extents h ! k), desc_bytes := n, desc_layout := j,
                   desc_pages := pages, desc_active := True\<rparr>],
               free_descriptors := butlast (free_descriptors h),
               free_extents := take_extent k n (free_extents h),
               occupied_bytes := occupied_bytes h + n, revision := bump_u64 (revision h)\<rparr>,
          Some \<lparr>alloc_owner = Some (arena_id h), alloc_descriptor = i,
                alloc_generation = desc_generation (descriptors h ! i)\<rparr>)"
      using g D(1,4) unfolding allocate_def n
      by (simp add: Let_def n occ i_def [symmetric])
    then show ?thesis using r g n unfolding i_def
      by (auto simp: allocates_def Let_def n_def can_allocate_def)
  qed
  then show "r = None \<Longrightarrow> h' = h" "r = Some a \<Longrightarrow> allocates h l pages h' a" "r \<noteq> None \<longleftrightarrow> can_allocate h l pages"
    by simp_all
qed

lemma allocates_inv:
  assumes inv: "arena_inv h" and A: "allocates h l pages h' a" and pg: "pages \<le> u32_max"
  shows "arena_inv h'" "active_ids h' = insert (alloc_descriptor a) (active_ids h)"
    "valid_alloc_handle h' (alloc_handle a)"
    "\<And>j. j \<noteq> alloc_descriptor a \<Longrightarrow> descriptors h' ! j = descriptors h ! j"
proof -
  define n where "n = pages * page_stride l"
  define ii where "ii = alloc_descriptor a"
  obtain j k where F: "find_layout h l = Some j" "find_free_extent n (free_extents h) = Some k"
    and fd: "free_descriptors h \<noteq> []" and i: "ii = last (free_descriptors h)" and pages: "0 < pages"
    and ow: "alloc_owner a = Some (arena_id h)" "alloc_generation a = desc_generation (descriptors h ! ii)"
    and h': "h' = h\<lparr>descriptors := (descriptors h)[ii := (descriptors h ! ii)\<lparr>
                   desc_offset := ext_offset (free_extents h ! k), desc_bytes := n, desc_layout := j,
                   desc_pages := pages, desc_active := True\<rparr>],
               free_descriptors := butlast (free_descriptors h),
               free_extents := take_extent k n (free_extents h),
               occupied_bytes := occupied_bytes h + n, revision := bump_u64 (revision h)\<rparr>"
    using A by (auto simp: allocates_def Let_def n_def ii_def)
  have own: "alloc_owner a = Some (arena_id h)" "ii < length (descriptors h)" "ii \<notin> active_ids h"
      "alloc_generation a = desc_generation (descriptors h ! ii)"
    using ow arena_free_descriptor(2,3) [OF inv fd] i by simp_all
  note L = find_layout_Some [OF F(1)]
  have st: "0 < page_stride l" using layout_stride(1) [of "layouts h" l] inv L by (metis arena_inv_def nth_mem)
  have n0: "0 < n" using st pages by (simp add: n_def)
  have k: "k < length (free_extents h)" "n \<le> ext_bytes (free_extents h ! k)"
    using find_index_Some F(2) unfolding find_free_extent_def by fastforce+
  have e: "free_extents h ! k \<in> set (free_extents h)" using k(1) by simp
  show others: "\<And>j. j \<noteq> alloc_descriptor a \<Longrightarrow> descriptors h' ! j = descriptors h ! j" by (simp add: h' ii_def)
  show act: "active_ids h' = insert (alloc_descriptor a) (active_ids h)"
    using own(2) by (auto simp: active_ids_def h' nth_list_update ii_def [symmetric] split: if_splits)
  have T: "tiles (active_ids h) (\<lambda>i. desc_span (descriptors h ! i)) (map ext_span (free_extents h)) (int (capacity_bytes h))"
    using inv by (simp add: arena_inv_def arena_tiles_def)
  define lo where "lo = int (ext_offset (free_extents h ! k))"
  have T': "tiles (insert ii (active_ids h)) ((\<lambda>i. desc_span (descriptors h ! i))(ii := (lo, lo + int n)))
      (map ext_span (free_extents h')) (int (capacity_bytes h'))"
    using tiles_take [OF T own(3), of k lo "int n"] k n0 take_extent_refines [OF k(1) n0 k(2) arena_extent_fits(3) [OF inv e]]
    by (simp add: h' lo_def)
  have "arena_tiles h'" unfolding arena_tiles_def act ii_def [symmetric]
    by (rule tiles_cong [OF T']) (use own(2) in \<open>auto simp: h' desc_span_def lo_def\<close>)
  moreover have "\<forall>i \<in> active_ids h'. desc_wf (layouts h') (descriptors h' ! i)"
  proof
    fix i assume i: "i \<in> active_ids h'"
    show "desc_wf (layouts h') (descriptors h' ! i)"
    proof (cases "i = ii")
      case True
      then show ?thesis using own(2) L pages pg by (simp add: desc_wf_def h' n_def)
    next
      case False
      then have "i \<in> active_ids h" using i act by (simp add: ii_def)
      then have "desc_wf (layouts h) (descriptors h ! i)" using inv by (simp add: arena_inv_def)
      then show ?thesis using False by (simp add: h')
    qed
  qed
  moreover have "occupied_bytes h' = (\<Sum>i \<in> active_ids h'. desc_bytes (descriptors h' ! i))"
  proof -
    have fin: "finite (active_ids h)" by (simp add: active_ids_def)
    have "(\<Sum>i \<in> active_ids h. desc_bytes (descriptors h' ! i)) = (\<Sum>i \<in> active_ids h. desc_bytes (descriptors h ! i))"
      using own(3) by (intro sum.cong refl arg_cong [of _ _ desc_bytes] others) (auto simp: ii_def)
    then show ?thesis using fin own inv unfolding act ii_def [symmetric] by (simp add: h' arena_inv_def)
  qed
  moreover have "set (free_descriptors h') = {i. i < length (descriptors h') \<and> \<not> desc_active (descriptors h' ! i)}"
    using arena_free_descriptor(5) [OF inv fd] inv i own(2)
    by (auto simp: h' arena_inv_def ii_def [symmetric] nth_list_update)
  moreover have "distinct (free_descriptors h')" using arena_free_descriptor(6) [OF inv fd] by (simp add: h')
  moreover have "\<forall>d \<in> set (descriptors h'). desc_generation d \<noteq> 0"
  proof
    fix d assume "d \<in> set (descriptors h')"
    then obtain m where "m < length (descriptors h)" "d = descriptors h' ! m" by (auto simp: in_set_conv_nth h')
    then have "desc_generation d = desc_generation (descriptors h ! m)" "m < length (descriptors h)"
      using own(2) by (auto simp: h' nth_list_update)
    then show "desc_generation d \<noteq> 0" using inv by (simp add: arena_inv_def)
  qed
  ultimately show "arena_inv h'" using inv unfolding arena_inv_def by (simp add: h')
  show "valid_alloc_handle h' (alloc_handle a)"
    using own by (simp add: valid_alloc_handle_def alloc_handle_def h' ii_def [symmetric] Let_def)
qed

subsection \<open>Release\<close>

lemma valid_alloc_handle_iff:
  "valid_alloc_handle h a \<longleftrightarrow> alloc_handle_owner a = Some (arena_id h) \<and> alloc_handle_descriptor a \<in> active_ids h
    \<and> desc_generation (descriptors h ! alloc_handle_descriptor a) = alloc_handle_generation a"
  by (auto simp: valid_alloc_handle_def active_ids_def Let_def)

definition idle_desc :: "Descriptor \<Rightarrow> Descriptor" where
  "idle_desc d = d\<lparr>desc_active := False, desc_offset := 0, desc_bytes := 0, desc_pages := 0,
     desc_generation := increment_generation (desc_generation d)\<rparr>"

definition desc_extent :: "Descriptor \<Rightarrow> FreeExtent" where
  "desc_extent d = \<lparr>ext_offset = desc_offset d, ext_bytes = desc_bytes d\<rparr>"

lemma desc_extent_span [simp]: "ext_span (desc_extent d) = desc_span d"
  by (simp add: desc_extent_def ext_span_def desc_span_def)

lemma release_descriptor_ok:
  assumes inv: "arena_inv h" and v: "valid_alloc_handle h a" and i: "i = alloc_handle_descriptor a"
    and h': "h' = h\<lparr>occupied_bytes := occupied_bytes h - desc_bytes (descriptors h ! i),
        descriptors := (descriptors h)[i := idle_desc (descriptors h ! i)],
        free_descriptors := free_descriptors h @ [i],
        free_extents := insert_free_extent (desc_extent (descriptors h ! i)) (free_extents h),
        revision := bump_u64 (revision h)\<rparr>"
  shows "release_descriptor h i (alloc_handle_generation a) = (h', True)" "arena_inv h'"
    "active_ids h' = active_ids h - {i}" "\<not> valid_alloc_handle h' a"
proof -
  let ?d = "descriptors h ! i"
  have V: "alloc_handle_owner a = Some (arena_id h)" "i \<in> active_ids h" "desc_generation ?d = alloc_handle_generation a"
    using v i by (simp_all add: valid_alloc_handle_iff)
  then have lt: "i < length (descriptors h)" "desc_active ?d" by (simp_all add: active_ids_def)
  have fin: "finite (active_ids h)" by (simp add: active_ids_def)
  have occ: "occupied_bytes h = (\<Sum>j \<in> active_ids h. desc_bytes (descriptors h ! j))" using inv by (simp add: arena_inv_def)
  have "desc_bytes ?d \<le> (\<Sum>j \<in> active_ids h. desc_bytes (descriptors h ! j))"
    using V(2) fin by (intro member_le_sum) auto
  then have "desc_bytes ?d \<le> occupied_bytes h" by (simp add: occ)
  then show "release_descriptor h i (alloc_handle_generation a) = (h', True)"
    using lt V(3) by (simp add: release_descriptor_def Let_def h' idle_desc_def desc_extent_def width_simps)
  show act: "active_ids h' = active_ids h - {i}"
    using lt by (auto simp: active_ids_def h' nth_list_update idle_desc_def split: if_splits)
  then show "\<not> valid_alloc_handle h' a" using i by (simp add: valid_alloc_handle_iff)
  have others: "descriptors h' ! j = descriptors h ! j" if "j \<noteq> i" for j using that by (simp add: h')
  have T: "tiles (active_ids h) (\<lambda>i. desc_span (descriptors h ! i)) (map ext_span (free_extents h)) (int (capacity_bytes h))"
    using inv by (simp add: arena_inv_def arena_tiles_def)
  have fits: "extent_fits (desc_extent ?d) (free_extents h)"
    using arena_block_fits [OF inv V(2)] arena_extent_fits(3) [OF inv] inv
    by (auto simp: extent_fits_def desc_extent_def arena_inv_def)
  have "tiles (active_ids h - {i}) (\<lambda>i. desc_span (descriptors h ! i)) (map ext_span (free_extents h')) (int (capacity_bytes h'))"
    using tiles_release [OF T V(2)] insert_free_extent_refines [OF fits] by (simp add: h')
  then have "arena_tiles h'" unfolding arena_tiles_def act
    by (rule tiles_cong) (use others in auto)
  moreover have "\<forall>j \<in> active_ids h'. desc_wf (layouts h') (descriptors h' ! j)"
  proof
    fix j assume "j \<in> active_ids h'"
    then have "j \<in> active_ids h" "j \<noteq> i" using act by auto
    then have "desc_wf (layouts h) (descriptors h ! j)" "descriptors h' ! j = descriptors h ! j"
      using inv others by (simp_all add: arena_inv_def)
    then show "desc_wf (layouts h') (descriptors h' ! j)" by (simp add: h')
  qed
  moreover have "occupied_bytes h' = (\<Sum>j \<in> active_ids h'. desc_bytes (descriptors h' ! j))"
  proof -
    have "(\<Sum>j \<in> active_ids h - {i}. desc_bytes (descriptors h' ! j)) = (\<Sum>j \<in> active_ids h - {i}. desc_bytes (descriptors h ! j))"
      using others by (intro sum.cong) auto
    also have "\<dots> = occupied_bytes h - desc_bytes ?d" using sum_diff1_nat [of "\<lambda>j. desc_bytes (descriptors h ! j)" "active_ids h" i] V(2) occ by simp
    finally show ?thesis unfolding act by (simp add: h')
  qed
  moreover have "set (free_descriptors h') = {j. j < length (descriptors h') \<and> \<not> desc_active (descriptors h' ! j)}"
    using inv lt by (auto simp: h' arena_inv_def nth_list_update idle_desc_def)
  moreover have "distinct (free_descriptors h')" using inv lt by (auto simp: h' arena_inv_def)
  moreover have "\<forall>d \<in> set (descriptors h'). desc_generation d \<noteq> 0"
    using inv set_update_subset_insert [of "descriptors h" i "idle_desc ?d"]
    by (auto simp: h' arena_inv_def idle_desc_def)
  ultimately show "arena_inv h'" using inv unfolding arena_inv_def by (simp add: h')
qed

lemma allocation_release_ok:
  assumes "arena_inv h" "valid_alloc_handle h (alloc_handle a)"
  shows "\<exists>h'. allocation_release h a = (h', null_allocation, True) \<and> arena_inv h'
    \<and> active_ids h' = active_ids h - {alloc_descriptor a}
    \<and> (\<forall>j. j \<noteq> alloc_descriptor a \<longrightarrow> descriptors h' ! j = descriptors h ! j)
    \<and> free_extents h' = insert_free_extent (desc_extent (descriptors h ! alloc_descriptor a)) (free_extents h)
    \<and> length (free_descriptors h') = Suc (length (free_descriptors h))
    \<and> arena_id h' = arena_id h \<and> layouts h' = layouts h \<and> capacity_bytes h' = capacity_bytes h
    \<and> arena_backing h' = arena_backing h"
proof -
  have own: "alloc_owner a \<noteq> None" using assms(2) by (auto simp: valid_alloc_handle_iff alloc_handle_def null_alloc_handle_def split: if_splits)
  then have eq: "alloc_handle_descriptor (alloc_handle a) = alloc_descriptor a"
    "alloc_handle_generation (alloc_handle a) = alloc_generation a" by (simp_all add: alloc_handle_def)
  note R = release_descriptor_ok [OF assms refl refl, unfolded eq]
  show ?thesis unfolding allocation_release_def using own R by auto
qed

subsection \<open>Splitting\<close>

lemma blocks_need_descriptors:
  assumes inv: "arena_inv h" and i: "i \<in> active_ids h" and two: "2 \<le> desc_pages (descriptors h ! i)"
  shows "free_descriptors h \<noteq> []"
proof
  assume "free_descriptors h = []"
  then have all: "active_ids h = {..< length (descriptors h)}" using inv by (auto simp: arena_inv_def active_ids_def)
  define s where "s = smallest_stride (layouts h)"
  have fin: "finite (active_ids h)" by (simp add: active_ids_def)
  have wf: "desc_wf (layouts h) (descriptors h ! j)" if "j \<in> active_ids h" for j using inv that by (simp add: arena_inv_def)
  have ge: "desc_pages (descriptors h ! j) * s \<le> desc_bytes (descriptors h ! j)" if "j \<in> active_ids h" for j
    using wf [OF that] smallest_stride_le [of "layouts h ! desc_layout (descriptors h ! j)" "layouts h"]
    by (simp add: desc_wf_def s_def)
  have sj: "s \<le> desc_bytes (descriptors h ! j)" if "j \<in> active_ids h" for j
  proof -
    have "1 * s \<le> desc_pages (descriptors h ! j) * s" using wf [OF that] by (intro mult_le_mono1) (simp add: desc_wf_def)
    then show ?thesis using ge [OF that] by linarith
  qed
  have si: "2 * s \<le> desc_bytes (descriptors h ! i)"
    using ge [OF i] mult_le_mono1 [OF two, of s] by linarith
  have "s * card (active_ids h - {i}) \<le> (\<Sum>j \<in> active_ids h - {i}. desc_bytes (descriptors h ! j))"
    using sum_bounded_below [of "active_ids h - {i}" s "\<lambda>j. desc_bytes (descriptors h ! j)"] sj by (simp add: mult.commute)
  moreover have "occupied_bytes h = desc_bytes (descriptors h ! i) + (\<Sum>j \<in> active_ids h - {i}. desc_bytes (descriptors h ! j))"
    using inv fin i by (simp add: arena_inv_def sum.remove)
  ultimately have "s * (card (active_ids h) + 1) \<le> occupied_bytes h"
    using si fin i by (simp add: card_Diff_singleton card_gt_0_iff algebra_simps)
  then have le: "s * (length (descriptors h) + 1) \<le> capacity_bytes h"
    using arena_occupied(2) [OF inv] all by simp
  have "i < length (descriptors h)" using i by (simp add: active_ids_def)
  then have ne: "capacity_bytes h \<noteq> 0" "length (descriptors h) = capacity_bytes h div s"
    using inv by (auto simp: arena_inv_def s_def split: if_splits)
  have "layouts h \<noteq> []" using wf [OF i] by (auto simp: desc_wf_def)
  then have s0: "0 < s" using smallest_stride_mem layout_stride(1) inv unfolding s_def arena_inv_def by metis
  have "capacity_bytes h div s + 1 \<le> capacity_bytes h div s"
    using mult_le_div_bound [of "length (descriptors h) + 1" s] le s0 ne by (simp add: mult.commute)
  then show False by simp
qed

lemma split_allocation_ok:
  assumes inv: "arena_inv h" and v: "valid_alloc_handle h (alloc_handle a)" and ii: "i = alloc_descriptor a"
    and off: "0 < off" "off < desc_pages (descriptors h ! i)"
  shows "\<exists>h' left right. split_allocation h a off = Inr (h', left, right) \<and> arena_inv h'
    \<and> valid_alloc_handle h' (alloc_handle left) \<and> valid_alloc_handle h' (alloc_handle right)
    \<and> \<not> valid_alloc_handle h' (alloc_handle a)
    \<and> alloc_descriptor left = i \<and> alloc_descriptor right \<notin> active_ids h
    \<and> desc_pages (descriptors h' ! i) = off
    \<and> desc_pages (descriptors h' ! alloc_descriptor right) = desc_pages (descriptors h ! i) - off
    \<and> desc_span (descriptors h' ! i) = (fst (desc_span (descriptors h ! i)), fst (desc_span (descriptors h' ! alloc_descriptor right)))
    \<and> snd (desc_span (descriptors h' ! alloc_descriptor right)) = snd (desc_span (descriptors h ! i))
    \<and> (\<forall>j. j \<noteq> i \<and> j \<noteq> alloc_descriptor right \<longrightarrow> descriptors h' ! j = descriptors h ! j)
    \<and> occupied_bytes h' = occupied_bytes h \<and> free_extents h' = free_extents h"
proof -
  let ?d = "descriptors h ! i"
  have own: "alloc_owner a = Some (arena_id h)" "i \<in> active_ids h" "desc_generation ?d = alloc_generation a"
    using v ii by (auto simp: valid_alloc_handle_iff alloc_handle_def null_alloc_handle_def split: if_splits)
  then have li: "i < length (descriptors h)" "desc_active ?d" by (simp_all add: active_ids_def)
  have fd: "free_descriptors h \<noteq> []" using blocks_need_descriptors [OF inv own(2)] off by simp
  define r where "r = last (free_descriptors h)"
  note D = arena_free_descriptor [OF inv fd, folded r_def]
  have ri: "r \<noteq> i" using D(3) own(2) by blast
  define s where "s = page_stride (layouts h ! desc_layout ?d)"
  have wf: "desc_wf (layouts h) ?d" using inv own(2) by (simp add: arena_inv_def)
  have bytes: "desc_bytes ?d = desc_pages ?d * s" using wf by (simp add: desc_wf_def s_def)
  have "layouts_ok (layouts h)" "layouts h ! desc_layout ?d \<in> set (layouts h)"
    using inv wf by (simp_all add: arena_inv_def desc_wf_def)
  then have s0: "0 < s" using layout_stride(1) by (simp add: s_def)
  have cap: "desc_offset ?d + desc_pages ?d * s \<le> u64_max"
    using arena_block_fits(1) [OF inv own(2)] inv bytes by (simp add: arena_inv_def)
  have le: "off * s \<le> desc_pages ?d * s" "(desc_pages ?d - off) * s \<le> desc_pages ?d * s"
    using off by (simp_all add: mult_le_mono1)
  have sum: "off * s + (desc_pages ?d - off) * s = desc_pages ?d * s"
    using off by (simp flip: add_mult_distrib)
  have bnd: "off * s \<le> u64_max" "(desc_pages ?d - off) * s \<le> u64_max" "desc_offset ?d + off * s \<le> u64_max"
    using le cap by linarith+
  have ex: "u32_sub (desc_pages ?d) off = desc_pages ?d - off" "u64_mul off s = off * s"
    "u64_mul (desc_pages ?d - off) s = (desc_pages ?d - off) * s"
    "u64_add (desc_offset ?d) (off * s) = desc_offset ?d + off * s"
    using off bnd by (simp_all add: width_simps)
  define R where "R = (descriptors h ! r)\<lparr>desc_offset := desc_offset ?d + off * s,
    desc_bytes := (desc_pages ?d - off) * s, desc_layout := desc_layout ?d, desc_pages := desc_pages ?d - off,
    desc_active := True\<rparr>"
  define L where "L = ?d\<lparr>desc_generation := increment_generation (desc_generation ?d), desc_pages := off,
    desc_bytes := off * s\<rparr>"
  define h' where "h' = h\<lparr>descriptors := (descriptors h)[r := R, i := L],
    free_descriptors := butlast (free_descriptors h), revision := bump_u64 (revision h)\<rparr>"
  have res: "split_allocation h a off = Inr (h',
      \<lparr>alloc_owner = Some (arena_id h), alloc_descriptor = i, alloc_generation = desc_generation L\<rparr>,
      \<lparr>alloc_owner = Some (arena_id h), alloc_descriptor = r, alloc_generation = desc_generation R\<rparr>)"
    using v off D(1,4) unfolding split_allocation_def ii [symmetric] Let_def s_def [symmetric] ex
    by (simp add: h'_def R_def L_def)
  have nth: "descriptors h' ! i = L" "descriptors h' ! r = R" "\<And>j. j \<noteq> i \<Longrightarrow> j \<noteq> r \<Longrightarrow> descriptors h' ! j = descriptors h ! j"
    using li(1) D(2) ri by (simp_all add: h'_def)
  have act: "active_ids h' = insert r (active_ids h)"
    using li D(2) ri by (auto simp: active_ids_def h'_def nth_list_update R_def L_def split: if_splits)
  have T: "tiles (active_ids h) (\<lambda>i. desc_span (descriptors h ! i)) (map ext_span (free_extents h)) (int (capacity_bytes h))"
    using inv by (simp add: arena_inv_def arena_tiles_def)
  have spans: "desc_span L = (fst (desc_span ?d), int (desc_offset ?d + off * s))"
    "desc_span R = (int (desc_offset ?d + off * s), snd (desc_span ?d))"
    using sum bytes by (simp_all add: desc_span_def L_def R_def flip: of_nat_add of_nat_mult)
  have mid: "fst (desc_span ?d) < int (desc_offset ?d + off * s)" "int (desc_offset ?d + off * s) < snd (desc_span ?d)"
    using off s0 bytes sum by (simp_all flip: of_nat_add of_nat_mult)
  have "tiles (insert r (active_ids h)) ((\<lambda>j. desc_span (descriptors h ! j))(i := desc_span L, r := desc_span R))
      (map ext_span (free_extents h')) (int (capacity_bytes h'))"
    using tiles_split [OF T own(2) D(3) mid] unfolding spans by (simp add: h'_def)
  then have "arena_tiles h'" unfolding arena_tiles_def act
    by (rule tiles_cong) (use nth ri in auto)
  moreover have "\<forall>j \<in> active_ids h'. desc_wf (layouts h') (descriptors h' ! j)"
  proof
    fix j assume j: "j \<in> active_ids h'"
    have lay: "layouts h' = layouts h" by (simp add: h'_def)
    consider "j = i" | "j = r" | "j \<in> active_ids h" "j \<noteq> i" "j \<noteq> r" using j act by auto
    then show "desc_wf (layouts h') (descriptors h' ! j)"
      using wf off inv nth unfolding lay
      by cases (auto simp: desc_wf_def L_def R_def s_def arena_inv_def)
  qed
  moreover have "occupied_bytes h' = (\<Sum>j \<in> active_ids h'. desc_bytes (descriptors h' ! j))"
  proof -
    have fin: "finite (active_ids h)" by (simp add: active_ids_def)
    have eq: "(\<Sum>j \<in> active_ids h - {i}. desc_bytes (descriptors h' ! j)) = (\<Sum>j \<in> active_ids h - {i}. desc_bytes (descriptors h ! j))"
      by (intro sum.cong refl arg_cong [of _ _ desc_bytes] nth(3)) (use D(3) in auto)
    have "(\<Sum>j \<in> active_ids h'. desc_bytes (descriptors h' ! j))
        = desc_bytes R + (desc_bytes L + (\<Sum>j \<in> active_ids h - {i}. desc_bytes (descriptors h' ! j)))"
      unfolding act using fin D(3) own(2) nth by (simp add: sum.remove)
    also have "\<dots> = desc_bytes ?d + (\<Sum>j \<in> active_ids h - {i}. desc_bytes (descriptors h ! j))"
      unfolding eq using sum bytes by (simp add: R_def L_def)
    also have "\<dots> = occupied_bytes h" using inv fin own(2) by (simp add: arena_inv_def sum.remove)
    finally show ?thesis by (simp add: h'_def)
  qed
  moreover have "set (free_descriptors h') = {j. j < length (descriptors h') \<and> \<not> desc_active (descriptors h' ! j)}"
  proof -
    have "set (free_descriptors h') = set (free_descriptors h) - {r}" using D(5) by (simp add: h'_def)
    also have "\<dots> = {j. j < length (descriptors h) \<and> \<not> desc_active (descriptors h ! j)} - {r}"
      using inv by (simp add: arena_inv_def)
    also have "\<dots> = {j. j < length (descriptors h') \<and> \<not> desc_active (descriptors h' ! j)}"
    proof -
      have "desc_active (descriptors h' ! j) \<longleftrightarrow> desc_active (descriptors h ! j) \<or> j = r" for j
        using nth li ri by (cases "j = i"; cases "j = r") (auto simp: L_def R_def)
      then show ?thesis by (auto simp: h'_def)
    qed
    finally show ?thesis .
  qed
  moreover have "distinct (free_descriptors h')" using D(6) by (simp add: h'_def)
  moreover have "\<forall>d \<in> set (descriptors h'). desc_generation d \<noteq> 0"
  proof
    fix d assume "d \<in> set (descriptors h')"
    then obtain m where m: "m < length (descriptors h)" "d = descriptors h' ! m" by (auto simp: in_set_conv_nth h'_def)
    show "desc_generation d \<noteq> 0" using m nth inv D(2)
      by (cases "m = i"; cases "m = r") (auto simp: L_def R_def arena_inv_def)
  qed
  ultimately have inv': "arena_inv h'" using inv unfolding arena_inv_def by (simp add: h'_def)
  have ids: "arena_id h' = arena_id h" by (simp add: h'_def)
  have g: "increment_generation (desc_generation ?d) \<noteq> desc_generation ?d"
    using inv li(1) by (intro increment_generation_changes) (simp add: arena_inv_def)
  define left where "left = \<lparr>alloc_owner = Some (arena_id h), alloc_descriptor = i, alloc_generation = desc_generation L\<rparr>"
  define right where "right = \<lparr>alloc_owner = Some (arena_id h), alloc_descriptor = r, alloc_generation = desc_generation R\<rparr>"
  have "valid_alloc_handle h' (alloc_handle left)" "valid_alloc_handle h' (alloc_handle right)"
    using act own(2) nth(1,2) by (simp_all add: valid_alloc_handle_iff alloc_handle_def left_def right_def ids)
  moreover have "\<not> valid_alloc_handle h' (alloc_handle a)"
    using g own(1,3) nth(1) ii by (simp add: valid_alloc_handle_iff alloc_handle_def L_def)
  moreover have "alloc_descriptor left = i" "alloc_descriptor right = r" by (simp_all add: left_def right_def)
  moreover have "desc_pages L = off" "desc_pages R = desc_pages ?d - off" by (simp_all add: L_def R_def)
  moreover have "occupied_bytes h' = occupied_bytes h" "free_extents h' = free_extents h" by (simp_all add: h'_def)
  ultimately show ?thesis using res [folded left_def right_def] inv' D(3) nth spans
    by (intro exI [of _ h'] exI [of _ left] exI [of _ right]) simp
qed

subsection \<open>Recipes\<close>

lemma find_layout_cong: "layouts h = layouts g \<Longrightarrow> find_layout h = find_layout g"
  by (simp add: find_layout_def fun_eq_iff)

lemma valid_handles_apart:
  assumes "valid_alloc_handle h a" "valid_alloc_handle h b" "a \<noteq> b"
  shows "alloc_handle_descriptor a \<noteq> alloc_handle_descriptor b"
  using assms by (cases a; cases b) (auto simp: valid_alloc_handle_iff)

lemma alloc_handle_valid:
  assumes "valid_alloc_handle h (alloc_handle x)"
  shows "alloc_handle_descriptor (alloc_handle x) = alloc_descriptor x" "alloc_owner x = Some (arena_id h)"
  using assms by (auto simp: valid_alloc_handle_iff alloc_handle_def null_alloc_handle_def split: if_splits)

lemma plan_releases_valid:
  "plan_releases h sim prev as = Some sim' \<Longrightarrow> (\<forall>a \<in> set as. valid_alloc_handle h a) \<and> distinct as \<and> set as \<inter> set prev = {}"
proof (induction as arbitrary: sim prev)
  case (Cons a as)
  then show ?case using Cons.IH [of _ "prev @ [a]"] by (auto simp: Let_def split: if_splits)
qed simp

lemma adopt_releases_follow:
  assumes "plan_releases h0 (free_extents h) prev (map alloc_handle xs) = Some sim" "arena_inv h"
    "\<forall>x \<in> set xs. valid_alloc_handle h (alloc_handle x) \<and> descriptors h ! alloc_descriptor x = descriptors h0 ! alloc_descriptor x"
  shows "\<exists>h1. adopt_releases h (map Some xs) = Inr h1 \<and> arena_inv h1 \<and> free_extents h1 = sim
    \<and> length (free_descriptors h1) = length (free_descriptors h) + length xs
    \<and> layouts h1 = layouts h \<and> arena_id h1 = arena_id h \<and> capacity_bytes h1 = capacity_bytes h
    \<and> active_ids h1 = active_ids h - alloc_descriptor ` set xs
    \<and> (\<forall>j. j \<notin> alloc_descriptor ` set xs \<longrightarrow> descriptors h1 ! j = descriptors h ! j)"
  using assms
proof (induction xs arbitrary: h prev)
  case (Cons x xs)
  have vx: "valid_alloc_handle h (alloc_handle x)" and dx: "descriptors h ! alloc_descriptor x = descriptors h0 ! alloc_descriptor x"
    using Cons.prems(3) by simp_all
  note hx = alloc_handle_valid [OF vx]
  obtain h1 where r: "allocation_release h x = (h1, null_allocation, True)" "arena_inv h1"
    "active_ids h1 = active_ids h - {alloc_descriptor x}"
    "\<forall>j. j \<noteq> alloc_descriptor x \<longrightarrow> descriptors h1 ! j = descriptors h ! j"
    "free_extents h1 = insert_free_extent (desc_extent (descriptors h ! alloc_descriptor x)) (free_extents h)"
    "length (free_descriptors h1) = Suc (length (free_descriptors h))"
    "arena_id h1 = arena_id h" "layouts h1 = layouts h" "capacity_bytes h1 = capacity_bytes h"
    using allocation_release_ok [OF Cons.prems(2) vx] by blast
  have "valid_alloc_handle h0 (alloc_handle x)" using plan_releases_valid [OF Cons.prems(1)] by simp
  then have pl: "plan_releases h0 (free_extents h1) (prev @ [alloc_handle x]) (map alloc_handle xs) = Some sim"
    using Cons.prems(1) hx(1) dx by (simp add: r(5) desc_extent_def Let_def split: if_splits)
  have "valid_alloc_handle h1 (alloc_handle y) \<and> descriptors h1 ! alloc_descriptor y = descriptors h0 ! alloc_descriptor y"
    if y: "y \<in> set xs" for y
  proof -
    have vy: "valid_alloc_handle h (alloc_handle y)" using Cons.prems(3) y by simp
    have "alloc_handle x \<noteq> alloc_handle y" using plan_releases_valid [OF Cons.prems(1)] y by auto
    then have ne: "alloc_descriptor y \<noteq> alloc_descriptor x"
      using valid_handles_apart [OF vx vy] hx alloc_handle_valid [OF vy] by simp
    then show ?thesis using vy r(3,4,7) alloc_handle_valid [OF vy] Cons.prems(3) y
      by (simp add: valid_alloc_handle_iff)
  qed
  then obtain h2 where IH: "adopt_releases h1 (map Some xs) = Inr h2 \<and> arena_inv h2 \<and> free_extents h2 = sim
    \<and> length (free_descriptors h2) = length (free_descriptors h1) + length xs
    \<and> layouts h2 = layouts h1 \<and> arena_id h2 = arena_id h1 \<and> capacity_bytes h2 = capacity_bytes h1
    \<and> active_ids h2 = active_ids h1 - alloc_descriptor ` set xs
    \<and> (\<forall>j. j \<notin> alloc_descriptor ` set xs \<longrightarrow> descriptors h2 ! j = descriptors h1 ! j)"
    using Cons.IH [OF pl r(2)] by blast
  have "adopt_releases h (map Some (x # xs)) = Inr h2" using r(1) IH by simp
  moreover have "active_ids h2 = active_ids h - alloc_descriptor ` set (x # xs)" using IH r(3) by auto
  moreover have "\<forall>j. j \<notin> alloc_descriptor ` set (x # xs) \<longrightarrow> descriptors h2 ! j = descriptors h ! j" using IH r(4) by simp
  ultimately show ?case using IH r by (intro exI [of _ h2]) simp
qed simp

definition placed :: "HostKVArena \<Rightarrow> RecipeTarget \<Rightarrow> HostKVAllocation \<Rightarrow> bool" where
  "placed h t a \<longleftrightarrow>
     (let d = descriptors h ! alloc_descriptor a in
      valid_alloc_handle h (alloc_handle a) \<and> desc_offset d = target_offset t \<and> desc_bytes d = target_bytes t \<and>
      desc_layout d = target_layout t \<and> desc_pages d = target_pages t)"

lemma plan_targets_Cons:
  assumes "plan_targets h sim (q # qs) = Some ts"
  obtains l i k t ts' where "request_layout q = Some l" "0 < request_page_count q" "find_layout h l = Some i"
    "\<not> page_stride l > u64_max div request_page_count q"
    "find_free_extent (request_page_count q * page_stride l) sim = Some k"
    "t = \<lparr>target_layout = i, target_pages = request_page_count q, target_offset = ext_offset (sim ! k),
      target_bytes = request_page_count q * page_stride l\<rparr>"
    "plan_targets h (take_extent k (request_page_count q * page_stride l) sim) qs = Some ts'" "ts = t # ts'"
  using assms by (auto simp: Let_def u64_mul_pages split: option.splits if_splits)

lemma adopt_targets_follow:
  assumes "plan_targets h0 (free_extents h) qs = Some ts" "arena_inv h" "layouts h = layouts h0"
    "length qs \<le> length (free_descriptors h)" "\<forall>q \<in> set qs. request_page_count q \<le> u32_max"
  shows "\<exists>h' as. adopt_targets h ts = Inr (h', as) \<and> arena_inv h' \<and> list_all2 (placed h') ts as
    \<and> active_ids h \<subseteq> active_ids h' \<and> (\<forall>j \<in> active_ids h. descriptors h' ! j = descriptors h ! j)
    \<and> distinct (map alloc_descriptor as) \<and> alloc_descriptor ` set as \<inter> active_ids h = {}
    \<and> arena_id h' = arena_id h"
  using assms
proof (induction qs arbitrary: h ts)
  case Nil
  then show ?case by auto
next
  case (Cons q qs)
  from Cons.prems(1) obtain l i k t ts' where P: "request_layout q = Some l" "0 < request_page_count q"
    "find_layout h0 l = Some i" "\<not> page_stride l > u64_max div request_page_count q"
    "find_free_extent (request_page_count q * page_stride l) (free_extents h) = Some k"
    and t: "t = \<lparr>target_layout = i, target_pages = request_page_count q, target_offset = ext_offset (free_extents h ! k),
      target_bytes = request_page_count q * page_stride l\<rparr>"
    and ts': "plan_targets h0 (take_extent k (request_page_count q * page_stride l) (free_extents h)) qs = Some ts'"
    and ts: "ts = t # ts'" by (rule plan_targets_Cons)
  define n where "n = request_page_count q * page_stride l"
  have fl: "find_layout h l = Some i" using P(3) find_layout_cong [OF Cons.prems(3)] by simp
  have fd: "free_descriptors h \<noteq> []" using Cons.prems(4) by auto
  have "can_allocate h l (request_page_count q)"
    using P fl fd u64_mul_pages [OF P(2,4)] by (simp add: can_allocate_def)
  then obtain h1 a where al: "allocate h l (request_page_count q) = (h1, Some a)"
    using allocate_cases(3) [OF Cons.prems(2)] by (metis option.exhaust surj_pair)
  note A = allocate_cases(2) [OF Cons.prems(2) al refl]
  have pg: "request_page_count q \<le> u32_max" using Cons.prems(5) by simp
  note I = allocates_inv [OF Cons.prems(2) A pg]
  have h1: "free_extents h1 = take_extent k n (free_extents h)" "layouts h1 = layouts h" "arena_id h1 = arena_id h"
    "free_descriptors h1 = butlast (free_descriptors h)"
    using A P(5) by (auto simp: allocates_def Let_def n_def)
  define d where "d = descriptors h1 ! alloc_descriptor a"
  have na: "alloc_descriptor a \<notin> active_ids h"
    using A arena_free_descriptor(3) [OF Cons.prems(2) fd] by (simp add: allocates_def Let_def)
  have "alloc_descriptor a < length (descriptors h)"
    using A arena_free_descriptor(2) [OF Cons.prems(2) fd] by (simp add: allocates_def Let_def)
  then have d: "desc_offset d = target_offset t" "desc_bytes d = target_bytes t" "desc_layout d = target_layout t"
    "desc_pages d = target_pages t"
    using A P(5) fl unfolding d_def t by (auto simp: allocates_def Let_def n_def)
  have "length qs \<le> length (free_descriptors h1)" using Cons.prems(4) h1(4) by simp
  then obtain h2 as where IH: "adopt_targets h1 ts' = Inr (h2, as)" "arena_inv h2" "list_all2 (placed h2) ts' as"
    "active_ids h1 \<subseteq> active_ids h2" "\<forall>j \<in> active_ids h1. descriptors h2 ! j = descriptors h1 ! j"
    "distinct (map alloc_descriptor as)" "alloc_descriptor ` set as \<inter> active_ids h1 = {}" "arena_id h2 = arena_id h1"
    using Cons.IH [of h1 ts'] ts' I(1) h1 Cons.prems(3,5) unfolding n_def by auto
  have lay: "layouts h ! i = l" using find_layout_Some(2) [OF fl] .
  have ai: "alloc_descriptor a \<in> active_ids h1" using I(2) by simp
  have "adopt_targets h ts = Inr (h2, a # as)"
    using al d IH(1) by (simp add: ts t lay d_def [symmetric])
  moreover have "placed h2 t a"
  proof -
    have "descriptors h2 ! alloc_descriptor a = d" using IH(5) ai by (simp add: d_def)
    moreover have "valid_alloc_handle h2 (alloc_handle a)"
      using I(3) IH(4,5,8) alloc_handle_valid [OF I(3)] ai by (auto simp: valid_alloc_handle_iff)
    ultimately show ?thesis using d by (simp add: placed_def)
  qed
  moreover have "active_ids h \<subseteq> active_ids h2" using IH(4) I(2) by auto
  moreover have "\<forall>j \<in> active_ids h. descriptors h2 ! j = descriptors h ! j"
  proof
    fix j assume j: "j \<in> active_ids h"
    then have "j \<noteq> alloc_descriptor a" using na by auto
    then show "descriptors h2 ! j = descriptors h ! j" using IH(5) I(2,4) j by simp
  qed
  moreover have "distinct (map alloc_descriptor (a # as))" using IH(6,7) ai by auto
  moreover have "alloc_descriptor ` set (a # as) \<inter> active_ids h = {}" using IH(7) I(2) na by auto
  ultimately show ?case using IH(2,3,8) h1(3) by (intro exI [of _ h2] exI [of _ "a # as"]) (simp add: ts)
qed

lemma plan_targets_adoptable:
  assumes "plan_targets h sim qs = Some ts" "length outs = length ts" "\<forall>x \<in> set outs. alloc_owner x = None"
  shows "list_all2 (target_adoptable h) ts outs"
  using assms
proof (induction qs arbitrary: sim ts outs)
  case (Cons q qs)
  from Cons.prems(1) obtain l i k t ts' where P: "0 < request_page_count q"
    "find_layout h l = Some i" "\<not> page_stride l > u64_max div request_page_count q"
    "t = \<lparr>target_layout = i, target_pages = request_page_count q, target_offset = ext_offset (sim ! k),
      target_bytes = request_page_count q * page_stride l\<rparr>"
    "plan_targets h (take_extent k (request_page_count q * page_stride l) sim) qs = Some ts'" "ts = t # ts'"
    by (rule plan_targets_Cons) blast
  obtain x xs where o: "outs = x # xs" using Cons.prems(2) P(6) by (cases outs) auto
  have "target_adoptable h t x"
    using P find_layout_Some [OF P(2)] u64_mul_pages [OF P(1,3)] Cons.prems(3) o by (simp add: target_adoptable_def)
  then show ?case using Cons.IH [OF P(5), of xs] Cons.prems o P(6) by simp
qed simp

lemma plan_targets_length: "plan_targets h sim qs = Some ts \<Longrightarrow> length ts = length qs"
proof (induction qs arbitrary: sim ts)
  case (Cons q qs)
  from Cons.prems show ?case by (rule plan_targets_Cons) (use Cons.IH in auto)
qed simp

lemma releases_match_ok:
  "\<forall>x \<in> set xs. valid_alloc_handle h (alloc_handle x) \<Longrightarrow> releases_match h (map alloc_handle xs) (map Some xs)"
  by (induction xs) auto

end
