(* ===== verification/Host_Arena_Use.thy ===== *)
theory Host_Arena_Use
  imports Host_KV_Arena
begin

text \<open>
  The host arena in use: the arenas that any sequence of constructor, allocation, release, split
  and recipe adoption can reach, and what holds of all of them.
\<close>

inductive arena_reachable :: "HostKVArena \<Rightarrow> bool" where
  init: "new_host_arena self base capacity supported = Inr h \<Longrightarrow> capacity \<le> u64_max \<Longrightarrow> arena_reachable h"
| alloc: "arena_reachable h \<Longrightarrow> pages \<le> u32_max \<Longrightarrow> allocate h l pages = (h', r) \<Longrightarrow> arena_reachable h'"
| release: "arena_reachable h \<Longrightarrow> alloc_owner a = Some (arena_id h) \<Longrightarrow> allocation_release h a = (h', a', ok)
    \<Longrightarrow> arena_reachable h'"
| split: "arena_reachable h \<Longrightarrow> split_allocation h a off = Inr (h', left, right) \<Longrightarrow> arena_reachable h'"
| adopt: "arena_reachable h \<Longrightarrow> \<forall>t \<in> set (recipe_targets r). target_pages t \<le> u32_max
    \<Longrightarrow> apply_recipe h r releases outs = Inr (h', r', releases', outs', ok) \<Longrightarrow> arena_reachable h'"

section \<open>Invariant\<close>

lemma allocate_inv:
  assumes "arena_inv h" "pages \<le> u32_max" "allocate h l pages = (h', r)" shows "arena_inv h'"
proof (cases r)
  case None
  then show ?thesis using allocate_cases(1) [OF assms(1,3)] assms(1) by simp
next
  case (Some a)
  show ?thesis by (rule allocates_inv(1) [OF assms(1) allocate_cases(2) [OF assms(1,3) Some] assms(2)])
qed

lemma release_inv:
  assumes inv: "arena_inv h" and own: "alloc_owner a = Some (arena_id h)"
    and r: "allocation_release h a = (h', a', ok)"
  shows "arena_inv h'"
proof (cases "valid_alloc_handle h (alloc_handle a)")
  case True
  then show ?thesis using allocation_release_ok [OF inv True] r by auto
next
  case False
  then have "fst (release_descriptor h (alloc_descriptor a) (alloc_generation a)) = h"
    using own by (auto simp: release_descriptor_def valid_alloc_handle_def alloc_handle_def Let_def)
  then show ?thesis using r inv own by (auto simp: allocation_release_def split: prod.splits)
qed

lemma split_inv:
  assumes inv: "arena_inv h" and r: "split_allocation h a off = Inr (h', left, right)"
  shows "arena_inv h'"
proof -
  have "valid_alloc_handle h (alloc_handle a)" "0 < off" "off < desc_pages (descriptors h ! alloc_descriptor a)"
    using r by (auto simp: split_allocation_def Let_def split: if_splits)
  from split_allocation_ok [OF inv this(1) refl this(2,3)] obtain g ll rr where
    "split_allocation h a off = Inr (g, ll, rr)" "arena_inv g" by blast
  then show ?thesis using r by simp
qed

lemma adopt_releases_inv:
  "adopt_releases h xs = Inr h' \<Longrightarrow> arena_inv h \<Longrightarrow> \<forall>x \<in> set xs. x \<noteq> None \<and> alloc_owner (the x) = Some (arena_id h)
    \<Longrightarrow> arena_inv h' \<and> arena_id h' = arena_id h"
proof (induction xs arbitrary: h)
  case (Cons x xs)
  obtain h1 a ok where r: "allocation_release h (the x) = (h1, a, ok)" by (cases "allocation_release h (the x)")
  have ok: "ok" "adopt_releases h1 xs = Inr h'" using Cons.prems(1) r by (auto split: if_splits)
  have inv1: "arena_inv h1" using release_inv [OF Cons.prems(2) _ r] Cons.prems(3) by simp
  have "arena_id h1 = arena_id h"
    using r by (auto simp: allocation_release_def release_descriptor_def Let_def split: if_splits prod.splits)
  then show ?case using Cons.IH [OF ok(2) inv1] Cons.prems(3) by simp
qed simp

lemma adopt_targets_inv:
  "adopt_targets h ts = Inr (h', as) \<Longrightarrow> arena_inv h \<Longrightarrow> \<forall>t \<in> set ts. target_pages t \<le> u32_max \<Longrightarrow> arena_inv h'"
proof (induction ts arbitrary: h as)
  case (Cons t ts)
  obtain h1 r where r: "allocate h (layouts h ! target_layout t) (target_pages t) = (h1, r)"
    by (cases "allocate h (layouts h ! target_layout t) (target_pages t)")
  have "arena_inv h1" using allocate_inv [OF Cons.prems(2) _ r] Cons.prems(3) by simp
  moreover obtain as' where "adopt_targets h1 ts = Inr (h', as')"
    using Cons.prems(1) r by (auto simp: Let_def split: option.splits if_splits)
  ultimately show ?case using Cons.IH Cons.prems(3) by simp
qed simp

lemma releases_match_owner:
  "releases_match h as xs \<Longrightarrow> length as = length xs
    \<Longrightarrow> \<forall>x \<in> set xs. x \<noteq> None \<and> alloc_owner (the x) = Some (arena_id h)"
proof (induction h as xs rule: releases_match.induct)
  case (1 h a as x xs)
  then obtain y where y: "x = Some y" "alloc_handle y = a" "valid_alloc_handle h a" "releases_match h as xs"
    by (auto split: option.splits)
  then have "alloc_owner y = Some (arena_id h)" using alloc_handle_valid(2) by blast
  then show ?case using "1.IH" [OF y(1,4)] "1.prems"(2) y(1) by simp
qed auto

lemma apply_recipe_inv:
  assumes "arena_inv h" "apply_recipe h r releases outs = Inr (h', r', releases', outs', ok)"
    "\<forall>t \<in> set (recipe_targets r). target_pages t \<le> u32_max"
  shows "arena_inv h'" "\<not> ok \<Longrightarrow> h' = h \<and> releases' = releases \<and> outs' = outs \<and> r' = r"
proof -
  show "\<not> ok \<Longrightarrow> h' = h \<and> releases' = releases \<and> outs' = outs \<and> r' = r"
    using assms(2) by (auto simp: apply_recipe_def split: if_splits)
  show "arena_inv h'"
  proof (cases ok)
    case False
    then show ?thesis using assms by (auto simp: apply_recipe_def split: if_splits)
  next
    case True
    then obtain h1 as where a: "adopt_releases h releases = Inr h1" "adopt_targets h1 (recipe_targets r) = Inr (h', as)"
      "releases_match h (recipe_releases r) releases" "length (recipe_releases r) = length releases"
      using assms(2) by (auto simp: apply_recipe_def split: if_splits)
    have "arena_inv h1" using adopt_releases_inv [OF a(1) assms(1) releases_match_owner [OF a(3,4)]] by simp
    then show ?thesis using adopt_targets_inv [OF a(2)] assms(3) by simp
  qed
qed

lemma arena_reachable_inv: "arena_reachable h \<Longrightarrow> arena_inv h"
proof (induction rule: arena_reachable.induct)
  case (init self base capacity supported h)
  then show ?case by (rule new_host_arena_inv)
next
  case (alloc h pages l h' r)
  then show ?case using allocate_inv by blast
next
  case (release h a h' a' ok)
  then show ?case using release_inv by blast
next
  case (split h a off h' left right)
  then show ?case using split_inv by blast
next
  case (adopt h r releases outs h' r' releases' outs' ok)
  then show ?case using apply_recipe_inv(1) by blast
qed

section \<open>A concrete arena\<close>

text \<open>Three pages of 1024 bytes.\<close>

definition example_page_layout :: HostKVPageLayout where
  "example_page_layout =
     \<lparr>host_geometry = \<lparr>page_tokens = 64, device_plane_order = PageMajor,
        geometry_planes = [\<lparr>plane_dtype = I8, leading_extent = 16, head_extent = 1, plane_alignment = 256\<rparr>]\<rparr>,
      host_planes = [\<lparr>plane_offset = 0, page_payload_bytes = 1024, head_payload_bytes = 1024\<rparr>],
      page_stride = 1024\<rparr>"

definition example_arena :: HostKVArena where
  "example_arena = \<lparr>arena_id = 3, arena_backing = Some 65536, capacity_bytes = 3072, occupied_bytes = 0,
     layouts = [example_page_layout],
     descriptors = replicate 3 \<lparr>desc_offset = 0, desc_bytes = 0, desc_layout = 0, desc_pages = 0,
       desc_generation = 1, desc_active = False\<rparr>,
     free_descriptors = [2, 1, 0], free_extents = [\<lparr>ext_offset = 0, ext_bytes = 3072\<rparr>], revision = 1\<rparr>"

lemma example_page_layout_planned:
  "plan_host_kv_page_layout (host_geometry example_page_layout) = Inr example_page_layout"
  by (simp add: example_page_layout_def plan_host_kv_page_layout_def host_align_up_def kHostKVAlignment_def
      checked_mul_def checked_add_def u64_max_def)

lemma example_arena_new: "new_host_arena 3 65536 3072 [example_page_layout] = Inr example_arena"
proof -
  have "page_stride example_page_layout = 1024" by (simp add: example_page_layout_def)
  moreover have "[0..<3] = [0, 1, 2::nat]" by (simp add: numeral_eq_Suc)
  ultimately show ?thesis
    by (simp add: new_host_arena_def example_page_layout_planned example_arena_def u32_max_def Let_def)
qed

lemma example_arena_reachable: "arena_reachable example_arena"
  by (rule arena_reachable.init [OF example_arena_new]) (simp add: u64_max_def)

text \<open>Two pages of it allocated.\<close>

definition example_allocated :: HostKVArena where
  "example_allocated = fst (allocate example_arena example_page_layout 2)"

definition example_allocation :: HostKVAllocation where
  "example_allocation = \<lparr>alloc_owner = Some 3, alloc_descriptor = 0, alloc_generation = 1\<rparr>"

lemma example_allocated_value: "example_allocated = example_arena\<lparr>occupied_bytes := 2048,
    descriptors := (descriptors example_arena)[0 := \<lparr>desc_offset = 0, desc_bytes = 2048, desc_layout = 0,
      desc_pages = 2, desc_generation = 1, desc_active = True\<rparr>],
    free_descriptors := [2, 1], free_extents := [\<lparr>ext_offset = 2048, ext_bytes = 1024\<rparr>], revision := 2\<rparr>"
  and example_allocate: "allocate example_arena example_page_layout 2 = (example_allocated, Some example_allocation)"
proof -
  have s: "page_stride example_page_layout = 1024" by (simp add: example_page_layout_def)
  have "allocate example_arena example_page_layout 2 = (example_arena\<lparr>occupied_bytes := 2048,
    descriptors := (descriptors example_arena)[0 := \<lparr>desc_offset = 0, desc_bytes = 2048, desc_layout = 0,
      desc_pages = 2, desc_generation = 1, desc_active = True\<rparr>],
    free_descriptors := [2, 1], free_extents := [\<lparr>ext_offset = 2048, ext_bytes = 1024\<rparr>], revision := 2\<rparr>,
    Some example_allocation)"
    by (simp add: allocate_def find_layout_def example_arena_def s u64_max_def u64_mul_def find_free_extent_def
        take_descriptor_def take_extent_def u64_add_def u64_sub_def bump_u64_def u32_max_def example_allocation_def)
  then show "example_allocated = example_arena\<lparr>occupied_bytes := 2048,
    descriptors := (descriptors example_arena)[0 := \<lparr>desc_offset = 0, desc_bytes = 2048, desc_layout = 0,
      desc_pages = 2, desc_generation = 1, desc_active = True\<rparr>],
    free_descriptors := [2, 1], free_extents := [\<lparr>ext_offset = 2048, ext_bytes = 1024\<rparr>], revision := 2\<rparr>"
    "allocate example_arena example_page_layout 2 = (example_allocated, Some example_allocation)"
    by (simp_all add: example_allocated_def)
qed

lemma example_allocated_reachable: "arena_reachable example_allocated"
  by (rule arena_reachable.alloc [OF example_arena_reachable _ example_allocate]) (simp add: u32_max_def)

lemma example_allocated_facts:
  "valid_alloc_handle example_allocated (alloc_handle example_allocation)"
  "desc_pages (descriptors example_allocated ! alloc_descriptor example_allocation) = 2"
  "occupied_bytes example_allocated = 2048"
  by (simp_all add: example_allocated_value valid_alloc_handle_def alloc_handle_def example_allocation_def example_arena_def)

definition example_request :: HostKVAllocationRequest where
  "example_request = \<lparr>request_layout = Some example_page_layout, request_page_count = 3\<rparr>"

definition example_recipe :: HostKVAllocationRecipe where
  "example_recipe = \<lparr>recipe_owner = Some 3, recipe_revision = 2, recipe_releases = [alloc_handle example_allocation],
     recipe_targets = [\<lparr>target_layout = 0, target_pages = 3, target_offset = 0, target_bytes = 3072\<rparr>]\<rparr>"

lemma example_plan:
  "plan_after_releases example_allocated (map alloc_handle [example_allocation]) [example_request] = Some example_recipe"
proof -
  have s: "page_stride example_page_layout = 1024" by (simp add: example_page_layout_def)
  show ?thesis using example_allocated_facts(1)
    by (simp add: plan_after_releases_def Let_def)
      (simp add: example_allocated_value example_arena_def example_request_def example_recipe_def alloc_handle_def
        example_allocation_def insert_free_extent_def u64_add_def u64_sub_def u64_mul_def u64_max_def find_layout_def
        find_free_extent_def s)
qed

section \<open>Properties\<close>

text \<open>C14: in every reachable arena the active allocations are pairwise disjoint byte ranges inside the
  arena, none of them overlaps a free extent, and together they cover the arena; each is exactly its
  pages at its layout's stride; no two free extents touch; the occupied counter is the sum of the
  allocations and the free bytes are what the extents hold.\<close>

theorem arena_partitioned:
  assumes "arena_reachable h"
  shows "(\<forall>i \<in> active_ids h. \<forall>j \<in> active_ids h. i \<noteq> j \<longrightarrow>
            span_set (desc_span (descriptors h ! i)) \<inter> span_set (desc_span (descriptors h ! j)) = {})
    \<and> (\<forall>i \<in> active_ids h. span_set (desc_span (descriptors h ! i)) \<inter> spans_set (map ext_span (free_extents h)) = {})
    \<and> (\<Union>i \<in> active_ids h. span_set (desc_span (descriptors h ! i))) \<union> spans_set (map ext_span (free_extents h))
        = {0 ..< int (capacity_bytes h)}
    \<and> (\<forall>i \<in> active_ids h. desc_bytes (descriptors h ! i)
         = desc_pages (descriptors h ! i) * page_stride (layouts h ! desc_layout (descriptors h ! i)))
    \<and> (\<forall>k. Suc k < length (free_extents h) \<longrightarrow>
         ext_offset (free_extents h ! k) + ext_bytes (free_extents h ! k) < ext_offset (free_extents h ! Suc k))
    \<and> occupied_bytes h = (\<Sum>i \<in> active_ids h. desc_bytes (descriptors h ! i))
    \<and> int (free_bytes h) = spans_total (map ext_span (free_extents h))"
proof -
  have inv: "arena_inv h" using assms by (rule arena_reachable_inv)
  have T: "tiles (active_ids h) (\<lambda>i. desc_span (descriptors h ! i)) (map ext_span (free_extents h)) (int (capacity_bytes h))"
    using inv by (simp add: arena_inv_def arena_tiles_def)
  have gaps: "ext_offset (free_extents h ! k) + ext_bytes (free_extents h ! k) < ext_offset (free_extents h ! Suc k)"
    if "Suc k < length (free_extents h)" for k
  proof -
    have "sorted_wrt (\<lambda>s t. snd s < fst t) (map ext_span (free_extents h))" using T by (simp add: tiles_def spans_ok_def)
    from sorted_wrt_nth_less [OF this, of k "Suc k"] that
    have "int (ext_offset (free_extents h ! k) + ext_bytes (free_extents h ! k)) < int (ext_offset (free_extents h ! Suc k))"
      by simp
    then show ?thesis by (simp only: of_nat_less_iff)
  qed
  have "int (free_bytes h) = spans_total (map ext_span (free_extents h))"
    using arena_occupied [OF inv] by (simp add: free_bytes_def width_simps of_nat_diff)
  moreover have "\<forall>i \<in> active_ids h. desc_bytes (descriptors h ! i)
         = desc_pages (descriptors h ! i) * page_stride (layouts h ! desc_layout (descriptors h ! i))"
    using inv by (simp add: arena_inv_def desc_wf_def)
  moreover have "occupied_bytes h = (\<Sum>i \<in> active_ids h. desc_bytes (descriptors h ! i))"
    using inv by (simp add: arena_inv_def)
  ultimately show ?thesis using T gaps unfolding tiles_def by (intro conjI) blast+
qed

theorem arena_partitioned_witness:
  "arena_reachable example_allocated \<and> occupied_bytes example_allocated = 2048
     \<and> int (free_bytes example_allocated) = spans_total (map ext_span (free_extents example_allocated))"
  using arena_partitioned [OF example_allocated_reachable] example_allocated_reachable example_allocated_facts(3) by blast

text \<open>C15: an allocation succeeds exactly when the pre-check says so; it takes an idle descriptor, the
  front of the first free extent that is large enough and exactly the requested pages, keeps every
  other allocation as it was, and returns a live handle. A failed allocation changes nothing.\<close>

theorem allocate_exact:
  assumes "arena_reachable h" "pages \<le> u32_max" "allocate h l pages = (h', r)"
  shows "(r \<noteq> None \<longleftrightarrow> can_allocate h l pages) \<and> (r = None \<longrightarrow> h' = h)
    \<and> (\<forall>a. r = Some a \<longrightarrow>
         valid_alloc_handle h' (alloc_handle a) \<and> alloc_descriptor a \<notin> active_ids h
         \<and> active_ids h' = insert (alloc_descriptor a) (active_ids h)
         \<and> (\<forall>j \<in> active_ids h. descriptors h' ! j = descriptors h ! j)
         \<and> desc_pages (descriptors h' ! alloc_descriptor a) = pages
         \<and> layouts h ! desc_layout (descriptors h' ! alloc_descriptor a) = l
         \<and> (\<exists>k < length (free_extents h).
              desc_offset (descriptors h' ! alloc_descriptor a) = ext_offset (free_extents h ! k)
              \<and> pages * page_stride l \<le> ext_bytes (free_extents h ! k)
              \<and> (\<forall>m < k. ext_bytes (free_extents h ! m) < pages * page_stride l)))"
proof -
  have inv: "arena_inv h" using assms(1) by (rule arena_reachable_inv)
  note C = allocate_cases [OF inv assms(3)]
  have "valid_alloc_handle h' (alloc_handle a) \<and> alloc_descriptor a \<notin> active_ids h
         \<and> active_ids h' = insert (alloc_descriptor a) (active_ids h)
         \<and> (\<forall>j \<in> active_ids h. descriptors h' ! j = descriptors h ! j)
         \<and> desc_pages (descriptors h' ! alloc_descriptor a) = pages
         \<and> layouts h ! desc_layout (descriptors h' ! alloc_descriptor a) = l
         \<and> (\<exists>k < length (free_extents h).
              desc_offset (descriptors h' ! alloc_descriptor a) = ext_offset (free_extents h ! k)
              \<and> pages * page_stride l \<le> ext_bytes (free_extents h ! k)
              \<and> (\<forall>m < k. ext_bytes (free_extents h ! m) < pages * page_stride l))" if r: "r = Some a" for a
  proof -
    note A = C(2) [OF r]
    note I = allocates_inv [OF inv A assms(2)]
    have fd: "free_descriptors h \<noteq> []" "alloc_descriptor a = last (free_descriptors h)"
      using A by (simp_all add: allocates_def Let_def)
    note D = arena_free_descriptor [OF inv fd(1), folded fd(2)]
    from A obtain j k where jk: "find_layout h l = Some j" "find_free_extent (pages * page_stride l) (free_extents h) = Some k"
      and d: "desc_offset (descriptors h' ! alloc_descriptor a) = ext_offset (free_extents h ! k)"
        "desc_pages (descriptors h' ! alloc_descriptor a) = pages" "desc_layout (descriptors h' ! alloc_descriptor a) = j"
      using D(2) by (auto simp: allocates_def Let_def)
    have "k < length (free_extents h) \<and> pages * page_stride l \<le> ext_bytes (free_extents h ! k)
        \<and> (\<forall>m < k. ext_bytes (free_extents h ! m) < pages * page_stride l)"
      using find_index_Some [OF jk(2) [unfolded find_free_extent_def]] by (simp add: not_le)
    moreover have "\<forall>j \<in> active_ids h. descriptors h' ! j = descriptors h ! j" using I(4) D(3) by metis
    ultimately show ?thesis using I(2,3) D(3) d find_layout_Some(2) [OF jk(1)] by auto
  qed
  then show ?thesis using C(1,3) by simp
qed

theorem allocate_exact_witness:
  "\<exists>h' a. allocate example_arena example_page_layout 2 = (h', Some a) \<and> valid_alloc_handle h' (alloc_handle a)
     \<and> can_allocate example_arena example_page_layout 2 \<and> desc_pages (descriptors h' ! alloc_descriptor a) = 2"
proof -
  have "(2::nat) \<le> u32_max" by (simp add: u32_max_def)
  from allocate_exact [OF example_arena_reachable this example_allocate]
  show ?thesis using example_allocate by (intro exI [of _ example_allocated] exI [of _ example_allocation]) simp
qed

text \<open>C16: splitting a live allocation at any page strictly inside it always succeeds, the descriptor
  capacity error being unreachable: the two halves are live, are adjacent and together exactly the old
  block with the pages divided at the split point, the old handle is dead, and no other block,
  extent or counter changes.\<close>

theorem split_succeeds:
  assumes "arena_reachable h" "valid_alloc_handle h (alloc_handle a)"
    and "0 < off" "off < desc_pages (descriptors h ! alloc_descriptor a)"
  shows "\<exists>h' left right. split_allocation h a off = Inr (h', left, right)
    \<and> valid_alloc_handle h' (alloc_handle left) \<and> valid_alloc_handle h' (alloc_handle right)
    \<and> \<not> valid_alloc_handle h' (alloc_handle a)
    \<and> desc_pages (descriptors h' ! alloc_descriptor left) = off
    \<and> desc_pages (descriptors h' ! alloc_descriptor right) = desc_pages (descriptors h ! alloc_descriptor a) - off
    \<and> desc_span (descriptors h' ! alloc_descriptor left)
        = (fst (desc_span (descriptors h ! alloc_descriptor a)), fst (desc_span (descriptors h' ! alloc_descriptor right)))
    \<and> snd (desc_span (descriptors h' ! alloc_descriptor right)) = snd (desc_span (descriptors h ! alloc_descriptor a))
    \<and> occupied_bytes h' = occupied_bytes h \<and> free_extents h' = free_extents h"
proof -
  have inv: "arena_inv h" using assms(1) by (rule arena_reachable_inv)
  from split_allocation_ok [OF inv assms(2) refl assms(3,4)] obtain h' left right where
    s: "split_allocation h a off = Inr (h', left, right)" "valid_alloc_handle h' (alloc_handle left)"
    "valid_alloc_handle h' (alloc_handle right)" "\<not> valid_alloc_handle h' (alloc_handle a)"
    "alloc_descriptor left = alloc_descriptor a"
    "desc_pages (descriptors h' ! alloc_descriptor a) = off"
    "desc_pages (descriptors h' ! alloc_descriptor right) = desc_pages (descriptors h ! alloc_descriptor a) - off"
    "desc_span (descriptors h' ! alloc_descriptor a)
      = (fst (desc_span (descriptors h ! alloc_descriptor a)), fst (desc_span (descriptors h' ! alloc_descriptor right)))"
    "snd (desc_span (descriptors h' ! alloc_descriptor right)) = snd (desc_span (descriptors h ! alloc_descriptor a))"
    "occupied_bytes h' = occupied_bytes h" "free_extents h' = free_extents h" by blast
  then show ?thesis by (intro exI [of _ h'] exI [of _ left] exI [of _ right]) simp
qed

theorem split_succeeds_witness:
  "\<exists>h' left right. split_allocation example_allocated example_allocation 1 = Inr (h', left, right)
     \<and> valid_alloc_handle h' (alloc_handle right) \<and> desc_pages (descriptors h' ! alloc_descriptor right) = 1
     \<and> occupied_bytes h' = 2048"
proof -
  have "(1::nat) < desc_pages (descriptors example_allocated ! alloc_descriptor example_allocation)"
    by (simp add: example_allocated_facts(2))
  from split_succeeds [OF example_allocated_reachable example_allocated_facts(1) _ this]
  show ?thesis unfolding example_allocated_facts(2,3) by auto
qed

text \<open>C17: a recipe planned on a reachable arena always applies to it when the named allocations and
  empty outputs are handed over: adoption succeeds without reaching \<^verbatim>\<open>std::terminate\<close>, every target
  is allocated exactly at the planned offset with the planned size, the released allocations are
  dead, and the recipe is spent.\<close>

theorem recipe_applies:
  assumes "arena_reachable h" "plan_after_releases h (map alloc_handle xs) qs = Some r"
    and "\<forall>q \<in> set qs. request_page_count q \<le> u32_max"
    and "length outs = length qs" "\<forall>x \<in> set outs. alloc_owner x = None"
  shows "\<exists>h' r' as. apply_recipe h r (map Some xs) outs = Inr (h', r', map (\<lambda>_. Some null_allocation) xs, as, True)
    \<and> list_all2 (placed h') (recipe_targets r) as \<and> length as = length qs
    \<and> distinct (map alloc_descriptor as) \<and> recipe_owner r' = None
    \<and> (\<forall>j \<in> active_ids h - alloc_descriptor ` set xs. j \<in> active_ids h' \<and> descriptors h' ! j = descriptors h ! j)"
proof -
  have inv: "arena_inv h" using assms(1) by (rule arena_reachable_inv)
  from assms(2) obtain sim ts where
    fits: "length qs \<le> length (free_descriptors h) + length xs"
    and sim: "plan_releases h (free_extents h) [] (map alloc_handle xs) = Some sim"
    and ts: "plan_targets h sim qs = Some ts"
    and r: "r = \<lparr>recipe_owner = Some (arena_id h), recipe_revision = revision h,
      recipe_releases = map alloc_handle xs, recipe_targets = ts\<rparr>"
    by (auto simp: plan_after_releases_def split: if_splits option.splits)
  have valid: "\<forall>x \<in> set xs. valid_alloc_handle h (alloc_handle x)" using plan_releases_valid [OF sim] by simp
  then obtain h1 where h1: "adopt_releases h (map Some xs) = Inr h1" "arena_inv h1" "free_extents h1 = sim"
    "length (free_descriptors h1) = length (free_descriptors h) + length xs" "layouts h1 = layouts h"
    "active_ids h1 = active_ids h - alloc_descriptor ` set xs"
    "\<forall>j. j \<notin> alloc_descriptor ` set xs \<longrightarrow> descriptors h1 ! j = descriptors h ! j"
    using adopt_releases_follow [OF sim inv] by auto
  have "length qs \<le> length (free_descriptors h1)" using fits h1(4) by simp
  from adopt_targets_follow [OF ts [folded h1(3)] h1(2,5) this assms(3)] obtain h2 as where
    h2: "adopt_targets h1 ts = Inr (h2, as)" "list_all2 (placed h2) ts as" "active_ids h1 \<subseteq> active_ids h2"
    "\<forall>j \<in> active_ids h1. descriptors h2 ! j = descriptors h1 ! j" "distinct (map alloc_descriptor as)" by blast
  have len: "length ts = length qs" "length as = length qs"
    using plan_targets_length [OF ts] h2(2) by (simp_all add: list_all2_lengthD [symmetric])
  have "list_all2 (target_adoptable h) ts outs" using plan_targets_adoptable [OF ts] assms(4,5) len by simp
  then have "apply_recipe h r (map Some xs) outs = Inr (h2,
      \<lparr>recipe_owner = None, recipe_revision = 0, recipe_releases = [], recipe_targets = []\<rparr>,
      map (\<lambda>_. Some null_allocation) xs, as, True)"
    using releases_match_ok [OF valid] assms(4) len h1(1) h2(1) by (simp add: apply_recipe_def r o_def)
  moreover have "\<forall>j \<in> active_ids h - alloc_descriptor ` set xs. j \<in> active_ids h2 \<and> descriptors h2 ! j = descriptors h ! j"
    using h1(6,7) h2(3,4) by auto
  ultimately show ?thesis using h2(2,5) len by (auto simp: r)
qed

theorem recipe_applies_witness:
  "\<exists>h' r' as. apply_recipe example_allocated example_recipe [Some example_allocation] [null_allocation]
       = Inr (h', r', [Some null_allocation], as, True)
     \<and> list_all2 (placed h') (recipe_targets example_recipe) as"
proof -
  have "\<forall>q \<in> set [example_request]. request_page_count q \<le> u32_max" by (simp add: example_request_def u32_max_def)
  from recipe_applies [OF example_allocated_reachable example_plan this, of "[null_allocation]"]
  show ?thesis by (auto simp: null_allocation_def)
qed



end
