(* ===== verification/Lease_Accounting.thy ===== *)
theory Lease_Accounting
  imports Device_Page_Pool "HOL-Library.Multiset"
begin

text \<open>
  Bookkeeping for an owner of page leases. An owner that keeps its leases in several places (the
  replicas of its pages) holds a multiset of them; \<open>leases_held\<close> says that these are live leases of
  pairwise different pages and are all the pages the pool has allocated. Handing out, taking back and
  changing reservations each keep it, in the terms of the pool's own contracts \<open>grants\<close> and
  \<open>returns\<close>.
\<close>

definition leases_held :: "DeviceKVPagePool \<Rightarrow> DeviceKVPageLease multiset \<Rightarrow> bool" where
  "leases_held p M \<longleftrightarrow>
     pool_inv p \<and> (\<forall>l \<in># M. lease_belongs_to l p \<and> valid_handle p (lease_handle l)) \<and>
     (\<exists>ls. mset ls = M \<and> distinct (map lease_index ls)) \<and> size M = allocated_pages p"

lemma leases_held_inv: "leases_held p M \<Longrightarrow> pool_inv p"
  by (simp add: leases_held_def)

lemma leases_held_live:
  "leases_held p M \<Longrightarrow> l \<in># M \<Longrightarrow> lease_belongs_to l p \<and> valid_handle p (lease_handle l)"
  by (simp add: leases_held_def)

lemma live_lease_index: "lease_belongs_to l p \<Longrightarrow> handle_index (lease_handle l) = lease_index l"
  using lease_handle_live [of l p] by simp

lemma distinct_indices_mset:
  "mset ls = mset ks \<Longrightarrow> distinct (map lease_index ls) = distinct (map lease_index ks)"
  by (intro mset_eq_imp_distinct_iff) simp

text \<open>Two places of the owner hold leases of different pages.\<close>

lemma leases_held_apart:
  assumes "leases_held p M" "{#l, k#} \<subseteq># M"
  shows "lease_index l \<noteq> lease_index k"
proof -
  obtain ls where ls: "mset ls = M" "distinct (map lease_index ls)" using assms(1) by (auto simp: leases_held_def)
  obtain N where "M = {#l, k#} + N" using assms(2) by (auto simp: mset_subset_eq_exists_conv)
  moreover obtain ns where "mset ns = N" using ex_mset by blast
  ultimately have "mset (l # k # ns) = mset ls" using ls(1) by simp
  then have "distinct (map lease_index (l # k # ns))" using distinct_indices_mset ls(2) by blast
  then show ?thesis by simp
qed

lemma leases_held_grant:
  assumes held: "leases_held p M" and g: "grants p q ns"
  shows "leases_held q (M + mset ns)"
proof -
  obtain ls where ls: "mset ls = M" "distinct (map lease_index ls)" using held by (auto simp: leases_held_def)
  have fresh: "lease_index l \<noteq> lease_index m" if "l \<in> set ns" "m \<in># M" for l m
  proof -
    have m: "lease_belongs_to m p" "valid_handle p (lease_handle m)" using leases_held_live [OF held that(2)] by auto
    have "\<forall>h. valid_handle p h \<longrightarrow> handle_index h \<noteq> lease_index l" using g that(1) unfolding grants_def by blast
    then show ?thesis using m(2) live_lease_index [OF m(1)] by metis
  qed
  have "distinct (map lease_index (ls @ ns))"
    using ls g fresh by (auto simp: grants_def image_iff) (metis set_mset_mset)
  then have d: "\<exists>ks. mset ks = M + mset ns \<and> distinct (map lease_index ks)"
    using ls(1) by (intro exI [of _ "ls @ ns"]) simp
  have live: "\<forall>l \<in># M + mset ns. lease_belongs_to l q \<and> valid_handle q (lease_handle l)"
    using held g by (auto simp: leases_held_def grants_def lease_belongs_to_def)
  show ?thesis using d live held g by (simp add: leases_held_def grants_def)
qed

lemma leases_held_return:
  assumes held: "leases_held p (add_mset l M)" and g: "returns p q [l]"
  shows "leases_held q M"
proof -
  have apart: "lease_index m \<noteq> lease_index l" if "m \<in># M" for m
    using that by (intro leases_held_apart [OF held]) (simp add: insert_subset_eq_iff)
  have "lease_belongs_to m q \<and> valid_handle q (lease_handle m)" if "m \<in># M" for m
  proof -
    have "lease_belongs_to m p" "valid_handle p (lease_handle m)"
      using leases_held_live [OF held, of m] that by auto
    then show ?thesis using g apart [OF that] live_lease_index [of m p]
      by (simp add: returns_def lease_belongs_to_def)
  qed
  moreover have "\<exists>ks. mset ks = M \<and> distinct (map lease_index ks)"
  proof -
    obtain ls where ls: "mset ls = add_mset l M" "distinct (map lease_index ls)"
      using held by (auto simp: leases_held_def)
    obtain ks where ks: "mset ks = M" using ex_mset by blast
    then have "mset (l # ks) = mset ls" using ls(1) by simp
    then have "distinct (map lease_index (l # ks))" using distinct_indices_mset ls(2) by blast
    then show ?thesis using ks by auto
  qed
  ultimately show ?thesis using held g by (simp add: leases_held_def returns_def)
qed

lemma leases_held_reserved:
  assumes "leases_held p M" "pool_inv (p\<lparr>reserved_pages := n\<rparr>)"
  shows "leases_held (p\<lparr>reserved_pages := n\<rparr>) M"
  using assms by (simp add: leases_held_def lease_belongs_to_def)

lemma leases_held_new: "new_device_pool self backing l = Inr p \<Longrightarrow> leases_held p {#}"
  using new_device_pool_inv [of self backing l p]
  by (auto simp: leases_held_def new_device_pool_def Let_def split: if_splits)

text \<open>Destroying one lease of the owner.\<close>

lemma leases_held_destroy:
  assumes "leases_held p (add_mset l M)"
  shows "leases_held (fst (lease_release p l)) M" "pool_id (fst (lease_release p l)) = pool_id p"
    "pool_spec (fst (lease_release p l)) = pool_spec p"
    "reserved_pages (fst (lease_release p l)) = reserved_pages p"
    "\<not> valid_handle (fst (lease_release p l)) (lease_handle l)"
proof -
  have "lease_belongs_to l p" "valid_handle p (lease_handle l)" using leases_held_live [OF assms, of l] by auto
  note R = lease_release_live [OF leases_held_inv [OF assms] this]
  show "leases_held (fst (lease_release p l)) M" using leases_held_return [OF assms] R by simp
  show "pool_id (fst (lease_release p l)) = pool_id p" "pool_spec (fst (lease_release p l)) = pool_spec p"
    "reserved_pages (fst (lease_release p l)) = reserved_pages p"
    "\<not> valid_handle (fst (lease_release p l)) (lease_handle l)" using R by (simp_all add: returns_def)
qed

text \<open>The lists of places an owner keeps its leases in.\<close>

lemma sum_mset_update:
  assumes "i < length xs"
  shows "(\<Sum>x \<leftarrow> xs[i := y]. f x) + f (xs ! i) = (\<Sum>x \<leftarrow> xs. f x) + (f y :: 'b :: comm_monoid_add)"
proof -
  define A where "A = take i xs"
  define B where "B = drop (Suc i) xs"
  have "xs = A @ xs ! i # B" unfolding A_def B_def using assms by (rule id_take_nth_drop)
  then have "(\<Sum>x \<leftarrow> xs. f x) = (\<Sum>x \<leftarrow> A @ xs ! i # B. f x)" by (rule arg_cong)
  moreover have "xs[i := y] = A @ y # B" unfolding A_def B_def using assms by (rule upd_conv_take_nth_drop)
  ultimately show ?thesis by (simp add: ac_simps)
qed

lemma in_sum_mset: "x \<in># (\<Sum>y \<leftarrow> ys. f y) \<longleftrightarrow> (\<exists>y \<in> set ys. x \<in># f y)"
  by (induction ys) auto

lemma two_in_sum_mset:
  assumes "i < length xs" "j < length xs" "i \<noteq> j" "x \<in># f (xs ! i)" "y \<in># f (xs ! j)"
  shows "{#x, y#} \<subseteq># (\<Sum>z \<leftarrow> xs. f z)"
  using assms
proof (induction xs arbitrary: i j)
  case (Cons a xs)
  consider (ij) i' j' where "i = Suc i'" "j = Suc j'" | (i) i' where "i = Suc i'" "j = 0" | (j) j' where "i = 0" "j = Suc j'"
    using Cons.prems(3) by (cases i; cases j) auto
  then show ?case
  proof cases
    case ij
    then show ?thesis using Cons.IH [of i' j'] Cons.prems by (simp add: subset_mset.add_increasing)
  next
    case i
    then have "x \<in># (\<Sum>z \<leftarrow> xs. f z)" "y \<in># f a" using Cons.prems by (auto simp: in_sum_mset)
    then have "{#y#} + {#x#} \<subseteq># f a + (\<Sum>z \<leftarrow> xs. f z)" by (intro subset_mset.add_mono) auto
    moreover have "{#x, y#} = {#y#} + {#x#}" by simp
    ultimately show ?thesis by (metis list.simps(9) sum_list.Cons)
  next
    case j
    then have "y \<in># (\<Sum>z \<leftarrow> xs. f z)" "x \<in># f a" using Cons.prems by (auto simp: in_sum_mset)
    then have "{#x#} + {#y#} \<subseteq># f a + (\<Sum>z \<leftarrow> xs. f z)" by (intro subset_mset.add_mono) auto
    moreover have "{#x, y#} = {#x#} + {#y#}" by simp
    ultimately show ?thesis by (metis list.simps(9) sum_list.Cons)
  qed
qed simp

end
