(* ===== verification/Logical_Page_Store.thy ===== *)
theory Logical_Page_Store
  imports Lease_Accounting
begin

text \<open>
  The logical pages of the runtime (\<^verbatim>\<open>class LogicalKVPageStore\<close> in
  \<^verbatim>\<open>src/runtime/logical_kv_store.h\<close>): reference-counted descriptors that give a page of KV data
  one identity while its bytes live in a device page, in pinned host memory, or in both. The store
  holds a pointer to its device pool; as it is the only holder of that pool's page leases, the pool is
  a field of the store here. A method that throws does so before it changes anything, so it returns a
  result; a \<^verbatim>\<open>noexcept\<close> method whose callee throws ends in \<open>Terminate\<close>. The vector of free
  descriptors keeps its full length and a fill count, as in the source.
  Shown: every method keeps the invariant of the store: the free vector lists exactly the vacant
  descriptors; the device replicas held, pending ones included, are live leases of pairwise different
  physical pages and are all the pages the pool counts as allocated; the protected prefix of a page lies
  inside its committed columns, active references inside its references; and a host replica always
  belongs to the current content of its page and covers a prefix of it.
\<close>

section \<open>State\<close>

record HostKVExtentCapability =
  extent_owner :: "nat option"
  extent_index :: nat
  extent_generation :: u32

record HostKVPageReplica =
  replica_extent :: HostKVExtentCapability
  replica_offset :: nat
  replica_node :: nat
  replica_epoch :: u64
  replica_columns :: nat

record LogicalKVPageHandle =
  logical_owner :: "nat option"
  logical_index :: nat
  logical_generation :: u32

record LogicalPage =
  page_gen :: u32
  content_epoch :: u64
  committed_columns :: nat
  references :: nat
  active_references :: nat
  protected_columns :: nat
  source_pins :: nat
  writer_references :: nat
  destination_pinned :: bool
  page_occupied :: bool
  device_replica :: "DeviceKVPageLease option"
  pending_device_replica :: "DeviceKVPageLease option"
  host_replica :: "HostKVPageReplica option"

record LogicalKVPageStore =
  store_id :: nat
  physical_pool :: DeviceKVPagePool
  store_pages :: "LogicalPage list"
  free_slots :: "nat list"
  scratch_capacity :: nat
  free_count :: nat

definition vacant_page :: LogicalPage where
  "vacant_page = \<lparr>page_gen = 1, content_epoch = 0, committed_columns = 0, references = 0, active_references = 0,
     protected_columns = 0, source_pins = 0, writer_references = 0, destination_pinned = False,
     page_occupied = False, device_replica = None, pending_device_replica = None, host_replica = None\<rparr>"

definition null_logical :: LogicalKVPageHandle where
  "null_logical = \<lparr>logical_owner = None, logical_index = 0, logical_generation = 0\<rparr>"

definition page_size :: nat where
  "page_size = nat kPagedKVPageSize"

section \<open>Construction and queries\<close>

definition new_logical_store :: "nat \<Rightarrow> DeviceKVPagePool \<Rightarrow> nat \<Rightarrow> LogicalKVPageStore res" where
  "new_logical_store self pool logical_capacity =
     (if logical_capacity = 0 \<or> logical_capacity < capacity_pages pool then Inl InvalidArgument
      else Inr \<lparr>store_id = self, physical_pool = pool, store_pages = replicate logical_capacity vacant_page,
                free_slots = map (\<lambda>index. logical_capacity - 1 - index) [0..<logical_capacity],
                scratch_capacity = capacity_pages pool, free_count = logical_capacity\<rparr>)"

definition store_capacity :: "LogicalKVPageStore \<Rightarrow> nat" where
  "store_capacity s = length (store_pages s)"

definition store_occupied :: "LogicalKVPageStore \<Rightarrow> nat" where
  "store_occupied s = u32_sub (store_capacity s) (free_count s)"

definition valid_page :: "LogicalKVPageStore \<Rightarrow> LogicalKVPageHandle \<Rightarrow> bool" where
  "valid_page s h \<longleftrightarrow>
     logical_owner h = Some (store_id s) \<and> logical_index h < length (store_pages s) \<and>
     page_occupied (store_pages s ! logical_index h) \<and>
     page_gen (store_pages s ! logical_index h) = logical_generation h"

definition page_at :: "LogicalKVPageStore \<Rightarrow> LogicalKVPageHandle \<Rightarrow> LogicalPage" where
  "page_at s h = store_pages s ! logical_index h"

definition require_page :: "LogicalKVPageStore \<Rightarrow> LogicalKVPageHandle \<Rightarrow> LogicalPage res" where
  "require_page s h = (if \<not> valid_page s h then Inl InvalidArgument else Inr (page_at s h))"

definition descriptor_index :: "LogicalKVPageStore \<Rightarrow> LogicalKVPageHandle \<Rightarrow> nat res" where
  "descriptor_index s h = res_bind (require_page s h) (\<lambda>_. Inr (logical_index h))"

definition physical :: "LogicalKVPageStore \<Rightarrow> LogicalKVPageHandle \<Rightarrow> DeviceKVPageHandle res" where
  "physical s h =
     res_bind (require_page s h) (\<lambda>pg.
       case device_replica pg of None \<Rightarrow> Inl LogicError | Some l \<Rightarrow> Inr (lease_handle l))"

definition device_resident :: "LogicalKVPageStore \<Rightarrow> LogicalKVPageHandle \<Rightarrow> bool res" where
  "device_resident s h = res_bind (require_page s h) (\<lambda>pg. Inr (device_replica pg \<noteq> None))"

definition host_resident :: "LogicalKVPageStore \<Rightarrow> LogicalKVPageHandle \<Rightarrow> bool res" where
  "host_resident s h = res_bind (require_page s h) (\<lambda>pg. Inr (host_replica pg \<noteq> None))"

definition host_replica_of :: "LogicalKVPageStore \<Rightarrow> LogicalKVPageHandle \<Rightarrow> HostKVPageReplica res" where
  "host_replica_of s h =
     res_bind (require_page s h) (\<lambda>pg. case host_replica pg of None \<Rightarrow> Inl LogicError | Some x \<Rightarrow> Inr x)"

text \<open>The accessors that return one counter of a live page.\<close>

definition page_field :: "(LogicalPage \<Rightarrow> 'a) \<Rightarrow> LogicalKVPageStore \<Rightarrow> LogicalKVPageHandle \<Rightarrow> 'a res" where
  "page_field f s h = res_bind (require_page s h) (\<lambda>pg. Inr (f pg))"

definition can_pin_source :: "LogicalKVPageStore \<Rightarrow> LogicalKVPageHandle \<Rightarrow> bool" where
  "can_pin_source s h \<longleftrightarrow>
     (if \<not> valid_page s h then False
      else let pg = page_at s h in
        device_replica pg \<noteq> None \<and> writer_references pg = 0 \<and> \<not> destination_pinned pg \<and> source_pins pg \<noteq> u32_max)"

definition can_pin_active_source :: "LogicalKVPageStore \<Rightarrow> LogicalKVPageHandle \<Rightarrow> bool" where
  "can_pin_active_source s h \<longleftrightarrow>
     (if \<not> valid_page s h then False
      else let pg = page_at s h in
        device_replica pg \<noteq> None \<and> writer_references pg = 1 \<and> references pg = 1 \<and> \<not> destination_pinned pg
        \<and> source_pins pg \<noteq> u32_max)"

definition replica_current :: "LogicalPage \<Rightarrow> bool" where
  "replica_current pg \<longleftrightarrow>
     (case host_replica pg of
        None \<Rightarrow> False
      | Some x \<Rightarrow> replica_epoch x = content_epoch pg \<and> replica_columns x = committed_columns pg)"

definition host_replica_current :: "LogicalKVPageStore \<Rightarrow> LogicalKVPageHandle \<Rightarrow> bool" where
  "host_replica_current s h \<longleftrightarrow> (if \<not> valid_page s h then False else replica_current (page_at s h))"

definition can_drop_device_replica :: "LogicalKVPageStore \<Rightarrow> LogicalKVPageHandle \<Rightarrow> bool" where
  "can_drop_device_replica s h \<longleftrightarrow>
     (if \<not> valid_page s h then False
      else let pg = page_at s h in
        device_replica pg \<noteq> None \<and> host_replica_current s h \<and> pending_device_replica pg = None
        \<and> writer_references pg = 0 \<and> active_references pg = 0 \<and> source_pins pg = 0 \<and> \<not> destination_pinned pg)"

definition can_retain_reference :: "LogicalKVPageStore \<Rightarrow> LogicalKVPageHandle \<Rightarrow> bool \<Rightarrow> bool" where
  "can_retain_reference s h writer \<longleftrightarrow>
     (if \<not> valid_page s h then False
      else let pg = page_at s h in
        references pg \<noteq> u32_max \<and> (\<not> writer \<or> writer_references pg = 0 \<and> references pg = 0)
        \<and> \<not> destination_pinned pg)"

definition can_set_writer :: "LogicalKVPageStore \<Rightarrow> LogicalKVPageHandle \<Rightarrow> bool \<Rightarrow> bool" where
  "can_set_writer s h writer \<longleftrightarrow>
     (if \<not> valid_page s h then False
      else let pg = page_at s h in
        if writer then writer_references pg = 0 \<and> references pg = 1 \<and> source_pins pg = 0 \<and> device_replica pg \<noteq> None
        else writer_references pg = 1)"

definition can_destructive_truncate :: "LogicalKVPageStore \<Rightarrow> LogicalKVPageHandle \<Rightarrow> nat \<Rightarrow> bool" where
  "can_destructive_truncate s h columns \<longleftrightarrow>
     (if \<not> valid_page s h then False
      else let pg = page_at s h in
        columns \<le> committed_columns pg \<and> columns \<ge> protected_columns pg \<and> references pg = 1
        \<and> writer_references pg = 1 \<and> source_pins pg = 0 \<and> \<not> destination_pinned pg \<and> host_replica pg = None
        \<and> device_replica pg \<noteq> None)"

definition can_destructive_truncate_inactive :: "LogicalKVPageStore \<Rightarrow> LogicalKVPageHandle \<Rightarrow> nat \<Rightarrow> bool" where
  "can_destructive_truncate_inactive s h columns \<longleftrightarrow>
     (if \<not> valid_page s h then False
      else let pg = page_at s h in
        columns \<le> committed_columns pg \<and> references pg = 1 \<and> writer_references pg = 0 \<and> source_pins pg = 0
        \<and> \<not> destination_pinned pg \<and> host_replica pg = None \<and> device_replica pg \<noteq> None)"

definition can_destructive_truncate_inactive_after_host_release ::
  "LogicalKVPageStore \<Rightarrow> LogicalKVPageHandle \<Rightarrow> nat \<Rightarrow> bool" where
  "can_destructive_truncate_inactive_after_host_release s h columns \<longleftrightarrow>
     (if \<not> valid_page s h then False
      else let pg = page_at s h in
        columns \<le> committed_columns pg \<and> references pg = 1 \<and> writer_references pg = 0 \<and> source_pins pg = 0
        \<and> \<not> destination_pinned pg \<and> device_replica pg \<noteq> None)"

definition can_dematerialize :: "LogicalKVPageStore \<Rightarrow> LogicalKVPageHandle \<Rightarrow> bool" where
  "can_dematerialize s h \<longleftrightarrow>
     (if \<not> valid_page s h then False
      else let pg = page_at s h in
        references pg = 1 \<and> writer_references pg = 1 \<and> source_pins pg = 0 \<and> \<not> destination_pinned pg
        \<and> host_replica pg = None \<and> device_replica pg \<noteq> None)"

definition can_release_reference :: "LogicalKVPageStore \<Rightarrow> LogicalKVPageHandle \<Rightarrow> bool \<Rightarrow> bool" where
  "can_release_reference s h writer \<longleftrightarrow>
     (if \<not> valid_page s h then False
      else let pg = page_at s h in
        if references pg = 0 \<or> (writer \<and> writer_references pg \<noteq> 1) \<or> active_references pg \<ge> references pg
           \<or> source_pins pg \<noteq> 0 \<or> destination_pinned pg then False
        else True)"

definition can_release_reference_after_active_reference :: "LogicalKVPageStore \<Rightarrow> LogicalKVPageHandle \<Rightarrow> bool" where
  "can_release_reference_after_active_reference s h \<longleftrightarrow>
     (if \<not> valid_page s h then False
      else let pg = page_at s h in
        references pg \<noteq> 0 \<and> active_references pg \<noteq> 0 \<and> active_references pg \<le> references pg
        \<and> writer_references pg \<le> 1 \<and> source_pins pg = 0 \<and> \<not> destination_pinned pg)"

definition can_attach_host_replica :: "LogicalKVPageStore \<Rightarrow> LogicalKVPageHandle \<Rightarrow> u64 \<Rightarrow> nat \<Rightarrow> bool" where
  "can_attach_host_replica s h epoch coverage \<longleftrightarrow>
     (if \<not> valid_page s h then False
      else let pg = page_at s h in
        host_replica pg = None \<and> epoch = content_epoch pg \<and> coverage = committed_columns pg)"

section \<open>Descriptors\<close>

definition next_epoch :: "u64 \<Rightarrow> u64" where
  "next_epoch e = (let e' = e + 1 in if e' = 0 then 1 else e')"

definition put_page :: "LogicalKVPageStore \<Rightarrow> nat \<Rightarrow> LogicalPage \<Rightarrow> LogicalKVPageStore" where
  "put_page s i pg = s\<lparr>store_pages := (store_pages s)[i := pg]\<rparr>"

text \<open>\<^verbatim>\<open>reset()\<close> of an optional lease: the lease, when there is one, is destroyed.\<close>

definition drop_lease :: "DeviceKVPagePool \<Rightarrow> DeviceKVPageLease option \<Rightarrow> DeviceKVPagePool" where
  "drop_lease p x = (case x of None \<Rightarrow> p | Some l \<Rightarrow> fst (lease_release p l))"

definition no_throw :: "'a res \<Rightarrow> 'a res" where
  "no_throw m = (case m of Inl e \<Rightarrow> Inl (if e = Undefined then Undefined else Terminate) | Inr x \<Rightarrow> Inr x)"

definition release_page_descriptor :: "LogicalKVPageStore \<Rightarrow> nat \<Rightarrow> LogicalKVPageStore res" where
  "release_page_descriptor s i =
     (let pg = store_pages s ! i in
      if active_references pg \<noteq> 0 then Inl Terminate
      else if free_count s \<ge> length (free_slots s) then Inl Undefined
      else Inr (s\<lparr>physical_pool := drop_lease (physical_pool s) (pending_device_replica pg),
                  store_pages := (store_pages s)[i := pg\<lparr>committed_columns := 0, references := 0,
                    active_references := 0, protected_columns := 0, source_pins := 0, writer_references := 0,
                    destination_pinned := False, page_occupied := False, pending_device_replica := None,
                    host_replica := None, page_gen := increment_generation (page_gen pg)\<rparr>],
                  free_slots := (free_slots s)[free_count s := i], free_count := free_count s + 1\<rparr>))"

section \<open>Materialisation\<close>

definition fresh_page :: "DeviceKVPageLease \<Rightarrow> LogicalPage \<Rightarrow> LogicalPage" where
  "fresh_page l pg = pg\<lparr>device_replica := Some l, content_epoch := next_epoch (content_epoch pg),
     committed_columns := 0, references := 1, active_references := 0, writer_references := 1,
     protected_columns := 0, page_occupied := True\<rparr>"

definition transfer_page :: "DeviceKVPageLease \<Rightarrow> nat \<Rightarrow> LogicalPage \<Rightarrow> LogicalPage" where
  "transfer_page l columns pg = pg\<lparr>device_replica := Some l, content_epoch := next_epoch (content_epoch pg),
     committed_columns := columns, references := 0, active_references := 0, writer_references := 0,
     protected_columns := 0, destination_pinned := True, page_occupied := True\<rparr>"

text \<open>A page gets a device replica: \<^verbatim>\<open>emplace\<close> destroys the lease the optional holds, if any.\<close>

definition install_page :: "LogicalKVPageStore \<Rightarrow> nat \<Rightarrow> LogicalPage \<Rightarrow> LogicalKVPageStore \<times> LogicalKVPageHandle" where
  "install_page s i pg =
     (let old = store_pages s ! i in
      (put_page (s\<lparr>physical_pool := drop_lease (physical_pool s) (device_replica old)\<rparr>) i pg,
       \<lparr>logical_owner = Some (store_id s), logical_index = i, logical_generation = page_gen pg\<rparr>))"

definition materialize_logical ::
  "LogicalKVPageStore \<Rightarrow> DeviceKVPageReservation
   \<Rightarrow> (LogicalKVPageStore \<times> DeviceKVPageReservation \<times> LogicalKVPageHandle) res" where
  "materialize_logical s r =
     (if free_count s = 0 then Inl LogicError
      else res_bind (materialize_one (physical_pool s) r) (\<lambda>(p, r', l).
        let n = free_count s - 1; index = free_slots s ! n;
            (s', h) = install_page (s\<lparr>physical_pool := p, free_count := n\<rparr>) index
                        (fresh_page l (store_pages s ! index))
        in Inr (s', r', h)))"

fun install_fresh ::
  "LogicalKVPageStore \<Rightarrow> nat list \<Rightarrow> DeviceKVPageLease list \<Rightarrow> (LogicalKVPageStore \<times> LogicalKVPageHandle list) res"
where
  "install_fresh s [] ls = Inr (s, [])"
| "install_fresh s (i # is) [] = Inl Undefined"
| "install_fresh s (i # is) (l # ls) =
     (let (s', h) = install_page s i (fresh_page l (store_pages s ! i)) in
      res_bind (install_fresh s' is ls) (\<lambda>(s'', hs). Inr (s'', h # hs)))"

definition batch_slots :: "LogicalKVPageStore \<Rightarrow> nat \<Rightarrow> nat list" where
  "batch_slots s n = map (\<lambda>offset. free_slots s ! (free_count s - 1 - offset)) [0..<n]"

definition materialize_batch ::
  "LogicalKVPageStore \<Rightarrow> DeviceKVPageReservation \<Rightarrow> LogicalKVPageHandle list \<Rightarrow> LogicalKVPageHandle option
   \<Rightarrow> (LogicalKVPageStore \<times> DeviceKVPageReservation \<times> LogicalKVPageHandle list) res" where
  "materialize_batch s r destinations preferred_predecessor =
     (let n = length destinations;
          slots = batch_slots s n in
      if destinations = [] then Inr (s, r, destinations)
      else if n > free_count s \<or> n > scratch_capacity s then Inl LogicError
      else if list_ex (\<lambda>d. logical_owner d \<noteq> None) destinations then Inl LogicError
      else if list_ex (\<lambda>index. page_occupied (store_pages s ! index)) slots then Inl LogicError
      else res_bind (case preferred_predecessor of
                       None \<Rightarrow> Inr None
                     | Some h \<Rightarrow> res_bind (physical s h) (\<lambda>ph. Inr (Some ph))) (\<lambda>physical_predecessor.
        res_bind (materialize (physical_pool s) r n (scratch_capacity s) [] physical_predecessor) (\<lambda>(p, r', ls).
          res_bind (install_fresh (s\<lparr>physical_pool := p\<rparr>) slots ls) (\<lambda>(s', hs).
            Inr (s'\<lparr>free_count := u32_sub (free_count s') n\<rparr>, r', hs)))))"

definition materialize_transfer_destination ::
  "LogicalKVPageStore \<Rightarrow> DeviceKVPageReservation \<Rightarrow> nat
   \<Rightarrow> (LogicalKVPageStore \<times> DeviceKVPageReservation \<times> LogicalKVPageHandle) res" where
  "materialize_transfer_destination s r columns =
     (if columns = 0 \<or> columns > page_size \<or> free_count s = 0 then Inl InvalidArgument
      else res_bind (materialize_one (physical_pool s) r) (\<lambda>(p, r', l).
        let n = free_count s - 1; index = free_slots s ! n;
            (s', h) = install_page (s\<lparr>physical_pool := p, free_count := n\<rparr>) index
                        (transfer_page l columns (store_pages s ! index))
        in Inr (s', r', h)))"

definition unpublished_transfer :: "LogicalPage \<Rightarrow> bool" where
  "unpublished_transfer pg \<longleftrightarrow>
     \<not> (device_replica pg = None \<or> pending_device_replica pg \<noteq> None \<or> host_replica pg \<noteq> None \<or>
        \<not> destination_pinned pg \<or> references pg \<noteq> 0 \<or> writer_references pg \<noteq> 0 \<or> source_pins pg \<noteq> 0)"

definition publish_transfer_destination ::
  "LogicalKVPageStore \<Rightarrow> LogicalKVPageHandle \<Rightarrow> bool \<Rightarrow> LogicalKVPageStore res" where
  "publish_transfer_destination s h writer =
     (if \<not> valid_page s h then Inl Terminate
      else let pg = page_at s h in
        if \<not> unpublished_transfer pg then Inl Terminate
        else Inr (put_page s (logical_index h)
               (pg\<lparr>references := 1, writer_references := (if writer then 1 else 0), destination_pinned := False\<rparr>)))"

text \<open>Giving a page back to the pool on behalf of a reservation, then its descriptor. When the
  descriptor cannot be released the process has ended.\<close>

definition give_back_page ::
  "LogicalKVPageStore \<Rightarrow> LogicalKVPageHandle \<Rightarrow> DeviceKVPageReservation \<Rightarrow> DeviceKVPageLease
   \<Rightarrow> (LogicalKVPageStore \<times> DeviceKVPageReservation) res" where
  "give_back_page s h r l =
     res_bind (dematerialize_one (physical_pool s) r l) (\<lambda>(p, r', l').
       res_bind (release_page_descriptor
                   (put_page (s\<lparr>physical_pool := p\<rparr>) (logical_index h) ((page_at s h)\<lparr>device_replica := None\<rparr>))
                   (logical_index h)) (\<lambda>s'.
         Inr (s', r')))"

definition abort_transfer_destination ::
  "LogicalKVPageStore \<Rightarrow> LogicalKVPageHandle \<Rightarrow> DeviceKVPageReservation
   \<Rightarrow> (LogicalKVPageStore \<times> DeviceKVPageReservation) res" where
  "abort_transfer_destination s h r =
     (if \<not> valid_page s h then Inr (s, r)
      else let pg = page_at s h in
        if \<not> unpublished_transfer pg then Inr (s, r)
        else no_throw (give_back_page s h r (the (device_replica pg))))"

section \<open>Device replicas\<close>

definition reserve_device_replica ::
  "LogicalKVPageStore \<Rightarrow> LogicalKVPageHandle \<Rightarrow> DeviceKVPageReservation
   \<Rightarrow> (LogicalKVPageStore \<times> DeviceKVPageReservation \<times> DeviceKVPageHandle) res" where
  "reserve_device_replica s h r =
     res_bind (require_page s h) (\<lambda>pg.
       if device_replica pg \<noteq> None \<or> pending_device_replica pg \<noteq> None \<or> host_replica pg = None
          \<or> destination_pinned pg \<or> source_pins pg \<noteq> 0 \<or> \<not> replica_current pg then Inl LogicError
       else res_bind (materialize_one (physical_pool s) r) (\<lambda>(p, r', l).
         Inr (put_page (s\<lparr>physical_pool := p\<rparr>) (logical_index h)
                (pg\<lparr>pending_device_replica := Some l, destination_pinned := True\<rparr>),
              r', lease_handle l)))"

definition publish_device_replica :: "LogicalKVPageStore \<Rightarrow> LogicalKVPageHandle \<Rightarrow> LogicalKVPageStore res" where
  "publish_device_replica s h =
     res_bind (require_page s h) (\<lambda>pg.
       if device_replica pg \<noteq> None \<or> pending_device_replica pg = None \<or> \<not> destination_pinned pg
          \<or> host_replica pg = None \<or> \<not> replica_current pg then Inl LogicError
       else Inr (put_page s (logical_index h)
              (pg\<lparr>device_replica := pending_device_replica pg, pending_device_replica := None,
                  destination_pinned := False\<rparr>)))"

definition abort_device_replica ::
  "LogicalKVPageStore \<Rightarrow> LogicalKVPageHandle \<Rightarrow> DeviceKVPageReservation
   \<Rightarrow> (LogicalKVPageStore \<times> DeviceKVPageReservation) res" where
  "abort_device_replica s h r =
     (if \<not> valid_page s h then Inr (s, r)
      else let pg = page_at s h in
        case pending_device_replica pg of
          None \<Rightarrow> Inr (s, r)
        | Some l \<Rightarrow>
            if \<not> destination_pinned pg then Inr (s, r)
            else no_throw (res_bind (dematerialize_one (physical_pool s) r l) (\<lambda>(p, r', l').
              Inr (put_page (s\<lparr>physical_pool := p\<rparr>) (logical_index h)
                     (pg\<lparr>pending_device_replica := None, destination_pinned := False\<rparr>), r'))))"

definition drop_device_replica :: "LogicalKVPageStore \<Rightarrow> LogicalKVPageHandle \<Rightarrow> LogicalKVPageStore \<times> bool" where
  "drop_device_replica s h =
     (if \<not> can_drop_device_replica s h then (s, False)
      else let pg = page_at s h in
        (put_page (s\<lparr>physical_pool := drop_lease (physical_pool s) (device_replica pg)\<rparr>) (logical_index h)
           (pg\<lparr>device_replica := None\<rparr>), True))"

section \<open>References, protection and pins\<close>

text \<open>The methods that change counters of one live page: a guard with the exception it throws, and the
  change.\<close>

definition change_page ::
  "LogicalKVPageStore \<Rightarrow> LogicalKVPageHandle \<Rightarrow> (LogicalPage \<Rightarrow> exn option) \<Rightarrow> (LogicalPage \<Rightarrow> LogicalPage)
   \<Rightarrow> LogicalKVPageStore res" where
  "change_page s h guard f =
     res_bind (require_page s h) (\<lambda>pg.
       case guard pg of
         Some e \<Rightarrow> Inl e
       | None \<Rightarrow> Inr (put_page s (logical_index h) (f pg)))"

definition retain_active_reference :: "LogicalKVPageStore \<Rightarrow> LogicalKVPageHandle \<Rightarrow> LogicalKVPageStore res" where
  "retain_active_reference s h = change_page s h
     (\<lambda>pg. if active_references pg = u32_max \<or> active_references pg \<ge> references pg then Some LogicError else None)
     (\<lambda>pg. pg\<lparr>active_references := active_references pg + 1\<rparr>)"

definition release_active_reference :: "LogicalKVPageStore \<Rightarrow> LogicalKVPageHandle \<Rightarrow> LogicalKVPageStore res" where
  "release_active_reference s h = change_page s h
     (\<lambda>pg. if active_references pg = 0 then Some LogicError else None)
     (\<lambda>pg. pg\<lparr>active_references := active_references pg - 1\<rparr>)"

definition retain_reference :: "LogicalKVPageStore \<Rightarrow> LogicalKVPageHandle \<Rightarrow> bool \<Rightarrow> LogicalKVPageStore res" where
  "retain_reference s h writer = change_page s h
     (\<lambda>pg. if references pg = u32_max \<or> (writer \<and> writer_references pg \<noteq> 0) then Some LogicError else None)
     (\<lambda>pg. let pg' = pg\<lparr>references := references pg + 1\<rparr> in if writer then pg'\<lparr>writer_references := 1\<rparr> else pg')"

definition set_writer :: "LogicalKVPageStore \<Rightarrow> LogicalKVPageHandle \<Rightarrow> bool \<Rightarrow> LogicalKVPageStore res" where
  "set_writer s h writer = change_page s h
     (\<lambda>pg. if writer \<and> writer_references pg \<noteq> 0 then Some LogicError else None)
     (\<lambda>pg. pg\<lparr>writer_references := (if writer then 1 else 0)\<rparr>)"

definition protect_coverage :: "LogicalKVPageStore \<Rightarrow> LogicalKVPageHandle \<Rightarrow> nat \<Rightarrow> LogicalKVPageStore res" where
  "protect_coverage s h columns = change_page s h
     (\<lambda>pg. if columns > committed_columns pg then Some InvalidArgument else None)
     (\<lambda>pg. pg\<lparr>protected_columns := max (protected_columns pg) columns\<rparr>)"

definition set_protected_coverage :: "LogicalKVPageStore \<Rightarrow> LogicalKVPageHandle \<Rightarrow> nat \<Rightarrow> LogicalKVPageStore res" where
  "set_protected_coverage s h columns = change_page s h
     (\<lambda>pg. if columns > committed_columns pg then Some InvalidArgument else None)
     (\<lambda>pg. pg\<lparr>protected_columns := columns\<rparr>)"

definition clear_protection :: "LogicalKVPageStore \<Rightarrow> LogicalKVPageHandle \<Rightarrow> LogicalKVPageStore res" where
  "clear_protection s h = change_page s h
     (\<lambda>pg. if references pg \<noteq> 1 \<or> source_pins pg \<noteq> 0 then Some LogicError else None)
     (\<lambda>pg. pg\<lparr>protected_columns := 0\<rparr>)"

definition pin_source :: "LogicalKVPageStore \<Rightarrow> LogicalKVPageHandle \<Rightarrow> LogicalKVPageStore res" where
  "pin_source s h = change_page s h
     (\<lambda>pg. if source_pins pg = u32_max then Some OverflowError else None)
     (\<lambda>pg. pg\<lparr>source_pins := source_pins pg + 1\<rparr>)"

definition unpin_source :: "LogicalKVPageStore \<Rightarrow> LogicalKVPageHandle \<Rightarrow> LogicalKVPageStore res" where
  "unpin_source s h = change_page s h
     (\<lambda>pg. if source_pins pg = 0 then Some LogicError else None)
     (\<lambda>pg. pg\<lparr>source_pins := source_pins pg - 1\<rparr>)"

definition commit_coverage :: "LogicalKVPageStore \<Rightarrow> LogicalKVPageHandle \<Rightarrow> nat \<Rightarrow> LogicalKVPageStore res" where
  "commit_coverage s h columns = change_page s h
     (\<lambda>pg. if device_replica pg = None \<or> writer_references pg \<noteq> 1 \<or> columns < committed_columns pg
             \<or> columns > page_size then Some InvalidArgument else None)
     (\<lambda>pg. pg\<lparr>committed_columns := columns\<rparr>)"

definition cut_columns :: "nat \<Rightarrow> LogicalPage \<Rightarrow> LogicalPage" where
  "cut_columns columns pg =
     (if columns \<noteq> committed_columns pg
      then pg\<lparr>committed_columns := columns, content_epoch := next_epoch (content_epoch pg)\<rparr> else pg)"

definition destructive_truncate :: "LogicalKVPageStore \<Rightarrow> LogicalKVPageHandle \<Rightarrow> nat \<Rightarrow> LogicalKVPageStore res" where
  "destructive_truncate s h columns = change_page s h
     (\<lambda>pg. if columns > committed_columns pg \<or> columns < protected_columns pg \<or> references pg \<noteq> 1
             \<or> writer_references pg \<noteq> 1 \<or> source_pins pg \<noteq> 0 \<or> destination_pinned pg \<or> host_replica pg \<noteq> None
           then Some InvalidArgument else None)
     (cut_columns columns)"

definition destructive_truncate_inactive ::
  "LogicalKVPageStore \<Rightarrow> LogicalKVPageHandle \<Rightarrow> nat \<Rightarrow> LogicalKVPageStore res" where
  "destructive_truncate_inactive s h columns = change_page s h
     (\<lambda>pg. if \<not> can_destructive_truncate_inactive s h columns then Some LogicError else None)
     (\<lambda>pg. let pg' = cut_columns columns pg in pg'\<lparr>protected_columns := min (protected_columns pg') columns\<rparr>)"

definition dropped_reference :: "bool \<Rightarrow> LogicalPage \<Rightarrow> LogicalPage" where
  "dropped_reference writer pg = (if writer then pg\<lparr>writer_references := 0\<rparr> else pg)\<lparr>references := references pg - 1\<rparr>"

definition release_reference ::
  "LogicalKVPageStore \<Rightarrow> LogicalKVPageHandle \<Rightarrow> bool \<Rightarrow> (LogicalKVPageStore \<times> bool) res" where
  "release_reference s h writer =
     (if \<not> can_release_reference s h writer then Inr (s, False)
      else let pg = page_at s h;
               pg' = dropped_reference writer pg in
        if references pg' \<noteq> 0 then Inr (put_page s (logical_index h) pg', True)
        else let s' = put_page (s\<lparr>physical_pool := drop_lease (physical_pool s) (device_replica pg)\<rparr>)
                        (logical_index h) (pg'\<lparr>device_replica := None\<rparr>) in
          if host_replica pg = None
            then res_bind (release_page_descriptor s' (logical_index h)) (\<lambda>s''. Inr (s'', True))
          else Inr (s', True))"

definition release_logical :: "LogicalKVPageStore \<Rightarrow> LogicalKVPageHandle \<Rightarrow> (LogicalKVPageStore \<times> bool) res" where
  "release_logical s h =
     (if \<not> valid_page s h then Inr (s, False)
      else release_reference s h (writer_references (page_at s h) \<noteq> 0))"

definition dematerialize_logical ::
  "LogicalKVPageStore \<Rightarrow> LogicalKVPageHandle \<Rightarrow> DeviceKVPageReservation
   \<Rightarrow> (LogicalKVPageStore \<times> DeviceKVPageReservation) res" where
  "dematerialize_logical s h r =
     res_bind (require_page s h) (\<lambda>pg.
       if references pg \<noteq> 1 \<or> writer_references pg \<noteq> 1 \<or> source_pins pg \<noteq> 0 \<or> destination_pinned pg
          \<or> host_replica pg \<noteq> None \<or> device_replica pg = None then Inl LogicError
       else give_back_page s h r (the (device_replica pg)))"

section \<open>Host replicas\<close>

definition attach_host_replica ::
  "LogicalKVPageStore \<Rightarrow> LogicalKVPageHandle \<Rightarrow> HostKVPageReplica \<Rightarrow> LogicalKVPageStore res" where
  "attach_host_replica s h x = change_page s h
     (\<lambda>pg. if extent_owner (replica_extent x) = None \<or> replica_node x = u32_max
             \<or> \<not> can_attach_host_replica s h (replica_epoch x) (replica_columns x) then Some LogicError else None)
     (\<lambda>pg. pg\<lparr>host_replica := Some x\<rparr>)"

definition rebind_host_replica ::
  "LogicalKVPageStore \<Rightarrow> LogicalKVPageHandle \<Rightarrow> HostKVPageReplica \<Rightarrow> HostKVPageReplica \<Rightarrow> LogicalKVPageStore res" where
  "rebind_host_replica s h expected replacement =
     (if \<not> valid_page s h then Inl Terminate
      else let pg = page_at s h in
        if host_replica pg \<noteq> Some expected \<or> replica_epoch expected \<noteq> content_epoch pg
           \<or> extent_owner (replica_extent replacement) = None \<or> replica_node replacement \<noteq> replica_node expected
           \<or> replica_epoch replacement \<noteq> replica_epoch expected \<or> replica_columns replacement \<noteq> replica_columns expected
          then Inl Terminate
        else Inr (put_page s (logical_index h) (pg\<lparr>host_replica := Some replacement\<rparr>)))"

definition detach_host_replica ::
  "LogicalKVPageStore \<Rightarrow> LogicalKVPageHandle \<Rightarrow> HostKVExtentCapability \<Rightarrow> (LogicalKVPageStore \<times> bool) res" where
  "detach_host_replica s h ext =
     (if \<not> valid_page s h then Inr (s, False)
      else let pg = page_at s h in
        case host_replica pg of
          None \<Rightarrow> Inr (s, False)
        | Some x \<Rightarrow>
            if replica_extent x \<noteq> ext \<or> (device_replica pg = None \<and> references pg \<noteq> 0) then Inr (s, False)
            else let s' = put_page s (logical_index h) (pg\<lparr>host_replica := None\<rparr>) in
              if references pg = 0 \<and> source_pins pg = 0 \<and> device_replica pg = None
                then res_bind (release_page_descriptor s' (logical_index h)) (\<lambda>s''. Inr (s'', True))
              else Inr (s', True))"

section \<open>Invariant\<close>

definition page_leases :: "LogicalPage \<Rightarrow> DeviceKVPageLease multiset" where
  "page_leases pg = mset_set (set_option (device_replica pg)) + mset_set (set_option (pending_device_replica pg))"

definition store_leases :: "LogicalKVPageStore \<Rightarrow> DeviceKVPageLease multiset" where
  "store_leases s = (\<Sum>pg \<leftarrow> store_pages s. page_leases pg)"

definition page_ok :: "LogicalPage \<Rightarrow> bool" where
  "page_ok pg \<longleftrightarrow> page_gen pg \<noteq> 0 \<and>
     (if page_occupied pg
      then protected_columns pg \<le> committed_columns pg \<and> committed_columns pg \<le> page_size \<and>
           active_references pg \<le> references pg \<and> references pg \<le> u32_max \<and> source_pins pg \<le> u32_max \<and>
           writer_references pg \<le> 1 \<and>
           (pending_device_replica pg \<noteq> None \<longrightarrow> destination_pinned pg \<and> device_replica pg = None) \<and>
           (\<forall>x. host_replica pg = Some x \<longrightarrow>
              replica_epoch x = content_epoch pg \<and> replica_columns x \<le> committed_columns pg)
      else \<not> destination_pinned pg \<and> device_replica pg = None \<and> pending_device_replica pg = None \<and>
           host_replica pg = None \<and> references pg = 0 \<and> active_references pg = 0 \<and> source_pins pg = 0 \<and>
           writer_references pg = 0)"

definition vacant :: "LogicalKVPageStore \<Rightarrow> nat set" where
  "vacant s = {i. i < length (store_pages s) \<and> \<not> page_occupied (store_pages s ! i)}"

definition slots_ok :: "LogicalKVPageStore \<Rightarrow> bool" where
  "slots_ok s \<longleftrightarrow>
     length (free_slots s) = length (store_pages s) \<and> length (store_pages s) \<le> u32_max \<and>
     free_count s \<le> length (store_pages s) \<and> distinct (take (free_count s) (free_slots s)) \<and>
     set (take (free_count s) (free_slots s)) = vacant s"

text \<open>The invariant of a store, with leases \<open>M\<close> in the hands of a running method.\<close>

definition store_inv_with :: "DeviceKVPageLease multiset \<Rightarrow> LogicalKVPageStore \<Rightarrow> bool" where
  "store_inv_with M s \<longleftrightarrow>
     slots_ok s \<and> (\<forall>pg \<in> set (store_pages s). page_ok pg) \<and> leases_held (physical_pool s) (store_leases s + M) \<and>
     scratch_capacity s = capacity_pages (physical_pool s) \<and> capacity_pages (physical_pool s) \<le> length (store_pages s)"

abbreviation store_inv :: "LogicalKVPageStore \<Rightarrow> bool" where
  "store_inv \<equiv> store_inv_with {#}"

text \<open>What a method does to its surroundings: the store keeps its identity and its invariant, and only
  the reservation it was given changes the reserved count of the pool.\<close>

definition store_step ::
  "LogicalKVPageStore \<Rightarrow> DeviceKVPageReservation \<Rightarrow> LogicalKVPageStore \<Rightarrow> DeviceKVPageReservation \<Rightarrow> bool" where
  "store_step s r s' r' \<longleftrightarrow>
     store_inv s' \<and> store_id s' = store_id s \<and> length (store_pages s') = length (store_pages s) \<and>
     pool_id (physical_pool s') = pool_id (physical_pool s) \<and>
     pool_spec (physical_pool s') = pool_spec (physical_pool s) \<and>
     reservation_owner r' = reservation_owner r \<and>
     reserved_pages (physical_pool s') + reservation_pages r = reserved_pages (physical_pool s) + reservation_pages r'"

definition may_spend :: "LogicalKVPageStore \<Rightarrow> DeviceKVPageReservation \<Rightarrow> bool" where
  "may_spend s r \<longleftrightarrow>
     reservation_belongs_to r (physical_pool s) \<and> reservation_pages r \<le> reserved_pages (physical_pool s)"

lemma store_step_refl: "store_inv s \<Longrightarrow> store_step s r s r"
  by (simp add: store_step_def)

lemma page_leases_simps [simp]:
  "page_leases (pg\<lparr>page_gen := a\<rparr>) = page_leases pg"
  "page_leases (pg\<lparr>content_epoch := e\<rparr>) = page_leases pg"
  "page_leases (pg\<lparr>committed_columns := c\<rparr>) = page_leases pg"
  "page_leases (pg\<lparr>references := c\<rparr>) = page_leases pg"
  "page_leases (pg\<lparr>active_references := c\<rparr>) = page_leases pg"
  "page_leases (pg\<lparr>protected_columns := c\<rparr>) = page_leases pg"
  "page_leases (pg\<lparr>source_pins := c\<rparr>) = page_leases pg"
  "page_leases (pg\<lparr>writer_references := c\<rparr>) = page_leases pg"
  "page_leases (pg\<lparr>destination_pinned := b\<rparr>) = page_leases pg"
  "page_leases (pg\<lparr>page_occupied := b\<rparr>) = page_leases pg"
  "page_leases (pg\<lparr>host_replica := x\<rparr>) = page_leases pg"
  by (simp_all add: page_leases_def)

lemma store_page_ok: "store_inv_with M s \<Longrightarrow> i < length (store_pages s) \<Longrightarrow> page_ok (store_pages s ! i)"
  by (simp add: store_inv_with_def)

lemma valid_page_ok:
  assumes "store_inv_with M s" "valid_page s h"
  shows "logical_index h < length (store_pages s)" "page_occupied (page_at s h)" "page_ok (page_at s h)"
    "store_pages s ! logical_index h = page_at s h"
  using assms by (auto simp: valid_page_def page_at_def intro: store_page_ok)

lemma vacant_update:
  "i < length (store_pages s) \<Longrightarrow> store_pages t = (store_pages s)[i := pg] \<Longrightarrow>
     vacant t = (if page_occupied pg then vacant s - {i} else insert i (vacant s))"
  by (auto simp: vacant_def nth_list_update)

text \<open>Replacing an occupied page by another one.\<close>

lemma store_replace:
  assumes inv: "store_inv_with M s" and i: "i < length (store_pages s)" "page_occupied (store_pages s ! i)"
    and pg: "page_ok pg" "page_occupied pg" and q: "pool_spec q = pool_spec (physical_pool s)"
    and held: "leases_held q N" "N + page_leases (store_pages s ! i) = store_leases s + M' + page_leases pg"
  shows "store_inv_with M' (put_page (s\<lparr>physical_pool := q\<rparr>) i pg)"
proof -
  define t where "t = put_page (s\<lparr>physical_pool := q\<rparr>) i pg"
  have t: "store_pages t = (store_pages s)[i := pg]" "free_slots t = free_slots s" "free_count t = free_count s"
    "physical_pool t = q" "scratch_capacity t = scratch_capacity s" by (simp_all add: t_def put_page_def)
  have "vacant t = vacant s" using vacant_update [OF i(1) t(1)] pg(2) i by (auto simp: vacant_def)
  then have "slots_ok t" using inv by (simp add: store_inv_with_def slots_ok_def t)
  moreover have "\<forall>x \<in> set (store_pages t). page_ok x"
    using inv pg(1) by (auto simp: t store_inv_with_def dest!: set_update_subset_insert [THEN subsetD])
  moreover have "store_leases t + page_leases (store_pages s ! i) = store_leases s + page_leases pg"
    unfolding store_leases_def t by (rule sum_mset_update [OF i(1)])
  then have "store_leases t + M' + page_leases (store_pages s ! i) = N + page_leases (store_pages s ! i)"
    unfolding held(2) by (simp add: ac_simps)
  then have "store_leases t + M' = N" by (rule add_right_imp_eq)
  ultimately show ?thesis using inv held(1) q unfolding t_def [symmetric]
    by (simp add: store_inv_with_def t capacity_pages_def)
qed

lemma store_replace_same:
  assumes "store_inv s" "valid_page s h" "page_ok pg" "page_occupied pg" "page_leases pg = page_leases (page_at s h)"
  shows "store_step s r (put_page s (logical_index h) pg) r"
proof -
  note v = valid_page_ok [OF assms(1,2)]
  have "store_inv (put_page (s\<lparr>physical_pool := physical_pool s\<rparr>) (logical_index h) pg)"
    using assms v by (intro store_replace [OF assms(1) v(1)]) (auto simp: store_inv_with_def)
  then show ?thesis by (simp add: store_step_def put_page_def)
qed

lemma change_page_step:
  assumes "store_inv s" "change_page s h guard f = Inr s'"
    and "\<And>pg. pg = page_at s h \<Longrightarrow> page_ok pg \<Longrightarrow> page_occupied pg \<Longrightarrow> guard pg = None \<Longrightarrow>
      page_ok (f pg) \<and> page_occupied (f pg) \<and> page_leases (f pg) = page_leases pg"
  shows "store_step s r s' r"
proof -
  have v: "valid_page s h" "guard (page_at s h) = None" and s': "s' = put_page s (logical_index h) (f (page_at s h))"
    using assms(2) by (auto simp: change_page_def require_page_def split: if_splits option.splits)
  note w = valid_page_ok [OF assms(1) v(1)]
  show ?thesis unfolding s' using assms(3) [OF refl w(3,2) v(2)] by (intro store_replace_same [OF assms(1) v(1)]) auto
qed

subsection \<open>Occupying and releasing descriptors\<close>

lemma top_slot:
  assumes "store_inv_with M s" "0 < free_count s" "i = free_slots s ! (free_count s - 1)"
  shows "i < length (store_pages s)" "\<not> page_occupied (store_pages s ! i)"
    "distinct (take (free_count s - 1) (free_slots s))"
    "set (take (free_count s - 1) (free_slots s)) = vacant s - {i}"
proof -
  have sl: "slots_ok s" using assms(1) by (simp add: store_inv_with_def)
  define n where "n = free_count s - 1"
  have n: "free_count s = Suc n" "n < length (free_slots s)" using assms(2) sl by (auto simp: n_def slots_ok_def)
  have tk: "take (free_count s) (free_slots s) = take n (free_slots s) @ [i]"
    using n by (simp add: take_Suc_conv_app_nth assms(3))
  have "i \<in> vacant s" using sl tk by (auto simp: slots_ok_def)
  then show "i < length (store_pages s)" "\<not> page_occupied (store_pages s ! i)" by (auto simp: vacant_def)
  show "distinct (take (free_count s - 1) (free_slots s))"
    "set (take (free_count s - 1) (free_slots s)) = vacant s - {i}"
    using sl tk by (auto simp: slots_ok_def n(1))
qed

lemma vacant_page_leases: "page_ok pg \<Longrightarrow> \<not> page_occupied pg \<Longrightarrow> page_leases pg = {#} \<and> device_replica pg = None"
  by (simp add: page_ok_def page_leases_def)

lemma install_page_inv:
  assumes inv: "store_inv_with (add_mset l M) s" and fc: "0 < free_count s" "i = free_slots s ! (free_count s - 1)"
    and pg: "page_ok pg" "page_occupied pg" "page_leases pg = {#l#}"
    and run: "install_page (s\<lparr>free_count := free_count s - 1\<rparr>) i pg = (s', h)"
  shows "store_inv_with M s'" "valid_page s' h" "page_at s' h = pg" "physical_pool s' = physical_pool s"
    "store_pages s' = (store_pages s)[i := pg]" "logical_index h = i" "free_count s' = free_count s - 1"
    "free_slots s' = free_slots s" "store_id s' = store_id s" "scratch_capacity s' = scratch_capacity s"
proof -
  note top = top_slot [OF inv fc]
  have old: "page_leases (store_pages s ! i) = {#}" "device_replica (store_pages s ! i) = None"
    using vacant_page_leases store_page_ok [OF inv top(1)] top(2) by auto
  have s': "s' = s\<lparr>free_count := free_count s - 1, store_pages := (store_pages s)[i := pg]\<rparr>"
    and h: "h = \<lparr>logical_owner = Some (store_id s), logical_index = i, logical_generation = page_gen pg\<rparr>"
    using run by (auto simp: install_page_def put_page_def old(2) drop_lease_def Let_def)
  show "valid_page s' h" "page_at s' h = pg" "physical_pool s' = physical_pool s"
    "store_pages s' = (store_pages s)[i := pg]" "logical_index h = i" "free_count s' = free_count s - 1"
    "free_slots s' = free_slots s" "store_id s' = store_id s" "scratch_capacity s' = scratch_capacity s"
    using top(1) pg(2) by (simp_all add: s' h valid_page_def page_at_def)
  have "vacant s' = vacant s - {i}" using vacant_update [OF top(1), of s' pg] pg(2) by (simp add: s')
  then have "slots_ok s'" using inv top(3,4) by (auto simp: store_inv_with_def slots_ok_def s')
  moreover have "store_leases s' + {#} = store_leases s + {#l#}"
    using sum_mset_update [OF top(1), of page_leases pg] pg(3) old(1) by (simp add: store_leases_def s')
  ultimately show "store_inv_with M s'" using inv pg(1)
    by (auto simp: store_inv_with_def s' dest!: set_update_subset_insert [THEN subsetD])
qed

lemma release_page_descriptor_inv:
  assumes inv: "store_inv_with M s" and i: "i < length (store_pages s)" "page_occupied (store_pages s ! i)"
    and idle: "active_references (store_pages s ! i) = 0" "device_replica (store_pages s ! i) = None"
  obtains s' where "release_page_descriptor s i = Inr s'" "store_inv_with M s'"
    "store_id s' = store_id s" "pool_id (physical_pool s') = pool_id (physical_pool s)"
    "pool_spec (physical_pool s') = pool_spec (physical_pool s)"
    "reserved_pages (physical_pool s') = reserved_pages (physical_pool s)"
    "length (store_pages s') = length (store_pages s)" "free_count s' = Suc (free_count s)"
    "\<And>j. j \<noteq> i \<Longrightarrow> store_pages s' ! j = store_pages s ! j"
    "\<not> page_occupied (store_pages s' ! i)"
    "page_gen (store_pages s' ! i) = increment_generation (page_gen (store_pages s ! i))"
proof -
  define pg where "pg = store_pages s ! i"
  have ok: "page_ok pg" using store_page_ok [OF inv i(1)] by (simp add: pg_def)
  have sl: "slots_ok s" using inv by (simp add: store_inv_with_def)
  have "i \<notin> vacant s" using i(2) by (simp add: vacant_def)
  have room: "free_count s < length (free_slots s)"
  proof -
    have "free_count s = card (vacant s)" using sl
      by (metis distinct_card length_take min.absorb2 slots_ok_def)
    also have "\<dots> < card {..<length (store_pages s)}"
      using i by (intro psubset_card_mono) (auto simp: vacant_def)
    finally show ?thesis using sl by (simp add: slots_ok_def)
  qed
  define new where "new = pg\<lparr>committed_columns := 0, references := 0, active_references := 0,
    protected_columns := 0, source_pins := 0, writer_references := 0, destination_pinned := False,
    page_occupied := False, pending_device_replica := None, host_replica := None,
    page_gen := increment_generation (page_gen pg)\<rparr>"
  define q where "q = drop_lease (physical_pool s) (pending_device_replica pg)"
  define s' where "s' = s\<lparr>physical_pool := q, store_pages := (store_pages s)[i := new],
    free_slots := (free_slots s)[free_count s := i], free_count := free_count s + 1\<rparr>"
  have run: "release_page_descriptor s i = Inr s'"
    using idle(1) room by (simp add: release_page_descriptor_def Let_def s'_def q_def new_def pg_def [symmetric])
  have new: "page_ok new" "\<not> page_occupied new" "page_leases new = {#}"
    using idle(2) by (simp_all add: new_def page_ok_def page_leases_def pg_def)
  have "store_leases s' + page_leases pg = store_leases s"
    using sum_mset_update [OF i(1), of page_leases new] new(3) by (simp add: store_leases_def s'_def pg_def)
  moreover have "page_leases pg = mset_set (set_option (pending_device_replica pg))"
    using idle(2) by (simp add: page_leases_def pg_def)
  ultimately have all: "store_leases s + M
      = store_leases s' + M + mset_set (set_option (pending_device_replica pg))" by (metis add.assoc add.commute)
  have "leases_held (physical_pool s) (store_leases s + M)" using inv by (simp add: store_inv_with_def)
  then have q: "leases_held q (store_leases s' + M)" "pool_id q = pool_id (physical_pool s)"
    "pool_spec q = pool_spec (physical_pool s)" "reserved_pages q = reserved_pages (physical_pool s)"
    using leases_held_destroy [of "physical_pool s" "the (pending_device_replica pg)" "store_leases s' + M"]
    unfolding all q_def drop_lease_def by (cases "pending_device_replica pg"; simp)+
  have "vacant s' = insert i (vacant s)" using vacant_update [OF i(1), of s' new] new(2) by (simp add: s'_def)
  moreover have "take (Suc (free_count s)) ((free_slots s)[free_count s := i]) = take (free_count s) (free_slots s) @ [i]"
    using room by (simp add: take_Suc_conv_app_nth)
  ultimately have "slots_ok s'" using sl room \<open>i \<notin> vacant s\<close> by (auto simp: slots_ok_def s'_def)
  then have "store_inv_with M s'" using inv q(1,3) new(1)
    by (auto simp: store_inv_with_def s'_def capacity_pages_def dest!: set_update_subset_insert [THEN subsetD])
  then show ?thesis using that [OF run] q i(1) new(2)
    by (auto simp: s'_def pg_def [symmetric]) (simp add: new_def)
qed

section \<open>Every method keeps the invariant\<close>

subsection \<open>Materialisation\<close>

lemma store_inv_with_pool:
  assumes "store_inv_with M s" "leases_held q (store_leases s + N)" "pool_spec q = pool_spec (physical_pool s)"
  shows "store_inv_with N (s\<lparr>physical_pool := q\<rparr>)"
  using assms by (simp add: store_inv_with_def slots_ok_def vacant_def store_leases_def capacity_pages_def)

lemma fresh_page_ok:
  assumes "page_ok pg" "\<not> page_occupied pg"
  shows "page_ok (fresh_page l pg)" "page_occupied (fresh_page l pg)" "page_leases (fresh_page l pg) = {#l#}"
    "page_gen (fresh_page l pg) = page_gen pg"
  using assms by (simp_all add: fresh_page_def page_ok_def page_leases_def u32_max_def)

lemma transfer_page_ok:
  assumes "page_ok pg" "\<not> page_occupied pg" "columns \<le> page_size"
  shows "page_ok (transfer_page l columns pg)" "page_occupied (transfer_page l columns pg)"
    "page_leases (transfer_page l columns pg) = {#l#}"
  using assms by (simp_all add: transfer_page_def page_ok_def page_leases_def)

lemma spend_one:
  assumes inv: "store_inv s" and r: "may_spend s r" "0 < reservation_pages r"
  obtains p l where "materialize_one (physical_pool s) r = Inr (p, r\<lparr>reservation_pages := reservation_pages r - 1\<rparr>, l)"
    "store_inv_with {#l#} (s\<lparr>physical_pool := p\<rparr>)" "pool_id p = pool_id (physical_pool s)"
    "pool_spec p = pool_spec (physical_pool s)" "reserved_pages p + 1 = reserved_pages (physical_pool s)"
    "\<forall>h. valid_handle (physical_pool s) h \<longrightarrow> valid_handle p h"
    "lease_belongs_to l p" "valid_handle p (lease_handle l)"
proof -
  have held: "leases_held (physical_pool s) (store_leases s)" using inv by (simp add: store_inv_with_def)
  obtain p l where run: "materialize_one (physical_pool s) r = Inr (p, r\<lparr>reservation_pages := reservation_pages r - 1\<rparr>, l)"
    and g: "grants (physical_pool s) p [l]"
    using materialize_one_grants [OF leases_held_inv [OF held], of r] r unfolding may_spend_def by blast
  have "leases_held p (store_leases s + {#l#})" using leases_held_grant [OF held g] by simp
  then have "store_inv_with {#l#} (s\<lparr>physical_pool := p\<rparr>)"
    using g by (intro store_inv_with_pool [OF inv]) (simp_all add: grants_def)
  then show ?thesis using that [OF run] g by (auto simp: grants_def lease_belongs_to_def)
qed

lemma spend_none:
  "\<not> (reservation_belongs_to r (physical_pool s) \<and> 0 < reservation_pages r) \<Longrightarrow>
     materialize_one (physical_pool s) r = Inl InvalidArgument"
  by (auto simp: materialize_one_def)

lemma top_vacant:
  assumes "store_inv_with M s" "0 < free_count s"
  shows "page_ok (store_pages s ! (free_slots s ! (free_count s - 1)))"
    "\<not> page_occupied (store_pages s ! (free_slots s ! (free_count s - 1)))"
  using top_slot [OF assms refl] store_page_ok [OF assms(1)] by auto

text \<open>Taking one descriptor for a page of the pool: what both single-page materialisations do.\<close>

definition take_page ::
  "(DeviceKVPageLease \<Rightarrow> LogicalPage \<Rightarrow> LogicalPage) \<Rightarrow> LogicalKVPageStore \<Rightarrow> DeviceKVPageReservation
   \<Rightarrow> (LogicalKVPageStore \<times> DeviceKVPageReservation \<times> LogicalKVPageHandle) res" where
  "take_page mk s r =
     res_bind (materialize_one (physical_pool s) r) (\<lambda>(p, r', l).
       let n = free_count s - 1; index = free_slots s ! n;
           (s', h) = install_page (s\<lparr>physical_pool := p, free_count := n\<rparr>) index (mk l (store_pages s ! index))
       in Inr (s', r', h))"

lemma materialize_logical_take:
  "materialize_logical s r = (if free_count s = 0 then Inl LogicError else take_page fresh_page s r)"
  by (simp add: materialize_logical_def take_page_def)

lemma materialize_transfer_take:
  "materialize_transfer_destination s r columns =
     (if columns = 0 \<or> columns > page_size \<or> free_count s = 0 then Inl InvalidArgument
      else take_page (\<lambda>l. transfer_page l columns) s r)"
  by (simp add: materialize_transfer_destination_def take_page_def)

lemma take_page_step:
  assumes inv: "store_inv s" and r: "may_spend s r" and pos: "0 < reservation_pages r" and fc: "0 < free_count s"
    and mk: "\<And>l pg. page_ok pg \<Longrightarrow> \<not> page_occupied pg \<Longrightarrow>
      page_ok (mk l pg) \<and> page_occupied (mk l pg) \<and> page_leases (mk l pg) = {#l#}"
  obtains s' r' h l where "take_page mk s r = Inr (s', r', h)" "store_step s r s' r'" "valid_page s' h"
    "page_at s' h = mk l (store_pages s ! logical_index h)" "reservation_pages r' = reservation_pages r - 1"
    "lease_belongs_to l (physical_pool s')" "valid_handle (physical_pool s') (lease_handle l)"
    "store_pages s' = (store_pages s)[logical_index h := page_at s' h]" "logical_index h < length (store_pages s)"
    "\<not> page_occupied (store_pages s ! logical_index h)" "free_count s' = free_count s - 1"
proof -
  obtain p l where run: "materialize_one (physical_pool s) r = Inr (p, r\<lparr>reservation_pages := reservation_pages r - 1\<rparr>, l)"
    and inv1: "store_inv_with (add_mset l {#}) (s\<lparr>physical_pool := p\<rparr>)" and p: "pool_id p = pool_id (physical_pool s)"
    "pool_spec p = pool_spec (physical_pool s)" "reserved_pages p + 1 = reserved_pages (physical_pool s)"
    and l: "lease_belongs_to l p" "valid_handle p (lease_handle l)"
    using spend_one [OF inv r pos] by metis
  define i where "i = free_slots s ! (free_count s - 1)"
  have top: "page_ok (store_pages s ! i)" "\<not> page_occupied (store_pages s ! i)"
    using top_vacant [OF inv fc] by (simp_all add: i_def)
  obtain s' h where run2: "install_page (s\<lparr>physical_pool := p, free_count := free_count s - 1\<rparr>) i
      (mk l (store_pages s ! i)) = (s', h)" by (metis surj_pair)
  have I: "store_inv s'" "valid_page s' h" "page_at s' h = mk l (store_pages s ! i)" "physical_pool s' = p"
    "store_pages s' = (store_pages s)[i := mk l (store_pages s ! i)]" "logical_index h = i"
    "free_count s' = free_count s - 1" "store_id s' = store_id s"
    using install_page_inv [OF inv1, of i "mk l (store_pages s ! i)" s' h] mk [OF top] run2 fc
    by (simp_all add: i_def)
  have "i < length (store_pages s)" using top_slot(1) [OF inv fc] by (simp add: i_def)
  moreover have "take_page mk s r = Inr (s', r\<lparr>reservation_pages := reservation_pages r - 1\<rparr>, h)"
    using run2 by (simp add: take_page_def run Let_def i_def)
  moreover have "store_step s r s' (r\<lparr>reservation_pages := reservation_pages r - 1\<rparr>)"
    using I p pos by (simp add: store_step_def)
  ultimately show ?thesis
    using that [of s' "r\<lparr>reservation_pages := reservation_pages r - 1\<rparr>" h l] I l top by simp
qed

lemma take_page_none:
  "\<not> (reservation_belongs_to r (physical_pool s) \<and> 0 < reservation_pages r) \<Longrightarrow>
     take_page mk s r = Inl InvalidArgument"
  using spend_none [of r s] by (simp add: take_page_def)

text \<open>Filling the descriptors of a batch, from the top of the free vector downwards.\<close>

lemma install_page_count:
  "install_page (s\<lparr>free_count := n\<rparr>) i pg
     = ((fst (install_page s i pg))\<lparr>free_count := n\<rparr>, snd (install_page s i pg))"
  by (simp add: install_page_def put_page_def Let_def)

lemma install_fresh_inv:
  assumes "store_inv_with (mset ls) (s\<lparr>free_count := n\<rparr>)" "length ls \<le> n"
    "slots = map (\<lambda>k. free_slots s ! (n - 1 - k)) [0..<length ls]"
  shows "\<exists>s' hs. install_fresh s slots ls = Inr (s', hs) \<and> store_inv (s'\<lparr>free_count := n - length ls\<rparr>)
    \<and> physical_pool s' = physical_pool s \<and> store_id s' = store_id s \<and> free_count s' = free_count s
    \<and> map logical_index hs = slots \<and> length (store_pages s') = length (store_pages s)
    \<and> (\<forall>k. k \<notin> set slots \<longrightarrow> store_pages s' ! k = store_pages s ! k)
    \<and> (\<forall>h \<in> set hs. valid_page s' h) \<and> list_all2 (\<lambda>h l. page_at s' h = fresh_page l (store_pages s ! logical_index h)) hs ls"
  using assms
proof (induction ls arbitrary: s n slots)
  case Nil
  then show ?case by simp
next
  case (Cons l ls)
  define i where "i = free_slots s ! (n - 1)"
  define rest where "rest = map (\<lambda>k. free_slots s ! (n - 1 - 1 - k)) [0..<length ls]"
  have n: "0 < n" using Cons.prems(2) by simp
  have "map (\<lambda>k. free_slots s ! (n - 1 - k)) [0..<Suc (length ls)]
      = free_slots s ! (n - 1 - 0) # map (\<lambda>k. free_slots s ! (n - 1 - Suc k)) [0..<length ls]"
    by (simp only: upt_conv_Cons [OF zero_less_Suc] list.map map_Suc_upt [symmetric] map_map o_def)
  moreover have "map (\<lambda>k. free_slots s ! (n - 1 - Suc k)) [0..<length ls] = rest"
    unfolding rest_def by (intro map_cong refl arg_cong [of _ _ "nth (free_slots s)"]) simp
  ultimately have slots: "slots = i # rest" unfolding Cons.prems(3) i_def by (simp only: length_Cons diff_zero)
  have inv: "store_inv_with (add_mset l (mset ls)) (s\<lparr>free_count := n\<rparr>)" using Cons.prems(1) by simp
  have top: "page_ok (store_pages s ! i)" "\<not> page_occupied (store_pages s ! i)" "i < length (store_pages s)"
    using top_vacant [OF inv] top_slot(1) [OF inv _ refl] n by (simp_all add: i_def)
  obtain s1 h where run: "install_page s i (fresh_page l (store_pages s ! i)) = (s1, h)" by (metis surj_pair)
  have run': "install_page (s\<lparr>free_count := n, free_count := n - 1\<rparr>) i (fresh_page l (store_pages s ! i))
      = (s1\<lparr>free_count := n - 1\<rparr>, h)" by (simp add: install_page_count run)
  have S: "store_inv_with (mset ls) (s1\<lparr>free_count := n - 1\<rparr>)" "valid_page (s1\<lparr>free_count := n - 1\<rparr>) h"
    "page_at (s1\<lparr>free_count := n - 1\<rparr>) h = fresh_page l (store_pages s ! i)" "physical_pool s1 = physical_pool s"
    "store_pages s1 = (store_pages s)[i := fresh_page l (store_pages s ! i)]" "logical_index h = i"
    "free_slots s1 = free_slots s" "store_id s1 = store_id s"
    using install_page_inv [OF inv, of i "fresh_page l (store_pages s ! i)" "s1\<lparr>free_count := n - 1\<rparr>" h]
      fresh_page_ok [OF top(1,2)] n run' by (simp_all add: i_def)
  have fc1: "free_count s1 = free_count s" using run by (auto simp: install_page_def put_page_def Let_def)
  have rest1: "rest = map (\<lambda>k. free_slots s1 ! (n - 1 - 1 - k)) [0..<length ls]" by (simp add: rest_def S(7))
  have le: "length ls \<le> n - 1" using Cons.prems(2) by simp
  obtain s' hs where IH: "install_fresh s1 rest ls = Inr (s', hs)" "store_inv (s'\<lparr>free_count := n - 1 - length ls\<rparr>)"
    "physical_pool s' = physical_pool s1" "store_id s' = store_id s1" "free_count s' = free_count s1"
    "map logical_index hs = rest" "length (store_pages s') = length (store_pages s1)"
    "\<forall>k. k \<notin> set rest \<longrightarrow> store_pages s' ! k = store_pages s1 ! k" "\<forall>h \<in> set hs. valid_page s' h"
    "list_all2 (\<lambda>h l. page_at s' h = fresh_page l (store_pages s1 ! logical_index h)) hs ls"
    using Cons.IH [OF S(1) le rest1] by blast
  have sl: "slots_ok (s\<lparr>free_count := n\<rparr>)" using inv by (simp add: store_inv_with_def)
  have "i \<notin> set rest"
  proof
    assume "i \<in> set rest"
    then obtain k where k: "k < length ls" "i = free_slots s ! (n - 1 - 1 - k)" by (auto simp: rest_def)
    have "distinct (take n (free_slots s))" "n \<le> length (free_slots s)" using sl by (auto simp: slots_ok_def)
    then have "take n (free_slots s) ! (n - 1 - 1 - k) \<noteq> take n (free_slots s) ! (n - 1)"
      using k(1) le n by (subst nth_eq_iff_index_eq) auto
    then show False using k n by (simp add: i_def)
  qed
  then have at: "store_pages s' ! i = fresh_page l (store_pages s ! i)" using IH(8) S(5) top(3) by simp
  have "valid_page s' h" "page_at s' h = fresh_page l (store_pages s ! i)"
    using S(2,3,6) at IH(4,7) S(5,8) top(3) by (simp_all add: valid_page_def page_at_def)
  moreover have "list_all2 (\<lambda>h l. page_at s' h = fresh_page l (store_pages s ! logical_index h)) hs ls"
  proof (rule list.rel_mono_strong [OF IH(10)])
    fix g m assume g: "g \<in> set hs" and e: "page_at s' g = fresh_page m (store_pages s1 ! logical_index g)"
    have "logical_index g \<in> set rest" using g IH(6) by (metis image_eqI set_map)
    then show "page_at s' g = fresh_page m (store_pages s ! logical_index g)"
      using e \<open>i \<notin> set rest\<close> S(5) by (metis nth_list_update_neq)
  qed
  moreover have "\<forall>k. k \<notin> set slots \<longrightarrow> store_pages s' ! k = store_pages s ! k" using IH(8) S(5) slots by auto
  ultimately show ?case
    using IH(1-7,9) S(4-8) fc1 slots Cons.prems(2) by (simp add: run)
qed

lemma top_slots:
  assumes "store_inv_with M s" "n \<le> free_count s"
  shows "distinct (batch_slots s n)"
    "set (batch_slots s n) \<subseteq> vacant s"
proof -
  have sl: "slots_ok s" using assms(1) by (simp add: store_inv_with_def)
  have "batch_slots s n = take n (rev (take (free_count s) (free_slots s)))"
    using assms(2) sl by (intro nth_equalityI) (auto simp: batch_slots_def rev_nth slots_ok_def min_def)
  moreover have "set (take n (rev (take (free_count s) (free_slots s)))) \<subseteq> vacant s"
    using set_take_subset [of n "rev (take (free_count s) (free_slots s))"] sl by (simp add: slots_ok_def)
  ultimately show "distinct (batch_slots s n)" "set (batch_slots s n) \<subseteq> vacant s"
    using sl by (simp_all add: slots_ok_def)
qed

lemma materialize_batch_step:
  assumes inv: "store_inv s" and r: "may_spend s r" and run: "materialize_batch s r ds pred = Inr (s', r', hs)"
  shows "store_step s r s' r'" "length hs = length ds" "\<forall>h \<in> set hs. valid_page s' h"
    "reservation_pages r' + length ds = reservation_pages r" "free_count s' + length ds = free_count s"
    "distinct (map logical_index hs)"
    "\<forall>h \<in> set hs. \<not> page_occupied (store_pages s ! logical_index h)
      \<and> (\<exists>l. page_at s' h = fresh_page l (store_pages s ! logical_index h))"
    "\<forall>k. k \<notin> logical_index ` set hs \<longrightarrow> store_pages s' ! k = store_pages s ! k"
proof -
  have "store_step s r s' r' \<and> length hs = length ds \<and> (\<forall>h \<in> set hs. valid_page s' h)
    \<and> reservation_pages r' + length ds = reservation_pages r \<and> free_count s' + length ds = free_count s
    \<and> distinct (map logical_index hs)
    \<and> (\<forall>h \<in> set hs. \<not> page_occupied (store_pages s ! logical_index h)
      \<and> (\<exists>l. page_at s' h = fresh_page l (store_pages s ! logical_index h)))
    \<and> (\<forall>k. k \<notin> logical_index ` set hs \<longrightarrow> store_pages s' ! k = store_pages s ! k)"
  proof (cases "ds = []")
    case True
    then show ?thesis using run inv by (simp add: materialize_batch_def store_step_refl)
  next
    case False
    define n where "n = length ds"
    define slots where "slots = batch_slots s n"
    have n: "n \<le> free_count s" using run False by (auto simp: materialize_batch_def Let_def n_def split: if_splits)
    obtain ph p ls s1 where mat: "materialize (physical_pool s) r n (scratch_capacity s) [] ph = Inr (p, r', ls)"
      and ins: "install_fresh (s\<lparr>physical_pool := p\<rparr>) slots ls = Inr (s1, hs)"
      and s': "s' = s1\<lparr>free_count := u32_sub (free_count s1) n\<rparr>"
      using run False by (auto simp: materialize_batch_def Let_def n_def [symmetric] slots_def [symmetric] split: if_splits)
    have held: "leases_held (physical_pool s) (store_leases s)" using inv by (simp add: store_inv_with_def)
    have "leases_current (physical_pool s) []" by (simp add: leases_current_def)
    from materialize_cases [OF leases_held_inv [OF held] _ _ this, of r n "scratch_capacity s" ph] mat r
    have g: "grants (physical_pool s) p ls" "reservation_owner r' = reservation_owner r"
      "reservation_pages r' + n = reservation_pages r" "length ls = n" by (auto simp: may_spend_def)
    have "leases_held p (store_leases s + mset ls)" by (rule leases_held_grant [OF held g(1)])
    then have "store_inv_with (mset ls) (s\<lparr>physical_pool := p\<rparr>)"
      using g(1) by (intro store_inv_with_pool [OF inv]) (simp_all add: grants_def)
    then have "store_inv_with (mset ls) (s\<lparr>physical_pool := p, free_count := free_count s\<rparr>)" by simp
    from install_fresh_inv [OF this, of slots] ins g(4) n
    have I: "store_inv (s1\<lparr>free_count := free_count s - n\<rparr>)" "physical_pool s1 = p" "store_id s1 = store_id s"
      "free_count s1 = free_count s" "map logical_index hs = slots" "length (store_pages s1) = length (store_pages s)"
      "\<forall>k. k \<notin> set slots \<longrightarrow> store_pages s1 ! k = store_pages s ! k" "\<forall>h \<in> set hs. valid_page s1 h"
      "list_all2 (\<lambda>h l. page_at s1 h = fresh_page l (store_pages s ! logical_index h)) hs ls"
      by (auto simp: slots_def batch_slots_def)
    have s'': "s' = s1\<lparr>free_count := free_count s - n\<rparr>" using n by (simp add: s' I(4) width_simps)
    have "store_step s r s' r'" using I(1-3,6) g by (simp add: store_step_def s'' grants_def)
    moreover have len: "length hs = n" using arg_cong [OF I(5), of length] by (simp add: slots_def batch_slots_def)
    moreover have "\<forall>h \<in> set hs. valid_page s' h" using I(8) by (simp add: valid_page_def s'')
    moreover have "distinct slots" "set slots \<subseteq> vacant s" using top_slots [OF inv n] by (auto simp: slots_def)
    moreover have "logical_index ` set hs = set slots" using I(5) by (metis set_map)
    moreover have "\<exists>l. page_at s' h = fresh_page l (store_pages s ! logical_index h)" if "h \<in> set hs" for h
      using that I(9) by (auto simp: list_all2_conv_all_nth in_set_conv_nth page_at_def s'')
    ultimately show ?thesis using g(3) n I(5,7) by (auto simp: n_def [symmetric] s'' vacant_def)
  qed
  then show "store_step s r s' r'" "length hs = length ds" "\<forall>h \<in> set hs. valid_page s' h"
    "reservation_pages r' + length ds = reservation_pages r" "free_count s' + length ds = free_count s"
    "distinct (map logical_index hs)"
    "\<forall>h \<in> set hs. \<not> page_occupied (store_pages s ! logical_index h)
      \<and> (\<exists>l. page_at s' h = fresh_page l (store_pages s ! logical_index h))"
    "\<forall>k. k \<notin> logical_index ` set hs \<longrightarrow> store_pages s' ! k = store_pages s ! k" by blast+
qed

lemma page_lease_held:
  assumes "store_inv_with M s" "valid_page s h"
  shows "device_replica (page_at s h) = Some l \<Longrightarrow> l \<in># store_leases s"
    "pending_device_replica (page_at s h) = Some l \<Longrightarrow> l \<in># store_leases s"
proof -
  have "page_at s h \<in> set (store_pages s)" using valid_page_ok(1,4) [OF assms] by (metis nth_mem)
  then show "device_replica (page_at s h) = Some l \<Longrightarrow> l \<in># store_leases s"
    "pending_device_replica (page_at s h) = Some l \<Longrightarrow> l \<in># store_leases s"
    unfolding store_leases_def in_sum_mset by (force simp: page_leases_def)+
qed

text \<open>A batch within the reservation, the free descriptors and the scratch vector is granted.\<close>

lemma materialize_batch_granted:
  assumes inv: "store_inv s" and r: "may_spend s r" and n: "length ds \<le> reservation_pages r" "length ds \<le> free_count s"
    and ds: "\<forall>d \<in> set ds. logical_owner d = None"
    and pred: "\<forall>h. pred = Some h \<longrightarrow> valid_page s h \<and> device_replica (page_at s h) \<noteq> None"
  shows "\<exists>s' r' hs. materialize_batch s r ds pred = Inr (s', r', hs)"
proof (cases "ds = []")
  case True
  then show ?thesis by (simp add: materialize_batch_def)
next
  case False
  define n where "n = length ds"
  define slots where "slots = batch_slots s n"
  have held: "leases_held (physical_pool s) (store_leases s)" using inv by (simp add: store_inv_with_def)
  have "n \<le> capacity_pages (physical_pool s)"
    using n r pool_inv_room [OF leases_held_inv [OF held]] by (auto simp: n_def may_spend_def)
  then have cap: "n \<le> scratch_capacity s" using inv by (simp add: store_inv_with_def)
  have "set slots \<subseteq> vacant s" using top_slots [OF inv n(2)] by (simp add: slots_def n_def)
  then have vac: "\<not> list_ex (\<lambda>index. page_occupied (store_pages s ! index)) slots"
    by (auto simp: list_ex_iff vacant_def)
  have own: "\<not> list_ex (\<lambda>d. logical_owner d \<noteq> None) ds" using ds by (auto simp: list_ex_iff)
  obtain ph where ph: "(case pred of None \<Rightarrow> Inr None
      | Some h \<Rightarrow> res_bind (physical s h) (\<lambda>ph. Inr (Some ph))) = Inr ph"
    "\<forall>h. ph = Some h \<longrightarrow> valid_handle (physical_pool s) h"
  proof (cases pred)
    case None
    then show ?thesis using that [of None] by simp
  next
    case (Some h)
    then have v: "valid_page s h" and "device_replica (page_at s h) \<noteq> None" using pred by auto
    then obtain l where l: "device_replica (page_at s h) = Some l" by auto
    have "l \<in># store_leases s" using page_lease_held [OF inv v] l by simp
    then have "valid_handle (physical_pool s) (lease_handle l)" using leases_held_live [OF held] by blast
    then show ?thesis using that [of "Some (lease_handle l)"] Some v l by (simp add: physical_def require_page_def)
  qed
  obtain p ls where mat: "materialize (physical_pool s) r n (scratch_capacity s) [] ph
      = Inr (p, r\<lparr>reservation_pages := reservation_pages r - n\<rparr>, ls)" "length ls = n" "grants (physical_pool s) p ls"
    using materialize_grants [OF leases_held_inv [OF held], of r "[]" n "scratch_capacity s" ph] r n(1) cap ph(2)
    by (auto simp: may_spend_def leases_current_def n_def)
  have "store_inv_with (mset ls) (s\<lparr>physical_pool := p\<rparr>)"
    using mat(3) leases_held_grant [OF held mat(3)] by (intro store_inv_with_pool [OF inv]) (simp_all add: grants_def)
  then have "store_inv_with (mset ls) (s\<lparr>physical_pool := p, free_count := free_count s\<rparr>)" by simp
  from install_fresh_inv [OF this, of slots] mat(2) n(2)
  obtain s1 hs where "install_fresh (s\<lparr>physical_pool := p\<rparr>) slots ls = Inr (s1, hs)"
    by (auto simp: slots_def batch_slots_def n_def)
  then show ?thesis using False n(2) cap vac own ph(1) mat(1)
    by (simp add: materialize_batch_def Let_def n_def [symmetric] slots_def [symmetric])
qed

subsection \<open>Giving pages back\<close>

text \<open>A store in which the lease \<open>l\<close> of an occupied page has left its replica slot.\<close>

lemma store_leases_without:
  assumes inv: "store_inv s" and v: "valid_page s h" and pg: "page_leases (page_at s h) = add_mset l (page_leases pg)"
  obtains N where "store_leases s = add_mset l N" "N + page_leases (page_at s h) = store_leases s + page_leases pg"
proof -
  note w = valid_page_ok [OF inv v]
  have "l \<in># store_leases s" using w(1,4) pg unfolding store_leases_def in_sum_mset
    by (metis nth_mem union_single_eq_member)
  then obtain N where N: "store_leases s = add_mset l N" by (metis multi_member_split)
  then show ?thesis using that [OF N] pg by simp
qed

lemma drop_replica_inv:
  assumes inv: "store_inv s" and v: "valid_page s h"
    and pg: "page_leases (page_at s h) = add_mset l (page_leases pg)" "page_ok pg" "page_occupied pg"
  shows "store_inv (put_page (s\<lparr>physical_pool := fst (lease_release (physical_pool s) l)\<rparr>) (logical_index h) pg)"
    "pool_id (fst (lease_release (physical_pool s) l)) = pool_id (physical_pool s)"
    "pool_spec (fst (lease_release (physical_pool s) l)) = pool_spec (physical_pool s)"
    "reserved_pages (fst (lease_release (physical_pool s) l)) = reserved_pages (physical_pool s)"
proof -
  note w = valid_page_ok [OF inv v]
  obtain N where N: "store_leases s = add_mset l N" "N + page_leases (page_at s h) = store_leases s + page_leases pg"
    by (rule store_leases_without [OF inv v pg(1)])
  have held: "leases_held (physical_pool s) (add_mset l N)" using inv N(1) by (simp add: store_inv_with_def)
  note D = leases_held_destroy [OF held]
  show "store_inv (put_page (s\<lparr>physical_pool := fst (lease_release (physical_pool s) l)\<rparr>) (logical_index h) pg)"
    using w N(2) pg(2,3) D by (intro store_replace [OF inv w(1) _ _ _ _ D(1)]) simp_all
  show "pool_id (fst (lease_release (physical_pool s) l)) = pool_id (physical_pool s)"
    "pool_spec (fst (lease_release (physical_pool s) l)) = pool_spec (physical_pool s)"
    "reserved_pages (fst (lease_release (physical_pool s) l)) = reserved_pages (physical_pool s)" by (rule D)+
qed

lemma return_replica_inv:
  assumes inv: "store_inv s" and v: "valid_page s h" and r: "may_spend s r"
    and pg: "page_leases (page_at s h) = add_mset l (page_leases pg)" "page_ok pg" "page_occupied pg"
  obtains p where "dematerialize_one (physical_pool s) r l
      = Inr (p, r\<lparr>reservation_pages := reservation_pages r + 1\<rparr>, null_lease)"
    "store_inv (put_page (s\<lparr>physical_pool := p\<rparr>) (logical_index h) pg)" "pool_id p = pool_id (physical_pool s)"
    "pool_spec p = pool_spec (physical_pool s)" "reserved_pages p = reserved_pages (physical_pool s) + 1"
    "\<not> valid_handle p (lease_handle l)"
proof -
  note w = valid_page_ok [OF inv v]
  obtain N where N: "store_leases s = add_mset l N" "N + page_leases (page_at s h) = store_leases s + page_leases pg"
    by (rule store_leases_without [OF inv v pg(1)])
  have held: "leases_held (physical_pool s) (add_mset l N)" using inv N(1) by (simp add: store_inv_with_def)
  obtain q where run: "dematerialize_one (physical_pool s) r l = Inr (q\<lparr>reserved_pages := reserved_pages (physical_pool s) + 1\<rparr>,
      r\<lparr>reservation_pages := reservation_pages r + 1\<rparr>, null_lease)"
    and q: "returns (physical_pool s) q [l]" "pool_inv (q\<lparr>reserved_pages := reserved_pages (physical_pool s) + 1\<rparr>)"
    using dematerialize_one_returns [OF leases_held_inv [OF held], of r l] leases_held_live [OF held, of l] r
    by (auto simp: may_spend_def)
  define p where "p = q\<lparr>reserved_pages := reserved_pages (physical_pool s) + 1\<rparr>"
  have "leases_held p N" unfolding p_def
    by (rule leases_held_reserved [OF leases_held_return [OF held q(1)] q(2)])
  then have "store_inv (put_page (s\<lparr>physical_pool := p\<rparr>) (logical_index h) pg)"
    using w N(2) pg(2,3) q(1) by (intro store_replace [OF inv w(1)]) (simp_all add: p_def returns_def)
  then show ?thesis using that [of p] run q(1) by (simp add: p_def returns_def)
qed

lemma without_device:
  "device_replica pg = Some l \<Longrightarrow> page_leases pg = add_mset l (page_leases (pg\<lparr>device_replica := None\<rparr>))"
  "pending_device_replica pg = Some l \<Longrightarrow>
     page_leases pg = add_mset l (page_leases (pg\<lparr>pending_device_replica := None\<rparr>))"
  by (simp_all add: page_leases_def)

lemma page_ok_without_device:
  "page_ok pg \<Longrightarrow> page_ok (pg\<lparr>device_replica := None\<rparr>)"
  "page_ok pg \<Longrightarrow> page_ok (pg\<lparr>pending_device_replica := None\<rparr>)"
  by (auto simp: page_ok_def)

lemma put_page_at:
  "logical_index h < length (store_pages s) \<Longrightarrow> page_at (put_page s (logical_index h) pg) h = pg"
  "j \<noteq> i \<Longrightarrow> store_pages (put_page s i pg) ! j = store_pages s ! j"
  by (simp_all add: put_page_def page_at_def)

text \<open>How a handle fares when its page is replaced or its descriptor is released.\<close>

lemma valid_page_put:
  assumes "page_occupied pg = page_occupied (store_pages s ! i)" "page_gen pg = page_gen (store_pages s ! i)"
  shows "valid_page (put_page (s\<lparr>physical_pool := q\<rparr>) i pg) h = valid_page s h"
  using assms by (cases "i = logical_index h") (auto simp: valid_page_def put_page_def)

lemma give_back_step:
  assumes inv: "store_inv s" and v: "valid_page s h" and r: "may_spend s r"
    and dev: "device_replica (page_at s h) = Some l" and idle: "active_references (page_at s h) = 0"
  obtains s' where "give_back_page s h r l = Inr (s', r\<lparr>reservation_pages := reservation_pages r + 1\<rparr>)"
    "store_step s r s' (r\<lparr>reservation_pages := reservation_pages r + 1\<rparr>)"
    "\<not> page_occupied (store_pages s' ! logical_index h)" "free_count s' = Suc (free_count s)"
    "page_gen (store_pages s' ! logical_index h) = increment_generation (page_gen (page_at s h))"
    "\<And>j. j \<noteq> logical_index h \<Longrightarrow> store_pages s' ! j = store_pages s ! j"
proof -
  note w = valid_page_ok [OF inv v]
  define pg where "pg = (page_at s h)\<lparr>device_replica := None\<rparr>"
  have pg: "page_leases (page_at s h) = add_mset l (page_leases pg)" "page_ok pg" "page_occupied pg"
    using without_device(1) [OF dev] page_ok_without_device(1) [OF w(3)] w(2) by (simp_all add: pg_def)
  obtain p where run: "dematerialize_one (physical_pool s) r l
      = Inr (p, r\<lparr>reservation_pages := reservation_pages r + 1\<rparr>, null_lease)"
    and t: "store_inv (put_page (s\<lparr>physical_pool := p\<rparr>) (logical_index h) pg)"
    and p: "pool_id p = pool_id (physical_pool s)" "pool_spec p = pool_spec (physical_pool s)"
      "reserved_pages p = reserved_pages (physical_pool s) + 1"
    using return_replica_inv [OF inv v r pg] by blast
  define t where "t = put_page (s\<lparr>physical_pool := p\<rparr>) (logical_index h) pg"
  have at: "store_pages t ! logical_index h = pg" "length (store_pages t) = length (store_pages s)"
    "physical_pool t = p" "store_id t = store_id s" "free_count t = free_count s"
    "\<And>j. j \<noteq> logical_index h \<Longrightarrow> store_pages t ! j = store_pages s ! j"
    using w(1) by (simp_all add: t_def put_page_def)
  obtain s' where rel: "release_page_descriptor t (logical_index h) = Inr s'" "store_inv s'"
    "store_id s' = store_id t" "pool_id (physical_pool s') = pool_id (physical_pool t)"
    "pool_spec (physical_pool s') = pool_spec (physical_pool t)"
    "reserved_pages (physical_pool s') = reserved_pages (physical_pool t)"
    "length (store_pages s') = length (store_pages t)" "free_count s' = Suc (free_count t)"
    "\<And>j. j \<noteq> logical_index h \<Longrightarrow> store_pages s' ! j = store_pages t ! j"
    "\<not> page_occupied (store_pages s' ! logical_index h)"
    "page_gen (store_pages s' ! logical_index h) = increment_generation (page_gen pg)"
    using release_page_descriptor_inv [OF t [folded t_def], of "logical_index h"] w(1) at idle pg(3)
    by (auto simp: pg_def)
  have "give_back_page s h r l = Inr (s', r\<lparr>reservation_pages := reservation_pages r + 1\<rparr>)"
    using rel(1) by (simp add: give_back_page_def run t_def pg_def)
  moreover have "store_step s r s' (r\<lparr>reservation_pages := reservation_pages r + 1\<rparr>)"
    using rel(2-7) at p by (simp add: store_step_def)
  ultimately show ?thesis using that [of s'] rel(8-11) at by (simp add: pg_def)
qed

lemma abort_transfer_destination_step:
  assumes inv: "store_inv s" and r: "may_spend s r"
  shows "\<exists>s' r'. abort_transfer_destination s h r = Inr (s', r') \<and> store_step s r s' r'"
proof (cases "valid_page s h \<and> unpublished_transfer (page_at s h)")
  case False
  then show ?thesis using inv by (auto simp: abort_transfer_destination_def Let_def store_step_refl)
next
  case True
  then obtain l where l: "device_replica (page_at s h) = Some l" "references (page_at s h) = 0"
    by (auto simp: unpublished_transfer_def)
  have "active_references (page_at s h) = 0"
    using valid_page_ok(2,3) [OF inv, of h] True l(2) by (simp add: page_ok_def)
  from give_back_step [OF inv _ r l(1) this] True obtain s' where
    "give_back_page s h r l = Inr (s', r\<lparr>reservation_pages := reservation_pages r + 1\<rparr>)"
    "store_step s r s' (r\<lparr>reservation_pages := reservation_pages r + 1\<rparr>)" by blast
  then show ?thesis using True l(1) by (simp add: abort_transfer_destination_def no_throw_def)
qed

lemma dematerialize_logical_step:
  assumes inv: "store_inv s" and r: "may_spend s r"
    and run: "dematerialize_logical s h r = Inr (s', r')"
  shows "store_step s r s' r'"
proof -
  obtain l where v: "valid_page s h" and l: "device_replica (page_at s h) = Some l"
    and gb: "give_back_page s h r l = Inr (s', r')"
    using run by (auto simp: dematerialize_logical_def require_page_def split: if_splits)
  have "active_references (page_at s h) = 0"
    using gb valid_page_ok(1) [OF inv v] by (auto simp: give_back_page_def release_page_descriptor_def Let_def
        put_page_def split: if_splits)
  from give_back_step [OF inv v r l this] gb show ?thesis by (metis Inr_inject Pair_inject)
qed

text \<open>Its only fault, once the reservation is good, is a page that an active address still maps.\<close>

lemma dematerialize_logical_ok:
  assumes inv: "store_inv s" and r: "may_spend s r" and can: "can_dematerialize s h"
    and idle: "active_references (page_at s h) = 0"
  shows "\<exists>s'. dematerialize_logical s h r = Inr (s', r\<lparr>reservation_pages := reservation_pages r + 1\<rparr>)"
proof -
  have v: "valid_page s h" using can by (auto simp: can_dematerialize_def split: if_splits)
  obtain l where l: "device_replica (page_at s h) = Some l" using can by (auto simp: can_dematerialize_def Let_def split: if_splits)
  from give_back_step [OF inv v r l idle] show ?thesis using can v l
    by (auto simp: dematerialize_logical_def require_page_def can_dematerialize_def Let_def)
qed

subsection \<open>Device replicas\<close>

lemma reserve_device_replica_step:
  assumes inv: "store_inv s" and r: "may_spend s r" and run: "reserve_device_replica s h r = Inr (s', r', dh)"
  shows "store_step s r s' r'" "valid_handle (physical_pool s') dh" "reservation_pages r' + 1 = reservation_pages r"
    "page_at s' h = (page_at s h)\<lparr>pending_device_replica := pending_device_replica (page_at s' h), destination_pinned := True\<rparr>"
    "\<exists>l. pending_device_replica (page_at s' h) = Some l \<and> lease_handle l = dh"
proof -
  define pg where "pg = page_at s h"
  obtain p l where v: "valid_page s h" and none: "device_replica pg = None" "pending_device_replica pg = None"
    and mat: "materialize_one (physical_pool s) r = Inr (p, r', l)" and dh: "dh = lease_handle l"
    and s': "s' = put_page (s\<lparr>physical_pool := p\<rparr>) (logical_index h)
      (pg\<lparr>pending_device_replica := Some l, destination_pinned := True\<rparr>)"
    using run by (auto simp: reserve_device_replica_def require_page_def pg_def split: if_splits)
  note w = valid_page_ok [OF inv v, folded pg_def]
  have pos: "0 < reservation_pages r" using mat by (auto simp: materialize_one_def split: if_splits)
  obtain p2 l2 where mat2: "materialize_one (physical_pool s) r
      = Inr (p2, r\<lparr>reservation_pages := reservation_pages r - 1\<rparr>, l2)"
    and inv2: "store_inv_with {#l2#} (s\<lparr>physical_pool := p2\<rparr>)" and p2: "pool_id p2 = pool_id (physical_pool s)"
      "pool_spec p2 = pool_spec (physical_pool s)" "reserved_pages p2 + 1 = reserved_pages (physical_pool s)"
      "valid_handle p2 (lease_handle l2)"
    using spend_one [OF inv r pos] by metis
  have same: "p2 = p" "l2 = l" "r' = r\<lparr>reservation_pages := reservation_pages r - 1\<rparr>" using mat mat2 by auto
  define pg' where "pg' = pg\<lparr>pending_device_replica := Some l, destination_pinned := True\<rparr>"
  have "page_ok pg'" "page_occupied pg'" "page_leases pg = {#}" "page_leases pg' = {#l#}"
    using w(2,3) none by (auto simp: pg'_def page_ok_def page_leases_def)
  then have "store_inv (put_page (s\<lparr>physical_pool := p, physical_pool := p\<rparr>) (logical_index h) pg')"
    using w inv2 unfolding same
    by (intro store_replace [OF inv2 [unfolded same], where N = "store_leases s + {#l#}"])
      (auto simp: store_inv_with_def store_leases_def)
  then show "store_step s r s' r'"
    using p2 pos unfolding store_step_def s' same pg'_def [symmetric] by (simp add: put_page_def)
  show "valid_handle (physical_pool s') dh" using p2(4) by (simp add: s' dh same put_page_def)
  show "reservation_pages r' + 1 = reservation_pages r" using pos by (simp add: same)
  show "page_at s' h = (page_at s h)\<lparr>pending_device_replica := pending_device_replica (page_at s' h), destination_pinned := True\<rparr>"
    "\<exists>l. pending_device_replica (page_at s' h) = Some l \<and> lease_handle l = dh"
    using w(1) by (simp_all add: s' page_at_def put_page_def pg_def [unfolded page_at_def, symmetric] dh)
qed

lemma publish_device_replica_step:
  assumes inv: "store_inv s" and run: "publish_device_replica s h = Inr s'"
  shows "store_step s r s' r"
proof -
  define pg where "pg = page_at s h"
  have v: "valid_page s h" "device_replica pg = None"
    and s': "s' = put_page s (logical_index h) (pg\<lparr>device_replica := pending_device_replica pg,
      pending_device_replica := None, destination_pinned := False\<rparr>)"
    using run by (auto simp: publish_device_replica_def require_page_def pg_def split: if_splits)
  note w = valid_page_ok [OF inv v(1), folded pg_def]
  show ?thesis unfolding s' using w(2,3) v(2)
    by (intro store_replace_same [OF inv v(1)]) (auto simp: page_ok_def page_leases_def pg_def)
qed

lemma abort_device_replica_step:
  assumes inv: "store_inv s" and r: "may_spend s r"
  shows "\<exists>s' r'. abort_device_replica s h r = Inr (s', r') \<and> store_step s r s' r'"
proof (cases "valid_page s h \<and> pending_device_replica (page_at s h) \<noteq> None \<and> destination_pinned (page_at s h)")
  case False
  then show ?thesis using inv by (auto simp: abort_device_replica_def Let_def store_step_refl split: option.splits)
next
  case True
  define pg where "pg = page_at s h"
  obtain l where l: "pending_device_replica pg = Some l" "valid_page s h" "destination_pinned pg"
    using True by (auto simp: pg_def)
  note w = valid_page_ok [OF inv l(2), folded pg_def]
  define pg' where "pg' = pg\<lparr>pending_device_replica := None, destination_pinned := False\<rparr>"
  have pg': "page_leases (page_at s h) = add_mset l (page_leases pg')" "page_ok pg'" "page_occupied pg'"
    using w(2,3) l(1) by (auto simp: pg'_def page_ok_def page_leases_def pg_def)
  obtain p where "dematerialize_one (physical_pool s) r l
      = Inr (p, r\<lparr>reservation_pages := reservation_pages r + 1\<rparr>, null_lease)"
    "store_inv (put_page (s\<lparr>physical_pool := p\<rparr>) (logical_index h) pg')" "pool_id p = pool_id (physical_pool s)"
    "pool_spec p = pool_spec (physical_pool s)" "reserved_pages p = reserved_pages (physical_pool s) + 1"
    using return_replica_inv [OF inv l(2) r pg'] by blast
  then show ?thesis using l
    by (auto simp: abort_device_replica_def no_throw_def pg_def [symmetric] pg'_def store_step_def put_page_def Let_def)
qed

lemma drop_device_replica_step:
  assumes inv: "store_inv s"
  shows "store_step s r (fst (drop_device_replica s h)) r"
proof (cases "can_drop_device_replica s h")
  case False
  then show ?thesis using inv by (simp add: drop_device_replica_def store_step_refl)
next
  case True
  then have v: "valid_page s h" by (auto simp: can_drop_device_replica_def split: if_splits)
  obtain l where l: "device_replica (page_at s h) = Some l"
    using True by (auto simp: can_drop_device_replica_def Let_def split: if_splits)
  note w = valid_page_ok [OF inv v]
  note D = drop_replica_inv [OF inv v without_device(1) [OF l] page_ok_without_device(1) [OF w(3)]]
  show ?thesis using True l D w(2)
    by (simp add: drop_device_replica_def drop_lease_def store_step_def put_page_def)
qed

lemma publish_transfer_destination_step:
  assumes inv: "store_inv s" and run: "publish_transfer_destination s h writer = Inr s'"
  shows "store_step s r s' r"
proof -
  have v: "valid_page s h" "unpublished_transfer (page_at s h)"
    and s': "s' = put_page s (logical_index h) ((page_at s h)\<lparr>references := 1,
      writer_references := (if writer then 1 else 0), destination_pinned := False\<rparr>)"
    using run by (auto simp: publish_transfer_destination_def Let_def split: if_splits)
  show ?thesis unfolding s' using valid_page_ok(2,3) [OF inv v(1)] v(2)
    by (intro store_replace_same [OF inv v(1)]) (auto simp: page_ok_def unpublished_transfer_def u32_max_def)
qed

subsection \<open>Counters\<close>

lemma retain_active_reference_step:
  "store_inv s \<Longrightarrow> retain_active_reference s h = Inr s' \<Longrightarrow> store_step s r s' r"
  unfolding retain_active_reference_def
  by (rule change_page_step, assumption, assumption) (auto simp: page_ok_def split: if_splits)

lemma release_active_reference_step:
  "store_inv s \<Longrightarrow> release_active_reference s h = Inr s' \<Longrightarrow> store_step s r s' r"
  unfolding release_active_reference_def
  by (rule change_page_step, assumption, assumption) (auto simp: page_ok_def split: if_splits)

lemma retain_reference_step:
  "store_inv s \<Longrightarrow> retain_reference s h writer = Inr s' \<Longrightarrow> store_step s r s' r"
  unfolding retain_reference_def
  by (rule change_page_step, assumption, assumption) (auto simp: page_ok_def Let_def split: if_splits)

lemma set_writer_step: "store_inv s \<Longrightarrow> set_writer s h writer = Inr s' \<Longrightarrow> store_step s r s' r"
  unfolding set_writer_def
  by (rule change_page_step, assumption, assumption) (auto simp: page_ok_def split: if_splits)

lemma protect_coverage_step: "store_inv s \<Longrightarrow> protect_coverage s h columns = Inr s' \<Longrightarrow> store_step s r s' r"
  unfolding protect_coverage_def
  by (rule change_page_step, assumption, assumption) (auto simp: page_ok_def split: if_splits)

lemma set_protected_coverage_step:
  "store_inv s \<Longrightarrow> set_protected_coverage s h columns = Inr s' \<Longrightarrow> store_step s r s' r"
  unfolding set_protected_coverage_def
  by (rule change_page_step, assumption, assumption) (auto simp: page_ok_def split: if_splits)

lemma clear_protection_step: "store_inv s \<Longrightarrow> clear_protection s h = Inr s' \<Longrightarrow> store_step s r s' r"
  unfolding clear_protection_def
  by (rule change_page_step, assumption, assumption) (auto simp: page_ok_def split: if_splits)

lemma pin_source_step: "store_inv s \<Longrightarrow> pin_source s h = Inr s' \<Longrightarrow> store_step s r s' r"
  unfolding pin_source_def
  by (rule change_page_step, assumption, assumption) (auto simp: page_ok_def split: if_splits)

lemma unpin_source_step: "store_inv s \<Longrightarrow> unpin_source s h = Inr s' \<Longrightarrow> store_step s r s' r"
  unfolding unpin_source_def
  by (rule change_page_step, assumption, assumption) (auto simp: page_ok_def split: if_splits)

lemma commit_coverage_step: "store_inv s \<Longrightarrow> commit_coverage s h columns = Inr s' \<Longrightarrow> store_step s r s' r"
  unfolding commit_coverage_def
  by (rule change_page_step, assumption, assumption) (auto simp: page_ok_def split: if_splits)

lemma destructive_truncate_step:
  "store_inv s \<Longrightarrow> destructive_truncate s h columns = Inr s' \<Longrightarrow> store_step s r s' r"
  unfolding destructive_truncate_def
  by (rule change_page_step, assumption, assumption) (auto simp: page_ok_def cut_columns_def split: if_splits)

lemma destructive_truncate_inactive_step:
  "store_inv s \<Longrightarrow> destructive_truncate_inactive s h columns = Inr s' \<Longrightarrow> store_step s r s' r"
  unfolding destructive_truncate_inactive_def
  by (rule change_page_step, assumption, assumption)
    (auto simp: page_ok_def cut_columns_def can_destructive_truncate_inactive_def Let_def split: if_splits)

lemma attach_host_replica_step: "store_inv s \<Longrightarrow> attach_host_replica s h x = Inr s' \<Longrightarrow> store_step s r s' r"
  unfolding attach_host_replica_def
  by (rule change_page_step, assumption, assumption)
    (auto simp: page_ok_def can_attach_host_replica_def Let_def split: if_splits)

lemma rebind_host_replica_step:
  assumes "store_inv s" "rebind_host_replica s h expected replacement = Inr s'"
  shows "store_step s r s' r"
proof -
  have v: "valid_page s h" "host_replica (page_at s h) = Some expected" "replica_epoch expected = content_epoch (page_at s h)"
    "replica_epoch replacement = replica_epoch expected" "replica_columns replacement = replica_columns expected"
    and s': "s' = put_page s (logical_index h) ((page_at s h)\<lparr>host_replica := Some replacement\<rparr>)"
    using assms(2) by (auto simp: rebind_host_replica_def Let_def split: if_splits)
  show ?thesis unfolding s' using valid_page_ok(2,3) [OF assms(1) v(1)] v
    by (intro store_replace_same [OF assms(1) v(1)]) (auto simp: page_ok_def)
qed

subsection \<open>Releasing references\<close>

text \<open>Releasing the descriptor of a page that is occupied but idle, from a store reached by replacing it.\<close>

lemma put_release:
  assumes inv: "store_inv (put_page (s\<lparr>physical_pool := q\<rparr>) i pg)" and i: "i < length (store_pages s)"
    and pg: "page_occupied pg" "active_references pg = 0" "device_replica pg = None"
    and q: "pool_id q = pool_id (physical_pool s)" "pool_spec q = pool_spec (physical_pool s)"
      "reserved_pages q = reserved_pages (physical_pool s)"
  obtains s' where "release_page_descriptor (put_page (s\<lparr>physical_pool := q\<rparr>) i pg) i = Inr s'"
    "store_step s r s' r" "\<not> page_occupied (store_pages s' ! i)" "free_count s' = Suc (free_count s)"
    "page_gen (store_pages s' ! i) = increment_generation (page_gen pg)"
    "\<And>j. j \<noteq> i \<Longrightarrow> store_pages s' ! j = store_pages s ! j"
proof -
  define t where "t = put_page (s\<lparr>physical_pool := q\<rparr>) i pg"
  have at: "store_pages t ! i = pg" "length (store_pages t) = length (store_pages s)" "physical_pool t = q"
    "store_id t = store_id s" "free_count t = free_count s" "\<And>j. j \<noteq> i \<Longrightarrow> store_pages t ! j = store_pages s ! j"
    using i by (simp_all add: t_def put_page_def)
  obtain s' where "release_page_descriptor t i = Inr s'" "store_inv s'"
    "store_id s' = store_id t" "pool_id (physical_pool s') = pool_id (physical_pool t)"
    "pool_spec (physical_pool s') = pool_spec (physical_pool t)"
    "reserved_pages (physical_pool s') = reserved_pages (physical_pool t)"
    "length (store_pages s') = length (store_pages t)" "free_count s' = Suc (free_count t)"
    "\<And>j. j \<noteq> i \<Longrightarrow> store_pages s' ! j = store_pages t ! j" "\<not> page_occupied (store_pages s' ! i)"
    "page_gen (store_pages s' ! i) = increment_generation (page_gen (store_pages t ! i))"
    using release_page_descriptor_inv [OF inv [folded t_def], of i] at i pg by auto
  then show ?thesis using that [of s'] at q unfolding t_def [symmetric] by (simp add: store_step_def)
qed

lemma dropped_reference_ok:
  assumes "page_ok pg" "page_occupied pg" "active_references pg < references pg"
  shows "page_ok (dropped_reference writer pg)" "page_occupied (dropped_reference writer pg)"
    "page_leases (dropped_reference writer pg) = page_leases pg"
    "references (dropped_reference writer pg) = references pg - 1"
    "active_references (dropped_reference writer pg) = active_references pg"
    "device_replica (dropped_reference writer pg) = device_replica pg"
    "pending_device_replica (dropped_reference writer pg) = pending_device_replica pg"
    "page_gen (dropped_reference writer pg) = page_gen pg"
  using assms by (auto simp: dropped_reference_def page_ok_def)

text \<open>The three outcomes of giving a reference back: one less reference; the last one gone and the
  descriptor released; the last one gone with the descriptor kept for the host replica.\<close>

lemma release_reference_outcome:
  assumes inv: "store_inv s" and can: "can_release_reference s h writer"
  obtains s' where "release_reference s h writer = Inr (s', True)" "store_step s r s' r"
    "\<And>j. j \<noteq> logical_index h \<Longrightarrow> store_pages s' ! j = store_pages s ! j"
    "references (page_at s h) \<noteq> 1 \<Longrightarrow> page_at s' h = dropped_reference writer (page_at s h)"
    "references (page_at s h) = 1 \<Longrightarrow> host_replica (page_at s h) = None \<Longrightarrow>
       \<not> page_occupied (page_at s' h) \<and> page_gen (page_at s' h) = increment_generation (page_gen (page_at s h))"
    "references (page_at s h) = 1 \<Longrightarrow> host_replica (page_at s h) \<noteq> None \<Longrightarrow>
       page_at s' h = (dropped_reference writer (page_at s h))\<lparr>device_replica := None\<rparr>"
proof -
  define i where "i = logical_index h"
  define pg where "pg = page_at s h"
  have v: "valid_page s h" and act: "active_references pg < references pg"
    using can by (auto simp: can_release_reference_def pg_def Let_def split: if_splits)
  note w = valid_page_ok [OF inv v, folded pg_def i_def]
  note d = dropped_reference_ok [OF w(3,2) act, of writer]
  define q where "q = drop_lease (physical_pool s) (device_replica pg)"
  define last where "last = (dropped_reference writer pg)\<lparr>device_replica := None\<rparr>"
  have run: "release_reference s h writer =
     (if references pg - 1 \<noteq> 0 then Inr (put_page s i (dropped_reference writer pg), True)
      else if host_replica pg = None
        then res_bind (release_page_descriptor (put_page (s\<lparr>physical_pool := q\<rparr>) i last) i) (\<lambda>s''. Inr (s'', True))
      else Inr (put_page (s\<lparr>physical_pool := q\<rparr>) i last, True))"
    using can d(4) unfolding release_reference_def
    by (simp add: Let_def pg_def [symmetric] i_def [symmetric] q_def last_def)
  show ?thesis
  proof (cases "references pg = 1")
    case False
    then have "references pg - 1 \<noteq> 0" using act by linarith
    then have "release_reference s h writer = Inr (put_page s i (dropped_reference writer pg), True)"
      using run by simp
    moreover have "store_step s r (put_page s i (dropped_reference writer pg)) r"
      using d(1-3) unfolding i_def by (intro store_replace_same [OF inv v]) (simp_all add: pg_def)
    ultimately show ?thesis by (rule that) (use False w(1) in \<open>simp_all add: put_page_at pg_def i_def\<close>)
  next
    case True
    have last: "page_ok last" "page_occupied last" "active_references last = 0" "device_replica last = None"
      using d page_ok_without_device(1) [OF d(1)] act True by (simp_all add: last_def)
    have "store_inv (put_page (s\<lparr>physical_pool := q\<rparr>) i last) \<and> pool_id q = pool_id (physical_pool s)
        \<and> pool_spec q = pool_spec (physical_pool s) \<and> reserved_pages q = reserved_pages (physical_pool s)"
    proof (cases "device_replica pg")
      case None
      then have "store_inv (put_page s i last)"
        using store_replace_same [OF inv v last(1,2)] d(3,6,7)
        by (simp add: store_step_def i_def pg_def last_def page_leases_def)
      then show ?thesis by (simp add: q_def None drop_lease_def)
    next
      case (Some l)
      have "page_leases (page_at s h) = add_mset l (page_leases last)"
        using without_device(1) [of "dropped_reference writer pg" l] d(3,6) Some by (simp add: last_def pg_def)
      from drop_replica_inv [OF inv v this last(1,2)] show ?thesis by (simp add: q_def Some drop_lease_def i_def)
    qed
    then have Q: "store_inv (put_page (s\<lparr>physical_pool := q\<rparr>) i last)" "pool_id q = pool_id (physical_pool s)"
      "pool_spec q = pool_spec (physical_pool s)" "reserved_pages q = reserved_pages (physical_pool s)" by blast+
    show ?thesis
    proof (cases "host_replica pg")
      case None
      obtain s' where "release_page_descriptor (put_page (s\<lparr>physical_pool := q\<rparr>) i last) i = Inr s'"
        "store_step s r s' r" "\<not> page_occupied (store_pages s' ! i)"
        "page_gen (store_pages s' ! i) = increment_generation (page_gen last)"
        "\<And>j. j \<noteq> i \<Longrightarrow> store_pages s' ! j = store_pages s ! j"
        using put_release [OF Q(1) w(1) last(2,3,4) Q(2-4)] by metis
      moreover from this(1) have "release_reference s h writer = Inr (s', True)" using run True None by simp
      ultimately show ?thesis
        by (intro that [of s']) (use True None d(8) in \<open>simp_all add: page_at_def pg_def i_def last_def\<close>)
    next
      case (Some x)
      have "store_step s r (put_page (s\<lparr>physical_pool := q\<rparr>) i last) r"
        using Q by (simp add: store_step_def put_page_def)
      moreover have "release_reference s h writer = Inr (put_page (s\<lparr>physical_pool := q\<rparr>) i last, True)"
        using run True Some by simp
      ultimately show ?thesis
        by (intro that [of "put_page (s\<lparr>physical_pool := q\<rparr>) i last"]) (use True Some w(1) in \<open>simp_all add: put_page_at pg_def i_def last_def\<close>)
    qed
  qed
qed

lemma release_reference_step:
  assumes "store_inv s"
  shows "\<exists>s'. release_reference s h writer = Inr (s', can_release_reference s h writer) \<and> store_step s r s' r"
proof (cases "can_release_reference s h writer")
  case True
  then show ?thesis using release_reference_outcome [OF assms True] by metis
next
  case False
  then show ?thesis using assms by (simp add: release_reference_def store_step_refl)
qed

lemma release_logical_step:
  assumes "store_inv s"
  shows "\<exists>s' b. release_logical s h = Inr (s', b) \<and> store_step s r s' r"
  using release_reference_step [OF assms, of h "writer_references (page_at s h) \<noteq> 0" r] assms
  by (auto simp: release_logical_def store_step_refl)

lemma detach_host_replica_step:
  assumes inv: "store_inv s"
  shows "\<exists>s' b. detach_host_replica s h ext = Inr (s', b) \<and> store_step s r s' r"
proof (cases "valid_page s h \<and> (\<exists>x. host_replica (page_at s h) = Some x \<and> replica_extent x = ext
    \<and> \<not> (device_replica (page_at s h) = None \<and> references (page_at s h) \<noteq> 0))")
  case False
  then show ?thesis using inv by (auto simp: detach_host_replica_def Let_def store_step_refl split: option.splits)
next
  case True
  define pg where "pg = (page_at s h)\<lparr>host_replica := None\<rparr>"
  have v: "valid_page s h" using True by blast
  note w = valid_page_ok [OF inv v]
  have pg: "page_ok pg" "page_occupied pg" "page_leases pg = page_leases (page_at s h)"
    using w(2,3) by (auto simp: pg_def page_ok_def)
  have st: "store_step s r (put_page s (logical_index h) pg) r" by (rule store_replace_same [OF inv v pg])
  show ?thesis
  proof (cases "references (page_at s h) = 0 \<and> source_pins (page_at s h) = 0 \<and> device_replica (page_at s h) = None")
    case False
    then show ?thesis using True st by (auto simp: detach_host_replica_def pg_def Let_def)
  next
    case idle: True
    have "active_references pg = 0" "device_replica pg = None"
      using idle w(2,3) by (auto simp: pg_def page_ok_def)
    moreover have "store_inv (put_page (s\<lparr>physical_pool := physical_pool s\<rparr>) (logical_index h) pg)"
      using st by (simp add: store_step_def)
    ultimately obtain s' where "release_page_descriptor (put_page (s\<lparr>physical_pool := physical_pool s\<rparr>) (logical_index h) pg)
        (logical_index h) = Inr s'" "store_step s r s' r"
      using put_release [OF _ w(1) pg(2)] by blast
    then show ?thesis using True idle by (auto simp: detach_host_replica_def pg_def Let_def)
  qed
qed

lemma materialize_logical_step:
  assumes "store_inv s" "may_spend s r" "materialize_logical s r = Inr (s', r', h)"
  shows "store_step s r s' r'" "valid_page s' h"
proof -
  have fc: "0 < free_count s" and run: "take_page fresh_page s r = Inr (s', r', h)"
    using assms(3) by (auto simp: materialize_logical_take split: if_splits)
  have "0 < reservation_pages r" using run take_page_none [of r s fresh_page] by (cases "reservation_pages r") auto
  from take_page_step [OF assms(1,2) this fc, of fresh_page] fresh_page_ok run
  show "store_step s r s' r'" "valid_page s' h" by (metis Inr_inject Pair_inject)+
qed

lemma materialize_transfer_destination_step:
  assumes "store_inv s" "may_spend s r" "materialize_transfer_destination s r columns = Inr (s', r', h)"
  shows "store_step s r s' r'" "valid_page s' h"
proof -
  have fc: "0 < free_count s" "columns \<le> page_size" and run: "take_page (\<lambda>l. transfer_page l columns) s r = Inr (s', r', h)"
    using assms(3) by (auto simp: materialize_transfer_take split: if_splits)
  have "0 < reservation_pages r"
    using run take_page_none [of r s "\<lambda>l. transfer_page l columns"] by (cases "reservation_pages r") auto
  from take_page_step [OF assms(1,2) this fc(1), of "\<lambda>l. transfer_page l columns"] transfer_page_ok [OF _ _ fc(2)] run
  show "store_step s r s' r'" "valid_page s' h" by (metis Inr_inject Pair_inject)+
qed

lemma new_logical_store_inv:
  assumes "new_device_pool pid backing l = Inr p" "new_logical_store self p n = Inr s" "n \<le> u32_max"
  shows "store_inv s"
proof -
  have n: "0 < n" "capacity_pages p \<le> n" and s: "s = \<lparr>store_id = self, physical_pool = p,
      store_pages = replicate n vacant_page, free_slots = map (\<lambda>index. n - 1 - index) [0..<n],
      scratch_capacity = capacity_pages p, free_count = n\<rparr>"
    using assms(2) by (auto simp: new_logical_store_def split: if_splits)
  have leases: "sum_list (replicate k (page_leases vacant_page)) = {#}" for k
    by (induction k) (simp_all add: vacant_page_def page_leases_def)
  have "vacant s = {..<n}" by (auto simp: vacant_def s vacant_page_def)
  moreover have "set (map (\<lambda>index. n - 1 - index) [0..<n]) = {..<n}"
  proof -
    have "k \<in> (\<lambda>index. n - 1 - index) ` {..<n}" if "k < n" for k
      using that by (intro image_eqI [of _ _ "n - 1 - k"]) auto
    then show ?thesis using n(1) by (auto simp: atLeast0LessThan)
  qed
  moreover have "distinct (map (\<lambda>index. n - 1 - index) [0..<n])" by (auto simp: distinct_map inj_on_def)
  ultimately have "slots_ok s" using assms(3) by (simp add: slots_ok_def s)
  moreover have "page_ok vacant_page" by (simp add: page_ok_def vacant_page_def)
  ultimately show ?thesis using n leases_held_new [OF assms(1)]
    by (simp add: store_inv_with_def s store_leases_def leases del: upt_Suc)
qed

end
