(* ===== verification/Logical_Store_Use.thy ===== *)
theory Logical_Store_Use
  imports Logical_Page_Store Example_Pool
begin

text \<open>
  The logical page store in use: the store together with the reservations outstanding on its pool, and
  any sequence of calls of its interface. Page handles are plain values, so a call may name any handle,
  stale or foreign ones included; a reservation belongs to one holder and comes back changed. A call
  that throws changes nothing. Shown for every reachable store: no two logical pages ever share a
  physical page, the counters of the pool are exactly the replicas and reservations outstanding, host
  replicas always describe the current content of their page, and no call reaches an access outside
  the store's vectors; which calls may terminate the process, and when, is exact.
\<close>

section \<open>Calls\<close>

datatype page_call =
    PublishTransfer LogicalKVPageHandle bool
  | PublishDevice LogicalKVPageHandle
  | DropDevice LogicalKVPageHandle
  | RetainActive LogicalKVPageHandle
  | ReleaseActive LogicalKVPageHandle
  | RetainReference LogicalKVPageHandle bool
  | ReleaseReference LogicalKVPageHandle bool
  | ReleasePage LogicalKVPageHandle
  | SetWriter LogicalKVPageHandle bool
  | ProtectCoverage LogicalKVPageHandle nat
  | SetProtected LogicalKVPageHandle nat
  | ClearProtection LogicalKVPageHandle
  | PinSource LogicalKVPageHandle
  | UnpinSource LogicalKVPageHandle
  | CommitCoverage LogicalKVPageHandle nat
  | Truncate LogicalKVPageHandle nat
  | TruncateInactive LogicalKVPageHandle nat
  | AttachHost LogicalKVPageHandle HostKVPageReplica
  | RebindHost LogicalKVPageHandle HostKVPageReplica HostKVPageReplica
  | DetachHost LogicalKVPageHandle HostKVExtentCapability

fun call_page :: "page_call \<Rightarrow> LogicalKVPageStore \<Rightarrow> LogicalKVPageStore res" where
  "call_page (PublishTransfer h w) s = publish_transfer_destination s h w"
| "call_page (PublishDevice h) s = publish_device_replica s h"
| "call_page (DropDevice h) s = Inr (fst (drop_device_replica s h))"
| "call_page (RetainActive h) s = retain_active_reference s h"
| "call_page (ReleaseActive h) s = release_active_reference s h"
| "call_page (RetainReference h w) s = retain_reference s h w"
| "call_page (ReleaseReference h w) s = map_sum id fst (release_reference s h w)"
| "call_page (ReleasePage h) s = map_sum id fst (release_logical s h)"
| "call_page (SetWriter h w) s = set_writer s h w"
| "call_page (ProtectCoverage h n) s = protect_coverage s h n"
| "call_page (SetProtected h n) s = set_protected_coverage s h n"
| "call_page (ClearProtection h) s = clear_protection s h"
| "call_page (PinSource h) s = pin_source s h"
| "call_page (UnpinSource h) s = unpin_source s h"
| "call_page (CommitCoverage h n) s = commit_coverage s h n"
| "call_page (Truncate h n) s = destructive_truncate s h n"
| "call_page (TruncateInactive h n) s = destructive_truncate_inactive s h n"
| "call_page (AttachHost h x) s = attach_host_replica s h x"
| "call_page (RebindHost h x y) s = rebind_host_replica s h x y"
| "call_page (DetachHost h e) s = map_sum id fst (detach_host_replica s h e)"

datatype reserved_call =
    MaterializePage
  | MaterializeBatch "LogicalKVPageHandle list" "LogicalKVPageHandle option"
  | MaterializeTransfer nat
  | AbortTransfer LogicalKVPageHandle
  | ReserveDevice LogicalKVPageHandle
  | AbortDevice LogicalKVPageHandle
  | DematerializePage LogicalKVPageHandle

fun call_reserved ::
  "reserved_call \<Rightarrow> LogicalKVPageStore \<Rightarrow> DeviceKVPageReservation
   \<Rightarrow> (LogicalKVPageStore \<times> DeviceKVPageReservation) res" where
  "call_reserved MaterializePage s r = map_sum id (\<lambda>(s', r', h). (s', r')) (materialize_logical s r)"
| "call_reserved (MaterializeBatch ds pred) s r = map_sum id (\<lambda>(s', r', hs). (s', r')) (materialize_batch s r ds pred)"
| "call_reserved (MaterializeTransfer n) s r =
     map_sum id (\<lambda>(s', r', h). (s', r')) (materialize_transfer_destination s r n)"
| "call_reserved (AbortTransfer h) s r = abort_transfer_destination s h r"
| "call_reserved (ReserveDevice h) s r = map_sum id (\<lambda>(s', r', d). (s', r')) (reserve_device_replica s h r)"
| "call_reserved (AbortDevice h) s r = abort_device_replica s h r"
| "call_reserved (DematerializePage h) s r = dematerialize_logical s h r"

inductive logical_reachable :: "LogicalKVPageStore \<Rightarrow> DeviceKVPageReservation list \<Rightarrow> bool" where
  start: "new_device_pool pid backing l = Inr p \<Longrightarrow> new_logical_store self p n = Inr s \<Longrightarrow> n \<le> u32_max
    \<Longrightarrow> logical_reachable s []"
| opened: "logical_reachable s rs \<Longrightarrow> logical_reachable s (make_empty_reservation (physical_pool s) # rs)"
| resized: "logical_reachable s (r # rs) \<Longrightarrow> n \<le> u32_max \<Longrightarrow> resize_reservation (physical_pool s) r n = Inr (p, r')
    \<Longrightarrow> logical_reachable (s\<lparr>physical_pool := p\<rparr>) (r' # rs)"
| closed: "logical_reachable s (r # rs) \<Longrightarrow> reservation_release (physical_pool s) r = Inr (p, r')
    \<Longrightarrow> logical_reachable (s\<lparr>physical_pool := p\<rparr>) rs"
| picked: "logical_reachable s rs \<Longrightarrow> mset rs' = mset rs \<Longrightarrow> logical_reachable s rs'"
| page: "logical_reachable s rs \<Longrightarrow> call_page c s = Inr s' \<Longrightarrow> logical_reachable s' rs"
| reserved: "logical_reachable s (r # rs) \<Longrightarrow> call_reserved c s r = Inr (s', r') \<Longrightarrow> logical_reachable s' (r' # rs)"

section \<open>Invariant\<close>

definition logical_inv :: "LogicalKVPageStore \<Rightarrow> DeviceKVPageReservation list \<Rightarrow> bool" where
  "logical_inv s rs \<longleftrightarrow>
     store_inv s \<and> (\<forall>r \<in> set rs. reservation_belongs_to r (physical_pool s)) \<and>
     (\<Sum>r \<leftarrow> rs. reservation_pages r) = reserved_pages (physical_pool s)"

lemma logical_inv_spend: "logical_inv s (r # rs) \<Longrightarrow> may_spend s r"
  by (auto simp: logical_inv_def may_spend_def)

lemma logical_inv_step:
  assumes "logical_inv s (r # rs)" "store_step s r s' r'"
  shows "logical_inv s' (r' # rs)"
  using assms by (auto simp: logical_inv_def store_step_def reservation_belongs_to_def)

lemma logical_inv_page:
  assumes "logical_inv s rs" "store_step s null_reservation s' null_reservation"
  shows "logical_inv s' rs"
  using assms by (auto simp: logical_inv_def store_step_def reservation_belongs_to_def)

lemma call_page_step:
  assumes "store_inv s" "call_page c s = Inr s'"
  shows "store_step s r s' r"
proof (cases c)
  case (DropDevice h)
  then show ?thesis using assms drop_device_replica_step [OF assms(1)] by auto
next
  case (ReleaseReference h w)
  then show ?thesis using assms release_reference_step [OF assms(1), of h w r] by auto
next
  case (ReleasePage h)
  then show ?thesis using assms release_logical_step [OF assms(1), of h r] by auto
next
  case (DetachHost h e)
  then show ?thesis using assms detach_host_replica_step [OF assms(1), of h e r] by auto
qed (use assms in \<open>simp_all add: publish_transfer_destination_step publish_device_replica_step
    retain_active_reference_step release_active_reference_step retain_reference_step set_writer_step
    protect_coverage_step set_protected_coverage_step clear_protection_step pin_source_step unpin_source_step
    commit_coverage_step destructive_truncate_step destructive_truncate_inactive_step attach_host_replica_step
    rebind_host_replica_step\<close>)

lemma call_reserved_step:
  assumes "store_inv s" "may_spend s r" "call_reserved c s r = Inr (s', r')"
  shows "store_step s r s' r'"
proof (cases c)
  case MaterializePage
  then show ?thesis using assms materialize_logical_step(1) [OF assms(1,2)]
    by (cases "materialize_logical s r") auto
next
  case (MaterializeBatch ds pred)
  then show ?thesis using assms materialize_batch_step(1) [OF assms(1,2)]
    by (cases "materialize_batch s r ds pred") auto
next
  case (MaterializeTransfer n)
  then show ?thesis using assms materialize_transfer_destination_step(1) [OF assms(1,2)]
    by (cases "materialize_transfer_destination s r n") auto
next
  case (AbortTransfer h)
  then show ?thesis using assms abort_transfer_destination_step [OF assms(1,2), of h] by auto
next
  case (ReserveDevice h)
  then show ?thesis using assms reserve_device_replica_step(1) [OF assms(1,2)]
    by (cases "reserve_device_replica s h r") auto
next
  case (AbortDevice h)
  then show ?thesis using assms abort_device_replica_step [OF assms(1,2), of h] by auto
next
  case (DematerializePage h)
  then show ?thesis using assms dematerialize_logical_step [OF assms(1,2)] by auto
qed

lemma store_inv_held: "store_inv s \<Longrightarrow> leases_held (physical_pool s) (store_leases s)"
  by (simp add: store_inv_with_def)

lemma logical_inv_reserved:
  assumes "logical_inv s rs" "pool_inv ((physical_pool s)\<lparr>reserved_pages := n\<rparr>)"
    "\<forall>r \<in> set rs'. reservation_belongs_to r (physical_pool s)" "(\<Sum>r \<leftarrow> rs'. reservation_pages r) = n"
  shows "logical_inv (s\<lparr>physical_pool := (physical_pool s)\<lparr>reserved_pages := n\<rparr>\<rparr>) rs'"
proof -
  have inv: "store_inv s" using assms(1) by (simp add: logical_inv_def)
  have "store_inv (s\<lparr>physical_pool := (physical_pool s)\<lparr>reserved_pages := n\<rparr>\<rparr>)"
    using leases_held_reserved [OF store_inv_held [OF inv] assms(2)] by (intro store_inv_with_pool [OF inv]) simp_all
  then show ?thesis using assms by (auto simp: logical_inv_def reservation_belongs_to_def)
qed

lemma logical_reachable_inv: "logical_reachable s rs \<Longrightarrow> logical_inv s rs"
proof (induction rule: logical_reachable.induct)
  case (start pid backing l p self n s)
  have "physical_pool s = p" using start(2) by (auto simp: new_logical_store_def split: if_splits)
  moreover have "reserved_pages p = 0" using start(1) by (auto simp: new_device_pool_def Let_def split: if_splits)
  ultimately show ?case using new_logical_store_inv [OF start] by (simp add: logical_inv_def)
next
  case (opened s rs)
  then show ?case by (auto simp: logical_inv_def make_empty_reservation_def reservation_belongs_to_def)
next
  case (resized s r rs n p r')
  have held: "pool_inv (physical_pool s)" "reservation_pages r \<le> reserved_pages (physical_pool s)"
    using resized.IH store_inv_held leases_held_inv by (auto simp: logical_inv_def)
  note R = resize_reservation_inv(2) [OF held resized.hyps(2,3)]
  have p: "p = (physical_pool s)\<lparr>reserved_pages := reserved_pages (physical_pool s) - reservation_pages r + n\<rparr>"
    "r' = r\<lparr>reservation_pages := n\<rparr>" using R by auto
  show ?case unfolding p using resized.IH R
    by (intro logical_inv_reserved [OF resized.IH]) (auto simp: logical_inv_def reservation_belongs_to_def)
next
  case (closed s r rs p r')
  have held: "pool_inv (physical_pool s)" "reservation_pages r \<le> reserved_pages (physical_pool s)"
    using closed.IH store_inv_held leases_held_inv by (auto simp: logical_inv_def)
  have "reservation_owner r \<noteq> None" using closed.IH by (auto simp: logical_inv_def reservation_belongs_to_def)
  then have "p = (physical_pool s)\<lparr>reserved_pages := reserved_pages (physical_pool s) - reservation_pages r\<rparr>"
    using closed.hyps(2) release_reservation_inv(1) [OF held] by (auto simp: reservation_release_def)
  then show ?case using closed.IH release_reservation_inv(2) [OF held]
    by simp (intro logical_inv_reserved [OF closed.IH], auto simp: logical_inv_def)
next
  case (picked s rs rs')
  have "set rs' = set rs" using picked.hyps(2) by (metis set_mset_mset)
  moreover have "(\<Sum>r \<leftarrow> rs'. reservation_pages r) = (\<Sum>r \<leftarrow> rs. reservation_pages r)"
    using picked.hyps(2) by (metis mset_map sum_mset_sum_list)
  ultimately show ?case using picked.IH by (simp add: logical_inv_def)
next
  case (page s rs c s')
  have "store_inv s" using page.IH by (simp add: logical_inv_def)
  from call_page_step [OF this page.hyps(2)] show ?case by (rule logical_inv_page [OF page.IH])
next
  case (reserved s r rs c s' r')
  have "store_inv s" using reserved.IH by (simp add: logical_inv_def)
  from call_reserved_step [OF this logical_inv_spend [OF reserved.IH] reserved.hyps(2)]
  show ?case by (rule logical_inv_step [OF reserved.IH])
qed

section \<open>An example\<close>

text \<open>Six logical pages over the four physical pages of the example pool, two of which are reserved, and
  one page materialised.\<close>

definition example_store :: LogicalKVPageStore where
  "example_store = \<lparr>store_id = 11, physical_pool = example_pool, store_pages = replicate 6 vacant_page,
     free_slots = [5, 4, 3, 2, 1, 0], scratch_capacity = 4, free_count = 6\<rparr>"

definition example_reserved :: LogicalKVPageStore where
  "example_reserved = example_store\<lparr>physical_pool := example_pool\<lparr>reserved_pages := 2\<rparr>\<rparr>"

definition example_right :: DeviceKVPageReservation where
  "example_right = \<lparr>reservation_owner = Some 7, reservation_pages = 2\<rparr>"

definition example_page :: LogicalKVPageHandle where
  "example_page = \<lparr>logical_owner = Some 11, logical_index = 0, logical_generation = 1\<rparr>"

definition example_lease :: DeviceKVPageLease where
  "example_lease = \<lparr>lease_owner = Some 7, lease_index = 0, lease_generation = 1\<rparr>"

definition example_filled :: LogicalKVPageStore where
  "example_filled = example_store\<lparr>physical_pool := example_pool\<lparr>free_page_runs := [\<lparr>run_begin = 1, run_count = 3\<rparr>],
       page_allocated := [True, False, False, False], allocated_pages := 1, reserved_pages := 1\<rparr>,
     store_pages := fresh_page example_lease vacant_page # replicate 5 vacant_page, free_count := 5\<rparr>"

lemma example_store_reachable: "logical_reachable example_store []"
proof (rule logical_reachable.start [OF example_pool_new])
  have "[0..<6] = [0, 1, 2, 3, 4, 5]" by (simp add: numeral_eq_Suc)
  then show "new_logical_store 11 example_pool 6 = Inr example_store"
    by (simp add: new_logical_store_def example_store_def capacity_pages_def example_pool_def example_spec_def)
qed (simp add: u32_max_def)

lemma example_reserved_reachable: "logical_reachable example_reserved [example_right]"
proof -
  have A: "logical_reachable example_store [make_empty_reservation (physical_pool example_store)]"
    by (rule logical_reachable.opened [OF example_store_reachable])
  have B: "resize_reservation (physical_pool example_store) (make_empty_reservation (physical_pool example_store)) 2
      = Inr (example_pool\<lparr>reserved_pages := 2\<rparr>, example_right)"
    by (simp add: resize_reservation_def can_resize_reservation_def make_empty_reservation_def example_store_def
        reservation_belongs_to_def example_right_def example_pool_def capacity_pages_def example_spec_def
        u32_add_def u32_sub_def u64_add_def u32_max_def u64_max_def)
  show ?thesis using logical_reachable.resized [OF A _ B] unfolding example_reserved_def by (simp add: u32_max_def)
qed

lemma six_pages: "replicate 6 x = [x, x, x, x, x, x]" "replicate 5 x = [x, x, x, x, x]"
  by (simp_all add: numeral_eq_Suc)

lemma example_materialize: "materialize_logical example_reserved example_right
    = Inr (example_filled, example_right\<lparr>reservation_pages := 1\<rparr>, example_page)"
  by (simp add: materialize_logical_def example_reserved_def example_store_def example_right_def example_pool_def
      materialize_one_def reservation_belongs_to_def install_page_def put_page_def drop_lease_def
      vacant_page_def example_page_def u32_sub_def u32_add_def u32_max_def example_filled_def
      six_pages fresh_page_def example_lease_def)

lemma example_filled_facts:
  "valid_page example_filled example_page" "page_at example_filled example_page = fresh_page example_lease vacant_page"
  by (simp_all add: example_filled_def example_page_def valid_page_def page_at_def example_store_def fresh_page_def
      vacant_page_def)

lemma example_filled_reachable: "logical_reachable example_filled [example_right\<lparr>reservation_pages := 1\<rparr>]"
proof (rule logical_reachable.reserved [OF example_reserved_reachable])
  show "call_reserved MaterializePage example_reserved example_right
      = Inr (example_filled, example_right\<lparr>reservation_pages := 1\<rparr>)" by (simp add: example_materialize)
qed

text \<open>A second page.\<close>

definition example_page_2 :: LogicalKVPageHandle where
  "example_page_2 = \<lparr>logical_owner = Some 11, logical_index = 1, logical_generation = 1\<rparr>"

definition example_lease_2 :: DeviceKVPageLease where
  "example_lease_2 = \<lparr>lease_owner = Some 7, lease_index = 1, lease_generation = 1\<rparr>"

definition example_filled_2 :: LogicalKVPageStore where
  "example_filled_2 = example_store\<lparr>physical_pool := example_pool\<lparr>free_page_runs := [\<lparr>run_begin = 2, run_count = 2\<rparr>],
       page_allocated := [True, True, False, False], allocated_pages := 2, reserved_pages := 0\<rparr>,
     store_pages := fresh_page example_lease vacant_page # fresh_page example_lease_2 vacant_page # replicate 4 vacant_page,
     free_count := 4\<rparr>"

lemma example_materialize_2: "materialize_logical example_filled (example_right\<lparr>reservation_pages := 1\<rparr>)
    = Inr (example_filled_2, example_right\<lparr>reservation_pages := 0\<rparr>, example_page_2)"
  by (simp add: materialize_logical_def example_filled_def example_store_def example_right_def example_pool_def
      materialize_one_def reservation_belongs_to_def install_page_def put_page_def drop_lease_def
      vacant_page_def example_page_2_def u32_sub_def u32_add_def u32_max_def example_filled_2_def
      six_pages four_and_two fresh_page_def example_lease_2_def)

lemma example_filled_2_reachable: "logical_reachable example_filled_2 [example_right\<lparr>reservation_pages := 0\<rparr>]"
proof (rule logical_reachable.reserved [OF example_filled_reachable])
  show "call_reserved MaterializePage example_filled (example_right\<lparr>reservation_pages := 1\<rparr>)
      = Inr (example_filled_2, example_right\<lparr>reservation_pages := 0\<rparr>)" by (simp add: example_materialize_2 [unfolded One_nat_def])
qed

text \<open>The first page copied to the host, its writer gone and its device page dropped.\<close>

definition example_replica :: HostKVPageReplica where
  "example_replica = \<lparr>replica_extent = \<lparr>extent_owner = Some 5, extent_index = 0, extent_generation = 1\<rparr>,
     replica_offset = 0, replica_node = 0, replica_epoch = 1, replica_columns = 0\<rparr>"

definition example_offloaded :: LogicalKVPageStore where
  "example_offloaded = fst (drop_device_replica
     (projr (res_bind (set_writer example_filled example_page False) (\<lambda>s. attach_host_replica s example_page example_replica)))
     example_page)"

lemma example_offload:
  obtains s1 s2 where "set_writer example_filled example_page False = Inr s1"
    "attach_host_replica s1 example_page example_replica = Inr s2"
    "example_offloaded = fst (drop_device_replica s2 example_page)"
    "host_replica (page_at s2 example_page) = Some example_replica"
proof -
  define pg where "pg = (fresh_page example_lease vacant_page)\<lparr>writer_references := 0\<rparr>"
  define s1 where "s1 = put_page example_filled 0 pg"
  define s2 where "s2 = put_page s1 0 (pg\<lparr>host_replica := Some example_replica\<rparr>)"
  have i: "logical_index example_page = 0" by (simp add: example_page_def)
  have A: "set_writer example_filled example_page False = Inr s1"
    by (simp add: set_writer_def change_page_def require_page_def example_filled_facts s1_def pg_def i)
  have at: "page_at s1 example_page = pg" "valid_page s1 example_page"
    by (simp_all add: s1_def page_at_def put_page_def i valid_page_def example_page_def example_filled_def example_store_def
        pg_def fresh_page_def vacant_page_def)
  have B: "attach_host_replica s1 example_page example_replica = Inr s2"
    by (simp add: attach_host_replica_def change_page_def require_page_def at example_replica_def u32_max_def
        can_attach_host_replica_def s2_def i pg_def fresh_page_def vacant_page_def next_epoch_def)
  have "page_at s2 example_page = pg\<lparr>host_replica := Some example_replica\<rparr>"
    by (simp add: s2_def page_at_def put_page_def i s1_def example_filled_def)
  then show ?thesis using that [OF A B] by (simp add: example_offloaded_def A B)
qed

lemma example_offloaded_reachable:
  "logical_reachable example_offloaded [example_right\<lparr>reservation_pages := 1\<rparr>]"
proof -
  obtain s1 s2 where s: "set_writer example_filled example_page False = Inr s1"
    "attach_host_replica s1 example_page example_replica = Inr s2"
    "example_offloaded = fst (drop_device_replica s2 example_page)" by (rule example_offload)
  have "logical_reachable s1 [example_right\<lparr>reservation_pages := 1\<rparr>]"
    by (rule logical_reachable.page [OF example_filled_reachable, of "SetWriter example_page False"]) (simp add: s)
  then have "logical_reachable s2 [example_right\<lparr>reservation_pages := 1\<rparr>]"
    by (rule logical_reachable.page [where c = "AttachHost example_page example_replica"]) (simp add: s)
  then show ?thesis
    by (rule logical_reachable.page [where c = "DropDevice example_page"]) (simp add: s)
qed

section \<open>Faults\<close>

lemma change_page_fault:
  "change_page s h guard f = Inl e \<Longrightarrow> e = InvalidArgument \<or> guard (page_at s h) = Some e"
  by (auto simp: change_page_def require_page_def split: if_splits option.splits)

lemmas counter_calls =
  retain_active_reference_def release_active_reference_def retain_reference_def set_writer_def protect_coverage_def
  set_protected_coverage_def clear_protection_def pin_source_def unpin_source_def commit_coverage_def
  destructive_truncate_def destructive_truncate_inactive_def attach_host_replica_def

lemma call_page_fault:
  assumes inv: "store_inv s" and run: "call_page c s = Inl e"
  shows "e = InvalidArgument \<or> e = LogicError \<or> e = OverflowError
    \<or> (e = Terminate \<and> ((\<exists>h w. c = PublishTransfer h w \<and> \<not> (valid_page s h \<and> unpublished_transfer (page_at s h)))
         \<or> (\<exists>h x y. c = RebindHost h x y)))"
proof (cases c)
  case (PublishTransfer h w)
  then show ?thesis using run by (auto simp: publish_transfer_destination_def Let_def split: if_splits)
next
  case (RebindHost h x y)
  then show ?thesis using run by (auto simp: rebind_host_replica_def Let_def split: if_splits)
next
  case (PublishDevice h)
  then show ?thesis using run
    by (auto simp: publish_device_replica_def require_page_def res_bind_eq_Inl split: if_splits)
next
  case (ReleaseReference h w)
  then show ?thesis using run release_reference_step [OF inv, of h w null_reservation] by auto
next
  case (ReleasePage h)
  then show ?thesis using run release_logical_step [OF inv, of h null_reservation] by auto
next
  case (DetachHost h x)
  then show ?thesis using run detach_host_replica_step [OF inv, of h x null_reservation] by auto
qed (use run in \<open>auto simp: counter_calls dest!: change_page_fault split: if_splits\<close>)

lemma take_page_fault:
  assumes "store_inv s" "may_spend s r" "0 < free_count s" "take_page mk s r = Inl e"
    "\<And>l pg. page_ok pg \<Longrightarrow> \<not> page_occupied pg \<Longrightarrow>
      page_ok (mk l pg) \<and> page_occupied (mk l pg) \<and> page_leases (mk l pg) = {#l#}"
  shows "e = InvalidArgument"
proof (cases "0 < reservation_pages r")
  case True
  have "\<exists>x. take_page mk s r = Inr x"
    by (rule take_page_step [OF assms(1,2) True assms(3), of mk]) (use assms(5) in blast)+
  then show ?thesis using assms(4) by simp
next
  case False
  then show ?thesis using take_page_none [of r s mk] assms(4) by auto
qed

lemma materialize_batch_fault:
  assumes inv: "store_inv s" and r: "may_spend s r" and run: "materialize_batch s r ds pred = Inl e"
  shows "e = InvalidArgument \<or> e = LogicError"
proof (rule ccontr)
  assume e: "\<not> (e = InvalidArgument \<or> e = LogicError)"
  define n where "n = length ds"
  define slots where "slots = batch_slots s n"
  have held: "leases_held (physical_pool s) (store_leases s)" using inv by (simp add: store_inv_with_def)
  have mat: "materialize (physical_pool s) r n (scratch_capacity s) [] ph = Inl InvalidArgument
      \<or> (\<exists>p r' ls. materialize (physical_pool s) r n (scratch_capacity s) [] ph = Inr (p, r', ls)
          \<and> grants (physical_pool s) p ls \<and> length ls = n)" for ph
    using materialize_cases [OF leases_held_inv [OF held], of r "[]" n "scratch_capacity s" ph] r
    by (auto simp: may_spend_def leases_current_def)
  obtain ph where le: "n \<le> free_count s"
    and ph: "res_bind (materialize (physical_pool s) r n (scratch_capacity s) [] ph) (\<lambda>(p, r', ls).
        res_bind (install_fresh (s\<lparr>physical_pool := p\<rparr>) slots ls) (\<lambda>(s', hs).
          Inr (s'\<lparr>free_count := u32_sub (free_count s') n\<rparr>, r', hs))) = Inl e"
  proof -
    define q where "q = (case pred of None \<Rightarrow> Inr None | Some h \<Rightarrow> res_bind (physical s h) (\<lambda>ph. Inr (Some ph)))"
    have "q = Inl e \<Longrightarrow> False" using e
      by (auto simp: q_def physical_def require_page_def res_bind_eq_Inl split: option.splits if_splits)
    then show ?thesis using run e that
      by (cases q) (auto simp: materialize_batch_def Let_def n_def [symmetric] slots_def [symmetric] q_def [symmetric]
          split: if_splits)
  qed
  obtain p r' ls where m: "materialize (physical_pool s) r n (scratch_capacity s) [] ph = Inr (p, r', ls)"
    and i: "install_fresh (s\<lparr>physical_pool := p\<rparr>) slots ls = Inl e"
    using mat [of ph] ph e by (auto simp: res_bind_eq_Inl)
  then have g: "grants (physical_pool s) p ls" "length ls = n" using mat [of ph] by auto
  have "store_inv_with (mset ls) (s\<lparr>physical_pool := p\<rparr>)"
    using g(1) leases_held_grant [OF held g(1)] by (intro store_inv_with_pool [OF inv]) (simp_all add: grants_def)
  then have "store_inv_with (mset ls) (s\<lparr>physical_pool := p, free_count := free_count s\<rparr>)" by simp
  from install_fresh_inv [OF this, of slots] g(2) le i show False by (auto simp: slots_def batch_slots_def)
qed

lemma call_reserved_fault:
  assumes inv: "store_inv s" and r: "may_spend s r" and run: "call_reserved c s r = Inl e"
  shows "e = InvalidArgument \<or> e = LogicError
    \<or> (e = Terminate \<and> (\<exists>h. c = DematerializePage h \<and> 0 < active_references (page_at s h)))"
proof (cases c)
  case MaterializePage
  then show ?thesis using run take_page_fault [OF inv r, where mk = fresh_page and e = e] fresh_page_ok
    by (cases "free_count s = 0"; cases "take_page fresh_page s r") (auto simp: materialize_logical_take)
next
  case (MaterializeBatch ds pred)
  then show ?thesis using run materialize_batch_fault [OF inv r, of ds pred e]
    by (cases "materialize_batch s r ds pred") auto
next
  case (MaterializeTransfer n)
  then show ?thesis using run take_page_fault [OF inv r, where mk = "\<lambda>l. transfer_page l n" and e = e] transfer_page_ok
    by (cases "take_page (\<lambda>l. transfer_page l n) s r") (auto simp: materialize_transfer_take split: if_splits)
next
  case (AbortTransfer h)
  then show ?thesis using run abort_transfer_destination_step [OF inv r, of h] by auto
next
  case (ReserveDevice h)
  have "materialize_one (physical_pool s) r = Inl x \<Longrightarrow> x = InvalidArgument" for x
  proof (cases "0 < reservation_pages r")
    case True
    have "\<exists>y. materialize_one (physical_pool s) r = Inr y" by (rule spend_one [OF inv r True]) blast
    then show "materialize_one (physical_pool s) r = Inl x \<Longrightarrow> x = InvalidArgument" by auto
  next
    case False
    then show "materialize_one (physical_pool s) r = Inl x \<Longrightarrow> x = InvalidArgument" using spend_none [of r s] by auto
  qed
  then show ?thesis using run ReserveDevice
    by (cases "reserve_device_replica s h r")
      (auto simp: reserve_device_replica_def require_page_def res_bind_eq_Inl split: if_splits)
next
  case (AbortDevice h)
  then show ?thesis using run abort_device_replica_step [OF inv r, of h] by auto
next
  case (DematerializePage h)
  show ?thesis
  proof (cases "can_dematerialize s h")
    case False
    then show ?thesis using run DematerializePage
      by (auto simp: dematerialize_logical_def require_page_def can_dematerialize_def Let_def split: if_splits)
  next
    case True
    then have v: "valid_page s h" by (auto simp: can_dematerialize_def split: if_splits)
    obtain l where l: "device_replica (page_at s h) = Some l"
      using True by (auto simp: can_dematerialize_def Let_def split: if_splits)
    show ?thesis
    proof (cases "active_references (page_at s h) = 0")
      case True
      then show ?thesis using dematerialize_logical_ok [OF inv r \<open>can_dematerialize s h\<close>] run DematerializePage by auto
    next
      case False
      have gb: "give_back_page s h r l = Inl e" using run DematerializePage \<open>can_dematerialize s h\<close> v l
        by (simp add: dematerialize_logical_def require_page_def can_dematerialize_def Let_def)
      note w = valid_page_ok [OF inv v]
      obtain p where d: "dematerialize_one (physical_pool s) r l
          = Inr (p, r\<lparr>reservation_pages := reservation_pages r + 1\<rparr>, null_lease)"
        using return_replica_inv [OF inv v r without_device(1) [OF l] page_ok_without_device(1) [OF w(3)]] w(2) by auto
      have "e = Terminate" using gb d w(1) False
        by (simp add: give_back_page_def release_page_descriptor_def put_page_def)
      then show ?thesis using False DematerializePage by simp
    qed
  qed
qed

section \<open>Properties\<close>

text \<open>C4: In every reachable store two logical pages never share a physical page: the device handles two
  different descriptors resolve to name different pages, and the pool accepts them.\<close>

theorem logical_pages_exclusive:
  assumes "logical_reachable s rs" "physical s h = Inr d" "physical s k = Inr e" "logical_index h \<noteq> logical_index k"
  shows "handle_index d \<noteq> handle_index e \<and> valid_handle (physical_pool s) d \<and> valid_handle (physical_pool s) e"
proof -
  have inv: "store_inv s" using logical_reachable_inv [OF assms(1)] by (simp add: logical_inv_def)
  obtain l where l: "valid_page s h" "device_replica (page_at s h) = Some l" "d = lease_handle l"
    using assms(2) by (auto simp: physical_def require_page_def split: if_splits option.splits)
  obtain m where m: "valid_page s k" "device_replica (page_at s k) = Some m" "e = lease_handle m"
    using assms(3) by (auto simp: physical_def require_page_def split: if_splits option.splits)
  note held = store_inv_held [OF inv]
  have live: "lease_belongs_to l (physical_pool s)" "valid_handle (physical_pool s) d"
    "lease_belongs_to m (physical_pool s)" "valid_handle (physical_pool s) e"
    using leases_held_live [OF held page_lease_held(1) [OF inv l(1,2)]]
      leases_held_live [OF held page_lease_held(1) [OF inv m(1,2)]] l(3) m(3) by auto
  have "{#l, m#} \<subseteq># store_leases s" unfolding store_leases_def
    using l m valid_page_ok [OF inv l(1)] valid_page_ok [OF inv m(1)] assms(4)
    by (intro two_in_sum_mset [of "logical_index h" _ "logical_index k"]) (simp_all add: page_leases_def)
  from leases_held_apart [OF held this] show ?thesis using live live_lease_index l(3) m(3) by metis
qed

theorem logical_pages_exclusive_witness:
  "\<exists>d e. physical example_filled_2 example_page = Inr d \<and> physical example_filled_2 example_page_2 = Inr e
     \<and> handle_index d \<noteq> handle_index e"
proof -
  have "physical example_filled_2 example_page = Inr (lease_handle example_lease)"
    "physical example_filled_2 example_page_2 = Inr (lease_handle example_lease_2)"
    "logical_index example_page \<noteq> logical_index example_page_2"
    by (simp_all add: physical_def require_page_def valid_page_def page_at_def example_filled_2_def example_page_def
        example_page_2_def example_store_def fresh_page_def vacant_page_def)
  from logical_pages_exclusive [OF example_filled_2_reachable this] this show ?thesis by blast
qed

text \<open>C5: In every reachable store the pool's allocated count is the number of device replicas, pending ones
  included, its reserved count is the sum of the reservations outstanding, and the occupied count of the
  store is the number of its occupied descriptors.\<close>

theorem logical_counters_exact:
  assumes "logical_reachable s rs"
  shows "allocated_pages (physical_pool s) = (\<Sum>pg \<leftarrow> store_pages s.
      (if device_replica pg = None then 0 else 1) + (if pending_device_replica pg = None then 0 else 1))
    \<and> reserved_pages (physical_pool s) = (\<Sum>r \<leftarrow> rs. reservation_pages r)
    \<and> store_occupied s = length (filter page_occupied (store_pages s))"
proof -
  have inv: "store_inv s" "(\<Sum>r \<leftarrow> rs. reservation_pages r) = reserved_pages (physical_pool s)"
    using logical_reachable_inv [OF assms] by (simp_all add: logical_inv_def)
  have one: "size (page_leases pg)
      = (if device_replica pg = None then 0 else 1) + (if pending_device_replica pg = None then 0 else 1)" for pg
    by (cases "device_replica pg"; cases "pending_device_replica pg") (simp_all add: page_leases_def)
  have "size (\<Sum>pg \<leftarrow> pgs. page_leases pg) = (\<Sum>pg \<leftarrow> pgs.
      (if device_replica pg = None then 0 else 1) + (if pending_device_replica pg = None then 0 else 1))" for pgs
    by (induction pgs) (simp_all add: one)
  then have al: "allocated_pages (physical_pool s) = (\<Sum>pg \<leftarrow> store_pages s.
      (if device_replica pg = None then 0 else 1) + (if pending_device_replica pg = None then 0 else 1))"
    using store_inv_held [OF inv(1)] by (simp add: leases_held_def store_leases_def)
  have sl: "slots_ok s" using inv(1) by (simp add: store_inv_with_def)
  have "free_count s = card (vacant s)" using sl
    by (metis distinct_card length_take min.absorb2 slots_ok_def)
  also have "vacant s = {i. i < length (store_pages s) \<and> \<not> page_occupied (store_pages s ! i)}" by (simp add: vacant_def)
  also have "card \<dots> = length (filter (\<lambda>pg. \<not> page_occupied pg) (store_pages s))"
    by (simp add: length_filter_conv_card)
  finally have "store_occupied s = length (filter page_occupied (store_pages s))"
    using sum_length_filter_compl [of page_occupied "store_pages s"] sl
    by (simp add: store_occupied_def store_capacity_def slots_ok_def width_simps)
  then show ?thesis using al inv(2) by simp
qed

theorem logical_counters_exact_witness:
  "allocated_pages (physical_pool example_filled_2) = 2 \<and> store_occupied example_filled_2 = 2"
  using logical_counters_exact [OF example_filled_2_reachable]
  by (simp add: example_filled_2_def example_store_def fresh_page_def vacant_page_def six_pages four_and_two)

text \<open>C6: In every reachable store the host replica of a live page belongs to the page's current content and
  covers a prefix of its committed columns; the protected columns lie inside the committed ones and these
  inside one page; the replica counts as current exactly when it covers all committed columns.\<close>

theorem host_replica_prefix:
  assumes "logical_reachable s rs" "valid_page s h" "host_replica (page_at s h) = Some x"
  shows "replica_epoch x = content_epoch (page_at s h) \<and> replica_columns x \<le> committed_columns (page_at s h)
    \<and> protected_columns (page_at s h) \<le> committed_columns (page_at s h) \<and> committed_columns (page_at s h) \<le> page_size
    \<and> host_replica_current s h = (replica_columns x = committed_columns (page_at s h))"
proof -
  have inv: "store_inv s" using logical_reachable_inv [OF assms(1)] by (simp add: logical_inv_def)
  show ?thesis using valid_page_ok(2,3) [OF inv assms(2)] assms(2,3)
    by (simp add: page_ok_def host_replica_current_def replica_current_def)
qed

theorem host_replica_prefix_witness:
  "\<exists>s. logical_reachable s [example_right\<lparr>reservation_pages := 1\<rparr>] \<and> valid_page s example_page
     \<and> host_replica_current s example_page = (replica_columns example_replica = committed_columns (page_at s example_page))"
proof -
  obtain s1 s2 where s: "set_writer example_filled example_page False = Inr s1"
    "attach_host_replica s1 example_page example_replica = Inr s2"
    "host_replica (page_at s2 example_page) = Some example_replica" by (rule example_offload)
  have "logical_reachable s1 [example_right\<lparr>reservation_pages := 1\<rparr>]"
    by (rule logical_reachable.page [OF example_filled_reachable, of "SetWriter example_page False"]) (simp add: s)
  then have r: "logical_reachable s2 [example_right\<lparr>reservation_pages := 1\<rparr>]"
    by (rule logical_reachable.page [where c = "AttachHost example_page example_replica"]) (simp add: s)
  have "s2 = put_page s1 (logical_index example_page) ((page_at s1 example_page)\<lparr>host_replica := Some example_replica\<rparr>)"
    "valid_page s1 example_page"
    using s(2) by (auto simp: attach_host_replica_def change_page_def require_page_def split: if_splits)
  then have v: "valid_page s2 example_page" by (simp add: valid_page_def put_page_def page_at_def)
  show ?thesis using host_replica_prefix [OF r v s(3)] r v by blast
qed

text \<open>C7: Giving up the last reference of a page without a host replica always succeeds, retires its handle
  (its generation moves on) and leaves every handle to another page as it was.\<close>

theorem last_reference_retires:
  assumes "logical_reachable s rs" "can_release_reference s h writer" "references (page_at s h) = 1"
    "host_replica (page_at s h) = None"
  shows "\<exists>s'. release_reference s h writer = Inr (s', True) \<and> \<not> valid_page s' h
    \<and> page_gen (page_at s' h) \<noteq> logical_generation h
    \<and> (\<forall>k. logical_index k \<noteq> logical_index h \<longrightarrow> valid_page s' k = valid_page s k \<and> page_at s' k = page_at s k)"
proof -
  have inv: "store_inv s" using logical_reachable_inv [OF assms(1)] by (simp add: logical_inv_def)
  have v: "valid_page s h" using assms(2) by (auto simp: can_release_reference_def split: if_splits)
  obtain s' where s': "release_reference s h writer = Inr (s', True)"
    "store_step s null_reservation s' null_reservation"
    "\<And>j. j \<noteq> logical_index h \<Longrightarrow> store_pages s' ! j = store_pages s ! j"
    "\<not> page_occupied (page_at s' h) \<and> page_gen (page_at s' h) = increment_generation (page_gen (page_at s h))"
    using release_reference_outcome [OF inv assms(2)] assms(3,4) by metis
  have "page_gen (page_at s h) \<noteq> 0" "page_gen (page_at s h) = logical_generation h"
    using valid_page_ok(3) [OF inv v] v by (auto simp: page_ok_def valid_page_def page_at_def)
  then show ?thesis using s' increment_generation_changes
    by (intro exI [of _ s']) (auto simp: valid_page_def page_at_def store_step_def)
qed

theorem last_reference_retires_witness:
  "\<exists>s'. release_reference example_filled example_page True = Inr (s', True) \<and> \<not> valid_page s' example_page"
proof -
  have "can_release_reference example_filled example_page True"
    "references (page_at example_filled example_page) = 1" "host_replica (page_at example_filled example_page) = None"
    by (simp_all add: can_release_reference_def example_filled_facts fresh_page_def vacant_page_def)
  from last_reference_retires [OF example_filled_reachable this] show ?thesis by blast
qed

text \<open>C8: Reserving a device page for a host-only page and then aborting the restore gives the reservation back
  whole, leaves every descriptor as it was and kills the device handle that had been handed out.\<close>

theorem restore_abort_roundtrip:
  assumes "logical_reachable s (r # rs)" "reserve_device_replica s h r = Inr (s1, r1, d)"
  shows "\<exists>s2. abort_device_replica s1 h r1 = Inr (s2, r) \<and> store_pages s2 = store_pages s
    \<and> free_count s2 = free_count s \<and> reserved_pages (physical_pool s2) = reserved_pages (physical_pool s)
    \<and> valid_handle (physical_pool s1) d \<and> \<not> valid_handle (physical_pool s2) d"
proof -
  note li = logical_reachable_inv [OF assms(1)]
  have inv: "store_inv s" using li by (simp add: logical_inv_def)
  note R = reserve_device_replica_step [OF inv logical_inv_spend [OF li] assms(2)]
  have inv1: "store_inv s1" and spend: "may_spend s1 r1" using logical_inv_step [OF li R(1)] logical_inv_spend
    by (auto simp: logical_inv_def)
  obtain l where l: "pending_device_replica (page_at s1 h) = Some l" "lease_handle l = d" using R(5) by blast
  define pg where "pg = page_at s h"
  obtain p l' where v: "valid_page s h" and none: "pending_device_replica pg = None" "\<not> destination_pinned pg"
    and mat: "materialize_one (physical_pool s) r = Inr (p, r1, l')"
    and s1': "s1 = put_page (s\<lparr>physical_pool := p\<rparr>) (logical_index h)
      (pg\<lparr>pending_device_replica := Some l', destination_pinned := True\<rparr>)"
    using assms(2) by (auto simp: reserve_device_replica_def require_page_def pg_def split: if_splits)
  have "l' = l" using l(1) valid_page_ok(1) [OF inv v] by (simp add: s1' put_page_at)
  then have s1: "s1 = put_page (s\<lparr>physical_pool := p\<rparr>) (logical_index h)
      (pg\<lparr>pending_device_replica := Some l, destination_pinned := True\<rparr>)" using s1' by simp
  have r1: "r1 = r\<lparr>reservation_pages := reservation_pages r1\<rparr>"
    using mat by (auto simp: materialize_one_def Let_def split: if_splits list.splits)
  note w = valid_page_ok [OF inv v, folded pg_def]
  have v1: "valid_page s1 h" using v w(4) by (simp add: s1 valid_page_put)
  have at1: "page_at s1 h = pg\<lparr>pending_device_replica := Some l, destination_pinned := True\<rparr>"
    using w(1) by (simp add: s1 put_page_at)
  have "page_leases (page_at s1 h) = add_mset l (page_leases pg)" using none(1) by (simp add: at1 page_leases_def)
  from return_replica_inv [OF inv1 v1 spend this w(3,2)] obtain p2 where
    d: "dematerialize_one (physical_pool s1) r1 l = Inr (p2, r1\<lparr>reservation_pages := reservation_pages r1 + 1\<rparr>, null_lease)"
    and p2: "reserved_pages p2 = reserved_pages (physical_pool s1) + 1" "\<not> valid_handle p2 (lease_handle l)" by blast
  have whole: "r1\<lparr>reservation_pages := Suc (reservation_pages r1)\<rparr> = r" using R(3) by (subst r1) simp
  have "pg\<lparr>pending_device_replica := None, destination_pinned := False\<rparr> = pg" using none by (cases pg) simp
  then have "abort_device_replica s1 h r1 = Inr (put_page (s1\<lparr>physical_pool := p2\<rparr>) (logical_index h) pg, r)"
    using v1 d by (simp add: abort_device_replica_def at1 no_throw_def whole)
  moreover have "(store_pages s)[logical_index h := pg] = store_pages s" using w(4) by (metis list_update_id)
  moreover have "reserved_pages (physical_pool s1) + reservation_pages r = reserved_pages (physical_pool s) + reservation_pages r1"
    using R(1) by (simp add: store_step_def)
  ultimately show ?thesis using p2 R(2,3) l(2)
    by (intro exI [of _ "put_page (s1\<lparr>physical_pool := p2\<rparr>) (logical_index h) pg"]) (simp add: put_page_def s1)
qed

theorem restore_abort_roundtrip_witness:
  "\<exists>s1 r1 d s2. reserve_device_replica example_offloaded example_page (example_right\<lparr>reservation_pages := 1\<rparr>) = Inr (s1, r1, d)
     \<and> abort_device_replica s1 example_page r1 = Inr (s2, example_right\<lparr>reservation_pages := 1\<rparr>)
     \<and> \<not> valid_handle (physical_pool s2) d"
proof -
  define r where "r = example_right\<lparr>reservation_pages := 1\<rparr>"
  have "is_ok (reserve_device_replica example_offloaded example_page r)"
    by (simp add: example_offloaded_def r_def set_writer_def change_page_def require_page_def valid_page_def page_at_def
        example_filled_def example_page_def example_store_def fresh_page_def vacant_page_def put_page_def
        attach_host_replica_def example_replica_def u32_max_def can_attach_host_replica_def next_epoch_def
        drop_device_replica_def can_drop_device_replica_def host_replica_current_def replica_current_def
        drop_lease_def example_lease_def lease_release_def lease_valid_def valid_handle_def example_pool_def
        capacity_pages_def example_spec_def i32_of_u32_def i32_max_def release_page_def increment_generation_def
        release_free_page_def u32_sub_def u32_add_def reserve_device_replica_def materialize_one_def example_right_def
        reservation_belongs_to_def)
  then obtain s1 r1 d where res: "reserve_device_replica example_offloaded example_page r = Inr (s1, r1, d)"
    by (cases "reserve_device_replica example_offloaded example_page r") auto
  from restore_abort_roundtrip [OF example_offloaded_reachable [folded r_def] res] res
  show ?thesis unfolding r_def [symmetric] by blast
qed

text \<open>C9: A batch within the reservation and the free descriptors, into empty destinations and after a resident
  predecessor, is always granted: as many live handles to pairwise different pages as asked for, each
  empty, held by one writer, on a device page of its own; no other descriptor changes.\<close>

theorem batch_granted:
  assumes "logical_reachable s (r # rs)" "length ds \<le> reservation_pages r" "length ds \<le> free_count s"
    "list_all (\<lambda>d. d = null_logical) ds" "case pred of None \<Rightarrow> True | Some h \<Rightarrow> is_ok (physical s h)"
  shows "\<exists>s' r' hs. materialize_batch s r ds pred = Inr (s', r', hs) \<and> length hs = length ds
    \<and> reservation_pages r' + length ds = reservation_pages r \<and> distinct (map logical_index hs)
    \<and> list_all (\<lambda>h. valid_page s' h \<and> is_ok (physical s' h) \<and> committed_columns (page_at s' h) = 0
         \<and> references (page_at s' h) = 1 \<and> writer_references (page_at s' h) = 1) hs
    \<and> (\<forall>k. k \<notin> logical_index ` set hs \<longrightarrow> store_pages s' ! k = store_pages s ! k)"
proof -
  note li = logical_reachable_inv [OF assms(1)]
  have inv: "store_inv s" using li by (simp add: logical_inv_def)
  have ds: "\<forall>d \<in> set ds. logical_owner d = None" using assms(4) by (auto simp: list_all_iff null_logical_def)
  have pred: "\<forall>h. pred = Some h \<longrightarrow> valid_page s h \<and> device_replica (page_at s h) \<noteq> None"
    using assms(5) by (auto simp: physical_def require_page_def is_ok_def split: if_splits option.splits)
  obtain s' r' hs where run: "materialize_batch s r ds pred = Inr (s', r', hs)"
    using materialize_batch_granted [OF inv logical_inv_spend [OF li] assms(2,3) ds pred] by blast
  note B = materialize_batch_step [OF inv logical_inv_spend [OF li] run]
  have "list_all (\<lambda>h. valid_page s' h \<and> is_ok (physical s' h) \<and> committed_columns (page_at s' h) = 0
         \<and> references (page_at s' h) = 1 \<and> writer_references (page_at s' h) = 1) hs"
    unfolding list_all_iff
  proof
    fix h assume h: "h \<in> set hs"
    then obtain l where "page_at s' h = fresh_page l (store_pages s ! logical_index h)" "valid_page s' h"
      using B(3,7) by blast
    then show "valid_page s' h \<and> is_ok (physical s' h) \<and> committed_columns (page_at s' h) = 0
         \<and> references (page_at s' h) = 1 \<and> writer_references (page_at s' h) = 1"
      by (simp add: physical_def require_page_def fresh_page_def)
  qed
  then show ?thesis using run B by blast
qed

theorem batch_granted_witness:
  "\<exists>s' r' hs. materialize_batch example_reserved example_right [null_logical, null_logical] None = Inr (s', r', hs)
     \<and> length hs = 2 \<and> distinct (map logical_index hs)"
proof -
  have "length [null_logical, null_logical] \<le> reservation_pages example_right"
    "length [null_logical, null_logical] \<le> free_count example_reserved"
    "list_all (\<lambda>d. d = null_logical) [null_logical, null_logical]"
    "case None of None \<Rightarrow> True | Some h \<Rightarrow> is_ok (physical example_reserved h)"
    by (simp_all add: example_right_def example_reserved_def example_store_def)
  from batch_granted [OF example_reserved_reachable this] show ?thesis by auto
qed



end
