(* ===== verification/Actions.thy ===== *)
theory Actions
  imports Prelude
begin

text \<open>
  Methods that change their object and may throw on the way. An action takes the state of the
  object and returns the state it leaves together with its result; when it throws, the state is the one
  at the throw, as in C++, where nothing is rolled back. The combinators below are sequencing, guards
  that throw, loops over a list of indices, cleanup on a throw and the \<^verbatim>\<open>noexcept\<close> boundary.
\<close>

type_synonym ('s, 'a) action = "'s \<Rightarrow> 's \<times> 'a res"

definition act_return :: "'a \<Rightarrow> ('s, 'a) action" where
  "act_return x = (\<lambda>s. (s, Inr x))"

definition act_throw :: "exn \<Rightarrow> ('s, 'a) action" where
  "act_throw e = (\<lambda>s. (s, Inl e))"

definition act_bind :: "('s, 'a) action \<Rightarrow> ('a \<Rightarrow> ('s, 'b) action) \<Rightarrow> ('s, 'b) action" where
  "act_bind m f = (\<lambda>s. case m s of (s', Inl e) \<Rightarrow> (s', Inl e) | (s', Inr x) \<Rightarrow> f x s')"

definition act_then :: "('s, unit) action \<Rightarrow> ('s, 'b) action \<Rightarrow> ('s, 'b) action" where
  "act_then m k = act_bind m (\<lambda>_. k)"

text \<open>A query of the state that may throw, and a change of the state.\<close>

definition act_ask :: "('s \<Rightarrow> 'a res) \<Rightarrow> ('s, 'a) action" where
  "act_ask q = (\<lambda>s. (s, q s))"

definition act_change :: "('s \<Rightarrow> 's) \<Rightarrow> ('s, unit) action" where
  "act_change f = (\<lambda>s. (f s, Inr ()))"

text \<open>Throw \<open>e\<close> when the condition holds.\<close>

definition act_guard :: "('s \<Rightarrow> bool) \<Rightarrow> exn \<Rightarrow> ('s, unit) action" where
  "act_guard b e = (\<lambda>s. if b s then (s, Inl e) else (s, Inr ()))"

definition act_when :: "bool \<Rightarrow> ('s, unit) action \<Rightarrow> ('s, unit) action" where
  "act_when b m = (if b then m else act_return ())"

fun act_for :: "('x \<Rightarrow> ('s, unit) action) \<Rightarrow> 'x list \<Rightarrow> ('s, unit) action" where
  "act_for f [] = act_return ()"
| "act_for f (x # xs) = act_then (f x) (act_for f xs)"

text \<open>Run \<open>cleanup\<close> (a catch block that rethrows, or the destructors of locals) when \<open>m\<close> throws, then
  let the exception pass; what the cleanup itself throws replaces it.\<close>

definition act_cleanup :: "('s, 'a) action \<Rightarrow> ('s, unit) action \<Rightarrow> ('s, 'a) action" where
  "act_cleanup m cleanup = (\<lambda>s. case m s of
     (s', Inl e) \<Rightarrow> (case cleanup s' of (s'', Inl e') \<Rightarrow> (s'', Inl e') | (s'', Inr u) \<Rightarrow> (s'', Inl e))
   | (s', Inr x) \<Rightarrow> (s', Inr x))"

definition act_noexcept :: "('s, 'a) action \<Rightarrow> ('s, 'a) action" where
  "act_noexcept m = (\<lambda>s. case m s of
     (s', Inl e) \<Rightarrow> (s', Inl (if e = Undefined then Undefined else Terminate))
   | (s', Inr x) \<Rightarrow> (s', Inr x))"

named_theorems act_simps \<open>running actions\<close>

lemma act_return_run [act_simps, simp]: "act_return x s = (s, Inr x)"
  by (simp add: act_return_def)

lemma act_throw_run [act_simps, simp]: "act_throw e s = (s, Inl e)"
  by (simp add: act_throw_def)

lemma act_ask_run [act_simps]: "act_ask q s = (s, q s)"
  by (simp add: act_ask_def)

lemma act_change_run [act_simps, simp]: "act_change f s = (f s, Inr ())"
  by (simp add: act_change_def)

lemma act_guard_run [act_simps]: "act_guard b e s = (if b s then (s, Inl e) else (s, Inr ()))"
  by (simp add: act_guard_def)

lemma act_when_run [act_simps]: "act_when b m s = (if b then m s else (s, Inr ()))"
  by (simp add: act_when_def)

lemma act_bind_ok: "m s = (s', Inr x) \<Longrightarrow> act_bind m f s = f x s'"
  by (simp add: act_bind_def)

lemma act_then_ok: "m s = (s', Inr ()) \<Longrightarrow> act_then m k s = k s'"
  by (simp add: act_then_def act_bind_ok)

lemma act_bind_Inr:
  "act_bind m f s = (t, Inr y) \<longleftrightarrow> (\<exists>s' x. m s = (s', Inr x) \<and> f x s' = (t, Inr y))"
  by (auto simp: act_bind_def split: prod.splits sum.splits)

lemma act_then_Inr: "act_then m k s = (t, Inr y) \<longleftrightarrow> (\<exists>s'. m s = (s', Inr ()) \<and> k s' = (t, Inr y))"
  by (auto simp: act_then_def act_bind_Inr)

lemma act_bind_Inl:
  "act_bind m f s = (t, Inl e) \<longleftrightarrow> m s = (t, Inl e) \<or> (\<exists>s' x. m s = (s', Inr x) \<and> f x s' = (t, Inl e))"
  by (auto simp: act_bind_def split: prod.splits sum.splits)

lemma act_then_Inl:
  "act_then m k s = (t, Inl e) \<longleftrightarrow> m s = (t, Inl e) \<or> (\<exists>s'. m s = (s', Inr ()) \<and> k s' = (t, Inl e))"
  by (auto simp: act_then_def act_bind_Inl)

lemma act_cleanup_Inr: "act_cleanup m c s = (t, Inr y) \<longleftrightarrow> m s = (t, Inr y)"
  by (auto simp: act_cleanup_def split: prod.splits sum.splits)

lemma act_noexcept_Inr: "act_noexcept m s = (t, Inr y) \<longleftrightarrow> m s = (t, Inr y)"
  by (auto simp: act_noexcept_def split: prod.splits sum.splits)

lemma act_for_append: "act_for f (xs @ ys) s = act_then (act_for f xs) (act_for f ys) s"
  by (induction xs arbitrary: s) (auto simp: act_then_def act_bind_def act_return_def split: prod.splits sum.splits)

text \<open>An invariant that every round of a loop keeps.\<close>

lemma act_for_invariant:
  assumes "\<And>x s s' r. x \<in> set xs \<Longrightarrow> P s \<Longrightarrow> f x s = (s', r) \<Longrightarrow> P s'" "P s" "act_for f xs s = (t, r)"
  shows "P t"
  using assms
proof (induction xs arbitrary: s)
  case (Cons x xs)
  obtain s1 r1 where x: "f x s = (s1, r1)" by (metis surj_pair)
  have P1: "P s1" using Cons.prems(1) [OF _ Cons.prems(2) x] by simp
  show ?case
  proof (cases r1)
    case (Inl e)
    then show ?thesis using Cons.prems(3) x P1 by (simp add: act_then_def act_bind_def)
  next
    case (Inr u)
    then have "act_for f xs s1 = (t, r)" using Cons.prems(3) x by (simp add: act_then_def act_bind_def)
    from Cons.IH [OF _ P1 this] Cons.prems(1) show ?thesis by (meson list.set_intros(2))
  qed
qed simp

end
