(* ===== verification/Address_Space.thy ===== *)
theory Address_Space
  imports Logical_Page_Store Execution_Table Actions
begin

text \<open>
  The address spaces of the runtime (\<^verbatim>\<open>class KVAddressSpaceStore\<close> in
  \<^verbatim>\<open>src/runtime/logical_kv_store.h\<close>): each address is an ordered list of logical pages that holds
  the KV data of one sequence, inactive (retained) or active (bound to an execution row, with a
  reservation for its growth). The store's pointers to its page store and to its execution tables are
  the objects themselves here, as this store is what drives both. The scratch vector of a publication is
  a local list, and the asynchronous copies a publication hands to the CUDA stream are appended to
  the list \<open>issued\<close>. Methods are actions (theory Actions): a throw keeps the state reached so far, and
  the destructors of the local reservations and row leases that unwinding runs are written out. The
  transaction objects (activation, prefix fork, active snapshot) are records that their methods take
  and return.
\<close>

section \<open>State\<close>

record KVAddressSpaceHandle =
  space_owner :: "nat option"
  space_index :: nat
  space_generation :: u32

record Address =
  addr_generation :: u32
  page_count :: nat
  committed_frontier :: nat
  checkpoint_frontier :: nat
  addr_reservation :: DeviceKVPageReservation
  addr_row :: "KVExecutionRowLease option"
  addr_occupied :: bool
  addr_active :: bool

record KVAddressSpaceStore =
  space_id :: nat
  space_pages :: LogicalKVPageStore
  space_tables :: KVExecutionTablePool
  page_capacity :: nat
  addresses :: "Address list"
  space_free :: "nat list"
  memberships :: "LogicalKVPageHandle list"
  space_free_count :: nat
  issued :: "table_copy list"

record KVActivationReservation =
  activation_owner :: "nat option"
  activation_address :: KVAddressSpaceHandle
  requested_entitlement :: nat
  activation_frontier :: "nat option"
  activation_pages :: DeviceKVPageReservation
  activation_row :: "KVExecutionRowLease option"

record KVPrefixForkReservation =
  fork_owner :: "nat option"
  fork_source :: KVAddressSpaceHandle
  fork_destination :: KVAddressSpaceHandle
  fork_frontier :: nat
  fork_full_pages :: nat
  fork_tail_columns :: nat
  fork_entitlement :: nat
  fork_pages :: DeviceKVPageReservation
  fork_row :: "KVExecutionRowLease option"
  fork_tail :: "LogicalKVPageHandle option"
  staged_tail_release :: bool
  tail_source_settled :: bool

record KVActiveSnapshotShape =
  full_pages :: nat
  immutable_full_pages :: nat
  unique_full_pages :: nat
  tail_columns :: nat

record KVActiveSnapshotReservation =
  snapshot_owner :: "nat option"
  snapshot_source :: KVAddressSpaceHandle
  snapshot_destination :: KVAddressSpaceHandle
  snapshot_frontier :: nat
  snapshot_shape :: KVActiveSnapshotShape
  snapshot_entitlement :: nat
  tail_reservation :: DeviceKVPageReservation
  snapshot_tail :: "LogicalKVPageHandle option"

type_synonym 'a space_action = "(KVAddressSpaceStore, 'a) action"

definition fresh_address :: "u32 \<Rightarrow> Address" where
  "fresh_address gen = \<lparr>addr_generation = gen, page_count = 0, committed_frontier = 0, checkpoint_frontier = 0,
     addr_reservation = null_reservation, addr_row = None, addr_occupied = False, addr_active = False\<rparr>"

definition copied_pages :: "KVActiveSnapshotShape \<Rightarrow> nat" where
  "copied_pages sh = (if tail_columns sh = 0 then 0 else 1)"

definition fork_needs_tail_copy :: "KVPrefixForkReservation \<Rightarrow> bool" where
  "fork_needs_tail_copy v \<longleftrightarrow> fork_tail_columns v \<noteq> 0"

definition snapshot_needs_tail_copy :: "KVActiveSnapshotReservation \<Rightarrow> bool" where
  "snapshot_needs_tail_copy v \<longleftrightarrow> copied_pages (snapshot_shape v) \<noteq> 0"

section \<open>Helpers\<close>

definition checked_membership_cells :: "nat \<Rightarrow> nat \<Rightarrow> nat res" where
  "checked_membership_cells n_addresses n_pages =
     (if n_pages \<noteq> 0 \<and> n_addresses > u64_max div n_pages then Inl OverflowError
      else Inr (u64_mul n_addresses n_pages))"

definition pages_for_tokens :: "nat \<Rightarrow> nat" where
  "pages_for_tokens tokens = (if tokens = 0 then 0 else 1 + (tokens - 1) div page_size)"

definition next_generation :: "u32 \<Rightarrow> u32" where
  "next_generation g = (let g' = g + 1 in if g' = 0 then 1 else g')"

definition new_address_space ::
  "nat \<Rightarrow> LogicalKVPageStore \<Rightarrow> KVExecutionTablePool \<Rightarrow> nat \<Rightarrow> nat \<Rightarrow> KVAddressSpaceStore res" where
  "new_address_space self pages tables address_capacity capacity =
     res_bind (checked_membership_cells address_capacity capacity) (\<lambda>cells.
       if address_capacity = 0 \<or> capacity = 0 \<or> capacity \<noteq> logical_page_capacity tables then Inl InvalidArgument
       else Inr \<lparr>space_id = self, space_pages = pages, space_tables = tables, page_capacity = capacity,
                 addresses = replicate address_capacity (fresh_address 1),
                 space_free = map (\<lambda>index. address_capacity - 1 - index) [0..<address_capacity],
                 memberships = replicate cells null_logical, space_free_count = address_capacity, issued = []\<rparr>)"

definition space_occupied :: "KVAddressSpaceStore \<Rightarrow> nat" where
  "space_occupied s = u32_sub (length (addresses s)) (space_free_count s)"

definition valid_address :: "KVAddressSpaceStore \<Rightarrow> KVAddressSpaceHandle \<Rightarrow> bool" where
  "valid_address s h \<longleftrightarrow>
     space_owner h = Some (space_id s) \<and> space_index h < length (addresses s) \<and>
     addr_occupied (addresses s ! space_index h) \<and> addr_generation (addresses s ! space_index h) = space_generation h"

definition address_at :: "KVAddressSpaceStore \<Rightarrow> KVAddressSpaceHandle \<Rightarrow> Address" where
  "address_at s h = addresses s ! space_index h"

definition require_address :: "KVAddressSpaceStore \<Rightarrow> KVAddressSpaceHandle \<Rightarrow> Address res" where
  "require_address s h = (if \<not> valid_address s h then Inl InvalidArgument else Inr (address_at s h))"

definition reservation_valid :: "DeviceKVPageReservation \<Rightarrow> bool" where
  "reservation_valid r \<longleftrightarrow> reservation_owner r \<noteq> None"

definition require_active :: "KVAddressSpaceStore \<Rightarrow> KVAddressSpaceHandle \<Rightarrow> Address res" where
  "require_active s h =
     res_bind (require_address s h) (\<lambda>a.
       if \<not> addr_active a \<or> addr_row a = None \<or> \<not> reservation_valid (addr_reservation a) then Inl LogicError
       else Inr a)"

definition entitlement_of :: "Address \<Rightarrow> nat" where
  "entitlement_of a =
     u32_add (page_count a) (if reservation_valid (addr_reservation a) then reservation_pages (addr_reservation a) else 0)"

definition membership :: "KVAddressSpaceStore \<Rightarrow> nat \<Rightarrow> nat \<Rightarrow> LogicalKVPageHandle" where
  "membership s i page = memberships s ! (i * page_capacity s + page)"

definition set_membership :: "nat \<Rightarrow> nat \<Rightarrow> LogicalKVPageHandle \<Rightarrow> unit space_action" where
  "set_membership i page h =
     act_change (\<lambda>s. s\<lparr>memberships := (memberships s)[i * page_capacity s + page := h]\<rparr>)"

definition put_address :: "nat \<Rightarrow> (Address \<Rightarrow> Address) \<Rightarrow> unit space_action" where
  "put_address i f = act_change (\<lambda>s. s\<lparr>addresses := (addresses s)[i := f (addresses s ! i)]\<rparr>)"

text \<open>Calls of the page store, the pool behind it and the execution tables.\<close>

definition on_pages :: "(LogicalKVPageStore \<Rightarrow> LogicalKVPageStore res) \<Rightarrow> unit space_action" where
  "on_pages f = (\<lambda>s. case f (space_pages s) of
     Inl e \<Rightarrow> (s, Inl e) | Inr p \<Rightarrow> (s\<lparr>space_pages := p\<rparr>, Inr ()))"

definition on_pages_result :: "(LogicalKVPageStore \<Rightarrow> (LogicalKVPageStore \<times> 'a) res) \<Rightarrow> 'a space_action" where
  "on_pages_result f = (\<lambda>s. case f (space_pages s) of
     Inl e \<Rightarrow> (s, Inl e) | Inr (p, x) \<Rightarrow> (s\<lparr>space_pages := p\<rparr>, Inr x))"

definition ask_pages :: "(LogicalKVPageStore \<Rightarrow> 'a res) \<Rightarrow> 'a space_action" where
  "ask_pages q = act_ask (\<lambda>s. q (space_pages s))"

definition on_pool :: "(DeviceKVPagePool \<Rightarrow> (DeviceKVPagePool \<times> 'a) res) \<Rightarrow> 'a space_action" where
  "on_pool f = on_pages_result (\<lambda>p. res_bind (f (physical_pool p)) (\<lambda>(q, x). Inr (p\<lparr>physical_pool := q\<rparr>, x)))"

definition acquire_row :: "int \<Rightarrow> KVExecutionRowLease space_action" where
  "acquire_row row_index = (\<lambda>s. case acquire (space_tables s) row_index of
     Inl e \<Rightarrow> (s, Inl e) | Inr (t, l) \<Rightarrow> (s\<lparr>space_tables := t\<rparr>, Inr l))"

definition drop_row :: "KVExecutionRowLease option \<Rightarrow> unit space_action" where
  "drop_row x = act_change (\<lambda>s. case x of
     None \<Rightarrow> s | Some l \<Rightarrow> s\<lparr>space_tables := fst (row_lease_release (space_tables s) l)\<rparr>)"

definition drop_reservation :: "DeviceKVPageReservation \<Rightarrow> unit space_action" where
  "drop_reservation r = act_bind (on_pool (\<lambda>p. reservation_release p r)) (\<lambda>_. act_return ())"

definition publish_row :: "KVExecutionRowHandle \<Rightarrow> nat \<Rightarrow> DeviceKVPageHandle list \<Rightarrow> unit space_action" where
  "publish_row row begin hs = (\<lambda>s. case publish (space_tables s) (physical_pool (space_pages s)) row begin hs of
     (t, Inl e) \<Rightarrow> (s\<lparr>space_tables := t\<rparr>, Inl e)
   | (t, Inr copies) \<Rightarrow> (s\<lparr>space_tables := t, issued := issued s @ copies\<rparr>, Inr ()))"

text \<open>The physical handles of a list of logical pages, pushed one after the other.\<close>

fun physical_all :: "LogicalKVPageStore \<Rightarrow> LogicalKVPageHandle list \<Rightarrow> DeviceKVPageHandle list res" where
  "physical_all s [] = Inr []"
| "physical_all s (h # hs) =
     res_bind (physical s h) (\<lambda>d. res_bind (physical_all s hs) (\<lambda>ds. Inr (d # ds)))"

definition page_handles :: "KVAddressSpaceStore \<Rightarrow> nat \<Rightarrow> nat list \<Rightarrow> LogicalKVPageHandle list" where
  "page_handles s i pages = map (membership s i) pages"

definition publish_membership :: "nat \<Rightarrow> unit space_action" where
  "publish_membership i = (\<lambda>s. case addr_row (addresses s ! i) of
     None \<Rightarrow> (s, Inl LogicError)
   | Some row \<Rightarrow>
       act_bind (ask_pages (\<lambda>p. physical_all p (page_handles s i [0..<page_count (addresses s ! i)])))
         (\<lambda>ds. publish_row (row_lease_handle row) 0 ds) s)"

text \<open>A condition on the pages of an address that queries a live page first and throws when it is stale;
  the first page that fails it throws \<open>e\<close>.\<close>

fun check_pages :: "('x \<Rightarrow> bool res) \<Rightarrow> exn \<Rightarrow> 'x list \<Rightarrow> unit res" where
  "check_pages ok e [] = Inr ()"
| "check_pages ok e (h # hs) = res_bind (ok h) (\<lambda>b. if \<not> b then Inl e else check_pages ok e hs)"

fun count_missing :: "LogicalKVPageStore \<Rightarrow> LogicalKVPageHandle list \<Rightarrow> nat res" where
  "count_missing p [] = Inr 0"
| "count_missing p (h # hs) =
     res_bind (device_resident p h) (\<lambda>b. res_bind (count_missing p hs) (\<lambda>n. Inr (if b then n else Suc n)))"

fun missing_pages :: "LogicalKVPageStore \<Rightarrow> LogicalKVPageHandle list \<Rightarrow> LogicalKVPageHandle list res" where
  "missing_pages p [] = Inr []"
| "missing_pages p (h # hs) =
     res_bind (device_resident p h) (\<lambda>b. res_bind (missing_pages p hs) (\<lambda>ms. Inr (if b then ms else h # ms)))"

section \<open>Creation and activation\<close>

definition create_inactive :: "KVAddressSpaceStore \<Rightarrow> KVAddressSpaceStore \<times> KVAddressSpaceHandle option" where
  "create_inactive s =
     (if space_free_count s = 0 then (s, None)
      else let n = space_free_count s - 1; index = space_free s ! n; a = addresses s ! index in
        if addr_occupied a then (s\<lparr>space_free := (space_free s)[n := index]\<rparr>, None)
        else (s\<lparr>space_free_count := n, addresses := (addresses s)[index := a\<lparr>addr_occupied := True\<rparr>]\<rparr>,
              Some \<lparr>space_owner = Some (space_id s), space_index = index, space_generation = addr_generation a\<rparr>))"

definition idle_address :: "Address \<Rightarrow> bool" where
  "idle_address a \<longleftrightarrow> \<not> (addr_active a \<or> addr_row a \<noteq> None \<or> reservation_valid (addr_reservation a))"

definition prepare_activation ::
  "KVAddressSpaceHandle \<Rightarrow> nat \<Rightarrow> int \<Rightarrow> nat option \<Rightarrow> KVActivationReservation space_action" where
  "prepare_activation h ent execution_row frontier =
     act_bind (act_ask (\<lambda>s. require_address s h)) (\<lambda>a.
     act_then (act_guard (\<lambda>s. \<not> idle_address a \<or> ent = 0 \<or> ent > page_capacity s
                 \<or> (case frontier of None \<Rightarrow> False | Some f \<Rightarrow> f > committed_frontier a)) LogicError)
     (let required_pages = (case frontier of None \<Rightarrow> page_count a | Some f \<Rightarrow> pages_for_tokens f) in
      act_bind (act_ask (\<lambda>s. count_missing (space_pages s) (page_handles s (space_index h) [0..<required_pages])))
      (\<lambda>missing_replicas.
        let growth = (if ent > required_pages then ent - required_pages else 0);
            required = missing_replicas + growth in
        act_then (act_guard (\<lambda>s. required > u32_max) OverflowError)
        (act_bind (on_pool (\<lambda>p. resize_reservation p (make_empty_reservation p) required)) (\<lambda>r.
         act_bind (act_cleanup (acquire_row execution_row) (drop_reservation r)) (\<lambda>row s.
           (s, Inr \<lparr>activation_owner = Some (space_id s), activation_address = h, requested_entitlement = ent,
                    activation_frontier = frontier, activation_pages = r, activation_row = Some row\<rparr>)))))))"

definition missing_device_pages :: "KVAddressSpaceStore \<Rightarrow> KVAddressSpaceHandle \<Rightarrow> LogicalKVPageHandle list res" where
  "missing_device_pages s h =
     res_bind (require_address s h) (\<lambda>a.
       missing_pages (space_pages s) (page_handles s (space_index h) [0..<page_count a]))"

definition activation_page_reservation ::
  "KVAddressSpaceStore \<Rightarrow> KVActivationReservation \<Rightarrow> DeviceKVPageReservation res" where
  "activation_page_reservation s v =
     (if activation_owner v \<noteq> Some (space_id s) \<or> \<not> valid_address s (activation_address v) then Inl LogicError
      else Inr (activation_pages v))"

definition activation_ready :: "KVAddressSpaceStore \<Rightarrow> KVActivationReservation \<Rightarrow> unit res" where
  "activation_ready s v =
     (if activation_owner v \<noteq> Some (space_id s) then Inl LogicError
      else if activation_row v = None then Inl LogicError
      else if \<not> valid_address s (activation_address v) then Inl LogicError
      else let a = address_at s (activation_address v) in
        if \<not> idle_address a \<or> requested_entitlement v = 0 \<or> requested_entitlement v > page_capacity s
           \<or> (case activation_frontier v of None \<Rightarrow> False | Some f \<Rightarrow> committed_frontier a \<noteq> f) then Inl LogicError
        else let expected = (if requested_entitlement v > page_count a then requested_entitlement v - page_count a else 0) in
        if \<not> reservation_belongs_to (activation_pages v) (physical_pool (space_pages s))
           \<or> reservation_pages (activation_pages v) \<noteq> expected then Inl LogicError
        else check_pages (\<lambda>l.
               res_bind (device_resident (space_pages s) l) (\<lambda>b.
                 if \<not> b then Inr False
                 else res_bind (page_field references (space_pages s) l) (\<lambda>n.
                   Inr (\<not> (n = 1 \<and> \<not> can_set_writer (space_pages s) l True)))))
               LogicError (page_handles s (space_index (activation_address v)) [0..<page_count a]))"

definition activate_page :: "LogicalKVPageHandle \<Rightarrow> unit space_action" where
  "activate_page l =
     act_bind (ask_pages (\<lambda>p. page_field references p l)) (\<lambda>n.
     act_then (act_when (n = 1) (act_then (on_pages (\<lambda>p. clear_protection p l)) (on_pages (\<lambda>p. set_writer p l True))))
     (on_pages (\<lambda>p. retain_active_reference p l)))"

definition spent_activation :: "KVActivationReservation \<Rightarrow> KVActivationReservation" where
  "spent_activation v = v\<lparr>activation_owner := None, activation_pages := null_reservation, activation_row := None\<rparr>"

definition adopt_activation :: "KVActivationReservation \<Rightarrow> unit space_action" where
  "adopt_activation v =
     (let i = space_index (activation_address v) in
      act_then (put_address i (\<lambda>a. a\<lparr>addr_reservation := activation_pages v, addr_row := activation_row v,
                                      addr_active := True, checkpoint_frontier := 0\<rparr>))
      (\<lambda>s. act_then (act_for activate_page (page_handles s i [0..<page_count (addresses s ! i)]))
             (publish_membership i) s))"

definition commit_activation ::
  "KVActivationReservation \<Rightarrow> KVAddressSpaceStore \<Rightarrow> KVAddressSpaceStore \<times> KVActivationReservation \<times> unit res" where
  "commit_activation v s =
     (case activation_ready s v of
        Inl e \<Rightarrow> (s, v, Inl e)
      | Inr u \<Rightarrow> (case adopt_activation v s of (s', r) \<Rightarrow> (s', spent_activation v, r)))"

text \<open>The destructor of an activation: its members, in reverse order of declaration.\<close>

definition destroy_activation :: "KVActivationReservation \<Rightarrow> unit space_action" where
  "destroy_activation v = act_noexcept (act_then (drop_row (activation_row v)) (drop_reservation (activation_pages v)))"

definition activate :: "KVAddressSpaceHandle \<Rightarrow> nat \<Rightarrow> int \<Rightarrow> unit space_action" where
  "activate h ent execution_row =
     act_bind (act_ask (\<lambda>s. require_address s h)) (\<lambda>a.
     act_then (act_guard (\<lambda>s. ent < page_count a) LogicError)
     (act_bind (prepare_activation h ent execution_row None) (\<lambda>v s.
       case commit_activation v s of (s', v', r) \<Rightarrow>
         (case destroy_activation v' s' of (s'', Inl e) \<Rightarrow> (s'', Inl e) | (s'', Inr u) \<Rightarrow> (s'', r)))))"

section \<open>Queries\<close>

definition mapped_pages :: "KVAddressSpaceStore \<Rightarrow> KVAddressSpaceHandle \<Rightarrow> nat res" where
  "mapped_pages s h = res_bind (require_address s h) (\<lambda>a. Inr (page_count a))"

definition address_entitlement :: "KVAddressSpaceStore \<Rightarrow> KVAddressSpaceHandle \<Rightarrow> nat res" where
  "address_entitlement s h = res_bind (require_address s h) (\<lambda>a. Inr (entitlement_of a))"

definition address_frontier :: "KVAddressSpaceStore \<Rightarrow> KVAddressSpaceHandle \<Rightarrow> nat res" where
  "address_frontier s h = res_bind (require_address s h) (\<lambda>a. Inr (committed_frontier a))"

definition bound_row :: "KVAddressSpaceStore \<Rightarrow> KVAddressSpaceHandle \<Rightarrow> int" where
  "bound_row s h =
     (if \<not> valid_address s h then -1
      else case addr_row (address_at s h) of None \<Rightarrow> -1 | Some l \<Rightarrow> row_lease_number l)"

definition address_active :: "KVAddressSpaceStore \<Rightarrow> KVAddressSpaceHandle \<Rightarrow> bool" where
  "address_active s h \<longleftrightarrow> valid_address s h \<and> addr_active (address_at s h)"

definition execution_row_of :: "KVAddressSpaceStore \<Rightarrow> KVAddressSpaceHandle \<Rightarrow> KVExecutionRowLease res" where
  "execution_row_of s h =
     res_bind (require_address s h) (\<lambda>a.
       if \<not> addr_active a then Inl LogicError
       else case addr_row a of None \<Rightarrow> Inl LogicError | Some l \<Rightarrow> Inr l)"

definition logical_page :: "KVAddressSpaceStore \<Rightarrow> KVAddressSpaceHandle \<Rightarrow> nat \<Rightarrow> LogicalKVPageHandle res" where
  "logical_page s h page =
     res_bind (require_address s h) (\<lambda>a.
       if page \<ge> page_count a then Inl OutOfRange else Inr (membership s (space_index h) page))"

definition physical_page :: "KVAddressSpaceStore \<Rightarrow> KVAddressSpaceHandle \<Rightarrow> nat \<Rightarrow> DeviceKVPageHandle res" where
  "physical_page s h page = res_bind (logical_page s h page) (physical (space_pages s))"

definition page_content_epoch :: "KVAddressSpaceStore \<Rightarrow> KVAddressSpaceHandle \<Rightarrow> nat \<Rightarrow> u64 res" where
  "page_content_epoch s h page = res_bind (logical_page s h page) (page_field content_epoch (space_pages s))"

definition has_active_reference :: "KVAddressSpaceStore \<Rightarrow> LogicalKVPageHandle \<Rightarrow> bool" where
  "has_active_reference s l \<longleftrightarrow>
     valid_page (space_pages s) l \<and> active_references (page_at (space_pages s) l) \<noteq> 0"

section \<open>Deactivation and release\<close>

definition deactivate_page :: "LogicalKVPageHandle \<Rightarrow> unit space_action" where
  "deactivate_page l =
     act_bind (ask_pages (\<lambda>p. page_field writer_references p l)) (\<lambda>n.
     act_then (act_when (n \<noteq> 0) (on_pages (\<lambda>p. set_writer p l False)))
     (on_pages (\<lambda>p. release_active_reference p l)))"

definition deactivate :: "KVAddressSpaceHandle \<Rightarrow> unit space_action" where
  "deactivate h =
     act_bind (act_ask (\<lambda>s. require_active s h)) (\<lambda>a s.
       let i = space_index h; hs = page_handles s i [0..<page_count a] in
       act_bind (act_ask (\<lambda>s. check_pages (\<lambda>l.
           res_bind (page_field writer_references (space_pages s) l) (\<lambda>n.
             Inr (\<not> (n \<noteq> 0 \<and> \<not> can_set_writer (space_pages s) l False)))) LogicError hs)) (\<lambda>_.
       act_then (act_for deactivate_page hs)
       (act_then (drop_row (addr_row a))
       (act_then (drop_reservation (addr_reservation a))
       (put_address i (\<lambda>a. a\<lparr>addr_row := None, addr_reservation := null_reservation, addr_active := False\<rparr>))))) s)"

text \<open>The protection of the pages rebuilt from the checkpoint requirement of every address: first every
  page of every address is unprotected, then each requirement protects the columns it covers. The method
  is \<^verbatim>\<open>noexcept\<close>, so any failure in it ends the process.\<close>

definition unprotect_address :: "nat \<Rightarrow> unit space_action" where
  "unprotect_address i = (\<lambda>s.
     let a = addresses s ! i in
     act_when (addr_occupied a)
       (act_for (\<lambda>l. on_pages (\<lambda>p. set_protected_coverage p l 0)) (page_handles s i [0..<page_count a])) s)"

definition protect_address :: "nat \<Rightarrow> unit space_action" where
  "protect_address i = (\<lambda>s.
     let a = addresses s ! i in
     act_when (addr_occupied a \<and> checkpoint_frontier a \<noteq> 0)
       (act_then (act_guard (\<lambda>s. checkpoint_frontier a > committed_frontier a
                                  \<or> pages_for_tokens (checkpoint_frontier a) > page_count a) Terminate)
        (act_for (\<lambda>page. on_pages (\<lambda>p. protect_coverage p (membership s i page)
                          (min page_size (checkpoint_frontier a - page * page_size))))
           [0..<pages_for_tokens (checkpoint_frontier a)])) s)"

definition rebuild_checkpoint_protection :: "unit space_action" where
  "rebuild_checkpoint_protection = act_noexcept (\<lambda>s.
     act_then (act_for unprotect_address [0..<length (addresses s)])
       (act_for protect_address [0..<length (addresses s)]) s)"

definition can_release :: "KVAddressSpaceStore \<Rightarrow> KVAddressSpaceHandle \<Rightarrow> bool" where
  "can_release s h \<longleftrightarrow>
     (if \<not> valid_address s h then False
      else let a = address_at s h in
        idle_address a \<and> list_all (\<lambda>l. can_release_reference (space_pages s) l False)
          (page_handles s (space_index h) [0..<page_count a]))"

definition can_release_after_deactivate :: "KVAddressSpaceStore \<Rightarrow> KVAddressSpaceHandle \<Rightarrow> bool" where
  "can_release_after_deactivate s h \<longleftrightarrow>
     (if \<not> valid_address s h then False
      else let a = address_at s h in
        if \<not> addr_active a then can_release s h
        else if addr_row a = None then False
        else list_all (can_release_reference_after_active_reference (space_pages s))
               (page_handles s (space_index h) [0..<page_count a]))"

text \<open>One reference of an address is given up; the callers have checked that it can be.\<close>

definition release_member :: "nat \<Rightarrow> nat \<Rightarrow> unit space_action" where
  "release_member i page = (\<lambda>s.
     act_bind (on_pages_result (\<lambda>p. release_reference p (membership s i page) False)) (\<lambda>ok.
       act_then (act_guard (\<lambda>s. \<not> ok) Terminate) (set_membership i page null_logical)) s)"

definition release :: "KVAddressSpaceHandle \<Rightarrow> bool space_action" where
  "release h = act_noexcept (\<lambda>s.
     if \<not> can_release s h then (s, Inr False)
     else let i = space_index h; a = address_at s h in
       act_then (act_for (release_member i) [0..<page_count a])
       (act_then (put_address i (\<lambda>a. fresh_address (next_generation (addr_generation a))))
       (act_then (act_guard (\<lambda>s. space_free_count s \<ge> length (space_free s)) Undefined)
       (act_then (act_change (\<lambda>s. s\<lparr>space_free := (space_free s)[space_free_count s := i],
                                     space_free_count := space_free_count s + 1\<rparr>))
       (act_then rebuild_checkpoint_protection (act_return True))))) s)"

definition release_after_deactivate :: "KVAddressSpaceHandle \<Rightarrow> bool space_action" where
  "release_after_deactivate h = act_noexcept (\<lambda>s.
     if \<not> can_release_after_deactivate s h then (s, Inr False)
     else act_then (act_when (addr_active (address_at s h)) (deactivate h))
       (act_bind (release h) (\<lambda>ok. act_then (act_guard (\<lambda>s. \<not> ok) Terminate) (act_return True))) s)"

text \<open>The catch block of \<^verbatim>\<open>create_active\<close> releases the new address and rethrows.\<close>

definition create_active :: "nat \<Rightarrow> int \<Rightarrow> KVAddressSpaceHandle option space_action" where
  "create_active ent execution_row = (\<lambda>s.
     if ent = 0 \<or> ent > page_capacity s then (s, Inr None)
     else case create_inactive s of
       (s1, None) \<Rightarrow> (s1, Inr None)
     | (s1, Some h) \<Rightarrow>
         act_bind (act_cleanup (activate h ent execution_row) (act_bind (release h) (\<lambda>_. act_return ())))
           (\<lambda>_. act_return (Some h)) s1)"

section \<open>Growth, commitment and truncation\<close>

definition resize_entitlement :: "KVAddressSpaceHandle \<Rightarrow> nat \<Rightarrow> unit space_action" where
  "resize_entitlement h ent =
     act_bind (act_ask (\<lambda>s. require_active s h)) (\<lambda>a.
     act_then (act_guard (\<lambda>s. ent < page_count a \<or> ent > page_capacity s) InvalidArgument)
     (act_bind (on_pool (\<lambda>p. resize_reservation p (addr_reservation a) (ent - page_count a))) (\<lambda>r.
        put_address (space_index h) (\<lambda>a. a\<lparr>addr_reservation := r\<rparr>))))"

definition release_growth_entitlement :: "KVAddressSpaceHandle \<Rightarrow> unit space_action" where
  "release_growth_entitlement h =
     act_bind (act_ask (\<lambda>s. require_active s h)) (\<lambda>a.
     act_bind (on_pool (\<lambda>p. resize_reservation p (addr_reservation a) 0)) (\<lambda>r.
       put_address (space_index h) (\<lambda>a. a\<lparr>addr_reservation := r\<rparr>)))"

text \<open>The page store calls that spend or refill the reservation of address \<open>i\<close>.\<close>

definition materialize_members :: "nat \<Rightarrow> nat \<Rightarrow> nat \<Rightarrow> LogicalKVPageHandle option \<Rightarrow> unit space_action" where
  "materialize_members i begin n pred = (\<lambda>s.
     case materialize_batch (space_pages s) (addr_reservation (addresses s ! i))
            (page_handles s i [begin..<begin + n]) pred of
       Inl e \<Rightarrow> (s, Inl e)
     | Inr (p, r, hs) \<Rightarrow>
         act_then (act_change (\<lambda>s. s\<lparr>space_pages := p\<rparr>))
         (act_then (put_address i (\<lambda>a. a\<lparr>addr_reservation := r\<rparr>))
         (act_for (\<lambda>(page, h). set_membership i page h) (zip [begin..<begin + n] hs))) s)"

definition dematerialize_member :: "nat \<Rightarrow> LogicalKVPageHandle \<Rightarrow> unit space_action" where
  "dematerialize_member i l = (\<lambda>s.
     case dematerialize_logical (space_pages s) l (addr_reservation (addresses s ! i)) of
       Inl e \<Rightarrow> (s, Inl e)
     | Inr (p, r) \<Rightarrow>
         act_then (act_change (\<lambda>s. s\<lparr>space_pages := p\<rparr>)) (put_address i (\<lambda>a. a\<lparr>addr_reservation := r\<rparr>)) s)"

definition ensure_mapped_to_tokens :: "KVAddressSpaceHandle \<Rightarrow> nat \<Rightarrow> unit space_action" where
  "ensure_mapped_to_tokens h tokens =
     act_bind (act_ask (\<lambda>s. require_active s h)) (\<lambda>a.
       let target = pages_for_tokens tokens; i = space_index h; begin = page_count a; n = target - begin in
       if target > entitlement_of a then act_throw InvalidArgument
       else if target \<le> page_count a then act_return ()
       else act_then (\<lambda>s. materialize_members i begin n (if begin = 0 then None else Some (membership s i (begin - 1))) s)
       (act_then (act_cleanup
          (\<lambda>s. act_bind (ask_pages (\<lambda>p. physical_all p (page_handles s i [begin..<target])))
            (\<lambda>ds. publish_row (row_lease_handle (the (addr_row a))) begin ds) s)
          (act_for (\<lambda>page s. act_then (dematerialize_member i (membership s i page)) (set_membership i page null_logical) s)
             [begin..<target]))
       (act_then (\<lambda>s. act_for (\<lambda>l. on_pages (\<lambda>p. retain_active_reference p l)) (page_handles s i [begin..<target]) s)
         (put_address i (\<lambda>a. a\<lparr>page_count := target\<rparr>)))))"

definition commit_page :: "nat \<Rightarrow> nat \<Rightarrow> nat \<Rightarrow> unit space_action" where
  "commit_page i frontier page = (\<lambda>s.
     let l = membership s i page; columns = min page_size (frontier - page * page_size) in
     act_bind (ask_pages (\<lambda>p. page_field committed_columns p l)) (\<lambda>n.
       act_when (columns > n) (on_pages (\<lambda>p. commit_coverage p l columns))) s)"

definition commit_frontier :: "KVAddressSpaceHandle \<Rightarrow> nat \<Rightarrow> unit space_action" where
  "commit_frontier h frontier =
     act_bind (act_ask (\<lambda>s. require_active s h)) (\<lambda>a.
       if frontier < committed_frontier a \<or> pages_for_tokens frontier > page_count a then act_throw InvalidArgument
       else if frontier = committed_frontier a then act_return ()
       else let i = space_index h;
                first_changed_page = committed_frontier a div page_size;
                final_changed_page = (frontier - 1) div page_size in
         act_then (act_for (commit_page i frontier) [first_changed_page..<final_changed_page + 1])
           (put_address i (\<lambda>a. a\<lparr>committed_frontier := frontier\<rparr>)))"

definition tail_cut :: "nat \<Rightarrow> nat" where
  "tail_cut frontier = frontier - (pages_for_tokens frontier - 1) * page_size"

text \<open>One round of the truncation loop: the last page leaves the address and goes back to the pool on
  behalf of the address's reservation.\<close>

definition pop_page :: "nat \<Rightarrow> nat \<Rightarrow> unit space_action" where
  "pop_page i page = (\<lambda>s.
     let l = membership s i page in
     act_then (put_address i (\<lambda>a. a\<lparr>page_count := page\<rparr>))
     (act_then (set_membership i page null_logical)
     (act_then (on_pages (\<lambda>p. release_active_reference p l)) (dematerialize_member i l))) s)"

definition truncate_active :: "KVAddressSpaceHandle \<Rightarrow> nat \<Rightarrow> unit space_action" where
  "truncate_active h frontier =
     act_bind (act_ask (\<lambda>s. require_active s h)) (\<lambda>a.
       let i = space_index h; target = pages_for_tokens frontier in
       if frontier > committed_frontier a then act_throw InvalidArgument
       else if frontier = committed_frontier a \<and> target = page_count a then act_return ()
       else act_then (act_guard (\<lambda>s. \<not> list_all (can_dematerialize (space_pages s))
                                        (page_handles s i [target..<page_count a])) LogicError)
       (act_then (act_guard (\<lambda>s. target \<noteq> 0 \<and>
                    \<not> can_destructive_truncate (space_pages s) (membership s i (target - 1)) (tail_cut frontier)) LogicError)
       (act_then (act_for (pop_page i) (rev [target..<page_count a]))
       (act_then (act_when (target \<noteq> 0)
          (\<lambda>s. on_pages (\<lambda>p. destructive_truncate p (membership s i (target - 1)) (tail_cut frontier)) s))
         (put_address i (\<lambda>a. a\<lparr>committed_frontier := frontier\<rparr>))))))"

definition can_truncate_inactive_prefix :: "KVAddressSpaceStore \<Rightarrow> KVAddressSpaceHandle \<Rightarrow> nat \<Rightarrow> bool" where
  "can_truncate_inactive_prefix s h frontier \<longleftrightarrow>
     (if \<not> valid_address s h then False
      else let a = address_at s h in
        if \<not> idle_address a \<or> frontier > committed_frontier a then False
        else list_all (\<lambda>l. can_release_reference (space_pages s) l False)
               (page_handles s (space_index h) [pages_for_tokens frontier..<page_count a]))"

definition can_truncate_inactive :: "KVAddressSpaceStore \<Rightarrow> KVAddressSpaceHandle \<Rightarrow> nat \<Rightarrow> bool \<Rightarrow> bool res" where
  "can_truncate_inactive s h frontier tail_host_replica_will_be_released =
     no_throw (if \<not> can_truncate_inactive_prefix s h frontier then Inr False
      else let target = pages_for_tokens frontier; columns = tail_cut frontier;
               tail = membership s (space_index h) (target - 1) in
        if target = 0 then Inr True
        else res_bind (page_field committed_columns (space_pages s) tail) (\<lambda>n.
          Inr (\<not> (columns \<noteq> n \<and>
            \<not> (if tail_host_replica_will_be_released
                then can_destructive_truncate_inactive_after_host_release (space_pages s) tail columns
                else can_destructive_truncate_inactive (space_pages s) tail columns)))))"

definition drop_member :: "nat \<Rightarrow> nat \<Rightarrow> unit space_action" where
  "drop_member i page = (\<lambda>s.
     let l = membership s i page in
     act_then (put_address i (\<lambda>a. a\<lparr>page_count := page\<rparr>))
     (act_then (set_membership i page null_logical)
     (act_bind (on_pages_result (\<lambda>p. release_reference p l False)) (\<lambda>ok. act_guard (\<lambda>s. \<not> ok) Terminate))) s)"

definition truncate_inactive :: "KVAddressSpaceHandle \<Rightarrow> nat \<Rightarrow> unit space_action" where
  "truncate_inactive h frontier =
     act_bind (act_ask (\<lambda>s. can_truncate_inactive s h frontier False)) (\<lambda>can.
     act_then (act_guard (\<lambda>s. \<not> can) LogicError)
     (act_bind (act_ask (\<lambda>s. require_address s h)) (\<lambda>a.
       let i = space_index h; target = pages_for_tokens frontier; columns = tail_cut frontier in
       act_then (act_for (drop_member i) (rev [target..<page_count a]))
       (act_then (act_when (target \<noteq> 0) (\<lambda>s.
          let tail = membership s i (target - 1) in
          act_bind (ask_pages (\<lambda>p. page_field committed_columns p tail)) (\<lambda>n.
            act_when (columns \<noteq> n) (on_pages (\<lambda>p. destructive_truncate_inactive p tail columns))) s))
       (act_then (put_address i (\<lambda>a. a\<lparr>committed_frontier := frontier, checkpoint_frontier := 0\<rparr>))
         rebuild_checkpoint_protection)))))"

definition set_checkpoint_requirement :: "KVAddressSpaceHandle \<Rightarrow> nat \<Rightarrow> unit space_action" where
  "set_checkpoint_requirement h protected_frontier =
     act_bind (act_ask (\<lambda>s. require_address s h)) (\<lambda>a.
       if protected_frontier > committed_frontier a then act_throw InvalidArgument
       else act_then (put_address (space_index h) (\<lambda>a. a\<lparr>checkpoint_frontier := protected_frontier\<rparr>))
              rebuild_checkpoint_protection)"

definition truncate_inactive_prefix :: "KVAddressSpaceHandle \<Rightarrow> nat \<Rightarrow> unit space_action" where
  "truncate_inactive_prefix h frontier =
     act_then (act_guard (\<lambda>s. \<not> can_truncate_inactive_prefix s h frontier) LogicError)
     (act_bind (act_ask (\<lambda>s. require_address s h)) (\<lambda>a.
       let i = space_index h; target = pages_for_tokens frontier in
       act_then (act_for (drop_member i) (rev [target..<page_count a]))
       (act_then (put_address i (\<lambda>a. a\<lparr>committed_frontier := frontier,
                                        checkpoint_frontier := min (checkpoint_frontier a) frontier\<rparr>))
         rebuild_checkpoint_protection)))"

section \<open>Prefix forks\<close>

text \<open>A fork gives a new active address the prefix of a retained one: full pages are shared, a partial tail
  page gets a page of its own that the caller copies into.\<close>

definition prefix_stable :: "KVAddressSpaceStore \<Rightarrow> nat \<Rightarrow> nat \<Rightarrow> unit res" where
  "prefix_stable s i frontier =
     (let full = frontier div page_size; tail = frontier mod page_size; p = space_pages s in
      check_pages (\<lambda>(page, l).
        res_bind (device_resident p l) (\<lambda>b.
          if \<not> b then Inr False
          else res_bind (page_field committed_columns p l) (\<lambda>n.
            Inr (\<not> (n < (if page < full then page_size else tail) \<or> \<not> can_pin_source p l
                    \<or> (page < full \<and> \<not> can_retain_reference p l False)))))) LogicError
        (map (\<lambda>page. (page, membership s i page)) [0..<pages_for_tokens frontier]))"

definition prepare_prefix_fork ::
  "KVAddressSpaceHandle \<Rightarrow> KVAddressSpaceHandle \<Rightarrow> nat \<Rightarrow> nat \<Rightarrow> int \<Rightarrow> bool \<Rightarrow> KVPrefixForkReservation space_action"
where
  "prepare_prefix_fork src dst frontier ent execution_row staged =
     act_bind (act_ask (\<lambda>s. require_address s src)) (\<lambda>source.
     act_bind (act_ask (\<lambda>s. require_address s dst)) (\<lambda>destination.
       let required_pages = pages_for_tokens frontier; full = frontier div page_size; tail = frontier mod page_size in
       act_then (act_guard (\<lambda>s. \<not> idle_address source) LogicError)
       (act_then (act_guard (\<lambda>s. \<not> idle_address destination \<or> page_count destination \<noteq> 0
                                 \<or> committed_frontier destination \<noteq> 0) LogicError)
       (act_then (act_guard (\<lambda>s. frontier = 0 \<or> frontier > committed_frontier source) LogicError)
       (act_then (act_guard (\<lambda>s. ent < required_pages \<or> ent > page_capacity s) InvalidArgument)
       (act_then (act_guard (\<lambda>s. staged \<and> tail = 0) InvalidArgument)
       (act_then (act_ask (\<lambda>s. prefix_stable s (space_index src) frontier))
       (act_bind (on_pool (\<lambda>p. resize_reservation p (make_empty_reservation p) (if staged then 1 else ent - full))) (\<lambda>r.
        act_bind (act_cleanup (acquire_row execution_row) (drop_reservation r)) (\<lambda>row.
        act_bind (act_cleanup
          (if tail = 0 then act_return (r, None)
           else on_pages_result (\<lambda>p. res_bind (materialize_transfer_destination p r tail) (\<lambda>(p', r', l).
                  Inr (p', (r', Some l)))))
          (act_then (drop_row (Some row)) (drop_reservation r))) (\<lambda>(r', tail_destination).
        act_then (act_cleanup
          (\<lambda>s. act_for (\<lambda>l. on_pages (\<lambda>p. pin_source p l)) (page_handles s (space_index src) [0..<required_pages]) s)
          (act_then (drop_row (Some row)) (drop_reservation r')))
        (\<lambda>s. (s, Inr \<lparr>fork_owner = Some (space_id s), fork_source = src, fork_destination = dst,
               fork_frontier = frontier, fork_full_pages = full, fork_tail_columns = tail, fork_entitlement = ent,
               fork_pages = r', fork_row = Some row, fork_tail = tail_destination, staged_tail_release = staged,
               tail_source_settled = False\<rparr>)))))))))))))"

definition require_prefix_fork :: "KVAddressSpaceStore \<Rightarrow> KVPrefixForkReservation \<Rightarrow> unit res" where
  "require_prefix_fork s v =
     (if fork_owner v \<noteq> Some (space_id s) \<or> \<not> valid_address s (fork_source v) \<or> \<not> valid_address s (fork_destination v)
      then Inl LogicError else Inr ())"

definition prefix_fork_tail_logical_source :: "KVAddressSpaceStore \<Rightarrow> KVPrefixForkReservation \<Rightarrow> LogicalKVPageHandle res" where
  "prefix_fork_tail_logical_source s v =
     res_bind (require_prefix_fork s v) (\<lambda>_.
       if fork_tail_columns v = 0 then Inl LogicError
       else Inr (membership s (space_index (fork_source v)) (fork_full_pages v)))"

definition prefix_fork_tail_source :: "KVAddressSpaceStore \<Rightarrow> KVPrefixForkReservation \<Rightarrow> DeviceKVPageHandle res" where
  "prefix_fork_tail_source s v = res_bind (prefix_fork_tail_logical_source s v) (physical (space_pages s))"

definition prefix_fork_tail_destination :: "KVAddressSpaceStore \<Rightarrow> KVPrefixForkReservation \<Rightarrow> DeviceKVPageHandle res" where
  "prefix_fork_tail_destination s v =
     res_bind (require_prefix_fork s v) (\<lambda>_.
       case fork_tail v of None \<Rightarrow> Inl LogicError | Some l \<Rightarrow> physical (space_pages s) l)"

definition settle_prefix_fork_tail_source :: "KVPrefixForkReservation \<Rightarrow> KVPrefixForkReservation space_action" where
  "settle_prefix_fork_tail_source v =
     act_then (act_ask (\<lambda>s. require_prefix_fork s v))
     (act_then (act_guard (\<lambda>s. \<not> staged_tail_release v \<or> tail_source_settled v \<or> fork_tail_columns v = 0) LogicError)
     (\<lambda>s. let l = membership s (space_index (fork_source v)) (fork_full_pages v); p = space_pages s in
       act_then (act_guard (\<lambda>s. \<not> valid_page p l \<or> source_pins (page_at p l) = 0 \<or> device_replica (page_at p l) = None)
                  LogicError)
       (act_then (on_pages (\<lambda>p. unpin_source p l)) (act_return (v\<lparr>tail_source_settled := True\<rparr>))) s))"

definition complete_prefix_fork_after_tail_release :: "KVPrefixForkReservation \<Rightarrow> KVPrefixForkReservation space_action" where
  "complete_prefix_fork_after_tail_release v =
     act_then (act_ask (\<lambda>s. require_prefix_fork s v))
     (act_then (act_guard (\<lambda>s. \<not> staged_tail_release v \<or> \<not> tail_source_settled v \<or> fork_tail_columns v = 0) LogicError)
     (\<lambda>s. let l = membership s (space_index (fork_source v)) (fork_full_pages v); p = space_pages s in
       act_then (act_guard (\<lambda>s. \<not> valid_page p l \<or> device_replica (page_at p l) \<noteq> None \<or> host_replica (page_at p l) = None)
                  LogicError)
       (act_bind (on_pool (\<lambda>q. resize_reservation q (fork_pages v)
                              (u32_sub (fork_entitlement v) (pages_for_tokens (fork_frontier v))))) (\<lambda>r.
          act_return (v\<lparr>fork_pages := r\<rparr>))) s))"

definition fork_ready :: "KVAddressSpaceStore \<Rightarrow> KVPrefixForkReservation \<Rightarrow> unit res" where
  "fork_ready s v =
     res_bind (require_prefix_fork s v) (\<lambda>_.
       let p = space_pages s; i = space_index (fork_source v); destination = address_at s (fork_destination v);
           required_pages = pages_for_tokens (fork_frontier v);
           growth = u32_sub (fork_entitlement v) required_pages in
       if fork_row v = None \<or> \<not> idle_address destination \<or> page_count destination \<noteq> 0
          \<or> reservation_pages (fork_pages v) \<noteq> growth then Inl LogicError
       else res_bind (check_pages (\<lambda>(page, l).
           let settled = (page = fork_full_pages v \<and> tail_source_settled v) in
           if settled \<and> \<not> staged_tail_release v then Inr False
           else res_bind (page_field id p l) (\<lambda>pg.
             Inr (\<not> ((\<not> settled \<and> (source_pins pg = 0 \<or> device_replica pg = None))
                     \<or> (settled \<and> (device_replica pg \<noteq> None \<or> host_replica pg = None))
                     \<or> (page < fork_full_pages v \<and> \<not> can_retain_reference p l False))))) LogicError
           (map (\<lambda>page. (page, membership s i page)) [0..<required_pages])) (\<lambda>_.
         if fork_tail_columns v \<noteq> 0 \<and> (case fork_tail v of None \<Rightarrow> True | Some l \<Rightarrow> \<not> valid_page p l)
           then Inl LogicError else Inr ()))"

definition share_page :: "nat \<Rightarrow> nat \<Rightarrow> LogicalKVPageHandle \<Rightarrow> unit space_action" where
  "share_page dst page l =
     act_then (on_pages (\<lambda>p. retain_reference p l False))
     (act_then (on_pages (\<lambda>p. protect_coverage p l page_size)) (set_membership dst page l))"

text \<open>The publication up to the point where the tail page belongs to the destination, then the rest; the
  transaction's own members are moved out in between.\<close>

definition publish_prefix_fork :: "KVPrefixForkReservation \<Rightarrow> unit space_action" where
  "publish_prefix_fork v = (\<lambda>s.
     let src = space_index (fork_source v); dst = space_index (fork_destination v); full = fork_full_pages v in
     act_bind (ask_pages (\<lambda>p. physical_all p
         (page_handles s src [0..<full] @ (case fork_tail v of None \<Rightarrow> [] | Some l \<Rightarrow> [l])))) (\<lambda>ds.
     act_then (publish_row (row_lease_handle (the (fork_row v))) 0 ds)
     (act_then (act_for (\<lambda>page. share_page dst page (membership s src page)) [0..<full])
     (case fork_tail v of
        None \<Rightarrow> act_return ()
      | Some l \<Rightarrow> act_then (on_pages (\<lambda>p. publish_transfer_destination p l True)) (set_membership dst full l)))) s)"

definition adopt_prefix_fork :: "KVPrefixForkReservation \<Rightarrow> unit space_action" where
  "adopt_prefix_fork v = (\<lambda>s.
     let src = space_index (fork_source v); dst = space_index (fork_destination v);
         required_pages = pages_for_tokens (fork_frontier v) in
     act_then (put_address dst (\<lambda>a. a\<lparr>page_count := required_pages, committed_frontier := fork_frontier v,
                  addr_reservation := fork_pages v, addr_row := fork_row v, addr_active := True\<rparr>))
     (act_then (act_for (\<lambda>l. on_pages (\<lambda>p. retain_active_reference p l)) (page_handles s dst [0..<required_pages]))
     (act_for (\<lambda>page. act_when (\<not> (page = fork_full_pages v \<and> tail_source_settled v))
                (on_pages (\<lambda>p. unpin_source p (membership s src page)))) [0..<required_pages])) s)"

definition emptied_fork :: "KVPrefixForkReservation \<Rightarrow> KVPrefixForkReservation" where
  "emptied_fork v = v\<lparr>fork_pages := null_reservation, fork_row := None, fork_tail := None\<rparr>"

definition commit_prefix_fork ::
  "KVPrefixForkReservation \<Rightarrow> KVAddressSpaceStore \<Rightarrow> KVAddressSpaceStore \<times> KVPrefixForkReservation \<times> unit res" where
  "commit_prefix_fork v s =
     (case act_then (act_ask (\<lambda>s. fork_ready s v)) (publish_prefix_fork v) s of
        (s1, Inl e) \<Rightarrow> (s1, v, Inl e)
      | (s1, Inr u) \<Rightarrow> (case adopt_prefix_fork v s1 of
          (s2, Inl e) \<Rightarrow> (s2, emptied_fork v, Inl e)
        | (s2, Inr u) \<Rightarrow> (s2, (emptied_fork v)\<lparr>fork_owner := None\<rparr>, Inr ())))"

definition unpin_if_pinned :: "LogicalKVPageHandle \<Rightarrow> unit space_action" where
  "unpin_if_pinned l = (\<lambda>s.
     let p = space_pages s in
     act_when (valid_page p l \<and> source_pins (page_at p l) \<noteq> 0) (on_pages (\<lambda>p. unpin_source p l)) s)"

text \<open>Giving an unpublished transfer page back on behalf of the transaction's own reservation.\<close>

definition abort_tail ::
  "LogicalKVPageHandle option \<Rightarrow> DeviceKVPageReservation \<Rightarrow> DeviceKVPageReservation space_action" where
  "abort_tail tail r =
     (case tail of
        None \<Rightarrow> act_return r
      | Some l \<Rightarrow> on_pages_result (\<lambda>p. abort_transfer_destination p l r))"

definition abort_prefix_fork :: "KVPrefixForkReservation \<Rightarrow> KVPrefixForkReservation space_action" where
  "abort_prefix_fork v = act_noexcept (\<lambda>s.
     if fork_owner v \<noteq> Some (space_id s) then (s, Inr v)
     else act_then (act_when (valid_address s (fork_source v))
            (act_for (\<lambda>page. act_when (\<not> (page = fork_full_pages v \<and> tail_source_settled v))
                (unpin_if_pinned (membership s (space_index (fork_source v)) page)))
              [0..<pages_for_tokens (fork_frontier v)]))
          (act_bind (abort_tail (fork_tail v) (fork_pages v)) (\<lambda>r.
            act_return (v\<lparr>fork_owner := None, fork_tail := None, fork_pages := r\<rparr>))) s)"

definition destroy_prefix_fork :: "KVPrefixForkReservation \<Rightarrow> unit space_action" where
  "destroy_prefix_fork v = act_noexcept (
     act_bind (if fork_owner v = None then act_return v else abort_prefix_fork v) (\<lambda>v'.
       act_then (drop_row (fork_row v')) (drop_reservation (fork_pages v'))))"

section \<open>Active snapshots\<close>

text \<open>A snapshot turns an active address into a retained checkpoint and moves its row and reservation to a
  new address that goes on writing.\<close>

text \<open>The loop over the full pages: the pages so far that are immutable and unique, and whether a mutable
  one has been seen.\<close>

fun snapshot_scan ::
  "LogicalKVPageStore \<Rightarrow> nat \<Rightarrow> nat \<Rightarrow> bool \<Rightarrow> LogicalKVPageHandle list \<Rightarrow> (nat \<times> nat) res" where
  "snapshot_scan p immutable unique mutable_full_seen [] = Inr (immutable, unique)"
| "snapshot_scan p immutable unique mutable_full_seen (l # ls) =
     res_bind (page_field id p l) (\<lambda>pg.
       if device_replica pg = None \<or> references pg = 0 \<or> committed_columns pg < page_size
          \<or> \<not> can_retain_reference p l False then Inl LogicError
       else let unique' = (if references pg = 1 then unique + 1 else unique) in
         if writer_references pg = 0
           then (if mutable_full_seen \<or> \<not> can_pin_source p l then Inl LogicError
                 else snapshot_scan p (immutable + 1) unique' mutable_full_seen ls)
         else if writer_references pg = 1 \<and> references pg = 1 \<and> can_pin_active_source p l
           then snapshot_scan p immutable unique' True ls
         else Inl LogicError)"

definition active_snapshot_shape ::
  "KVAddressSpaceStore \<Rightarrow> KVAddressSpaceHandle \<Rightarrow> nat \<Rightarrow> KVActiveSnapshotShape res" where
  "active_snapshot_shape s h frontier =
     res_bind (require_active s h) (\<lambda>source.
       let p = space_pages s; i = space_index h; full = frontier div page_size; tail = frontier mod page_size;
           required_pages = pages_for_tokens frontier in
       if frontier = 0 \<or> frontier \<noteq> committed_frontier source then Inl LogicError
       else if page_count source < required_pages \<or> entitlement_of source < required_pages then Inl LogicError
       else res_bind (snapshot_scan p 0 0 False (page_handles s i [0..<full])) (\<lambda>(immutable, unique).
         let result = Inr \<lparr>full_pages = full, immutable_full_pages = immutable, unique_full_pages = unique,
                           tail_columns = tail\<rparr> in
         if tail = 0 then result
         else let l = membership s i full in
           res_bind (page_field id p l) (\<lambda>pg.
             if device_replica pg = None \<or> writer_references pg \<noteq> 1 \<or> references pg \<noteq> 1
                \<or> committed_columns pg < tail \<or> \<not> can_pin_active_source p l then Inl LogicError
             else result)))"

definition prepare_active_snapshot ::
  "KVAddressSpaceHandle \<Rightarrow> KVAddressSpaceHandle \<Rightarrow> nat \<Rightarrow> KVActiveSnapshotReservation space_action" where
  "prepare_active_snapshot src dst frontier =
     act_bind (act_ask (\<lambda>s. require_active s src)) (\<lambda>source.
     act_bind (act_ask (\<lambda>s. require_address s dst)) (\<lambda>destination.
     act_then (act_guard (\<lambda>s. addr_row source = None \<or> \<not> reservation_valid (addr_reservation source)
         \<or> \<not> idle_address destination \<or> page_count destination \<noteq> 0 \<or> committed_frontier destination \<noteq> 0
         \<or> frontier = 0 \<or> frontier \<noteq> committed_frontier source) LogicError)
     (act_bind (act_ask (\<lambda>s. active_snapshot_shape s src frontier)) (\<lambda>sh.
       let required_pages = pages_for_tokens frontier in
       act_then (act_guard (\<lambda>s. page_count source \<noteq> required_pages) LogicError)
       (act_bind (if copied_pages sh = 0 then (\<lambda>s. (s, Inr (make_empty_reservation (physical_pool (space_pages s)))))
                  else on_pool (\<lambda>p. resize_reservation p (make_empty_reservation p) (copied_pages sh))) (\<lambda>r.
        act_bind (act_cleanup
          (if tail_columns sh = 0 then act_return (r, None)
           else on_pages_result (\<lambda>p. res_bind (materialize_transfer_destination p r (tail_columns sh)) (\<lambda>(p', r', l).
                  Inr (p', (r', Some l)))))
          (drop_reservation r)) (\<lambda>(r', tail_destination).
        act_then (act_cleanup
          (\<lambda>s. act_for (\<lambda>l. on_pages (\<lambda>p. pin_source p l)) (page_handles s (space_index src) [0..<required_pages]) s)
          (act_bind (abort_tail tail_destination r') drop_reservation))
        (\<lambda>s. (s, Inr \<lparr>snapshot_owner = Some (space_id s), snapshot_source = src, snapshot_destination = dst,
               snapshot_frontier = frontier, snapshot_shape = sh, snapshot_entitlement = entitlement_of source,
               tail_reservation = r', snapshot_tail = tail_destination\<rparr>)))))))))"

definition require_active_snapshot :: "KVAddressSpaceStore \<Rightarrow> KVActiveSnapshotReservation \<Rightarrow> unit res" where
  "require_active_snapshot s v =
     (if snapshot_owner v \<noteq> Some (space_id s) \<or> \<not> valid_address s (snapshot_source v)
         \<or> \<not> valid_address s (snapshot_destination v)
      then Inl LogicError else Inr ())"

definition active_snapshot_tail_source :: "KVAddressSpaceStore \<Rightarrow> KVActiveSnapshotReservation \<Rightarrow> DeviceKVPageHandle res" where
  "active_snapshot_tail_source s v =
     res_bind (require_active_snapshot s v) (\<lambda>_.
       if tail_columns (snapshot_shape v) = 0 then Inl LogicError
       else physical (space_pages s) (membership s (space_index (snapshot_source v)) (full_pages (snapshot_shape v))))"

definition active_snapshot_tail_destination ::
  "KVAddressSpaceStore \<Rightarrow> KVActiveSnapshotReservation \<Rightarrow> DeviceKVPageHandle res" where
  "active_snapshot_tail_destination s v =
     res_bind (require_active_snapshot s v) (\<lambda>_.
       case snapshot_tail v of None \<Rightarrow> Inl LogicError | Some l \<Rightarrow> physical (space_pages s) l)"

definition snapshot_ready :: "KVAddressSpaceStore \<Rightarrow> KVActiveSnapshotReservation \<Rightarrow> unit res" where
  "snapshot_ready s v =
     res_bind (require_active_snapshot s v) (\<lambda>_.
     res_bind (require_active s (snapshot_source v)) (\<lambda>source.
     res_bind (active_snapshot_shape s (snapshot_source v) (snapshot_frontier v)) (\<lambda>sh.
       let p = space_pages s; i = space_index (snapshot_source v); destination = address_at s (snapshot_destination v);
           required_pages = pages_for_tokens (snapshot_frontier v);
           expected_growth = u32_sub (snapshot_entitlement v) required_pages in
       if sh \<noteq> snapshot_shape v \<or> addr_row source = None \<or> \<not> reservation_valid (addr_reservation source)
          \<or> page_count source \<noteq> required_pages \<or> committed_frontier source \<noteq> snapshot_frontier v
          \<or> reservation_pages (addr_reservation source) \<noteq> expected_growth \<or> \<not> idle_address destination
          \<or> page_count destination \<noteq> 0 \<or> committed_frontier destination \<noteq> 0
          \<or> reservation_pages (tail_reservation v) \<noteq> 0 then Inl LogicError
       else res_bind (check_pages (\<lambda>l. res_bind (page_field id p l) (\<lambda>pg.
           Inr (\<not> (source_pins pg = 0 \<or> device_replica pg = None)))) LogicError
           (page_handles s i [0..<required_pages])) (\<lambda>_.
         if tail_columns (snapshot_shape v) \<noteq> 0 \<and>
            (case snapshot_tail v of None \<Rightarrow> True | Some l \<Rightarrow> \<not> valid_page p l) then Inl LogicError
         else Inr ()))))"

definition retire_page :: "nat \<Rightarrow> nat \<Rightarrow> LogicalKVPageHandle \<Rightarrow> unit space_action" where
  "retire_page dst page l =
     act_bind (ask_pages (\<lambda>p. page_field writer_references p l)) (\<lambda>n.
     act_then (act_when (n \<noteq> 0) (on_pages (\<lambda>p. set_writer p l False))) (share_page dst page l))"

definition publish_active_snapshot :: "KVActiveSnapshotReservation \<Rightarrow> unit space_action" where
  "publish_active_snapshot v = (\<lambda>s.
     let src = space_index (snapshot_source v); dst = space_index (snapshot_destination v);
         full = full_pages (snapshot_shape v); tail_page = membership s src full in
     act_bind (ask_pages (\<lambda>p. physical_all p
         (page_handles s src [0..<full] @ (case snapshot_tail v of None \<Rightarrow> [] | Some l \<Rightarrow> [l])))) (\<lambda>ds.
     act_then (publish_row (row_lease_handle (the (addr_row (addresses s ! src)))) 0 ds)
     (act_then (act_for (\<lambda>page. retire_page dst page (membership s src page)) [0..<full])
     (case snapshot_tail v of
        None \<Rightarrow> act_return ()
      | Some l \<Rightarrow> act_then (on_pages (\<lambda>p. set_writer p tail_page False))
          (act_then (on_pages (\<lambda>p. protect_coverage p tail_page (tail_columns (snapshot_shape v))))
          (act_then (on_pages (\<lambda>p. publish_transfer_destination p l True)) (set_membership dst full l)))))) s)"

text \<open>The row and the reservation move from the source to the destination; the source keeps a moved-from
  row lease until its row is reset.\<close>

definition adopt_active_snapshot :: "KVActiveSnapshotReservation \<Rightarrow> unit space_action" where
  "adopt_active_snapshot v = (\<lambda>s.
     let src = space_index (snapshot_source v); dst = space_index (snapshot_destination v);
         full = full_pages (snapshot_shape v); source = addresses s ! src;
         required_pages = pages_for_tokens (snapshot_frontier v) in
     act_then (put_address dst (\<lambda>a. a\<lparr>page_count := required_pages, committed_frontier := snapshot_frontier v,
                  addr_reservation := addr_reservation source, addr_row := addr_row source, addr_active := True\<rparr>))
     (act_then (put_address src (\<lambda>a. a\<lparr>addr_reservation := null_reservation, addr_row := Some null_row_lease\<rparr>))
     (act_then (act_when (tail_columns (snapshot_shape v) \<noteq> 0)
          (act_then (on_pages (\<lambda>p. release_active_reference p (membership s src full)))
            (on_pages (\<lambda>p. retain_active_reference p (membership s dst full)))))
     (act_then (put_address src (\<lambda>a. a\<lparr>addr_row := None, addr_active := False,
                                      checkpoint_frontier := snapshot_frontier v\<rparr>))
     (act_for (\<lambda>l. on_pages (\<lambda>p. unpin_source p l)) (page_handles s src [0..<required_pages]))))) s)"

definition commit_active_snapshot ::
  "KVActiveSnapshotReservation \<Rightarrow> KVAddressSpaceStore \<Rightarrow> KVAddressSpaceStore \<times> KVActiveSnapshotReservation \<times> unit res"
where
  "commit_active_snapshot v s =
     (case act_then (act_ask (\<lambda>s. snapshot_ready s v)) (publish_active_snapshot v) s of
        (s1, Inl e) \<Rightarrow> (s1, v, Inl e)
      | (s1, Inr u) \<Rightarrow> (case adopt_active_snapshot v s1 of
          (s2, Inl e) \<Rightarrow> (s2, v\<lparr>snapshot_tail := None\<rparr>, Inl e)
        | (s2, Inr u) \<Rightarrow> (s2, v\<lparr>snapshot_tail := None, snapshot_owner := None\<rparr>, Inr ())))"

definition abort_active_snapshot :: "KVActiveSnapshotReservation \<Rightarrow> KVActiveSnapshotReservation space_action" where
  "abort_active_snapshot v = act_noexcept (\<lambda>s.
     if snapshot_owner v \<noteq> Some (space_id s) then (s, Inr v)
     else act_then (act_when (valid_address s (snapshot_source v))
            (act_for (\<lambda>page. unpin_if_pinned (membership s (space_index (snapshot_source v)) page))
              [0..<min (pages_for_tokens (snapshot_frontier v)) (page_count (address_at s (snapshot_source v)))]))
          (act_bind (abort_tail (snapshot_tail v) (tail_reservation v)) (\<lambda>r.
            act_return (v\<lparr>snapshot_owner := None, snapshot_tail := None, tail_reservation := r\<rparr>))) s)"

definition destroy_active_snapshot :: "KVActiveSnapshotReservation \<Rightarrow> unit space_action" where
  "destroy_active_snapshot v = act_noexcept (
     act_bind (if snapshot_owner v = None then act_return v else abort_active_snapshot v) (\<lambda>v'.
       drop_reservation (tail_reservation v')))"

end
