(* ===== verification/Space_Pages.thy ===== *)
theory Space_Pages
  imports Address_Space
begin

text \<open>
  What the loops of an address-space method do to the page store: relations between the pages before
  and after, seen through the live handles. A loop over different live pages that changes each of them
  by one function changes exactly those pages; giving up a reference of each of a list of pages
  drops exactly those references.
\<close>

lemma valid_page_unique:
  "valid_page p l \<Longrightarrow> valid_page p m \<Longrightarrow> logical_index l = logical_index m \<Longrightarrow> l = m"
  by (simp add: valid_page_def)

section \<open>Changing live pages in place\<close>

definition pages_rel ::
  "(LogicalKVPageHandle \<Rightarrow> LogicalPage \<Rightarrow> LogicalPage \<Rightarrow> bool) \<Rightarrow> LogicalKVPageStore \<Rightarrow> LogicalKVPageStore \<Rightarrow> bool" where
  "pages_rel Q p p' \<longleftrightarrow> store_inv p' \<and> p' = p\<lparr>store_pages := store_pages p'\<rparr> \<and>
     length (store_pages p') = length (store_pages p) \<and> (\<forall>l. valid_page p' l = valid_page p l) \<and>
     (\<forall>l. valid_page p l \<longrightarrow> Q l (page_at p l) (page_at p' l))"

abbreviation touched ::
  "(LogicalPage \<Rightarrow> LogicalPage) \<Rightarrow> LogicalKVPageHandle set \<Rightarrow> LogicalKVPageStore \<Rightarrow> LogicalKVPageStore \<Rightarrow> bool" where
  "touched f L \<equiv> pages_rel (\<lambda>l pg pg'. pg' = (if l \<in> L then f pg else pg))"

lemma pages_rel_frame:
  assumes "pages_rel Q p p'"
  shows "store_inv p'" "store_id p' = store_id p" "physical_pool p' = physical_pool p"
    "free_count p' = free_count p" "free_slots p' = free_slots p" "valid_page p' l = valid_page p l"
    "length (store_pages p') = length (store_pages p)"
proof -
  have e: "p' = p\<lparr>store_pages := store_pages p'\<rparr>" using assms by (simp add: pages_rel_def)
  show "store_id p' = store_id p" "physical_pool p' = physical_pool p" "free_count p' = free_count p"
    "free_slots p' = free_slots p" by (subst e, simp)+
qed (use assms in \<open>simp_all add: pages_rel_def\<close>)

lemma pages_relD: "pages_rel Q p p' \<Longrightarrow> valid_page p l \<Longrightarrow> Q l (page_at p l) (page_at p' l)"
  by (simp add: pages_rel_def)

lemma pages_rel_refl: "store_inv p \<Longrightarrow> (\<And>l. Q l (page_at p l) (page_at p l)) \<Longrightarrow> pages_rel Q p p"
  by (simp add: pages_rel_def)

lemma pages_rel_mono:
  "pages_rel Q p p' \<Longrightarrow> (\<And>l a b. Q l a b \<Longrightarrow> R l a b) \<Longrightarrow> pages_rel R p p'"
  by (auto simp: pages_rel_def)

lemma pages_rel_trans:
  assumes "pages_rel Q p p'" "pages_rel R p' p''" "\<And>l a b c. Q l a b \<Longrightarrow> R l b c \<Longrightarrow> T l a c"
  shows "pages_rel T p p''"
proof -
  have "p' = p\<lparr>store_pages := store_pages p'\<rparr>" "p'' = p'\<lparr>store_pages := store_pages p''\<rparr>"
    using assms(1,2) by (simp_all add: pages_rel_def)
  then have "p'' = p\<lparr>store_pages := store_pages p''\<rparr>" by (metis LogicalKVPageStore.update_convs(3) LogicalKVPageStore.surjective)
  then show ?thesis using assms by (auto simp: pages_rel_def)
qed

lemma touched_none: "store_inv p \<Longrightarrow> touched f {} p p"
  by (simp add: pages_rel_refl)

text \<open>One change of one page.\<close>

definition keeps_page :: "(LogicalPage \<Rightarrow> LogicalPage) \<Rightarrow> bool" where
  "keeps_page f \<longleftrightarrow> (\<forall>pg. page_gen (f pg) = page_gen pg \<and> page_occupied (f pg) = page_occupied pg)"

lemma put_page_touched:
  assumes inv: "store_inv p" and v: "valid_page p l"
    and ok: "page_ok (f (page_at p l))" "page_leases (f (page_at p l)) = page_leases (page_at p l)" and keep: "keeps_page f"
  shows "touched f {l} p (put_page p (logical_index l) (f (page_at p l)))"
proof -
  note w = valid_page_ok [OF inv v]
  let ?p = "put_page p (logical_index l) (f (page_at p l))"
  have "store_inv ?p" using store_replace_same [OF inv v ok(1) _ ok(2)] keep w(2) by (simp add: store_step_def keeps_page_def)
  moreover have "valid_page ?p m = valid_page p m" for m
    using valid_page_put [of "f (page_at p l)" p "logical_index l" "physical_pool p" m] keep
    by (simp add: keeps_page_def w(4))
  moreover have "page_at ?p m = (if m = l then f (page_at p l) else page_at p m)" if "valid_page p m" for m
    using that v w(1) put_page_at valid_page_unique [OF that v] by (auto simp: page_at_def put_page_def nth_list_update)
  ultimately show ?thesis by (simp add: pages_rel_def) (simp add: put_page_def)
qed

lemma change_page_touched:
  assumes "store_inv p" "valid_page p l" "guard (page_at p l) = None"
    and "page_ok (f (page_at p l))" "page_leases (f (page_at p l)) = page_leases (page_at p l)" "keeps_page f"
  obtains p' where "change_page p l guard f = Inr p'" "touched f {l} p p'"
  using put_page_touched [OF assms(1,2,4,5,6)] assms(2,3) by (simp add: change_page_def require_page_def)

section \<open>Loops over different pages\<close>

text \<open>A loop body that changes one live page by \<open>f\<close> when the page satisfies \<open>G\<close>, whatever the rest of the
  state is.\<close>

definition touches ::
  "(LogicalPage \<Rightarrow> LogicalPage) \<Rightarrow> (LogicalPage \<Rightarrow> bool) \<Rightarrow> (LogicalKVPageHandle \<Rightarrow> unit space_action) \<Rightarrow> bool" where
  "touches f G B \<longleftrightarrow> (\<forall>p l. store_inv p \<longrightarrow> valid_page p l \<longrightarrow> G (page_at p l) \<longrightarrow>
     (\<exists>p'. touched f {l} p p' \<and> (\<forall>s. space_pages s = p \<longrightarrow> B l s = (s\<lparr>space_pages := p'\<rparr>, Inr ()))))"

lemma touches_run:
  assumes "touches f G B" "store_inv (space_pages s)" "valid_page (space_pages s) l" "G (page_at (space_pages s) l)"
  obtains p' where "touched f {l} (space_pages s) p'" "B l s = (s\<lparr>space_pages := p'\<rparr>, Inr ())"
  using assms unfolding touches_def by blast

lemma touches_loop:
  assumes B: "touches f G B" and inv: "store_inv (space_pages s)" and ls: "distinct ls"
    "\<forall>l \<in> set ls. valid_page (space_pages s) l \<and> G (page_at (space_pages s) l)"
  obtains p' where "act_for B ls s = (s\<lparr>space_pages := p'\<rparr>, Inr ())" "touched f (set ls) (space_pages s) p'"
  using inv ls
proof (induction ls arbitrary: s thesis)
  case Nil
  from Nil.prems(1) [of "space_pages s"] show ?case using touched_none [OF Nil.prems(2)] by simp
next
  case (Cons l ls)
  obtain p1 where p1: "touched f {l} (space_pages s) p1" "B l s = (s\<lparr>space_pages := p1\<rparr>, Inr ())"
    using touches_run [OF B Cons.prems(2)] Cons.prems(4) by auto
  have "valid_page p1 m \<and> G (page_at p1 m)" if "m \<in> set ls" for m
    using pages_rel_frame(6) [OF p1(1)] pages_relD [OF p1(1), of m] Cons.prems(3,4) that by auto
  then obtain p2 where p2: "act_for B ls (s\<lparr>space_pages := p1\<rparr>) = (s\<lparr>space_pages := p2\<rparr>, Inr ())" "touched f (set ls) p1 p2"
    using Cons.IH [of "s\<lparr>space_pages := p1\<rparr>"] pages_rel_frame(1) [OF p1(1)] Cons.prems(3) by auto
  have "touched f (set (l # ls)) (space_pages s) p2"
    using Cons.prems(3) by (intro pages_rel_trans [OF p1(1) p2(2)]) auto
  then show ?case using Cons.prems(1) [of p2] p1(2) p2(1) by (simp add: act_then_def act_bind_def)
qed

text \<open>The single-page methods as loop bodies.\<close>

lemma change_touches:
  assumes "\<And>p l. op p l = change_page p l (g p l) f"
    and "\<And>p l. valid_page p l \<Longrightarrow> page_ok (page_at p l) \<Longrightarrow> page_occupied (page_at p l) \<Longrightarrow> G (page_at p l) \<Longrightarrow>
      g p l (page_at p l) = None \<and> page_ok (f (page_at p l))"
    and "\<And>pg. page_leases (f pg) = page_leases pg" "keeps_page f"
  shows "touches f G (\<lambda>l. on_pages (\<lambda>p. op p l))"
  unfolding touches_def
proof (intro allI impI)
  fix p l
  assume p: "store_inv p" "valid_page p l" "G (page_at p l)"
  note w = valid_page_ok [OF p(1,2)]
  obtain p' where "change_page p l (g p l) f = Inr p'" "touched f {l} p p'"
    using change_page_touched [of p l "g p l" f] p assms(2) [OF p(2) w(3,2) p(3)] assms(3,4) by blast
  then show "\<exists>p'. touched f {l} p p' \<and> (\<forall>s. space_pages s = p \<longrightarrow> on_pages (\<lambda>p. op p l) s = (s\<lparr>space_pages := p'\<rparr>, Inr ()))"
    by (intro exI [of _ p']) (simp add: on_pages_def assms(1))
qed

lemma touches_then:
  assumes "touches f G B" "touches g H C" "\<And>pg. G pg \<Longrightarrow> H (f pg)"
  shows "touches (\<lambda>pg. g (f pg)) G (\<lambda>l. act_then (B l) (C l))"
  unfolding touches_def
proof (intro allI impI)
  fix p l
  assume p: "store_inv p" "valid_page p l" "G (page_at p l)"
  obtain p1 where p1: "touched f {l} p p1" "\<And>s. space_pages s = p \<Longrightarrow> B l s = (s\<lparr>space_pages := p1\<rparr>, Inr ())"
    using assms(1) p unfolding touches_def by blast
  have "H (page_at p1 l)" using pages_relD [OF p1(1) p(2)] assms(3) [OF p(3)] by simp
  moreover have "store_inv p1" "valid_page p1 l" using pages_rel_frame(1,6) [OF p1(1)] p(2) by simp_all
  ultimately obtain p2 where p2: "touched g {l} p1 p2" "\<And>s. space_pages s = p1 \<Longrightarrow> C l s = (s\<lparr>space_pages := p2\<rparr>, Inr ())"
    using assms(2) unfolding touches_def by blast
  have "touched (\<lambda>pg. g (f pg)) {l} p p2" by (rule pages_rel_trans [OF p1(1) p2(1)]) auto
  then show "\<exists>p'. touched (\<lambda>pg. g (f pg)) {l} p p'
      \<and> (\<forall>s. space_pages s = p \<longrightarrow> act_then (B l) (C l) s = (s\<lparr>space_pages := p'\<rparr>, Inr ()))"
    using p1(2) p2(2) by (intro exI [of _ p2]) (simp add: act_then_def act_bind_def)
qed

text \<open>A body that queries a counter of the page first.\<close>

lemma touches_query:
  assumes "\<And>x. touches (f x) (\<lambda>pg. G pg \<and> fld pg = x) (B x)"
  shows "touches (\<lambda>pg. f (fld pg) pg) G (\<lambda>l. act_bind (ask_pages (\<lambda>p. page_field fld p l)) (\<lambda>x. B x l))"
  unfolding touches_def
proof (intro allI impI)
  fix p l
  assume p: "store_inv p" "valid_page p l" "G (page_at p l)"
  define x where "x = fld (page_at p l)"
  obtain p' where p': "touched (f x) {l} p p'" "\<And>s. space_pages s = p \<Longrightarrow> B x l s = (s\<lparr>space_pages := p'\<rparr>, Inr ())"
    using assms [of x] p unfolding touches_def x_def by blast
  have "touched (\<lambda>pg. f (fld pg) pg) {l} p p'"
    using p'(1) by (auto simp: pages_rel_def x_def)
  moreover have "act_bind (ask_pages (\<lambda>p. page_field fld p l)) (\<lambda>x. B x l) s = (s\<lparr>space_pages := p'\<rparr>, Inr ())"
    if "space_pages s = p" for s
    using p'(2) [OF that] p(2) that
    by (simp add: act_bind_def ask_pages_def act_ask_def page_field_def require_page_def x_def)
  ultimately show "\<exists>p'. touched (\<lambda>pg. f (fld pg) pg) {l} p p' \<and> (\<forall>s. space_pages s = p \<longrightarrow>
      act_bind (ask_pages (\<lambda>p. page_field fld p l)) (\<lambda>x. B x l) s = (s\<lparr>space_pages := p'\<rparr>, Inr ()))" by blast
qed

lemma touches_when:
  assumes "b \<Longrightarrow> touches f G B"
  shows "touches (\<lambda>pg. if b then f pg else pg) G (\<lambda>l. act_when b (B l))"
proof (cases b)
  case True
  then show ?thesis using assms by (simp add: act_when_def)
next
  case False
  have "\<exists>p'. pages_rel (\<lambda>l pg pg'. pg' = pg) p p' \<and> (\<forall>s. space_pages s = p \<longrightarrow> (s, Inr ()) = (s\<lparr>space_pages := p'\<rparr>, Inr ()))"
    if "store_inv p" for p using that by (intro exI [of _ p]) (auto simp: pages_rel_refl)
  then show ?thesis using False by (auto simp: touches_def act_when_def act_return_def)
qed

lemma touches_weaken: "touches f G B \<Longrightarrow> (\<And>pg. H pg \<Longrightarrow> G pg) \<Longrightarrow> touches f H B"
  by (simp add: touches_def)

section \<open>The single-page methods\<close>

lemma retain_active_touches:
  "touches (\<lambda>pg. pg\<lparr>active_references := active_references pg + 1\<rparr>) (\<lambda>pg. active_references pg < references pg)
     (\<lambda>l. on_pages (\<lambda>p. retain_active_reference p l))"
  by (rule change_touches [OF retain_active_reference_def]) (auto simp: page_ok_def keeps_page_def)

lemma release_active_touches:
  "touches (\<lambda>pg. pg\<lparr>active_references := active_references pg - 1\<rparr>) (\<lambda>pg. active_references pg \<noteq> 0)
     (\<lambda>l. on_pages (\<lambda>p. release_active_reference p l))"
  by (rule change_touches [OF release_active_reference_def]) (auto simp: page_ok_def keeps_page_def)

lemma retain_reference_touches:
  "touches (\<lambda>pg. pg\<lparr>references := references pg + 1\<rparr>) (\<lambda>pg. references pg \<noteq> u32_max)
     (\<lambda>l. on_pages (\<lambda>p. retain_reference p l False))"
proof -
  have "retain_reference p l False = change_page p l (\<lambda>pg. if references pg = u32_max then Some LogicError else None)
      (\<lambda>pg. pg\<lparr>references := references pg + 1\<rparr>)" for p l
    by (simp add: retain_reference_def)
  then show ?thesis by (rule change_touches) (auto simp: page_ok_def keeps_page_def)
qed

lemma set_writer_touches:
  "touches (\<lambda>pg. pg\<lparr>writer_references := if b then 1 else 0\<rparr>) (\<lambda>pg. b \<longrightarrow> writer_references pg = 0)
     (\<lambda>l. on_pages (\<lambda>p. set_writer p l b))"
  by (rule change_touches [OF set_writer_def]) (auto simp: page_ok_def keeps_page_def)

lemma protect_coverage_touches:
  "touches (\<lambda>pg. pg\<lparr>protected_columns := max (protected_columns pg) c\<rparr>) (\<lambda>pg. c \<le> committed_columns pg)
     (\<lambda>l. on_pages (\<lambda>p. protect_coverage p l c))"
  by (rule change_touches [OF protect_coverage_def]) (auto simp: page_ok_def keeps_page_def)

lemma set_protected_touches:
  "touches (\<lambda>pg. pg\<lparr>protected_columns := c\<rparr>) (\<lambda>pg. c \<le> committed_columns pg)
     (\<lambda>l. on_pages (\<lambda>p. set_protected_coverage p l c))"
  by (rule change_touches [OF set_protected_coverage_def]) (auto simp: page_ok_def keeps_page_def)

lemma clear_protection_touches:
  "touches (\<lambda>pg. pg\<lparr>protected_columns := 0\<rparr>) (\<lambda>pg. references pg = 1 \<and> source_pins pg = 0)
     (\<lambda>l. on_pages (\<lambda>p. clear_protection p l))"
  by (rule change_touches [OF clear_protection_def]) (auto simp: page_ok_def keeps_page_def)

lemma pin_source_touches:
  "touches (\<lambda>pg. pg\<lparr>source_pins := source_pins pg + 1\<rparr>) (\<lambda>pg. source_pins pg \<noteq> u32_max)
     (\<lambda>l. on_pages (\<lambda>p. pin_source p l))"
  by (rule change_touches [OF pin_source_def]) (auto simp: page_ok_def keeps_page_def)

lemma unpin_source_touches:
  "touches (\<lambda>pg. pg\<lparr>source_pins := source_pins pg - 1\<rparr>) (\<lambda>pg. source_pins pg \<noteq> 0)
     (\<lambda>l. on_pages (\<lambda>p. unpin_source p l))"
  by (rule change_touches [OF unpin_source_def]) (auto simp: page_ok_def keeps_page_def)

lemma commit_coverage_touches:
  "touches (\<lambda>pg. pg\<lparr>committed_columns := c\<rparr>)
     (\<lambda>pg. device_replica pg \<noteq> None \<and> writer_references pg = 1 \<and> committed_columns pg \<le> c \<and> c \<le> page_size)
     (\<lambda>l. on_pages (\<lambda>p. commit_coverage p l c))"
  by (rule change_touches [OF commit_coverage_def]) (auto simp: page_ok_def keeps_page_def intro: le_trans)

text \<open>The loop bodies of activation and deactivation.\<close>

definition activated :: "LogicalPage \<Rightarrow> LogicalPage" where
  "activated pg = (let pg' = (if references pg = 1 then pg\<lparr>protected_columns := 0, writer_references := 1\<rparr> else pg) in
     pg'\<lparr>active_references := active_references pg + 1\<rparr>)"

lemma activate_page_touches:
  "touches activated (\<lambda>pg. active_references pg < references pg \<and>
      (references pg = 1 \<longrightarrow> source_pins pg = 0 \<and> writer_references pg = 0)) activate_page"
proof -
  let ?G = "\<lambda>n pg. (active_references pg < references pg \<and>
      (references pg = 1 \<longrightarrow> source_pins pg = 0 \<and> writer_references pg = 0)) \<and> references pg = n"
  let ?f = "\<lambda>n pg. if n = 1 then pg\<lparr>protected_columns := 0\<rparr>\<lparr>writer_references := if True then 1 else 0\<rparr> else pg"
  have "touches (?f n) (?G n) (\<lambda>l. act_when (n = 1) (act_then (on_pages (\<lambda>p. clear_protection p l)) (on_pages (\<lambda>p. set_writer p l True))))"
    for n
    by (rule touches_when, rule touches_then [OF touches_weaken [OF clear_protection_touches] set_writer_touches]) auto
  then have "touches (\<lambda>pg. (?f n pg)\<lparr>active_references := active_references (?f n pg) + 1\<rparr>) (?G n)
      (\<lambda>l. act_then (act_when (n = 1) (act_then (on_pages (\<lambda>p. clear_protection p l)) (on_pages (\<lambda>p. set_writer p l True))))
        (on_pages (\<lambda>p. retain_active_reference p l)))" for n
    by (rule touches_then [OF _ retain_active_touches]) auto
  from touches_query [OF this] have "touches (\<lambda>pg. (?f (references pg) pg)\<lparr>active_references := active_references (?f (references pg) pg) + 1\<rparr>)
    (\<lambda>pg. active_references pg < references pg \<and> (references pg = 1 \<longrightarrow> source_pins pg = 0 \<and> writer_references pg = 0)) activate_page"
    unfolding activate_page_def [abs_def] .
  moreover have "(\<lambda>pg. (?f (references pg) pg)\<lparr>active_references := active_references (?f (references pg) pg) + 1\<rparr>) = activated"
    by (rule ext) (simp add: activated_def)
  ultimately show ?thesis by simp
qed

definition deactivated :: "LogicalPage \<Rightarrow> LogicalPage" where
  "deactivated pg = pg\<lparr>writer_references := 0, active_references := active_references pg - 1\<rparr>"

lemma deactivate_page_touches: "touches deactivated (\<lambda>pg. active_references pg \<noteq> 0) deactivate_page"
proof -
  let ?f = "\<lambda>n pg. if n \<noteq> 0 then pg\<lparr>writer_references := if False then 1 else 0\<rparr> else pg"
  have "touches (?f n) (\<lambda>pg. active_references pg \<noteq> 0 \<and> writer_references pg = n)
      (\<lambda>l. act_when (n \<noteq> 0) (on_pages (\<lambda>p. set_writer p l False)))" for n
    by (rule touches_when, rule touches_weaken [OF set_writer_touches]) simp
  then have "touches (\<lambda>pg. (?f n pg)\<lparr>active_references := active_references (?f n pg) - 1\<rparr>)
      (\<lambda>pg. active_references pg \<noteq> 0 \<and> writer_references pg = n)
      (\<lambda>l. act_then (act_when (n \<noteq> 0) (on_pages (\<lambda>p. set_writer p l False))) (on_pages (\<lambda>p. release_active_reference p l)))" for n
    by (rule touches_then [OF _ release_active_touches]) auto
  from touches_query [OF this] have "touches (\<lambda>pg. (?f (writer_references pg) pg)\<lparr>active_references :=
      active_references (?f (writer_references pg) pg) - 1\<rparr>) (\<lambda>pg. active_references pg \<noteq> 0) deactivate_page"
    unfolding deactivate_page_def [abs_def] .
  moreover have "(\<lambda>pg. (?f (writer_references pg) pg)\<lparr>active_references := active_references (?f (writer_references pg) pg) - 1\<rparr>)
      = deactivated"
    by (rule ext) (simp add: deactivated_def)
  ultimately show ?thesis by simp
qed

section \<open>Pages that appear and disappear\<close>

definition store_frame :: "LogicalKVPageStore \<Rightarrow> LogicalKVPageStore \<Rightarrow> bool" where
  "store_frame p p' \<longleftrightarrow> store_inv p' \<and> store_id p' = store_id p \<and> length (store_pages p') = length (store_pages p) \<and>
     pool_id (physical_pool p') = pool_id (physical_pool p) \<and> pool_spec (physical_pool p') = pool_spec (physical_pool p)"

lemma store_frame_trans: "store_frame p q \<Longrightarrow> store_frame q r \<Longrightarrow> store_frame p r"
  by (simp add: store_frame_def)

lemma store_frame_step: "store_step p r p' r' \<Longrightarrow> store_frame p p'"
  by (simp add: store_frame_def store_step_def)

lemma store_frame_rel: "pages_rel Q p p' \<Longrightarrow> store_frame p p'"
  using pages_rel_frame [of Q p p'] by (simp add: store_frame_def)

text \<open>One reference less for each page of \<open>L\<close>: the last one retires the page, unless a host replica keeps it.\<close>

definition unreferenced :: "LogicalPage \<Rightarrow> LogicalPage" where
  "unreferenced pg = (if references pg = 1 then (dropped_reference False pg)\<lparr>device_replica := None\<rparr> else dropped_reference False pg)"

definition retires :: "LogicalPage \<Rightarrow> bool" where
  "retires pg \<longleftrightarrow> references pg = 1 \<and> host_replica pg = None"

definition released :: "LogicalKVPageHandle set \<Rightarrow> LogicalKVPageStore \<Rightarrow> LogicalKVPageStore \<Rightarrow> bool" where
  "released L p p' \<longleftrightarrow> store_frame p p' \<and> reserved_pages (physical_pool p') = reserved_pages (physical_pool p) \<and>
     (\<forall>l. valid_page p' l \<longleftrightarrow> valid_page p l \<and> \<not> (l \<in> L \<and> retires (page_at p l))) \<and>
     (\<forall>l. valid_page p' l \<longrightarrow> page_at p' l = (if l \<in> L then unreferenced (page_at p l) else page_at p l))"

lemma released_none: "store_inv p \<Longrightarrow> released {} p p"
  by (simp add: released_def store_frame_def)

lemma release_reference_released:
  assumes inv: "store_inv p" and can: "can_release_reference p l False"
  obtains p' where "release_reference p l False = Inr (p', True)" "released {l} p p'"
proof -
  have v: "valid_page p l" using can by (auto simp: can_release_reference_def split: if_splits)
  note w = valid_page_ok [OF inv v]
  obtain p' where run: "release_reference p l False = Inr (p', True)" and st: "store_step p null_reservation p' null_reservation"
    and other: "\<And>j. j \<noteq> logical_index l \<Longrightarrow> store_pages p' ! j = store_pages p ! j"
    and out: "references (page_at p l) \<noteq> 1 \<Longrightarrow> page_at p' l = dropped_reference False (page_at p l)"
      "references (page_at p l) = 1 \<Longrightarrow> host_replica (page_at p l) = None \<Longrightarrow> \<not> page_occupied (page_at p' l)"
      "references (page_at p l) = 1 \<Longrightarrow> host_replica (page_at p l) \<noteq> None \<Longrightarrow>
         page_at p' l = (dropped_reference False (page_at p l))\<lparr>device_replica := None\<rparr>"
    using release_reference_outcome [OF inv can] by metis
  have id: "store_id p' = store_id p" "length (store_pages p') = length (store_pages p)"
    using st by (simp_all add: store_step_def)
  have here: "page_at p' l = unreferenced (page_at p l)" if "\<not> retires (page_at p l)"
    using that out(1,3) by (auto simp: retires_def unreferenced_def)
  have keep: "page_gen (unreferenced (page_at p l)) = page_gen (page_at p l)" "page_occupied (unreferenced (page_at p l))"
    using w(2) by (auto simp: unreferenced_def dropped_reference_def)
  have "valid_page p' m \<longleftrightarrow> valid_page p m \<and> \<not> (m = l \<and> retires (page_at p l))" for m
  proof (cases "logical_index m = logical_index l")
    case True
    then have at: "page_at p' m = page_at p' l" "page_at p m = page_at p l" by (simp_all add: page_at_def)
    show ?thesis
    proof (cases "retires (page_at p l)")
      case retired: True
      then have "\<not> page_occupied (page_at p' l)" using out(2) by (simp add: retires_def)
      then have "\<not> valid_page p' m" using at True by (simp add: valid_page_def page_at_def)
      moreover have "valid_page p m \<Longrightarrow> m = l" using valid_page_unique [OF _ v] True by blast
      ultimately show ?thesis using retired by blast
    next
      case False
      then show ?thesis using at keep here w(2) True id by (simp add: valid_page_def page_at_def)
    qed
  next
    case False
    then show ?thesis using other [OF False] id v by (auto simp: valid_page_def)
  qed
  moreover have "page_at p' m = (if m = l then unreferenced (page_at p l) else page_at p m)" if "valid_page p' m" "valid_page p m" for m
    using that other [of "logical_index m"] here calculation valid_page_unique [OF that(2) v] by (auto simp: page_at_def)
  ultimately have "released {l} p p'"
    using st by (auto simp: released_def store_frame_step store_step_def)
  then show ?thesis using run that by blast
qed

lemma released_trans:
  assumes "released L p q" "released M q r" "L \<inter> M = {}"
  shows "released (L \<union> M) p r"
  unfolding released_def
proof (intro conjI allI impI)
  have A: "valid_page q l \<longleftrightarrow> valid_page p l \<and> \<not> (l \<in> L \<and> retires (page_at p l))"
    "valid_page q l \<Longrightarrow> page_at q l = (if l \<in> L then unreferenced (page_at p l) else page_at p l)"
    "valid_page r l \<longleftrightarrow> valid_page q l \<and> \<not> (l \<in> M \<and> retires (page_at q l))"
    "valid_page r l \<Longrightarrow> page_at r l = (if l \<in> M then unreferenced (page_at q l) else page_at q l)" for l
    using assms(1,2) by (auto simp: released_def)
  fix l
  have M: "page_at q l = page_at p l" if "l \<in> M" "valid_page q l" using that A(2) assms(3) by (metis disjoint_iff)
  show "valid_page r l \<longleftrightarrow> valid_page p l \<and> \<not> (l \<in> L \<union> M \<and> retires (page_at p l))"
    using A(1,3) M assms(3) by (metis Un_iff disjoint_iff)
  show "page_at r l = (if l \<in> L \<union> M then unreferenced (page_at p l) else page_at p l)" if "valid_page r l"
    using that A M assms(3) by (metis Un_iff disjoint_iff)
qed (use assms(1,2) in \<open>auto simp: released_def intro: store_frame_trans\<close>)

lemma can_release_kept:
  assumes "released L p p'" "l \<notin> L" "can_release_reference p l w"
  shows "can_release_reference p' l w"
proof -
  have v: "valid_page p l" using assms(3) by (auto simp: can_release_reference_def split: if_splits)
  then have "valid_page p' l" using assms(1,2) by (auto simp: released_def)
  moreover from this have "page_at p' l = page_at p l" using assms(1,2) by (auto simp: released_def)
  ultimately show ?thesis using assms(3) v by (simp add: can_release_reference_def)
qed

text \<open>A loop that gives up one reference of each of the pages at the positions \<open>ks\<close> of address \<open>i\<close>; \<open>F\<close> is
  what a round does to the address itself.\<close>

lemma release_loop:
  assumes run: "\<And>k s p'. release_reference (space_pages s) (membership s i k) False = Inr (p', True) \<Longrightarrow>
      B k s = (F k (s\<lparr>space_pages := p'\<rparr>), Inr ())"
    and F: "\<And>k s. space_pages (F k s) = space_pages s" "\<And>k s p. F k (s\<lparr>space_pages := p\<rparr>) = (F k s)\<lparr>space_pages := p\<rparr>"
      "\<And>k s j. j \<noteq> k \<Longrightarrow> membership (F k s) i j = membership s i j"
    and inv: "store_inv (space_pages s)" and ks: "distinct ks" "distinct (map (membership s i) ks)"
      "\<forall>k \<in> set ks. can_release_reference (space_pages s) (membership s i k) False"
  obtains p' where "act_for B ks s = ((fold F ks s)\<lparr>space_pages := p'\<rparr>, Inr ())"
    "released (membership s i ` set ks) (space_pages s) p'"
  using inv ks
proof (induction ks arbitrary: s thesis)
  case Nil
  from Nil.prems(1) [of "space_pages s"] show ?case using released_none [OF Nil.prems(2)] by simp
next
  case (Cons k ks)
  obtain p1 where p1: "release_reference (space_pages s) (membership s i k) False = Inr (p1, True)"
      "released {membership s i k} (space_pages s) p1"
    using release_reference_released [OF Cons.prems(2)] Cons.prems(5) by (metis list.set_intros(1))
  define s1 where "s1 = F k (s\<lparr>space_pages := p1\<rparr>)"
  have B: "B k s = (s1, Inr ())" using run [OF p1(1)] by (simp add: s1_def)
  have mem: "membership s1 i j = membership s i j" if "j \<noteq> k" for j
    using F(3) [OF that] by (simp add: s1_def membership_def)
  have pages: "space_pages s1 = p1" by (simp add: s1_def F(1))
  have ne: "j \<noteq> k" if "j \<in> set ks" for j using that Cons.prems(3) by auto
  have same: "map (membership s1 i) ks = map (membership s i) ks" by (rule map_cong [OF refl mem [OF ne]])
  have inv1: "store_inv (space_pages s1)" using p1(2) by (simp add: pages released_def store_frame_def)
  have "can_release_reference (space_pages s1) (membership s1 i j) False" if "j \<in> set ks" for j
  proof -
    have "membership s i j \<in> membership s i ` set ks" using that by blast
    then have "j \<noteq> k" "membership s i j \<noteq> membership s i k" using ne [OF that] Cons.prems(4) by auto
    then show ?thesis using can_release_kept [OF p1(2)] Cons.prems(5) that mem by (simp add: pages)
  qed
  then obtain p2 where p2: "act_for B ks s1 = ((fold F ks s1)\<lparr>space_pages := p2\<rparr>, Inr ())"
      "released (membership s1 i ` set ks) (space_pages s1) p2"
    using Cons.IH [of s1] inv1 Cons.prems(3,4) same by auto
  have img: "membership s1 i ` set ks = membership s i ` set ks" using same by (metis list.set_map)
  have apart: "{membership s i k} \<inter> membership s i ` set ks = {}" using Cons.prems(4) by auto
  have rel: "released (membership s i ` set (k # ks)) (space_pages s) p2"
    using released_trans [OF p1(2) p2(2) [unfolded pages img] apart] by simp
  have "(fold F ks s1)\<lparr>space_pages := p2\<rparr> = (fold F (k # ks) s)\<lparr>space_pages := p2\<rparr>"
  proof -
    have "fold F ks (u\<lparr>space_pages := p\<rparr>) = (fold F ks u)\<lparr>space_pages := p\<rparr>" for u p
      by (induction ks arbitrary: u) (simp_all add: F(2))
    then show ?thesis by (simp add: s1_def F(2))
  qed
  then show ?case using Cons.prems(1) [of p2] rel B p2(1) by (simp add: act_then_def act_bind_def)
qed

text \<open>Pages that go back to the pool, and pages that come from it.\<close>

definition returned :: "LogicalKVPageHandle set \<Rightarrow> LogicalKVPageStore \<Rightarrow> LogicalKVPageStore \<Rightarrow> bool" where
  "returned L p p' \<longleftrightarrow> store_frame p p' \<and> (\<forall>l. valid_page p' l \<longleftrightarrow> valid_page p l \<and> l \<notin> L) \<and>
     (\<forall>l. valid_page p' l \<longrightarrow> page_at p' l = page_at p l)"

lemma give_back_returned:
  assumes inv: "store_inv p" and v: "valid_page p l" and r: "may_spend p r"
    and dev: "device_replica (page_at p l) = Some x" and idle: "active_references (page_at p l) = 0"
  obtains p' where "give_back_page p l r x = Inr (p', r\<lparr>reservation_pages := reservation_pages r + 1\<rparr>)"
    "returned {l} p p'" "reserved_pages (physical_pool p') = reserved_pages (physical_pool p) + 1"
proof -
  obtain p' where run: "give_back_page p l r x = Inr (p', r\<lparr>reservation_pages := reservation_pages r + 1\<rparr>)"
    and st: "store_step p r p' (r\<lparr>reservation_pages := reservation_pages r + 1\<rparr>)"
    and gone: "\<not> page_occupied (store_pages p' ! logical_index l)"
    and other: "\<And>j. j \<noteq> logical_index l \<Longrightarrow> store_pages p' ! j = store_pages p ! j"
    using give_back_step [OF inv v r dev idle] by metis
  have id: "store_id p' = store_id p" "length (store_pages p') = length (store_pages p)"
    using st by (simp_all add: store_step_def)
  have "valid_page p' m \<longleftrightarrow> valid_page p m \<and> m \<noteq> l" for m
  proof (cases "logical_index m = logical_index l")
    case True
    then have "\<not> valid_page p' m" using gone by (simp add: valid_page_def)
    then show ?thesis using valid_page_unique [OF _ v True] by blast
  next
    case False
    then show ?thesis using other [OF False] id by (auto simp: valid_page_def)
  qed
  moreover have "page_at p' m = page_at p m" if "valid_page p' m" for m
  proof -
    have "logical_index m \<noteq> logical_index l" using that gone by (auto simp: valid_page_def)
    then show ?thesis using other by (simp add: page_at_def)
  qed
  ultimately have "returned {l} p p'" using st by (simp add: returned_def store_frame_step)
  then show ?thesis using run that st by (simp add: store_step_def)
qed

definition granted ::
  "(LogicalKVPageHandle \<Rightarrow> LogicalPage \<Rightarrow> bool) \<Rightarrow> LogicalKVPageHandle set \<Rightarrow> LogicalKVPageStore \<Rightarrow> LogicalKVPageStore \<Rightarrow> bool" where
  "granted Q L p p' \<longleftrightarrow> store_frame p p' \<and> (\<forall>l. valid_page p' l \<longleftrightarrow> valid_page p l \<or> l \<in> L) \<and>
     (\<forall>l \<in> L. \<not> valid_page p l \<and> Q l (page_at p' l)) \<and> (\<forall>l. valid_page p l \<longrightarrow> page_at p' l = page_at p l)"

text \<open>A page as it leaves the materialisation.\<close>

definition is_fresh :: "LogicalPage \<Rightarrow> bool" where
  "is_fresh pg \<longleftrightarrow> device_replica pg \<noteq> None \<and> committed_columns pg = 0 \<and> references pg = 1 \<and> active_references pg = 0 \<and>
     writer_references pg = 1 \<and> source_pins pg = 0 \<and> protected_columns pg = 0 \<and> \<not> destination_pinned pg \<and>
     pending_device_replica pg = None \<and> host_replica pg = None"

lemma granted_pages:
  assumes st: "store_step p r p' r'" and inv: "store_inv p"
    and hs: "\<forall>h \<in> L. valid_page p' h \<and> \<not> page_occupied (store_pages p ! logical_index h) \<and> Q h (page_at p' h)"
    and other: "\<forall>k. k \<notin> logical_index ` L \<longrightarrow> store_pages p' ! k = store_pages p ! k"
  shows "granted Q L p p'"
proof -
  have id: "store_id p' = store_id p" "length (store_pages p') = length (store_pages p)"
    using st by (simp_all add: store_step_def)
  have new: "\<not> valid_page p m" if "logical_index m \<in> logical_index ` L" for m
    using that hs by (auto simp: valid_page_def)
  have "valid_page p' m \<longleftrightarrow> valid_page p m \<or> m \<in> L" for m
  proof (cases "logical_index m \<in> logical_index ` L")
    case True
    then obtain h where h: "h \<in> L" "logical_index m = logical_index h" by blast
    show ?thesis using new [OF True] hs h valid_page_unique [of p' m h] by blast
  next
    case False
    then show ?thesis using other id by (auto simp: valid_page_def)
  qed
  moreover have "page_at p' m = page_at p m" if "valid_page p m" for m
    using new [of m] that other by (auto simp: page_at_def)
  ultimately show ?thesis using hs new st by (auto simp: granted_def store_frame_step)
qed

lemma fresh_is_fresh:
  assumes "page_ok pg" "\<not> page_occupied pg"
  shows "is_fresh (fresh_page l pg)"
  using assms by (simp add: is_fresh_def fresh_page_def page_ok_def)

lemma batch_granted_pages:
  assumes inv: "store_inv p" and r: "may_spend p r" and run: "materialize_batch p r ds pred = Inr (p', r', hs)"
  shows "granted (\<lambda>_. is_fresh) (set hs) p p'" "distinct hs"
proof -
  note b = materialize_batch_step [OF inv r run]
  have "is_fresh (page_at p' h)" if h: "h \<in> set hs" for h
  proof -
    obtain l where l: "page_at p' h = fresh_page l (store_pages p ! logical_index h)"
      "\<not> page_occupied (store_pages p ! logical_index h)" using b(7) h by blast
    have "logical_index h < length (store_pages p)" using b(1,3) h by (auto simp: valid_page_def store_step_def)
    then show ?thesis using l fresh_is_fresh store_page_ok [OF inv] by simp
  qed
  then show "granted (\<lambda>_. is_fresh) (set hs) p p'" using b by (intro granted_pages [OF b(1) inv]) auto
  show "distinct hs" using b(6) by (simp add: distinct_map)
qed

text \<open>Transfer destinations: taken, published as a written page, or given back.\<close>

definition is_transfer :: "nat \<Rightarrow> LogicalPage \<Rightarrow> bool" where
  "is_transfer c pg \<longleftrightarrow> unpublished_transfer pg \<and> committed_columns pg = c \<and> active_references pg = 0"

lemma transfer_granted_page:
  assumes inv: "store_inv p" and r: "may_spend p r" and run: "materialize_transfer_destination p r c = Inr (p', r', l)"
  shows "granted (\<lambda>_. is_transfer c) {l} p p'" "store_step p r p' r'" "reservation_pages r' + 1 = reservation_pages r"
    "c \<noteq> 0" "c \<le> page_size"
proof -
  let ?mk = "\<lambda>l. transfer_page l c"
  have fc: "0 < free_count p" and c: "c \<noteq> 0" "c \<le> page_size" and tk: "take_page ?mk p r = Inr (p', r', l)"
    using run by (auto simp: materialize_transfer_take split: if_splits)
  have pos: "0 < reservation_pages r" using tk take_page_none [of r p ?mk] by (cases "reservation_pages r") auto
  obtain x where x: "store_step p r p' r'" "valid_page p' l" "page_at p' l = ?mk x (store_pages p ! logical_index l)"
    "reservation_pages r' = reservation_pages r - 1" "store_pages p' = (store_pages p)[logical_index l := page_at p' l]"
    "logical_index l < length (store_pages p)" "\<not> page_occupied (store_pages p ! logical_index l)"
  proof (rule take_page_step [OF inv r pos fc, of ?mk])
    show "page_ok pg \<Longrightarrow> \<not> page_occupied pg \<Longrightarrow> page_ok (?mk l pg) \<and> page_occupied (?mk l pg) \<and> page_leases (?mk l pg) = {#l#}" for l pg
      using transfer_page_ok [OF _ _ c(2)] by blast
  qed (use tk in \<open>auto intro: that\<close>)
  have "is_transfer c (page_at p' l)"
    using store_page_ok [OF inv x(6)] x(3,7) by (simp add: is_transfer_def unpublished_transfer_def transfer_page_def page_ok_def)
  moreover have "\<forall>k. k \<notin> logical_index ` {l} \<longrightarrow> store_pages p' ! k = store_pages p ! k"
    by (subst x(5)) simp
  ultimately show "granted (\<lambda>_. is_transfer c) {l} p p'" using x by (intro granted_pages [OF x(1) inv]) auto
  show "store_step p r p' r'" "reservation_pages r' + 1 = reservation_pages r" "c \<noteq> 0" "c \<le> page_size"
    using x(1,4) pos c by auto
qed

definition published :: "LogicalPage \<Rightarrow> LogicalPage" where
  "published pg = pg\<lparr>references := 1, writer_references := 1, destination_pinned := False\<rparr>"

lemma publish_transfer_touches:
  "touches published unpublished_transfer (\<lambda>l. on_pages (\<lambda>p. publish_transfer_destination p l True))"
  unfolding touches_def
proof (intro allI impI)
  fix p l
  assume p: "store_inv p" "valid_page p l" "unpublished_transfer (page_at p l)"
  have "page_ok (published (page_at p l))" using valid_page_ok(2,3) [OF p(1,2)] p(3)
    by (auto simp: page_ok_def published_def unpublished_transfer_def u32_max_def)
  then have "touched published {l} p (put_page p (logical_index l) (published (page_at p l)))"
    by (intro put_page_touched [OF p(1,2)]) (auto simp: published_def keeps_page_def)
  moreover have "publish_transfer_destination p l True = Inr (put_page p (logical_index l) (published (page_at p l)))"
    using p by (simp add: publish_transfer_destination_def published_def Let_def)
  ultimately show "\<exists>p'. touched published {l} p p' \<and>
      (\<forall>s. space_pages s = p \<longrightarrow> on_pages (\<lambda>p. publish_transfer_destination p l True) s = (s\<lparr>space_pages := p'\<rparr>, Inr ()))"
    by (intro exI [of _ "put_page p (logical_index l) (published (page_at p l))"]) (simp add: on_pages_def)
qed

lemma abort_transfer_returned:
  assumes inv: "store_inv p" and r: "may_spend p r" and l: "valid_page p l" "unpublished_transfer (page_at p l)"
  obtains p' where "abort_transfer_destination p l r = Inr (p', r\<lparr>reservation_pages := reservation_pages r + 1\<rparr>)"
    "returned {l} p p'" "reserved_pages (physical_pool p') = reserved_pages (physical_pool p) + 1"
proof -
  obtain x where x: "device_replica (page_at p l) = Some x" using l(2) by (auto simp: unpublished_transfer_def)
  have "active_references (page_at p l) = 0"
    using valid_page_ok(2,3) [OF inv l(1)] l(2) by (simp add: page_ok_def unpublished_transfer_def)
  from give_back_returned [OF inv l(1) r x this] obtain p' where
    "give_back_page p l r x = Inr (p', r\<lparr>reservation_pages := reservation_pages r + 1\<rparr>)"
    "returned {l} p p'" "reserved_pages (physical_pool p') = reserved_pages (physical_pool p) + 1" by blast
  then show ?thesis using that l x by (simp add: abort_transfer_destination_def no_throw_def)
qed

end
