(* ===== verification/Space_Invariant.thy ===== *)
theory Space_Invariant
  imports Space_Pages
begin

text \<open>
  The invariant of an address-space store. What is in flight outside the store (the pins, the
  unpublished tail page, the page reservation and the row lease of a transaction, or of the host tier
  that uses the same page store) is a multiset of holds. With them the counters are exact:
  the references of a live page are the addresses that map it, its active references the active ones
  among them, its source pins the pins held, and the reserved pages of the pool the reservations of the
  addresses and of the holds.
\<close>

section \<open>Definitions\<close>

definition pages_of :: "KVAddressSpaceStore \<Rightarrow> nat \<Rightarrow> LogicalKVPageHandle list" where
  "pages_of s i = page_handles s i [0..<page_count (addresses s ! i)]"

definition users :: "KVAddressSpaceStore \<Rightarrow> LogicalKVPageHandle \<Rightarrow> nat set" where
  "users s l = {i. i < length (addresses s) \<and> l \<in> set (pages_of s i)}"

definition active_users :: "KVAddressSpaceStore \<Rightarrow> LogicalKVPageHandle \<Rightarrow> nat set" where
  "active_users s l = {i \<in> users s l. addr_active (addresses s ! i)}"

record hold =
  pinned :: "LogicalKVPageHandle list"
  frozen :: bool
  transfer :: "(LogicalKVPageHandle \<times> nat) option"
  held_pages :: DeviceKVPageReservation
  held_row :: "KVExecutionRowLease option"

definition pins :: "hold multiset \<Rightarrow> LogicalKVPageHandle multiset" where
  "pins H = (\<Sum>h \<in># H. mset (pinned h))"

definition frozen_pages :: "hold multiset \<Rightarrow> LogicalKVPageHandle set" where
  "frozen_pages H = (\<Union>h \<in> set_mset H. if frozen h then set (pinned h) else {})"

definition tails :: "hold multiset \<Rightarrow> (LogicalKVPageHandle \<times> nat) multiset" where
  "tails H = (\<Sum>h \<in># H. mset_set (set_option (transfer h)))"

abbreviation transfers :: "hold multiset \<Rightarrow> LogicalKVPageHandle multiset" where
  "transfers H \<equiv> image_mset fst (tails H)"

definition held_total :: "hold multiset \<Rightarrow> nat" where
  "held_total H = (\<Sum>h \<in># H. reservation_pages (held_pages h))"

definition held_rows :: "hold multiset \<Rightarrow> KVExecutionRowLease multiset" where
  "held_rows H = (\<Sum>h \<in># H. mset_set (set_option (held_row h)))"

definition space_reserved :: "Address list \<Rightarrow> nat" where
  "space_reserved as = (\<Sum>a \<leftarrow> as. reservation_pages (addr_reservation a))"

definition space_rows :: "Address list \<Rightarrow> KVExecutionRowLease multiset" where
  "space_rows as = (\<Sum>a \<leftarrow> as. mset_set (set_option (addr_row a)))"

definition rows_live :: "KVExecutionTablePool \<Rightarrow> KVExecutionRowLease multiset \<Rightarrow> bool" where
  "rows_live t R \<longleftrightarrow> (\<forall>l \<in># R. row_lease_owner l \<noteq> None \<and> valid_row_handle t (row_lease_handle l)) \<and>
     (\<forall>n. count (image_mset row_lease_number R) n \<le> 1)"

definition tables_ok :: "KVExecutionTablePool \<Rightarrow> bool" where
  "tables_ok t \<longleftrightarrow> table_inv t \<and> 4 * int (logical_page_capacity t) * table_row_count t \<le> int i64_max"

definition shown :: "KVAddressSpaceStore \<Rightarrow> KVExecutionRowLease \<Rightarrow> nat \<Rightarrow> int" where
  "shown s row k = host_shadow (space_tables s) ! (nat (row_lease_number row) * page_capacity s + k)"

definition frame_of :: "LogicalKVPageStore \<Rightarrow> LogicalKVPageHandle \<Rightarrow> int" where
  "frame_of p l = lease_index (the (device_replica (page_at p l)))"

definition members_ok :: "KVAddressSpaceStore \<Rightarrow> nat \<Rightarrow> bool" where
  "members_ok s i \<longleftrightarrow> (let a = addresses s ! i in
     addr_generation a \<noteq> 0 \<and> (\<not> addr_occupied a \<longrightarrow> page_count a = 0 \<and> \<not> addr_active a) \<and>
     page_count a \<le> page_capacity s \<and> distinct (pages_of s i) \<and> (\<forall>l \<in> set (pages_of s i). valid_page (space_pages s) l) \<and>
     (\<forall>k. page_count a \<le> k \<and> k < page_capacity s \<longrightarrow> membership s i k = null_logical))"

definition frontier_ok :: "KVAddressSpaceStore \<Rightarrow> nat \<Rightarrow> bool" where
  "frontier_ok s i \<longleftrightarrow> (let a = addresses s ! i in
     committed_frontier a \<le> page_count a * page_size \<and> checkpoint_frontier a \<le> committed_frontier a \<and>
     (\<forall>k < page_count a. min page_size (committed_frontier a - k * page_size)
        \<le> committed_columns (page_at (space_pages s) (membership s i k))))"

definition activity_ok :: "KVAddressSpaceStore \<Rightarrow> nat \<Rightarrow> bool" where
  "activity_ok s i \<longleftrightarrow> (let a = addresses s ! i in
     if addr_active a
     then reservation_owner (addr_reservation a) = Some (pool_id (physical_pool (space_pages s))) \<and>
       page_count a + reservation_pages (addr_reservation a) \<le> page_capacity s \<and>
       (\<forall>l \<in> set (pages_of s i). device_replica (page_at (space_pages s) l) \<noteq> None) \<and>
       (\<exists>row. addr_row a = Some row \<and>
          (\<forall>k < page_count a. shown s row k = frame_of (space_pages s) (membership s i k)))
     else addr_row a = None \<and> addr_reservation a = null_reservation)"

definition slots_fit :: "KVAddressSpaceStore \<Rightarrow> bool" where
  "slots_fit s \<longleftrightarrow> (let n = length (addresses s) in
     length (memberships s) = n * page_capacity s \<and> n \<le> u32_max \<and> page_capacity s = logical_page_capacity (space_tables s) \<and>
     length (space_free s) = n \<and> space_free_count s \<le> n \<and> distinct (take (space_free_count s) (space_free s)) \<and>
     set (take (space_free_count s) (space_free s)) = {i. i < n \<and> \<not> addr_occupied (addresses s ! i)})"

definition counts_ok :: "hold multiset \<Rightarrow> KVAddressSpaceStore \<Rightarrow> bool" where
  "counts_ok H s \<longleftrightarrow> (\<forall>l. valid_page (space_pages s) l \<longrightarrow> (let pg = page_at (space_pages s) l in
     references pg = card (users s l) \<and> active_references pg = card (active_users s l) \<and> source_pins pg = count (pins H) l \<and>
     (writer_references pg \<noteq> 0 \<longrightarrow> references pg = 1 \<and> active_references pg = 1)))"

definition holds_ok :: "hold multiset \<Rightarrow> LogicalKVPageStore \<Rightarrow> bool" where
  "holds_ok H p \<longleftrightarrow> (\<forall>l \<in># pins H. valid_page p l) \<and>
     (\<forall>l \<in># transfers H. valid_page p l \<and> unpublished_transfer (page_at p l)) \<and> (\<forall>l. count (transfers H) l \<le> 1) \<and>
     (\<forall>l \<in> frozen_pages H. writer_references (page_at p l) = 0) \<and>
     (\<forall>t \<in># tails H. snd t \<le> committed_columns (page_at p (fst t))) \<and>
     (\<forall>h \<in># H. reservation_owner (held_pages h) = Some (pool_id (physical_pool p))
        \<or> held_pages h = null_reservation)"

definition accounts_ok :: "hold multiset \<Rightarrow> KVAddressSpaceStore \<Rightarrow> bool" where
  "accounts_ok H s \<longleftrightarrow>
     reserved_pages (physical_pool (space_pages s)) = space_reserved (addresses s) + held_total H \<and>
     rows_live (space_tables s) (space_rows (addresses s) + held_rows H)"

text \<open>The invariant without the frontiers of address \<open>x\<close>, which a method moves last.\<close>

definition space_inv_but :: "nat option \<Rightarrow> hold multiset \<Rightarrow> KVAddressSpaceStore \<Rightarrow> bool" where
  "space_inv_but x H s \<longleftrightarrow> store_inv (space_pages s) \<and> tables_ok (space_tables s) \<and> slots_fit s \<and>
     (\<forall>i < length (addresses s). members_ok s i \<and> activity_ok s i \<and> (Some i \<noteq> x \<longrightarrow> frontier_ok s i)) \<and>
     counts_ok H s \<and> holds_ok H (space_pages s) \<and> accounts_ok H s"

abbreviation space_inv :: "hold multiset \<Rightarrow> KVAddressSpaceStore \<Rightarrow> bool" where
  "space_inv \<equiv> space_inv_but None"

section \<open>Memberships\<close>

lemma cell_unique:
  assumes "(k::nat) < c" "m < c" "i * c + k = j * c + m"
  shows "i = j \<and> k = m"
proof -
  have "(i * c + k) div c = i" "(j * c + m) div c = j" "(i * c + k) mod c = k" "(j * c + m) mod c = m"
    using assms(1,2) by simp_all
  then show ?thesis using assms(3) by metis
qed

lemma cell_in_range:
  assumes "i < n" "(k::nat) < c"
  shows "i * c + k < n * c"
proof -
  have "i * c + k < Suc i * c" using assms(2) by simp
  also have "\<dots> \<le> n * c" using assms(1) by (intro mult_le_mono1) simp
  finally show ?thesis .
qed

lemma membership_set:
  assumes "slots_fit s" "i < length (addresses s)" "k < page_capacity s" "m < page_capacity s"
  shows "membership (s\<lparr>memberships := (memberships s)[i * page_capacity s + k := h]\<rparr>) j m
    = (if j = i \<and> m = k then h else membership s j m)"
proof -
  have "i * page_capacity s + k < length (memberships s)"
    using cell_in_range [OF assms(2,3)] assms(1) by (simp add: slots_fit_def Let_def)
  then show ?thesis using cell_unique [OF assms(4,3), of j i] by (auto simp: membership_def nth_list_update)
qed

lemma membership_simps [simp]:
  "membership (s\<lparr>space_pages := p\<rparr>) = membership s"
  "membership (s\<lparr>space_tables := t\<rparr>) = membership s"
  "membership (s\<lparr>addresses := as\<rparr>) = membership s"
  "membership (s\<lparr>space_free := f\<rparr>) = membership s"
  "membership (s\<lparr>space_free_count := c\<rparr>) = membership s"
  "membership (s\<lparr>issued := x\<rparr>) = membership s"
  by (simp_all add: membership_def fun_eq_iff)

lemma pages_of_simps [simp]:
  "pages_of (s\<lparr>space_pages := p\<rparr>) = pages_of s"
  "pages_of (s\<lparr>space_tables := t\<rparr>) = pages_of s"
  "pages_of (s\<lparr>space_free := f\<rparr>) = pages_of s"
  "pages_of (s\<lparr>space_free_count := c\<rparr>) = pages_of s"
  "pages_of (s\<lparr>issued := x\<rparr>) = pages_of s"
  by (simp_all add: pages_of_def page_handles_def fun_eq_iff)

lemma pages_of_nth: "k < page_count (addresses s ! i) \<Longrightarrow> pages_of s i ! k = membership s i k"
  by (simp add: pages_of_def page_handles_def)

lemma pages_of_length [simp]: "length (pages_of s i) = page_count (addresses s ! i)"
  by (simp add: pages_of_def page_handles_def)

lemma in_pages_of: "l \<in> set (pages_of s i) \<longleftrightarrow> (\<exists>k < page_count (addresses s ! i). l = membership s i k)"
  by (auto simp: pages_of_def page_handles_def)

lemma membership_in: "k < page_count (addresses s ! i) \<Longrightarrow> membership s i k \<in> set (pages_of s i)"
  by (auto simp: in_pages_of)

lemma users_simps [simp]:
  "users (s\<lparr>space_pages := p\<rparr>) = users s" "users (s\<lparr>space_tables := t\<rparr>) = users s"
  "users (s\<lparr>space_free := f\<rparr>) = users s" "users (s\<lparr>space_free_count := c\<rparr>) = users s" "users (s\<lparr>issued := x\<rparr>) = users s"
  by (simp_all add: users_def fun_eq_iff)

lemma active_users_simps [simp]:
  "active_users (s\<lparr>space_pages := p\<rparr>) = active_users s" "active_users (s\<lparr>space_tables := t\<rparr>) = active_users s"
  "active_users (s\<lparr>space_free := f\<rparr>) = active_users s" "active_users (s\<lparr>space_free_count := c\<rparr>) = active_users s"
  "active_users (s\<lparr>issued := x\<rparr>) = active_users s"
  by (simp_all add: active_users_def fun_eq_iff)

lemma finite_users [simp]: "finite (users s l)" "finite (active_users s l)"
  by (simp_all add: users_def active_users_def)

text \<open>When only address \<open>i\<close> changes its pages.\<close>

lemma users_change:
  assumes "length (addresses s') = length (addresses s)" "i < length (addresses s)"
    and "\<And>j. j < length (addresses s) \<Longrightarrow> j \<noteq> i \<Longrightarrow> pages_of s' j = pages_of s j"
  shows "users s' l = (if l \<in> set (pages_of s' i) then insert i (users s l) else users s l - {i})"
proof (rule set_eqI)
  fix j
  show "j \<in> users s' l \<longleftrightarrow> j \<in> (if l \<in> set (pages_of s' i) then insert i (users s l) else users s l - {i})"
    using assms by (cases "j = i") (auto simp: users_def)
qed

lemma active_users_change:
  assumes "length (addresses s') = length (addresses s)" "i < length (addresses s)"
    and "\<And>j. j < length (addresses s) \<Longrightarrow> j \<noteq> i \<Longrightarrow> pages_of s' j = pages_of s j \<and> addr_active (addresses s' ! j) = addr_active (addresses s ! j)"
  shows "active_users s' l = (if l \<in> set (pages_of s' i) \<and> addr_active (addresses s' ! i)
    then insert i (active_users s l) else active_users s l - {i})"
proof (rule set_eqI)
  fix j
  show "j \<in> active_users s' l \<longleftrightarrow> j \<in> (if l \<in> set (pages_of s' i) \<and> addr_active (addresses s' ! i)
      then insert i (active_users s l) else active_users s l - {i})"
    using assms by (cases "j = i") (auto simp: active_users_def users_def)
qed

section \<open>Frames\<close>

lemma pages_of_frame:
  assumes "page_count (addresses s' ! i) = page_count (addresses s ! i)" "page_count (addresses s ! i) \<le> page_capacity s"
    and "\<And>k. k < page_capacity s \<Longrightarrow> membership s' i k = membership s i k"
  shows "pages_of s' i = pages_of s i"
  using assms by (auto simp: pages_of_def page_handles_def)

lemma members_frame:
  assumes "members_ok s i" "addresses s' ! i = addresses s ! i" "page_capacity s' = page_capacity s"
    and "\<And>k. k < page_capacity s \<Longrightarrow> membership s' i k = membership s i k"
    and "\<And>l. l \<in> set (pages_of s i) \<Longrightarrow> valid_page (space_pages s') l"
  shows "members_ok s' i"
  using assms pages_of_frame [of s' i s] by (simp add: members_ok_def Let_def)

lemma frontier_frame:
  assumes "frontier_ok s i" "addresses s' ! i = addresses s ! i" "page_count (addresses s ! i) \<le> page_capacity s"
    and "\<And>k. k < page_capacity s \<Longrightarrow> membership s' i k = membership s i k"
    and "\<And>l. l \<in> set (pages_of s i) \<Longrightarrow>
      committed_columns (page_at (space_pages s) l) \<le> committed_columns (page_at (space_pages s') l)"
  shows "frontier_ok s' i"
proof -
  have "min page_size (committed_frontier (addresses s ! i) - k * page_size)
      \<le> committed_columns (page_at (space_pages s') (membership s' i k))" if "k < page_count (addresses s ! i)" for k
    using that assms(1,3) assms(4) [of k] assms(5) [OF membership_in [OF that]] by (fastforce simp: frontier_ok_def Let_def)
  then show ?thesis using assms(1,2) by (simp add: frontier_ok_def Let_def)
qed

lemma activity_frame:
  assumes "activity_ok s i" "addresses s' ! i = addresses s ! i" "page_count (addresses s ! i) \<le> page_capacity s"
    "page_capacity s' = page_capacity s"
    and "pool_id (physical_pool (space_pages s')) = pool_id (physical_pool (space_pages s))"
    and "\<And>k. k < page_capacity s \<Longrightarrow> membership s' i k = membership s i k"
    and "\<And>l. l \<in> set (pages_of s i) \<Longrightarrow> addr_active (addresses s ! i) \<Longrightarrow>
      device_replica (page_at (space_pages s') l) = device_replica (page_at (space_pages s) l)"
    and "\<And>k row. addr_row (addresses s ! i) = Some row \<Longrightarrow> k < page_count (addresses s ! i) \<Longrightarrow> shown s' row k = shown s row k"
  shows "activity_ok s' i"
proof (cases "addr_active (addresses s ! i)")
  case True
  have same: "pages_of s' i = pages_of s i" using assms(2,3,6) by (intro pages_of_frame) simp_all
  obtain row where row: "addr_row (addresses s ! i) = Some row"
    "\<And>k. k < page_count (addresses s ! i) \<Longrightarrow> shown s row k = frame_of (space_pages s) (membership s i k)"
    using assms(1) True by (auto simp: activity_ok_def Let_def)
  have "shown s' row k = frame_of (space_pages s') (membership s' i k)" if k: "k < page_count (addresses s ! i)" for k
    using row(2) [OF k] assms(8) [OF row(1) k] assms(6) [of k] assms(3) assms(7) [OF membership_in [OF k] True] k
    by (simp add: frame_of_def)
  then show ?thesis using assms(1,2,4,5) assms(7) [OF _ True] True row(1) same by (simp add: activity_ok_def Let_def)
next
  case False
  then show ?thesis using assms(1,2) by (simp add: activity_ok_def Let_def)
qed

section \<open>Reading the invariant\<close>

lemma space_invD:
  assumes "space_inv_but x H s"
  shows "store_inv (space_pages s)" "tables_ok (space_tables s)" "slots_fit s" "counts_ok H s" "holds_ok H (space_pages s)"
    "accounts_ok H s" "\<And>i. i < length (addresses s) \<Longrightarrow> members_ok s i" "\<And>i. i < length (addresses s) \<Longrightarrow> activity_ok s i"
    "\<And>i. i < length (addresses s) \<Longrightarrow> Some i \<noteq> x \<Longrightarrow> frontier_ok s i"
  using assms by (simp_all add: space_inv_but_def)

lemma space_inv_weaken: "space_inv_but None H s \<Longrightarrow> space_inv_but x H s"
  by (simp add: space_inv_but_def)

lemma space_inv_complete: "space_inv_but (Some i) H s \<Longrightarrow> frontier_ok s i \<Longrightarrow> space_inv_but None H s"
  by (auto simp: space_inv_but_def)

lemma members_okD:
  assumes "members_ok s i"
  shows "addr_generation (addresses s ! i) \<noteq> 0" "page_count (addresses s ! i) \<le> page_capacity s" "distinct (pages_of s i)"
    "\<And>l. l \<in> set (pages_of s i) \<Longrightarrow> valid_page (space_pages s) l"
    "\<And>k. page_count (addresses s ! i) \<le> k \<Longrightarrow> k < page_capacity s \<Longrightarrow> membership s i k = null_logical"
    "\<not> addr_occupied (addresses s ! i) \<Longrightarrow> page_count (addresses s ! i) = 0 \<and> \<not> addr_active (addresses s ! i)"
    "\<And>k. k < page_count (addresses s ! i) \<Longrightarrow> valid_page (space_pages s) (membership s i k)"
  using assms membership_in [of _ s i] by (auto simp: members_ok_def Let_def)

lemma counts_okD:
  assumes "counts_ok H s" "valid_page (space_pages s) l"
  shows "references (page_at (space_pages s) l) = card (users s l)"
    "active_references (page_at (space_pages s) l) = card (active_users s l)"
    "source_pins (page_at (space_pages s) l) = count (pins H) l"
    "writer_references (page_at (space_pages s) l) \<noteq> 0 \<Longrightarrow>
       references (page_at (space_pages s) l) = 1 \<and> active_references (page_at (space_pages s) l) = 1"
  using assms by (auto simp: counts_ok_def Let_def)

lemma activity_okD:
  assumes "activity_ok s i"
  shows "\<not> addr_active (addresses s ! i) \<Longrightarrow> addr_row (addresses s ! i) = None \<and> addr_reservation (addresses s ! i) = null_reservation"
    "addr_active (addresses s ! i) \<Longrightarrow>
       reservation_owner (addr_reservation (addresses s ! i)) = Some (pool_id (physical_pool (space_pages s)))"
    "addr_active (addresses s ! i) \<Longrightarrow>
       page_count (addresses s ! i) + reservation_pages (addr_reservation (addresses s ! i)) \<le> page_capacity s"
    "addr_active (addresses s ! i) \<Longrightarrow> l \<in> set (pages_of s i) \<Longrightarrow> device_replica (page_at (space_pages s) l) \<noteq> None"
    "addr_active (addresses s ! i) \<Longrightarrow> \<exists>row. addr_row (addresses s ! i) = Some row \<and>
       (\<forall>k < page_count (addresses s ! i). shown s row k = frame_of (space_pages s) (membership s i k))"
  using assms by (auto simp: activity_ok_def Let_def)

text \<open>An active address is one with a row, and one with a valid reservation.\<close>

lemma idle_iff:
  assumes "activity_ok s i"
  shows "idle_address (addresses s ! i) \<longleftrightarrow> \<not> addr_active (addresses s ! i)"
  using activity_okD(1,2,5) [OF assms] by (auto simp: idle_address_def reservation_valid_def null_reservation_def)

lemma valid_addressD: "valid_address s h \<Longrightarrow> space_index h < length (addresses s)"
  by (simp add: valid_address_def)

lemma require_active_ok:
  assumes inv: "space_inv_but x H s" and run: "require_active s h = Inr a"
  shows "valid_address s h" "space_index h < length (addresses s)" "a = addresses s ! space_index h" "addr_active a"
    "addr_occupied a"
proof -
  show v: "valid_address s h" and a: "a = addresses s ! space_index h" and "addr_active a"
    using run by (auto simp: require_active_def require_address_def address_at_def split: if_splits)
  show "space_index h < length (addresses s)" by (rule valid_addressD [OF v])
  show "addr_occupied a" using v a by (simp add: valid_address_def)
qed

lemma require_active_err: "require_active s h = Inl e \<Longrightarrow> e = InvalidArgument \<or> e = LogicError"
  by (auto simp: require_active_def require_address_def split: if_splits)

lemma require_active_iff:
  assumes "space_inv_but x H s"
  shows "require_active s h = (if \<not> valid_address s h then Inl InvalidArgument
    else if addr_active (addresses s ! space_index h) then Inr (addresses s ! space_index h) else Inl LogicError)"
proof (cases "valid_address s h")
  case True
  from activity_okD(2,5) [OF space_invD(8) [OF assms valid_addressD [OF True]]] show ?thesis using True
    by (auto simp: require_active_def require_address_def address_at_def reservation_valid_def)
qed (simp add: require_active_def require_address_def)

section \<open>Holds\<close>

definition res_hold :: "DeviceKVPageReservation \<Rightarrow> hold" where
  "res_hold r = \<lparr>pinned = [], frozen = False, transfer = None, held_pages = r, held_row = None\<rparr>"

definition row_hold :: "KVExecutionRowLease option \<Rightarrow> hold" where
  "row_hold row = \<lparr>pinned = [], frozen = False, transfer = None, held_pages = null_reservation, held_row = row\<rparr>"

definition pin_hold :: "bool \<Rightarrow> LogicalKVPageHandle list \<Rightarrow> hold" where
  "pin_hold b ls = \<lparr>pinned = ls, frozen = b, transfer = None, held_pages = null_reservation, held_row = None\<rparr>"

definition tail_hold :: "(LogicalKVPageHandle \<times> nat) option \<Rightarrow> hold" where
  "tail_hold l = \<lparr>pinned = [], frozen = False, transfer = l, held_pages = null_reservation, held_row = None\<rparr>"

lemmas hold_defs = res_hold_def row_hold_def pin_hold_def tail_hold_def

lemma null_reservation_pages [simp]: "reservation_pages null_reservation = 0" "reservation_owner null_reservation = None"
  by (simp_all add: null_reservation_def)

lemma holds_add [simp]:
  "pins (add_mset h H) = mset (pinned h) + pins H"
  "frozen_pages (add_mset h H) = (if frozen h then set (pinned h) else {}) \<union> frozen_pages H"
  "tails (add_mset h H) = mset_set (set_option (transfer h)) + tails H"
  "held_total (add_mset h H) = reservation_pages (held_pages h) + held_total H"
  "held_rows (add_mset h H) = mset_set (set_option (held_row h)) + held_rows H"
  by (simp_all add: pins_def frozen_pages_def tails_def held_total_def held_rows_def)

lemma frozen_pinned: "l \<in> frozen_pages H \<Longrightarrow> l \<in># pins H"
proof -
  assume "l \<in> frozen_pages H"
  then obtain h where h: "h \<in># H" "l \<in> set (pinned h)" by (auto simp: frozen_pages_def split: if_splits)
  then obtain K where "H = add_mset h K" by (metis insert_DiffM)
  then show ?thesis using h(2) by (simp add: pins_def)
qed

lemma holds_frozen:
  assumes "holds_ok H p" "l \<in> frozen_pages H"
  shows "valid_page p l" "writer_references (page_at p l) = 0"
  using assms frozen_pinned [OF assms(2)] by (simp_all add: holds_ok_def)

lemma holds_tail:
  assumes "holds_ok H p" "(l, c) \<in># tails H"
  shows "valid_page p l" "unpublished_transfer (page_at p l)" "c \<le> committed_columns (page_at p l)" "l \<in># transfers H"
proof -
  have l: "l \<in># transfers H" using assms(2) by force
  then show "valid_page p l" "unpublished_transfer (page_at p l)" "l \<in># transfers H" using assms(1) by (auto simp: holds_ok_def)
  show "c \<le> committed_columns (page_at p l)" using assms by (auto simp: holds_ok_def)
qed

lemma holds_frame:
  assumes "holds_ok H p" "tails H' = tails H" "\<And>l. l \<in># pins H' \<Longrightarrow> valid_page p' l"
    and "\<And>l. l \<in># transfers H \<Longrightarrow> valid_page p' l \<and> page_at p' l = page_at p l"
    and "\<And>l. l \<in> frozen_pages H' \<Longrightarrow> writer_references (page_at p' l) = 0"
    and "\<And>h. h \<in># H' \<Longrightarrow> reservation_owner (held_pages h) = Some (pool_id (physical_pool p')) \<or> held_pages h = null_reservation"
  shows "holds_ok H' p'"
proof -
  have "c \<le> committed_columns (page_at p' l)" if "(l, c) \<in># tails H" for l c
    using holds_tail [OF assms(1) that] assms(4) [of l] by simp
  moreover have "unpublished_transfer (page_at p' l)" if "l \<in># transfers H" for l
    using assms(1) assms(4) [OF that] that by (auto simp: holds_ok_def)
  ultimately show ?thesis using assms by (simp add: holds_ok_def)
qed

lemma hold_fields [simp]:
  "\<not> frozen (res_hold r)" "\<not> frozen (row_hold w)" "frozen (pin_hold b ls) = b" "\<not> frozen (tail_hold l)"
  "pinned (res_hold r) = []" "transfer (res_hold r) = None" "held_pages (res_hold r) = r" "held_row (res_hold r) = None"
  "pinned (row_hold w) = []" "transfer (row_hold w) = None" "held_pages (row_hold w) = null_reservation" "held_row (row_hold w) = w"
  "pinned (pin_hold b ls) = ls" "transfer (pin_hold b ls) = None" "held_pages (pin_hold b ls) = null_reservation" "held_row (pin_hold b ls) = None"
  "pinned (tail_hold l) = []" "transfer (tail_hold l) = l" "held_pages (tail_hold l) = null_reservation" "held_row (tail_hold l) = None"
  by (simp_all add: hold_defs)

definition same_holds :: "hold multiset \<Rightarrow> hold multiset \<Rightarrow> bool" where
  "same_holds H H' \<longleftrightarrow> pins H = pins H' \<and> frozen_pages H = frozen_pages H' \<and> tails H = tails H' \<and> held_total H = held_total H' \<and> held_rows H = held_rows H'"

lemma space_inv_holds:
  assumes "space_inv_but x H s" "same_holds H H'"
    and "\<forall>h \<in># H'. reservation_owner (held_pages h) = Some (pool_id (physical_pool (space_pages s))) \<or> held_pages h = null_reservation"
  shows "space_inv_but x H' s"
  using assms by (simp add: space_inv_but_def same_holds_def counts_ok_def holds_ok_def accounts_ok_def)

section \<open>Changes of the pages\<close>

lemma shown_simps [simp]:
  "shown (s\<lparr>space_pages := p\<rparr>) = shown s" "shown (s\<lparr>addresses := as\<rparr>) = shown s" "shown (s\<lparr>memberships := m\<rparr>) = shown s"
  "shown (s\<lparr>space_free := f\<rparr>) = shown s" "shown (s\<lparr>space_free_count := c\<rparr>) = shown s" "shown (s\<lparr>issued := x\<rparr>) = shown s"
  by (simp_all add: shown_def fun_eq_iff)

lemma valid_page_pool [simp]: "valid_page (p\<lparr>physical_pool := q\<rparr>) l = valid_page p l"
  by (simp add: valid_page_def)

lemma page_at_pool [simp]: "page_at (p\<lparr>physical_pool := q\<rparr>) l = page_at p l"
  by (simp add: page_at_def)

lemma frame_of_pool [simp]: "frame_of (p\<lparr>physical_pool := q\<rparr>) = frame_of p"
  by (simp add: frame_of_def fun_eq_iff)

text \<open>A change that leaves the counters, the device replicas and the transfer state of every page.\<close>

definition calm :: "LogicalKVPageHandle \<Rightarrow> LogicalPage \<Rightarrow> LogicalPage \<Rightarrow> bool" where
  "calm l a b \<longleftrightarrow> references b = references a \<and> active_references b = active_references a \<and> source_pins b = source_pins a \<and>
     writer_references b = writer_references a \<and> device_replica b = device_replica a \<and>
     pending_device_replica b = pending_device_replica a \<and> host_replica b = host_replica a \<and>
     destination_pinned b = destination_pinned a \<and> committed_columns a \<le> committed_columns b"

lemma calm_transfer: "calm l a b \<Longrightarrow> unpublished_transfer b = unpublished_transfer a"
  by (simp add: calm_def unpublished_transfer_def)

lemma space_inv_calm:
  assumes inv: "space_inv_but x H s" and rel: "pages_rel calm (space_pages s) p'"
  shows "space_inv_but x H (s\<lparr>space_pages := p'\<rparr>)"
proof -
  note d = space_invD [OF inv] and fr = pages_rel_frame [OF rel]
  define s' where "s' = s\<lparr>space_pages := p'\<rparr>"
  have s': "addresses s' = addresses s" "page_capacity s' = page_capacity s" "membership s' = membership s" "space_pages s' = p'"
    "space_tables s' = space_tables s" by (simp_all add: s'_def)
  have C: "calm l (page_at (space_pages s) l) (page_at p' l)" if "valid_page (space_pages s) l" for l
    by (rule pages_relD [OF rel that])
  have "members_ok s' i \<and> activity_ok s' i \<and> (Some i \<noteq> x \<longrightarrow> frontier_ok s' i)" if i: "i < length (addresses s)" for i
  proof (intro conjI impI)
    note m = members_okD [OF d(7) [OF i]]
    show "members_ok s' i" by (rule members_frame [OF d(7) [OF i]]) (simp_all add: s' fr(6) m(4))
    show "activity_ok s' i"
      using C [unfolded calm_def] m(2,4) by (intro activity_frame [OF d(8) [OF i]]) (simp_all add: s' fr(3) shown_def)
    show "frontier_ok s' i" if "Some i \<noteq> x"
      using C [unfolded calm_def] m(2,4) by (intro frontier_frame [OF d(9) [OF i that]]) (simp_all add: s')
  qed
  moreover have "counts_ok H s'" unfolding counts_ok_def Let_def
    using counts_okD [OF d(4)] C fr(6) by (simp add: s'_def calm_def)
  moreover have "holds_ok H p'"
  proof -
    have "c \<le> committed_columns (page_at p' l)" if "(l, c) \<in># tails H" for l c
      using holds_tail [OF d(5) that] C [of l] by (simp add: calm_def)
    moreover have "writer_references (page_at p' l) = 0" if "l \<in> frozen_pages H" for l
      using holds_frozen [OF d(5) that] C [of l] by (simp add: calm_def)
    ultimately show ?thesis using d(5) calm_transfer [OF C] by (auto simp: holds_ok_def fr(3,6))
  qed
  ultimately show ?thesis using d(2,3,6) fr(1,3) unfolding s'_def [symmetric]
    by (simp add: space_inv_but_def s') (simp add: s'_def slots_fit_def accounts_ok_def Let_def fr(3))
qed

text \<open>What the rest of the system may rely on while it holds pins \<open>P\<close>: a pinned page stays where it is, with
  at least the columns it had.\<close>

definition keeps :: "LogicalKVPageHandle multiset \<Rightarrow> KVAddressSpaceStore \<Rightarrow> KVAddressSpaceStore \<Rightarrow> bool" where
  "keeps P s s' \<longleftrightarrow> space_id s' = space_id s \<and> page_capacity s' = page_capacity s \<and>
     (\<forall>h k. valid_address s h \<longrightarrow> k < page_count (address_at s h) \<longrightarrow> membership s (space_index h) k \<in># P \<longrightarrow>
        valid_address s' h \<and> k < page_count (address_at s' h) \<and> membership s' (space_index h) k = membership s (space_index h) k \<and>
        committed_columns (page_at (space_pages s) (membership s (space_index h) k))
          \<le> committed_columns (page_at (space_pages s') (membership s (space_index h) k)))"

lemma keeps_refl: "keeps P s s"
  by (simp add: keeps_def)

lemma keeps_trans:
  assumes "keeps P s t" "keeps P t u"
  shows "keeps P s u"
  unfolding keeps_def
proof (intro conjI allI impI)
  fix h k
  assume v: "valid_address s h" "k < page_count (address_at s h)" "membership s (space_index h) k \<in># P"
  have A: "valid_address t h" "k < page_count (address_at t h)" "membership t (space_index h) k = membership s (space_index h) k"
    "committed_columns (page_at (space_pages s) (membership s (space_index h) k))
       \<le> committed_columns (page_at (space_pages t) (membership s (space_index h) k))"
    using assms(1) v unfolding keeps_def by blast+
  have B: "valid_address u h" "k < page_count (address_at u h)" "membership u (space_index h) k = membership t (space_index h) k"
    "committed_columns (page_at (space_pages t) (membership t (space_index h) k))
       \<le> committed_columns (page_at (space_pages u) (membership t (space_index h) k))"
    using assms(2) A(1,2) v(3) [folded A(3)] unfolding keeps_def by blast+
  show "valid_address u h" "k < page_count (address_at u h)" by (rule B)+
  show "membership u (space_index h) k = membership s (space_index h) k" using A(3) B(3) by simp
  show "committed_columns (page_at (space_pages s) (membership s (space_index h) k))
       \<le> committed_columns (page_at (space_pages u) (membership s (space_index h) k))"
    using A(3,4) B(4) by simp
qed (use assms in \<open>simp_all add: keeps_def\<close>)

lemma keeps_subset: "keeps P s s' \<Longrightarrow> set_mset P' \<subseteq> set_mset P \<Longrightarrow> keeps P' s s'"
  by (auto simp: keeps_def)

lemma keeps_pages:
  assumes "space_inv_but x H s" "pages_rel Q (space_pages s) p'" "\<And>l a b. Q l a b \<Longrightarrow> committed_columns a \<le> committed_columns b"
  shows "keeps P s (s\<lparr>space_pages := p'\<rparr>)"
proof -
  have "committed_columns (page_at (space_pages s) l) \<le> committed_columns (page_at p' l)"
    if "valid_address s h" "k < page_count (address_at s h)" "l = membership s (space_index h) k" for h k l
  proof -
    have "valid_page (space_pages s) l"
      using members_okD(7) [OF space_invD(7) [OF assms(1) valid_addressD [OF that(1)]]] that(2,3) by (simp add: address_at_def)
    then show ?thesis using assms(3) pages_relD [OF assms(2)] by blast
  qed
  then show ?thesis by (auto simp: keeps_def valid_address_def address_at_def)
qed

section \<open>Reservations\<close>

lemma store_inv_reserved:
  assumes "store_inv p" "pool_inv ((physical_pool p)\<lparr>reserved_pages := n\<rparr>)"
  shows "store_inv (p\<lparr>physical_pool := (physical_pool p)\<lparr>reserved_pages := n\<rparr>\<rparr>)"
proof -
  have "leases_held (physical_pool p) (store_leases p + {#})" using assms(1) by (simp add: store_inv_with_def)
  from leases_held_reserved [OF this assms(2)] show ?thesis by (intro store_inv_with_pool [OF assms(1)]) simp_all
qed

abbreviation set_reserved :: "nat \<Rightarrow> KVAddressSpaceStore \<Rightarrow> KVAddressSpaceStore" where
  "set_reserved n s \<equiv> s\<lparr>space_pages := (space_pages s)\<lparr>physical_pool := (physical_pool (space_pages s))\<lparr>reserved_pages := n\<rparr>\<rparr>\<rparr>"

lemma space_inv_reserved:
  assumes inv: "space_inv_but x H s" and q: "pool_inv ((physical_pool (space_pages s))\<lparr>reserved_pages := n\<rparr>)"
    and n: "n = space_reserved (addresses s) + held_total H'"
    and Fz: "frozen_pages H' = frozen_pages H" and H': "pins H' = pins H" "tails H' = tails H" "held_rows H' = held_rows H"
      "\<forall>h \<in># H'. reservation_owner (held_pages h) = Some (pool_id (physical_pool (space_pages s))) \<or> held_pages h = null_reservation"
  shows "space_inv_but x H' (set_reserved n s)"
proof -
  note d = space_invD [OF inv]
  let ?s = "set_reserved n s"
  have "members_ok ?s i \<and> activity_ok ?s i \<and> (Some i \<noteq> x \<longrightarrow> frontier_ok ?s i)" if i: "i < length (addresses s)" for i
    using d(7,8,9) [OF i]
    by (simp add: members_ok_def activity_ok_def frontier_ok_def Let_def)
  moreover have "counts_ok H' ?s" using d(4) H'(1) by (simp add: counts_ok_def)
  moreover have "holds_ok H' (space_pages ?s)" using d(5) H' Fz by (simp add: holds_ok_def)
  moreover have "accounts_ok H' ?s" using d(6) n H'(3) by (simp add: accounts_ok_def)
  ultimately show ?thesis using d(2,3) store_inv_reserved [OF d(1) q]
    by (simp add: space_inv_but_def slots_fit_def Let_def)
qed

lemma keeps_reserved: "keeps P s (set_reserved n s)"
  by (simp add: keeps_def valid_address_def address_at_def)

lemma store_pool_inv: "store_inv p \<Longrightarrow> pool_inv (physical_pool p)"
  using leases_held_inv by (auto simp: store_inv_with_def)

lemma hold_bounds:
  assumes "space_inv_but x H s" "h \<in># H"
  shows "reservation_pages (held_pages h) \<le> reserved_pages (physical_pool (space_pages s))"
proof -
  have "reservation_pages (held_pages h) \<le> held_total H"
    using assms(2) by (auto simp: held_total_def dest: multi_member_split)
  then show ?thesis using space_invD(6) [OF assms(1)] by (simp add: accounts_ok_def)
qed

lemma hold_may_spend:
  assumes "space_inv_but x H s" "h \<in># H" "reservation_owner (held_pages h) = Some (pool_id (physical_pool (space_pages s)))"
  shows "may_spend (space_pages s) (held_pages h)"
  using hold_bounds [OF assms(1,2)] assms(3) by (simp add: may_spend_def reservation_belongs_to_def)

text \<open>A reservation taken by a transaction, resized, and given back.\<close>

lemma resize_hold:
  assumes inv: "space_inv_but x (add_mset (res_hold r) H) s" and n: "n \<le> u32_max"
    and run: "on_pool (\<lambda>p. resize_reservation p r n) s = (s', Inr r')"
  shows "space_inv_but x (add_mset (res_hold r') H) s'" "r' = r\<lparr>reservation_pages := n\<rparr>" "keeps P s s'"
    "s' = set_reserved (reserved_pages (physical_pool (space_pages s)) - reservation_pages r + n) s"
    "reservation_owner r = Some (pool_id (physical_pool (space_pages s)))"
proof -
  note d = space_invD [OF inv] and pool = store_pool_inv [OF space_invD(1) [OF inv]]
  have le: "reservation_pages r \<le> reserved_pages (physical_pool (space_pages s))"
    using hold_bounds [OF inv, of "res_hold r"] by simp
  obtain q where q: "resize_reservation (physical_pool (space_pages s)) r n = Inr (q, r')"
    and s': "s' = s\<lparr>space_pages := (space_pages s)\<lparr>physical_pool := q\<rparr>\<rparr>"
    using run by (auto simp: on_pool_def on_pages_result_def split: sum.splits)
  have Q: "pool_inv q" "q = (physical_pool (space_pages s))\<lparr>reserved_pages := reserved_pages (physical_pool (space_pages s)) - reservation_pages r + n\<rparr>"
    "r' = r\<lparr>reservation_pages := n\<rparr>"
    using resize_reservation_inv(2) [OF pool le n q] by auto
  show "r' = r\<lparr>reservation_pages := n\<rparr>" by (rule Q(3))
  show own: "reservation_owner r = Some (pool_id (physical_pool (space_pages s)))"
    using q resize_reservation_inv(1) [OF pool le n] by (auto simp: resize_reservation_def reservation_belongs_to_def split: if_splits)
  show s'': "s' = set_reserved (reserved_pages (physical_pool (space_pages s)) - reservation_pages r + n) s" using s' Q(2) by simp
  have tot: "reserved_pages (physical_pool (space_pages s)) = space_reserved (addresses s) + (reservation_pages r + held_total H)"
    using d(6) by (simp add: accounts_ok_def)
  show "space_inv_but x (add_mset (res_hold r') H) s'" unfolding s''
  proof (rule space_inv_reserved [OF inv])
    show "pool_inv ((physical_pool (space_pages s))\<lparr>reserved_pages := reserved_pages (physical_pool (space_pages s)) - reservation_pages r + n\<rparr>)"
      using Q(1,2) by simp
    show "reserved_pages (physical_pool (space_pages s)) - reservation_pages r + n
        = space_reserved (addresses s) + held_total (add_mset (res_hold r') H)" using tot by (simp add: Q(3))
    show "\<forall>h \<in># add_mset (res_hold r') H.
        reservation_owner (held_pages h) = Some (pool_id (physical_pool (space_pages s))) \<or> held_pages h = null_reservation"
      using d(5) own by (auto simp: holds_ok_def Q(3))
  qed simp_all
  show "keeps P s s'" unfolding s'' by (rule keeps_reserved)
qed

lemma resize_fails: "on_pool (\<lambda>p. resize_reservation p r n) s = (s', Inl e) \<Longrightarrow> s' = s \<and> e = BadAlloc"
  by (auto simp: on_pool_def on_pages_result_def resize_reservation_def split: sum.splits if_splits)

lemma empty_hold:
  assumes "space_inv_but x H s"
  shows "space_inv_but x (add_mset (res_hold (make_empty_reservation (physical_pool (space_pages s)))) H) s"
proof (rule space_inv_holds [OF assms])
  show "same_holds H (add_mset (res_hold (make_empty_reservation (physical_pool (space_pages s)))) H)"
    by (simp add: same_holds_def make_empty_reservation_def)
qed (use space_invD(5) [OF assms] in \<open>auto simp: holds_ok_def make_empty_reservation_def\<close>)

lemma drop_hold:
  assumes inv: "space_inv_but x (add_mset (res_hold r) H) s"
  obtains s' where "drop_reservation r s = (s', Inr ())" "space_inv_but x H s'" "\<And>P. keeps P s s'"
    "s' = set_reserved (reserved_pages (physical_pool (space_pages s)) - reservation_pages r) s"
proof -
  note d = space_invD [OF inv] and pool = store_pool_inv [OF space_invD(1) [OF inv]]
  let ?q = "physical_pool (space_pages s)"
  have le: "reservation_pages r \<le> reserved_pages ?q" using hold_bounds [OF inv, of "res_hold r"] by simp
  have tot: "reserved_pages ?q = space_reserved (addresses s) + (reservation_pages r + held_total H)"
    using d(6) by (simp add: accounts_ok_def)
  have good: "reservation_owner r \<noteq> None \<or> r = null_reservation" using d(5) by (auto simp: holds_ok_def)
  have run: "drop_reservation r s = (set_reserved (reserved_pages ?q - reservation_pages r) s, Inr ())"
  proof (cases "reservation_owner r")
    case None
    then have "r = null_reservation" using good by simp
    then show ?thesis by (simp add: drop_reservation_def on_pool_def on_pages_result_def reservation_release_def act_bind_def)
  next
    case (Some u)
    then show ?thesis using release_reservation_inv(1) [OF pool le]
      by (simp add: drop_reservation_def on_pool_def on_pages_result_def reservation_release_def act_bind_def)
  qed
  have "space_inv_but x H (set_reserved (reserved_pages ?q - reservation_pages r) s)"
  proof (rule space_inv_reserved [OF inv])
    show "pool_inv (?q\<lparr>reserved_pages := reserved_pages ?q - reservation_pages r\<rparr>)" by (rule release_reservation_inv(2) [OF pool le])
    show "reserved_pages ?q - reservation_pages r = space_reserved (addresses s) + held_total H" using tot by simp
  qed (use d(5) in \<open>auto simp: holds_ok_def\<close>)
  then show ?thesis using that run keeps_reserved by blast
qed

section \<open>Rows\<close>

lemma member_used: "i < length (addresses s) \<Longrightarrow> l \<in> set (pages_of s i) \<Longrightarrow> users s l \<noteq> {}"
  by (auto simp: users_def)

lemma space_inv_tables:
  assumes inv: "space_inv_but x H s" and t': "tables_ok t'" "logical_page_capacity t' = page_capacity s"
    and rows: "rows_live t' (space_rows (addresses s) + held_rows H')"
    and sh: "\<And>i row k. i < length (addresses s) \<Longrightarrow> addr_row (addresses s ! i) = Some row \<Longrightarrow> k < page_count (addresses s ! i) \<Longrightarrow>
      host_shadow t' ! (nat (row_lease_number row) * page_capacity s + k) = shown s row k"
    and Fz: "frozen_pages H' = frozen_pages H" and H': "pins H' = pins H" "tails H' = tails H" "held_total H' = held_total H"
      "\<forall>h \<in># H'. reservation_owner (held_pages h) = Some (pool_id (physical_pool (space_pages s))) \<or> held_pages h = null_reservation"
  shows "space_inv_but x H' (s\<lparr>space_tables := t'\<rparr>)"
proof -
  note d = space_invD [OF inv]
  let ?s = "s\<lparr>space_tables := t'\<rparr>"
  have "members_ok ?s i \<and> activity_ok ?s i \<and> (Some i \<noteq> x \<longrightarrow> frontier_ok ?s i)" if i: "i < length (addresses s)" for i
  proof (intro conjI impI)
    note m = members_okD [OF d(7) [OF i]]
    show "members_ok ?s i" by (rule members_frame [OF d(7) [OF i]]) (simp_all add: m(4))
    show "activity_ok ?s i"
      using m(2) sh [OF i] by (intro activity_frame [OF d(8) [OF i]]) (simp_all add: shown_def)
    show "frontier_ok ?s i" if "Some i \<noteq> x" using m(2) by (intro frontier_frame [OF d(9) [OF i that]]) simp_all
  qed
  moreover have "slots_fit ?s" using d(3) t'(2) by (simp add: slots_fit_def Let_def)
  moreover have "counts_ok H' ?s" using d(4) H'(1) by (simp add: counts_ok_def)
  moreover have "accounts_ok H' ?s" using d(6) rows H'(3) by (simp add: accounts_ok_def)
  moreover have "holds_ok H' (space_pages s)" using d(5) H' Fz by (simp add: holds_ok_def)
  ultimately show ?thesis using d(1) t'(1) by (simp add: space_inv_but_def)
qed

lemma keeps_tables: "keeps P s (s\<lparr>space_tables := t\<rparr>)"
  by (simp add: keeps_def valid_address_def address_at_def)

lemma acquire_hold:
  assumes inv: "space_inv_but x H s" and run: "acquire_row n s = (s', Inr l)"
  shows "space_inv_but x (add_mset (row_hold (Some l)) H) s'" "keeps P s s'" "space_pages s' = space_pages s"
    "addresses s' = addresses s" "memberships s' = memberships s" "page_capacity s' = page_capacity s" "space_id s' = space_id s"
proof -
  note d = space_invD [OF inv]
  obtain t' where t': "acquire (space_tables s) n = Inr (t', l)" and s': "s' = s\<lparr>space_tables := t'\<rparr>"
    using run by (auto simp: acquire_row_def split: sum.splits)
  have ti: "table_inv (space_tables s)" using d(2) by (simp add: tables_ok_def)
  note a = acquire_ok [OF ti t']
  have f: "host_shadow t' = host_shadow (space_tables s)" "logical_page_capacity t' = logical_page_capacity (space_tables s)"
    "table_row_count t' = table_row_count (space_tables s)" "row_lease_owner l = Some (table_id (space_tables s))"
    using t' by (auto simp: acquire_def Let_def logical_page_capacity_def table_row_count_def split: if_splits)
  let ?R = "space_rows (addresses s) + held_rows H"
  have live: "rows_live (space_tables s) ?R" using d(6) by (simp add: accounts_ok_def)
  have "n \<notin># image_mset row_lease_number ?R"
  proof
    assume "n \<in># image_mset row_lease_number ?R"
    then obtain m where m: "m \<in># ?R" "row_lease_number m = n" by auto
    then have "row_lease_owner m \<noteq> None" "valid_row_handle (space_tables s) (row_lease_handle m)"
      using live unfolding rows_live_def by blast+
    then show False using a(4) [of "row_lease_handle m"] m(2) by (simp add: row_lease_handle_def)
  qed
  then have "rows_live t' (add_mset l ?R)"
    using live a(2,3,5) f(4) by (auto simp: rows_live_def not_in_iff)
  then have rows: "rows_live t' (space_rows (addresses s) + held_rows (add_mset (row_hold (Some l)) H))" by simp
  show "space_inv_but x (add_mset (row_hold (Some l)) H) s'" unfolding s'
  proof (rule space_inv_tables [OF inv _ _ rows])
    show "tables_ok t'" using d(2) a(1) f by (simp add: tables_ok_def)
    show "logical_page_capacity t' = page_capacity s" using d(3) f(2) by (simp add: slots_fit_def Let_def)
    show "\<forall>h \<in># add_mset (row_hold (Some l)) H.
        reservation_owner (held_pages h) = Some (pool_id (physical_pool (space_pages s))) \<or> held_pages h = null_reservation"
      using d(5) by (auto simp: holds_ok_def)
  qed (simp_all add: f(1) shown_def)
  show "keeps P s s'" unfolding s' by (rule keeps_tables)
qed (use run in \<open>auto simp: acquire_row_def split: sum.splits\<close>)

lemma acquire_fails: "acquire_row n s = (s', Inl e) \<Longrightarrow> s' = s \<and> (e = OutOfRange \<or> e = LogicError)"
  by (auto simp: acquire_row_def acquire_def Let_def split: sum.splits if_splits)

lemma drop_row_hold:
  assumes inv: "space_inv_but x (add_mset (row_hold w) H) s"
  obtains s' where "drop_row w s = (s', Inr ())" "space_inv_but x H s'" "\<And>P. keeps P s s'" "space_pages s' = space_pages s"
    "addresses s' = addresses s" "memberships s' = memberships s" "page_capacity s' = page_capacity s"
proof (cases w)
  case None
  have "space_inv_but x H s"
    by (rule space_inv_holds [OF inv]) (use space_invD(5) [OF inv] in \<open>auto simp: same_holds_def None holds_ok_def\<close>)
  then show ?thesis using that [of s] by (simp add: None drop_row_def keeps_refl)
next
  case (Some l)
  note d = space_invD [OF inv]
  let ?t = "space_tables s" and ?R = "space_rows (addresses s) + held_rows H"
  have live: "rows_live ?t (add_mset l ?R)" using d(6) by (simp add: accounts_ok_def Some)
  then have l: "row_lease_owner l \<noteq> None" "valid_row_handle ?t (row_lease_handle l)" by (auto simp: rows_live_def)
  have h: "row_number (row_lease_handle l) = row_lease_number l" "row_generation (row_lease_handle l) = row_lease_generation l"
    using l(1) by (auto simp: row_lease_handle_def)
  obtain t' ok where t': "release_row ?t (row_lease_number l) (row_lease_generation l) = (t', ok)" by fastforce
  have ti: "table_inv ?t" using d(2) by (simp add: tables_ok_def)
  note a = release_row_ok [OF ti l(2), unfolded h, OF t']
  have f: "host_shadow t' = host_shadow ?t" "logical_page_capacity t' = logical_page_capacity ?t" "table_row_count t' = table_row_count ?t"
    using t' by (auto simp: release_row_def Let_def logical_page_capacity_def table_row_count_def split: if_splits)
  have run: "drop_row w s = (s\<lparr>space_tables := t'\<rparr>, Inr ())" using l(1) t' by (auto simp: drop_row_def Some row_lease_release_def)
  have other: "row_lease_number m \<noteq> row_lease_number l" if "m \<in># ?R" for m
  proof
    assume "row_lease_number m = row_lease_number l"
    then have "row_lease_number l \<in># image_mset row_lease_number ?R" using that by (metis imageI set_image_mset)
    then have "0 < count (image_mset row_lease_number ?R) (row_lease_number l)" by (rule count_greater_zero_iff [THEN iffD2])
    moreover have "count (image_mset row_lease_number (add_mset l ?R)) (row_lease_number l) \<le> 1" using live by (simp only: rows_live_def)
    moreover have "count (image_mset row_lease_number (add_mset l ?R)) (row_lease_number l)
      = Suc (count (image_mset row_lease_number ?R) (row_lease_number l))" by simp
    ultimately show False by linarith
  qed
  have "rows_live t' ?R" unfolding rows_live_def
  proof (intro conjI ballI allI)
    fix m assume m: "m \<in># ?R"
    then have v: "row_lease_owner m \<noteq> None" "valid_row_handle ?t (row_lease_handle m)" using live by (auto simp: rows_live_def)
    then show "row_lease_owner m \<noteq> None" by simp
    show "valid_row_handle t' (row_lease_handle m)"
      using a(4) [of "row_lease_handle m"] v other [OF m] by (simp add: row_lease_handle_def)
  next
    fix n
    have "count (image_mset row_lease_number ?R) n \<le> count (image_mset row_lease_number (add_mset l ?R)) n" by simp
    also have "\<dots> \<le> 1" using live by (simp only: rows_live_def)
    finally show "count (image_mset row_lease_number ?R) n \<le> 1" .
  qed
  moreover have "tables_ok t'" using d(2) a(1) f by (simp add: tables_ok_def)
  ultimately have "space_inv_but x H (s\<lparr>space_tables := t'\<rparr>)"
    using d(3,5) by (intro space_inv_tables [OF inv]) (auto simp: f shown_def slots_fit_def Let_def Some holds_ok_def)
  then show ?thesis using that [of "s\<lparr>space_tables := t'\<rparr>"] run keeps_tables by simp
qed

section \<open>Pins and tail pages\<close>

text \<open>The page store changes, the addresses do not.\<close>

lemma space_inv_same_members:
  assumes inv: "space_inv_but x H s" and fr: "store_frame (space_pages s) p'"
    and kept: "\<And>l. users s l \<noteq> {} \<Longrightarrow> valid_page (space_pages s) l \<Longrightarrow> valid_page p' l
      \<and> (active_users s l \<noteq> {} \<longrightarrow> device_replica (page_at p' l) = device_replica (page_at (space_pages s) l))
      \<and> committed_columns (page_at (space_pages s) l) \<le> committed_columns (page_at p' l)"
    and new: "counts_ok H' (s\<lparr>space_pages := p'\<rparr>)" "holds_ok H' p'" "accounts_ok H' (s\<lparr>space_pages := p'\<rparr>)"
  shows "space_inv_but x H' (s\<lparr>space_pages := p'\<rparr>)"
proof -
  note d = space_invD [OF inv]
  let ?s = "s\<lparr>space_pages := p'\<rparr>"
  have "members_ok ?s i \<and> activity_ok ?s i \<and> (Some i \<noteq> x \<longrightarrow> frontier_ok ?s i)" if i: "i < length (addresses s)" for i
  proof (intro conjI impI)
    note m = members_okD [OF d(7) [OF i]]
    have K: "valid_page p' l" "committed_columns (page_at (space_pages s) l) \<le> committed_columns (page_at p' l)"
      "addr_active (addresses s ! i) \<Longrightarrow> device_replica (page_at p' l) = device_replica (page_at (space_pages s) l)"
      if "l \<in> set (pages_of s i)" for l
      using kept [OF member_used [OF i that] m(4) [OF that]] that i by (auto simp: active_users_def users_def)
    show "members_ok ?s i" by (rule members_frame [OF d(7) [OF i]]) (simp_all add: K)
    show "activity_ok ?s i"
      using fr m(2) by (intro activity_frame [OF d(8) [OF i]]) (simp_all add: K store_frame_def)
    show "frontier_ok ?s i" if "Some i \<noteq> x" using m(2) by (intro frontier_frame [OF d(9) [OF i that]]) (simp_all add: K)
  qed
  then show ?thesis using d(2,3) fr new by (simp add: space_inv_but_def slots_fit_def Let_def store_frame_def)
qed

lemma keeps_same_members:
  assumes "space_inv_but x H s"
    and "\<And>l. users s l \<noteq> {} \<Longrightarrow> valid_page (space_pages s) l \<Longrightarrow> l \<in># P \<Longrightarrow>
      committed_columns (page_at (space_pages s) l) \<le> committed_columns (page_at p' l)"
  shows "keeps P s (s\<lparr>space_pages := p'\<rparr>)"
proof -
  have "committed_columns (page_at (space_pages s) l) \<le> committed_columns (page_at p' l)"
    if "valid_address s h" "k < page_count (address_at s h)" "l = membership s (space_index h) k" "l \<in># P" for h k l
  proof -
    note i = valid_addressD [OF that(1)]
    have "l \<in> set (pages_of s (space_index h))" using that(2,3) by (auto simp: in_pages_of address_at_def)
    then show ?thesis
      using assms(2) [of l] members_okD(4) [OF space_invD(7) [OF assms(1) i]] member_used [OF i] that(4) by blast
  qed
  then show ?thesis by (auto simp: keeps_def valid_address_def address_at_def)
qed

text \<open>Other pin counts, everything else as before.\<close>

lemma space_inv_repin:
  assumes inv: "space_inv_but x H s" and rel: "touched f L (space_pages s) p'"
    and f: "\<And>l. l \<in> L \<Longrightarrow> valid_page (space_pages s) l \<Longrightarrow>
        f (page_at (space_pages s) l) = (page_at (space_pages s) l)\<lparr>source_pins := count (pins H') l\<rparr>"
    and other: "\<And>l. l \<notin> L \<Longrightarrow> count (pins H') l = count (pins H) l"
    and apart: "\<And>l. l \<in> L \<Longrightarrow> l \<notin># transfers H" "\<forall>l \<in># pins H'. valid_page (space_pages s) l"
    and Fz: "\<And>l. l \<in> frozen_pages H' \<Longrightarrow> writer_references (page_at (space_pages s) l) = 0"
    and H': "tails H' = tails H" "held_total H' = held_total H" "held_rows H' = held_rows H"
      "\<forall>h \<in># H'. reservation_owner (held_pages h) = Some (pool_id (physical_pool (space_pages s))) \<or> held_pages h = null_reservation"
  shows "space_inv_but x H' (s\<lparr>space_pages := p'\<rparr>)"
proof (rule space_inv_same_members [OF inv store_frame_rel [OF rel]])
  note d = space_invD [OF inv] and fr = pages_rel_frame [OF rel]
  have P: "page_at p' l = (if l \<in> L then (page_at (space_pages s) l)\<lparr>source_pins := count (pins H') l\<rparr> else page_at (space_pages s) l)"
    if "valid_page (space_pages s) l" for l
    using pages_relD [OF rel that] f that by simp
  show "valid_page p' l \<and> (active_users s l \<noteq> {} \<longrightarrow> device_replica (page_at p' l) = device_replica (page_at (space_pages s) l))
      \<and> committed_columns (page_at (space_pages s) l) \<le> committed_columns (page_at p' l)"
    if "valid_page (space_pages s) l" for l using that P [OF that] fr(6) by simp
  show "counts_ok H' (s\<lparr>space_pages := p'\<rparr>)" unfolding counts_ok_def Let_def
    using counts_okD [OF d(4)] P fr(6) other by simp
  have "writer_references (page_at p' l) = 0" if "l \<in> frozen_pages H'" for l
    using P [of l] apart(2) frozen_pinned [OF that] Fz [OF that] by simp
  moreover have "valid_page p' l \<and> page_at p' l = page_at (space_pages s) l" if "l \<in># transfers H" for l
  proof -
    have "valid_page (space_pages s) l" using d(5) that by (auto simp: holds_ok_def)
    then show ?thesis using P [of l] apart(1) [of l] that fr(6) by (simp del: set_image_mset split: if_splits)
  qed
  ultimately show "holds_ok H' p'" using fr(3,6) apart(2) H' by (intro holds_frame [OF d(5)]) simp_all
  show "accounts_ok H' (s\<lparr>space_pages := p'\<rparr>)" using d(6) fr(3) H'(2,3) by (simp add: accounts_ok_def)
qed

lemma transfer_not_pinned:
  assumes "space_inv_but x H s" "l \<in># transfers H"
  shows "l \<notin># pins H" "users s l = {}" "destination_pinned (page_at (space_pages s) l)"
proof -
  note d = space_invD [OF assms(1)]
  have t: "valid_page (space_pages s) l" "unpublished_transfer (page_at (space_pages s) l)"
    using d(5) assms(2) by (auto simp: holds_ok_def)
  then show "l \<notin># pins H" using counts_okD(3) [OF d(4) t(1)] by (simp add: unpublished_transfer_def not_in_iff)
  show "users s l = {}" using counts_okD(1) [OF d(4) t(1)] t(2) by (simp add: unpublished_transfer_def)
  show "destination_pinned (page_at (space_pages s) l)" using t(2) by (simp add: unpublished_transfer_def)
qed

lemma pin_loop:
  assumes inv: "space_inv_but x H s" and ls: "distinct ls"
    and ok: "\<And>l. l \<in> set ls \<Longrightarrow> valid_page (space_pages s) l \<and> source_pins (page_at (space_pages s) l) \<noteq> u32_max
      \<and> \<not> destination_pinned (page_at (space_pages s) l) \<and> (b \<longrightarrow> writer_references (page_at (space_pages s) l) = 0)"
  obtains s' p' where "act_for (\<lambda>l. on_pages (\<lambda>p. pin_source p l)) ls s = (s', Inr ())" "s' = s\<lparr>space_pages := p'\<rparr>"
    "space_inv_but x (add_mset (pin_hold b ls) H) s'" "\<And>P. keeps P s s'"
    "touched (\<lambda>pg. pg\<lparr>source_pins := source_pins pg + 1\<rparr>) (set ls) (space_pages s) p'"
proof -
  note d = space_invD [OF inv]
  obtain p' where run: "act_for (\<lambda>l. on_pages (\<lambda>p. pin_source p l)) ls s = (s\<lparr>space_pages := p'\<rparr>, Inr ())"
    and rel: "touched (\<lambda>pg. pg\<lparr>source_pins := source_pins pg + 1\<rparr>) (set ls) (space_pages s) p'"
    using touches_loop [OF pin_source_touches d(1) ls] ok by blast
  have one: "count (mset ls) l = (if l \<in> set ls then 1 else 0)" for l using ls by (simp add: distinct_count_atmost_1)
  have "space_inv_but x (add_mset (pin_hold b ls) H) (s\<lparr>space_pages := p'\<rparr>)"
  proof (rule space_inv_repin [OF inv rel])
    show "(page_at (space_pages s) l)\<lparr>source_pins := source_pins (page_at (space_pages s) l) + 1\<rparr>
        = (page_at (space_pages s) l)\<lparr>source_pins := count (pins (add_mset (pin_hold b ls) H)) l\<rparr>"
      if "l \<in> set ls" "valid_page (space_pages s) l" for l
      using that counts_okD(3) [OF d(4) that(2)] one by simp
    show "l \<notin># transfers H" if "l \<in> set ls" for l using ok [OF that] transfer_not_pinned(3) [OF inv] by blast
    show "\<forall>l \<in># pins (add_mset (pin_hold b ls) H). valid_page (space_pages s) l" using d(5) ok by (auto simp: holds_ok_def)
    show "writer_references (page_at (space_pages s) l) = 0" if "l \<in> frozen_pages (add_mset (pin_hold b ls) H)" for l
      using that ok holds_frozen [OF d(5)] by (auto split: if_splits)
  qed (use d(5) one in \<open>auto simp: holds_ok_def\<close>)
  moreover have "keeps P s (s\<lparr>space_pages := p'\<rparr>)" for P by (rule keeps_pages [OF inv rel]) (simp split: if_splits)
  ultimately show ?thesis using that [OF _ refl _ _ rel] run by blast
qed

lemma unpin_loop:
  assumes inv: "space_inv_but x (add_mset (pin_hold b ls) H) s" and ls: "distinct ls"
    and B: "touches (\<lambda>pg. pg\<lparr>source_pins := source_pins pg - 1\<rparr>) (\<lambda>pg. source_pins pg \<noteq> 0) B"
  obtains s' p' where "act_for B ls s = (s', Inr ())" "s' = s\<lparr>space_pages := p'\<rparr>" "space_inv_but x H s'" "\<And>P. keeps P s s'"
    "touched (\<lambda>pg. pg\<lparr>source_pins := source_pins pg - 1\<rparr>) (set ls) (space_pages s) p'"
proof -
  note d = space_invD [OF inv]
  have one: "count (mset ls) l = (if l \<in> set ls then 1 else 0)" for l using ls by (simp add: distinct_count_atmost_1)
  have v: "valid_page (space_pages s) l" if "l \<in> set ls" for l using that d(5) by (auto simp: holds_ok_def)
  have pos: "source_pins (page_at (space_pages s) l) = count (pins H) l + 1" if "l \<in> set ls" for l
    using counts_okD(3) [OF d(4) v [OF that]] that one by simp
  have "\<forall>l \<in> set ls. valid_page (space_pages s) l \<and> source_pins (page_at (space_pages s) l) \<noteq> 0" using v pos by simp
  from touches_loop [OF B d(1) ls this] obtain p' where run: "act_for B ls s = (s\<lparr>space_pages := p'\<rparr>, Inr ())"
    and rel: "touched (\<lambda>pg. pg\<lparr>source_pins := source_pins pg - 1\<rparr>) (set ls) (space_pages s) p'" by blast
  have "space_inv_but x H (s\<lparr>space_pages := p'\<rparr>)"
  proof (rule space_inv_repin [OF inv rel])
    show "(page_at (space_pages s) l)\<lparr>source_pins := source_pins (page_at (space_pages s) l) - 1\<rparr>
        = (page_at (space_pages s) l)\<lparr>source_pins := count (pins H) l\<rparr>" if "l \<in> set ls" for l using pos [OF that] by simp
    show "l \<notin># transfers (add_mset (pin_hold b ls) H)" if "l \<in> set ls" for l
      using that transfer_not_pinned(1) [OF inv, of l] by auto
    show "writer_references (page_at (space_pages s) l) = 0" if "l \<in> frozen_pages H" for l
      using that holds_frozen(2) [OF d(5), of l] by simp
  qed (use d(5) one in \<open>auto simp: holds_ok_def\<close>)
  moreover have "keeps P s (s\<lparr>space_pages := p'\<rparr>)" for P by (rule keeps_pages [OF inv rel]) (simp split: if_splits)
  ultimately show ?thesis using that [OF _ refl _ _ rel] run by blast
qed

lemma unpin_if_pinned_touches:
  "touches (\<lambda>pg. pg\<lparr>source_pins := source_pins pg - 1\<rparr>) (\<lambda>pg. source_pins pg \<noteq> 0) unpin_if_pinned"
proof -
  have "unpin_if_pinned l s = on_pages (\<lambda>p. unpin_source p l) s"
    if "valid_page (space_pages s) l" "source_pins (page_at (space_pages s) l) \<noteq> 0" for l s
    using that by (simp add: unpin_if_pinned_def act_when_def Let_def)
  then show ?thesis using unpin_source_touches unfolding touches_def by fastforce
qed

lemma users_valid:
  assumes "space_inv_but x H s" "users s l \<noteq> {}"
  shows "valid_page (space_pages s) l"
  using assms(2) members_okD(4) [OF space_invD(7) [OF assms(1)]] by (auto simp: users_def)

lemma take_tail:
  assumes inv: "space_inv_but x (add_mset (res_hold r) H) s"
    and own: "reservation_owner r = Some (pool_id (physical_pool (space_pages s)))"
    and run: "on_pages_result (\<lambda>p. res_bind (materialize_transfer_destination p r c) (\<lambda>(p', r', l). Inr (p', (r', Some l)))) s
      = (s', Inr (r', t))"
  obtains l p' where "t = Some l" "space_inv_but x (add_mset (res_hold r') (add_mset (tail_hold (Some (l, c))) H)) s'" "\<And>P. keeps P s s'"
    "s' = s\<lparr>space_pages := p'\<rparr>" "granted (\<lambda>_. is_transfer c) {l} (space_pages s) p'"
    "reservation_pages r' + 1 = reservation_pages r" "reservation_owner r' = reservation_owner r"
proof -
  note d = space_invD [OF inv]
  obtain p' l where m: "materialize_transfer_destination (space_pages s) r c = Inr (p', r', l)" and t: "t = Some l"
    and s': "s' = s\<lparr>space_pages := p'\<rparr>"
    using run by (auto simp: on_pages_result_def split: sum.splits)
  have may: "may_spend (space_pages s) r" using hold_may_spend [OF inv, of "res_hold r"] own by simp
  note g = transfer_granted_page [OF d(1) may m]
  have G: "valid_page p' m \<longleftrightarrow> valid_page (space_pages s) m \<or> m = l" "\<not> valid_page (space_pages s) l" "is_transfer c (page_at p' l)"
    "valid_page (space_pages s) m \<Longrightarrow> page_at p' m = page_at (space_pages s) m" for m
    using g(1) by (auto simp: granted_def)
  have ids: "reservation_owner r' = reservation_owner r" "pool_id (physical_pool p') = pool_id (physical_pool (space_pages s))"
    "reserved_pages (physical_pool p') + reservation_pages r = reserved_pages (physical_pool (space_pages s)) + reservation_pages r'"
    using g(2) by (simp_all add: store_step_def)
  let ?H = "add_mset (res_hold r') (add_mset (tail_hold (Some (l, c))) H)"
  have nl: "users s l = {}" "l \<notin># pins H" "l \<notin># transfers H"
    using users_valid [OF inv, of l] d(5) G(2) by (auto simp: holds_ok_def)
  have "space_inv_but x ?H s'" unfolding s'
  proof (rule space_inv_same_members [OF inv store_frame_step [OF g(2)]])
    show "valid_page p' m \<and> (active_users s m \<noteq> {} \<longrightarrow> device_replica (page_at p' m) = device_replica (page_at (space_pages s) m))
      \<and> committed_columns (page_at (space_pages s) m) \<le> committed_columns (page_at p' m)"
      if "valid_page (space_pages s) m" for m using that G by simp
    show "counts_ok ?H (s\<lparr>space_pages := p'\<rparr>)" unfolding counts_ok_def Let_def
    proof (intro allI impI)
      fix m
      assume "valid_page (space_pages (s\<lparr>space_pages := p'\<rparr>)) m"
      then consider "m = l" | "valid_page (space_pages s) m" "m \<noteq> l" using G(1,2) by auto
      then show "references (page_at (space_pages (s\<lparr>space_pages := p'\<rparr>)) m) = card (users (s\<lparr>space_pages := p'\<rparr>) m) \<and>
        active_references (page_at (space_pages (s\<lparr>space_pages := p'\<rparr>)) m) = card (active_users (s\<lparr>space_pages := p'\<rparr>) m) \<and>
        source_pins (page_at (space_pages (s\<lparr>space_pages := p'\<rparr>)) m) = count (pins ?H) m \<and>
        (writer_references (page_at (space_pages (s\<lparr>space_pages := p'\<rparr>)) m) \<noteq> 0 \<longrightarrow>
         references (page_at (space_pages (s\<lparr>space_pages := p'\<rparr>)) m) = 1 \<and>
         active_references (page_at (space_pages (s\<lparr>space_pages := p'\<rparr>)) m) = 1)"
      proof cases
        case 1
        then show ?thesis using G(3) nl by (simp add: is_transfer_def unpublished_transfer_def active_users_def not_in_iff)
      next
        case 2
        then show ?thesis using counts_okD [OF d(4) 2(1)] G(4) by simp
      qed
    qed
    have "snd t \<le> committed_columns (page_at p' (fst t))" if "t \<in># tails ?H" for t
      using that holds_tail [OF d(5), of "fst t" "snd t"] G(3,4) by (auto simp: is_transfer_def)
    moreover have "count (transfers ?H) m \<le> 1" for m using d(5) nl(3) by (auto simp: holds_ok_def not_in_iff simp del: set_image_mset)
    moreover have "writer_references (page_at p' m) = 0" if "m \<in> frozen_pages ?H" for m
      using that holds_frozen [OF d(5), of m] G(4) by simp
    moreover have "valid_page p' m \<and> unpublished_transfer (page_at p' m)" if "m \<in># transfers ?H" for m
      using that d(5) G by (auto simp: holds_ok_def is_transfer_def)
    moreover have "valid_page p' m" if "m \<in># pins ?H" for m using that d(5) G(1) by (auto simp: holds_ok_def)
    moreover have "reservation_owner (held_pages h) = Some (pool_id (physical_pool p')) \<or> held_pages h = null_reservation" if "h \<in># ?H" for h
      using that d(5) ids own by (auto simp: holds_ok_def)
    ultimately show "holds_ok ?H p'" unfolding holds_ok_def by blast
    show "accounts_ok ?H (s\<lparr>space_pages := p'\<rparr>)" using d(6) ids(3) g(3) by (simp add: accounts_ok_def)
  qed
  moreover have "keeps P s s'" for P unfolding s' by (rule keeps_same_members [OF inv]) (simp add: G(4))
  ultimately show ?thesis using that t s' g(1,3) ids(1) by blast
qed

lemma take_tail_fails:
  "on_pages_result (\<lambda>p. res_bind (materialize_transfer_destination p r c) (\<lambda>(p', r', l). Inr (p', (r', Some l)))) s
    = (s', Inl e) \<Longrightarrow> s' = s"
  by (auto simp: on_pages_result_def split: sum.splits)

text \<open>A page that nobody maps, pins or awaits goes back to the pool.\<close>

lemma space_inv_return:
  assumes inv: "space_inv_but x H s" and ret: "returned L (space_pages s) p'"
    and free: "\<And>l. l \<in> L \<Longrightarrow> users s l = {} \<and> l \<notin># pins H \<and> l \<notin># transfers H'"
    and Fz: "frozen_pages H' = frozen_pages H" and H': "pins H' = pins H" "set_mset (tails H') \<subseteq> set_mset (tails H)" "\<forall>l. count (transfers H') l \<le> 1" "held_rows H' = held_rows H"
      "\<forall>h \<in># H'. reservation_owner (held_pages h) = Some (pool_id (physical_pool (space_pages s))) \<or> held_pages h = null_reservation"
    and n: "reserved_pages (physical_pool p') = space_reserved (addresses s) + held_total H'"
  shows "space_inv_but x H' (s\<lparr>space_pages := p'\<rparr>)" "keeps P s (s\<lparr>space_pages := p'\<rparr>)"
proof -
  note d = space_invD [OF inv]
  have R: "valid_page p' m \<longleftrightarrow> valid_page (space_pages s) m \<and> m \<notin> L" "valid_page p' m \<Longrightarrow> page_at p' m = page_at (space_pages s) m"
    "store_frame (space_pages s) p'" for m
    using ret by (auto simp: returned_def)
  have used: "m \<notin> L" if "users s m \<noteq> {}" for m using that free by blast
  show "space_inv_but x H' (s\<lparr>space_pages := p'\<rparr>)"
  proof (rule space_inv_same_members [OF inv R(3)])
    show "valid_page p' m \<and> (active_users s m \<noteq> {} \<longrightarrow> device_replica (page_at p' m) = device_replica (page_at (space_pages s) m))
      \<and> committed_columns (page_at (space_pages s) m) \<le> committed_columns (page_at p' m)"
      if "users s m \<noteq> {}" "valid_page (space_pages s) m" for m using that used R by simp
    show "counts_ok H' (s\<lparr>space_pages := p'\<rparr>)" unfolding counts_ok_def Let_def
      using counts_okD [OF d(4)] R H'(1) by simp
    have "valid_page p' m \<and> unpublished_transfer (page_at p' m) \<and> c \<le> committed_columns (page_at p' m)" if "(m, c) \<in># tails H'" for m c
    proof -
      have "m \<in># transfers H'" "(m, c) \<in># tails H" using that H'(2) by force+
      then show ?thesis using free [of m] holds_tail [OF d(5), of m c] R(1,2) [of m] by (auto simp del: set_image_mset)
    qed
    moreover have "\<forall>m \<in># pins H'. valid_page p' m" using d(5) R(1) free H'(1) by (auto simp: holds_ok_def)
    moreover have "writer_references (page_at p' m) = 0" if "m \<in> frozen_pages H'" for m
      using that holds_frozen [OF d(5), of m] frozen_pinned [of m H] free [of m] R(1,2) [of m] Fz by auto
    ultimately show "holds_ok H' p'" using H'(3,5) R(3) by (auto simp: holds_ok_def store_frame_def)
    show "accounts_ok H' (s\<lparr>space_pages := p'\<rparr>)" using d(6) n H'(4) by (simp add: accounts_ok_def)
  qed
  show "keeps P s (s\<lparr>space_pages := p'\<rparr>)" by (rule keeps_same_members [OF inv]) (use used R in simp)
qed

lemma abort_tail_hold:
  assumes inv: "space_inv_but x (add_mset (res_hold r) (add_mset (tail_hold (map_option (\<lambda>l. (l, c)) t)) H)) s"
    and own: "t \<noteq> None \<Longrightarrow> reservation_owner r = Some (pool_id (physical_pool (space_pages s)))"
  obtains s' r' p' where "abort_tail t r s = (s', Inr r')" "space_inv_but x (add_mset (res_hold r') H) s'" "\<And>P. keeps P s s'"
    "s' = s\<lparr>space_pages := p'\<rparr>" "reservation_owner r' = reservation_owner r"
proof (cases t)
  case None
  have "space_inv_but x (add_mset (res_hold r) H) s"
    by (rule space_inv_holds [OF inv]) (use space_invD(5) [OF inv] in \<open>auto simp: same_holds_def None holds_ok_def\<close>)
  then show ?thesis using that [of s r "space_pages s"] by (simp add: None abort_tail_def keeps_refl)
next
  case (Some l)
  note d = space_invD [OF inv]
  have may: "may_spend (space_pages s) r" using hold_may_spend [OF inv, of "res_hold r"] own Some by simp
  have l: "valid_page (space_pages s) l" "unpublished_transfer (page_at (space_pages s) l)" "l \<notin># transfers H"
    using d(5) by (auto simp: holds_ok_def Some not_in_iff simp del: set_image_mset dest: spec [of _ l])
  obtain p' where run: "abort_transfer_destination (space_pages s) l r = Inr (p', r\<lparr>reservation_pages := reservation_pages r + 1\<rparr>)"
    and ret: "returned {l} (space_pages s) p'" and n: "reserved_pages (physical_pool p') = reserved_pages (physical_pool (space_pages s)) + 1"
    by (rule abort_transfer_returned [OF d(1) may l(1,2)])
  let ?r = "r\<lparr>reservation_pages := reservation_pages r + 1\<rparr>"
  have nt: "l \<notin># pins H" "users s l = {}" using transfer_not_pinned(1,2) [OF inv, of l] by (simp_all add: Some)
  have act: "abort_tail t r s = (s\<lparr>space_pages := p'\<rparr>, Inr ?r)" by (simp add: abort_tail_def Some on_pages_result_def run)
  have le: "count (transfers H) m \<le> 1" for m
  proof -
    have "count (transfers (add_mset (res_hold r) (add_mset (tail_hold (map_option (\<lambda>l. (l, c)) t)) H))) m \<le> 1" using d(5) by (simp only: holds_ok_def)
    then show ?thesis by (simp add: Some split: if_splits)
  qed
  have "space_inv_but x (add_mset (res_hold ?r) H) (s\<lparr>space_pages := p'\<rparr>)"
    by (rule space_inv_return(1) [OF inv ret]) (use nt l(3) le n d(5,6) own in \<open>auto simp: holds_ok_def accounts_ok_def Some\<close>)
  moreover have "keeps P s (s\<lparr>space_pages := p'\<rparr>)" for P
    by (rule space_inv_return(2) [OF inv ret, of "add_mset (res_hold ?r) H"])
      (use nt l(3) le n d(5,6) own in \<open>auto simp: holds_ok_def accounts_ok_def Some\<close>)
  ultimately show ?thesis using that [OF act] by simp
qed

end
