(* ===== verification/Space_Operations.thy ===== *)
theory Space_Operations
  imports Space_Invariant
begin

text \<open>
  Every operation of the address-space store keeps its invariant, also when it throws, and leaves the pages
  that others have pinned where they are.
\<close>

section \<open>Pages for tokens\<close>

lemma page_size_pos [simp]: "0 < page_size" "page_size = 64"
  by (simp_all add: page_size_def kPagedKVPageSize_def)

lemma pages_for_tokens_le: "pages_for_tokens t \<le> n \<longleftrightarrow> t \<le> n * page_size"
proof (cases "t = 0")
  case False
  have "pages_for_tokens t \<le> n \<longleftrightarrow> (t - 1) div 64 < n" using False by (auto simp: pages_for_tokens_def)
  also have "\<dots> \<longleftrightarrow> t - 1 < n * 64" by (simp add: div_less_iff_less_mult)
  finally show ?thesis using False by auto
qed (simp add: pages_for_tokens_def)

lemma pages_for_tokens_mono: "a \<le> b \<Longrightarrow> pages_for_tokens a \<le> pages_for_tokens b"
  using pages_for_tokens_le [of a "pages_for_tokens b"] pages_for_tokens_le [of b "pages_for_tokens b"] by simp

lemma pages_for_tokens_cover: "t \<le> pages_for_tokens t * page_size"
  using pages_for_tokens_le [of t "pages_for_tokens t"] by simp

lemma pages_for_tokens_needed: "k < pages_for_tokens t \<longleftrightarrow> k * page_size < t"
  using pages_for_tokens_le [of t k] by linarith

lemma pages_for_tokens_zero [simp]: "pages_for_tokens 0 = 0" "pages_for_tokens t = 0 \<longleftrightarrow> t = 0"
  by (simp_all add: pages_for_tokens_def)

lemma pages_for_tokens_split:
  "pages_for_tokens t = t div page_size + (if t mod page_size = 0 then 0 else 1)"
proof (cases "t mod page_size = 0")
  case True
  then obtain q where "t = 64 * q" by (auto elim: dvdE)
  then show ?thesis by (cases q) (simp_all add: pages_for_tokens_def div_mult_self3 [of 64] algebra_simps)
next
  case False
  then have "t - 1 = 64 * (t div 64) + (t mod 64 - 1)" using div_mult_mod_eq [of t 64] by simp
  then have "(t - 1) div 64 = t div 64 + (t mod 64 - 1) div 64" by (metis add.commute div_mult_self2 zero_neq_numeral)
  moreover have "(t mod 64 - 1) div 64 = 0" by (simp add: less_imp_diff_less)
  ultimately have "(t - 1) div 64 = t div 64" by simp
  then show ?thesis using False by (auto simp: pages_for_tokens_def)
qed

section \<open>Address records\<close>

lemma nth_update_at: "xs[i := a] ! j = (if i = j \<and> j < length xs then a else xs ! j)"
  by (cases "i < length xs") (auto simp: nth_list_update list_update_beyond)

lemma put_address_run [simp]: "put_address i f s = (s\<lparr>addresses := (addresses s)[i := f (addresses s ! i)]\<rparr>, Inr ())"
  by (simp add: put_address_def)

lemma pages_of_put:
  "page_count a = page_count (addresses s ! i) \<Longrightarrow> pages_of (s\<lparr>addresses := (addresses s)[i := a]\<rparr>) j = pages_of s j"
  by (simp add: pages_of_def page_handles_def nth_update_at)

lemma users_put:
  assumes "page_count a = page_count (addresses s ! i)"
  shows "users (s\<lparr>addresses := (addresses s)[i := a]\<rparr>) l = users s l"
  by (simp add: users_def pages_of_put [OF assms])

lemma active_users_put:
  assumes "page_count a = page_count (addresses s ! i)" "addr_active a = addr_active (addresses s ! i)"
  shows "active_users (s\<lparr>addresses := (addresses s)[i := a]\<rparr>) l = active_users s l"
  using assms(2) by (auto simp: active_users_def users_put [OF assms(1)] nth_update_at)

lemma activity_fields:
  assumes "page_count (addresses s' ! i) = page_count (addresses s ! i)" "addr_active (addresses s' ! i) = addr_active (addresses s ! i)"
    "addr_row (addresses s' ! i) = addr_row (addresses s ! i)" "addr_reservation (addresses s' ! i) = addr_reservation (addresses s ! i)"
    "pages_of s' = pages_of s" "space_pages s' = space_pages s" "page_capacity s' = page_capacity s" "shown s' = shown s"
    "membership s' = membership s"
  shows "activity_ok s' i = activity_ok s i"
  by (simp add: activity_ok_def Let_def assms)

text \<open>Only the frontiers of address \<open>i\<close> change.\<close>

lemma space_inv_frontier:
  assumes inv: "space_inv_but x H s" and i: "i < length (addresses s)" "x = None \<or> x = Some i"
    and a: "a = (addresses s ! i)\<lparr>committed_frontier := c, checkpoint_frontier := d\<rparr>"
  shows "space_inv_but (Some i) H (s\<lparr>addresses := (addresses s)[i := a]\<rparr>)"
proof -
  note I = space_invD [OF inv]
  let ?s = "s\<lparr>addresses := (addresses s)[i := a]\<rparr>"
  have pc: "page_count a = page_count (addresses s ! i)" "addr_active a = addr_active (addresses s ! i)" by (simp_all add: a)
  have n: "(addresses s)[i := a] ! j = (if j = i then a else addresses s ! j)" if "j < length (addresses s)" for j
    using that by (simp add: nth_list_update)
  have "members_ok ?s j \<and> activity_ok ?s j \<and> (Some j \<noteq> Some i \<longrightarrow> frontier_ok ?s j)" if j: "j < length (addresses s)" for j
  proof (intro conjI impI)
    show "members_ok ?s j" using I(7) [OF j]
      by (cases "j = i") (simp_all add: members_ok_def Let_def pages_of_put [OF pc(1)] nth_update_at i(1), simp_all add: a)
    show "activity_ok ?s j" using I(8) [OF j]
      by (subst activity_fields) (auto simp: pages_of_put nth_update_at fun_eq_iff a)
    show "frontier_ok ?s j" if "Some j \<noteq> Some i" using I(9) [OF j] i(2) that by (auto simp: frontier_ok_def Let_def n [OF j])
  qed
  moreover have "slots_fit ?s"
  proof -
    have "{j. j < length (addresses s) \<and> \<not> addr_occupied (addresses ?s ! j)} = {j. j < length (addresses s) \<and> \<not> addr_occupied (addresses s ! j)}"
      by (auto simp: a nth_update_at split: if_splits)
    then show ?thesis using I(3) by (simp add: slots_fit_def Let_def)
  qed
  moreover have "counts_ok H ?s" using I(4) by (simp add: counts_ok_def users_put [OF pc(1)] active_users_put [OF pc])
  moreover have "space_reserved ((addresses s)[i := a]) = space_reserved (addresses s)"
    "space_rows ((addresses s)[i := a]) = space_rows (addresses s)"
    using sum_mset_update [OF i(1), of "\<lambda>a. reservation_pages (addr_reservation a)" a]
      sum_mset_update [OF i(1), of "\<lambda>a. mset_set (set_option (addr_row a))" a]
    by (simp_all add: space_reserved_def space_rows_def a)
  then have "accounts_ok H ?s" using I(6) by (simp add: accounts_ok_def)
  ultimately show ?thesis using I(1,2,5) by (simp add: space_inv_but_def)
qed

lemma keeps_put:
  assumes "page_count (addresses s ! i) \<le> page_count a" "addr_occupied a = addr_occupied (addresses s ! i)"
    "addr_generation a = addr_generation (addresses s ! i)"
  shows "keeps P s (s\<lparr>addresses := (addresses s)[i := a]\<rparr>)"
  using assms by (auto simp: keeps_def valid_address_def address_at_def nth_update_at)

section \<open>Creating an address\<close>

lemma create_inactive_step:
  assumes inv: "space_inv H s" and run: "create_inactive s = (s', r)"
  shows "space_inv H s'" "keeps P s s'" "r = None \<longleftrightarrow> space_free_count s = 0"
    "r = Some h \<Longrightarrow> valid_address s' h \<and> \<not> addr_occupied (addresses s ! space_index h)
       \<and> s' = s\<lparr>space_free_count := space_free_count s - 1,
               addresses := (addresses s)[space_index h := (addresses s ! space_index h)\<lparr>addr_occupied := True\<rparr>]\<rparr>"
proof -
  note I = space_invD [OF inv]
  define n where "n = space_free_count s - 1"
  define i where "i = space_free s ! n"
  have "space_inv H s' \<and> keeps P s s' \<and> (r = None \<longleftrightarrow> space_free_count s = 0) \<and>
    (r = Some h \<longrightarrow> valid_address s' h \<and> \<not> addr_occupied (addresses s ! space_index h)
       \<and> s' = s\<lparr>space_free_count := space_free_count s - 1,
               addresses := (addresses s)[space_index h := (addresses s ! space_index h)\<lparr>addr_occupied := True\<rparr>]\<rparr>)" for P h
  proof (cases "space_free_count s = 0")
    case True
    then show ?thesis using run inv by (auto simp: create_inactive_def keeps_refl)
  next
    case False
    have len: "space_free_count s \<le> length (space_free s)" "length (space_free s) = length (addresses s)"
      using I(3) by (auto simp: slots_fit_def Let_def)
    have tk: "take (space_free_count s) (space_free s) = take n (space_free s) @ [i]"
      using False len take_Suc_conv_app_nth [of n "space_free s"] by (simp add: n_def i_def)
    have free: "set (take (space_free_count s) (space_free s)) = {j. j < length (addresses s) \<and> \<not> addr_occupied (addresses s ! j)}"
      "distinct (take (space_free_count s) (space_free s))"
      using I(3) by (auto simp: slots_fit_def Let_def)
    have i: "i < length (addresses s)" "\<not> addr_occupied (addresses s ! i)" using free(1) tk by auto
    define a where "a = (addresses s ! i)\<lparr>addr_occupied := True\<rparr>"
    have s': "s' = s\<lparr>space_free_count := n, addresses := (addresses s)[i := a]\<rparr>"
      and r: "r = Some \<lparr>space_owner = Some (space_id s), space_index = i, space_generation = addr_generation (addresses s ! i)\<rparr>"
      using run False i(2) by (auto simp: create_inactive_def Let_def n_def i_def a_def)
    have pc: "page_count a = page_count (addresses s ! i)" "addr_active a = addr_active (addresses s ! i)" by (simp_all add: a_def)
    have adr: "addresses s' = (addresses s)[i := a]" by (simp add: s')
    have at: "addresses s' ! j = (if j = i then a else addresses s ! j)" if "j < length (addresses s)" for j
      using that by (simp add: s' nth_list_update)
    have mem: "membership s' = membership s" "pages_of s' = pages_of s" "users s' = users s" "active_users s' = active_users s"
      "shown s' = shown s" "space_pages s' = space_pages s" "page_capacity s' = page_capacity s"
      using pages_of_put [of a "s\<lparr>space_free_count := n\<rparr>" i] users_put [of a "s\<lparr>space_free_count := n\<rparr>" i]
        active_users_put [of a "s\<lparr>space_free_count := n\<rparr>" i] pc by (simp_all add: s' fun_eq_iff)
    have "members_ok s' j \<and> activity_ok s' j \<and> frontier_ok s' j" if j: "j < length (addresses s)" for j
    proof (intro conjI)
      show "members_ok s' j" using I(7) [OF j]
        by (cases "j = i") (simp_all add: members_ok_def Let_def mem adr nth_update_at i(1), (simp_all add: a_def i(2))?)
      show "activity_ok s' j" using I(8) [OF j] by (subst activity_fields) (auto simp: mem adr nth_update_at a_def)
      show "frontier_ok s' j" using I(9) [OF j]
        by (cases "j = i") (simp_all add: frontier_ok_def Let_def mem adr nth_update_at i(1), (simp_all add: a_def i(2))?)
    qed
    moreover have "slots_fit s'"
    proof -
      have "{j. j < length (addresses s) \<and> \<not> addr_occupied (addresses s' ! j)}
          = {j. j < length (addresses s) \<and> \<not> addr_occupied (addresses s ! j)} - {i}"
        by (auto simp: a_def adr nth_update_at split: if_splits)
      also have "\<dots> = set (take n (space_free s))" using free tk by auto
      finally have eq: "set (take n (space_free s)) = {j. j < length (addresses s) \<and> \<not> addr_occupied (addresses s' ! j)}" ..
      have "distinct (take n (space_free s))" "n \<le> length (addresses s)" using free(2) tk len by (simp_all add: n_def)
      then show ?thesis using I(3) eq unfolding adr [symmetric] by (simp add: slots_fit_def Let_def) (simp add: s')
    qed
    moreover have "counts_ok H s'" using I(4) by (simp add: counts_ok_def mem)
    moreover have "space_reserved (addresses s') = space_reserved (addresses s)" "space_rows (addresses s') = space_rows (addresses s)"
      using sum_mset_update [OF i(1), of "\<lambda>a. reservation_pages (addr_reservation a)" a]
        sum_mset_update [OF i(1), of "\<lambda>a. mset_set (set_option (addr_row a))" a]
      by (simp_all add: space_reserved_def space_rows_def a_def s')
    then have "accounts_ok H s'" using I(6) by (simp add: accounts_ok_def mem) (simp add: s')
    ultimately have "space_inv H s'" using I(1,2,5) by (simp add: space_inv_but_def s')
    moreover have "keeps P s s'" using i(2) by (auto simp: s' keeps_def valid_address_def address_at_def nth_update_at)
    moreover have "valid_address s' \<lparr>space_owner = Some (space_id s), space_index = i, space_generation = addr_generation (addresses s ! i)\<rparr>"
      using i(1) by (simp add: s' valid_address_def a_def)
    ultimately show ?thesis using r False i(2) s' by (auto simp: a_def n_def)
  qed
  then show "space_inv H s'" "keeps P s s'" "r = None \<longleftrightarrow> space_free_count s = 0"
    "r = Some h \<Longrightarrow> valid_address s' h \<and> \<not> addr_occupied (addresses s ! space_index h)
       \<and> s' = s\<lparr>space_free_count := space_free_count s - 1,
               addresses := (addresses s)[space_index h := (addresses s ! space_index h)\<lparr>addr_occupied := True\<rparr>]\<rparr>" by blast+
qed

section \<open>Checkpoint protection\<close>

definition reprotected :: "LogicalKVPageHandle \<Rightarrow> LogicalPage \<Rightarrow> LogicalPage \<Rightarrow> bool" where
  "reprotected l a b \<longleftrightarrow> (\<exists>c. b = a\<lparr>protected_columns := c\<rparr>)"

lemma reprotected_refl: "reprotected l a a"
  by (cases a) (auto simp: reprotected_def)

lemma reprotected_trans: "reprotected l a b \<Longrightarrow> reprotected l b c \<Longrightarrow> reprotected l a c"
  by (auto simp: reprotected_def)

lemma reprotected_calm: "reprotected l a b \<Longrightarrow> calm l a b"
  by (auto simp: reprotected_def calm_def)

text \<open>Actions that only change protected columns, from any state that differs in protected columns.\<close>

definition reprotects :: "unit space_action \<Rightarrow> KVAddressSpaceStore \<Rightarrow> bool" where
  "reprotects B s \<longleftrightarrow> (\<forall>p. pages_rel reprotected (space_pages s) p \<longrightarrow>
     (\<exists>p'. pages_rel reprotected (space_pages s) p' \<and> B (s\<lparr>space_pages := p\<rparr>) = (s\<lparr>space_pages := p'\<rparr>, Inr ())))"

lemma reprotects_then: "reprotects A s \<Longrightarrow> reprotects B s \<Longrightarrow> reprotects (act_then A B) s"
proof -
  assume A: "reprotects A s" and B: "reprotects B s"
  show ?thesis unfolding reprotects_def
  proof (intro allI impI)
    fix p assume "pages_rel reprotected (space_pages s) p"
    then obtain q where q: "pages_rel reprotected (space_pages s) q" "A (s\<lparr>space_pages := p\<rparr>) = (s\<lparr>space_pages := q\<rparr>, Inr ())"
      using A unfolding reprotects_def by blast
    then obtain p' where "pages_rel reprotected (space_pages s) p'" "B (s\<lparr>space_pages := q\<rparr>) = (s\<lparr>space_pages := p'\<rparr>, Inr ())"
      using B unfolding reprotects_def by blast
    then show "\<exists>p'. pages_rel reprotected (space_pages s) p' \<and> act_then A B (s\<lparr>space_pages := p\<rparr>) = (s\<lparr>space_pages := p'\<rparr>, Inr ())"
      using act_then_ok [of A, OF q(2), of B] by (intro exI [of _ p']) simp
  qed
qed

lemma reprotects_return: "reprotects (act_return ()) s"
  by (auto simp: reprotects_def)

lemma reprotects_for: "(\<And>x. x \<in> set xs \<Longrightarrow> reprotects (B x) s) \<Longrightarrow> reprotects (act_for B xs) s"
  by (induction xs) (simp_all add: reprotects_return reprotects_then)

lemma reprotects_when: "(b \<Longrightarrow> reprotects B s) \<Longrightarrow> reprotects (act_when b B) s"
  by (cases b) (simp_all add: act_when_def reprotects_return)

lemma reprotects_touch:
  assumes B: "touches (\<lambda>pg. pg\<lparr>protected_columns := f pg\<rparr>) G B" and l: "valid_page (space_pages s) l"
    and G: "\<And>pg. reprotected l (page_at (space_pages s) l) pg \<Longrightarrow> G pg"
  shows "reprotects (B l) s"
  unfolding reprotects_def
proof (intro allI impI)
  fix p assume p: "pages_rel reprotected (space_pages s) p"
  have "G (page_at p l)" by (rule G [OF pages_relD [OF p l]])
  moreover have "valid_page p l" "store_inv p" using pages_rel_frame(1,6) [OF p] l by auto
  ultimately obtain p' where p': "touched (\<lambda>pg. pg\<lparr>protected_columns := f pg\<rparr>) {l} p p'"
      "\<And>t. space_pages t = p \<Longrightarrow> B l t = (t\<lparr>space_pages := p'\<rparr>, Inr ())"
    using B unfolding touches_def by blast
  have "pages_rel reprotected p p'" by (rule pages_rel_mono [OF p'(1)]) (auto simp: reprotected_def intro: reprotected_refl [unfolded reprotected_def])
  from pages_rel_trans [OF p this reprotected_trans] have "pages_rel reprotected (space_pages s) p'" .
  then show "\<exists>p'. pages_rel reprotected (space_pages s) p' \<and> B l (s\<lparr>space_pages := p\<rparr>) = (s\<lparr>space_pages := p'\<rparr>, Inr ())"
    using p'(2) [of "s\<lparr>space_pages := p\<rparr>"] by auto
qed

lemma reprotects_run:
  assumes "reprotects B s" "store_inv (space_pages s)"
  obtains p' where "B s = (s\<lparr>space_pages := p'\<rparr>, Inr ())" "pages_rel reprotected (space_pages s) p'"
proof -
  have "pages_rel reprotected (space_pages s) (space_pages s)"
    using assms(2) by (rule pages_rel_refl) (rule reprotected_refl)
  then have "\<exists>p'. pages_rel reprotected (space_pages s) p' \<and> B (s\<lparr>space_pages := space_pages s\<rparr>) = (s\<lparr>space_pages := p'\<rparr>, Inr ())"
    using assms(1) unfolding reprotects_def by blast
  then show ?thesis using that by auto
qed

lemma reprotects_unprotect:
  assumes inv: "space_inv_but x H s" and i: "i < length (addresses s)"
  shows "reprotects (unprotect_address i) s"
proof -
  note m = members_okD [OF space_invD(7) [OF inv i]]
  have "reprotects (act_for (\<lambda>l. on_pages (\<lambda>p. set_protected_coverage p l 0)) (pages_of s i)) s"
    by (intro reprotects_for reprotects_touch [OF set_protected_touches] m(4)) simp_all
  then have "reprotects (act_when (addr_occupied (addresses s ! i))
      (act_for (\<lambda>l. on_pages (\<lambda>p. set_protected_coverage p l 0)) (pages_of s i))) s" by (rule reprotects_when)
  then show ?thesis by (simp add: reprotects_def unprotect_address_def Let_def pages_of_def page_handles_def)
qed

lemma reprotects_protect:
  assumes inv: "space_inv H s" and i: "i < length (addresses s)"
  shows "reprotects (protect_address i) s"
proof -
  note m = members_okD [OF space_invD(7) [OF inv i]]
  define a where "a = addresses s ! i"
  have f: "committed_frontier a \<le> page_count a * page_size" "checkpoint_frontier a \<le> committed_frontier a"
    "\<And>k. k < page_count a \<Longrightarrow> min page_size (committed_frontier a - k * page_size)
        \<le> committed_columns (page_at (space_pages s) (membership s i k))"
    using space_invD(9) [OF inv i] by (simp_all add: frontier_ok_def Let_def a_def)
  have few: "pages_for_tokens (checkpoint_frontier a) \<le> page_count a"
    using f(1,2) pages_for_tokens_le [of "checkpoint_frontier a" "page_count a"] by linarith
  let ?B = "\<lambda>page. on_pages (\<lambda>p. protect_coverage p (membership s i page) (min page_size (checkpoint_frontier a - page * page_size)))"
  have "reprotects (?B k) s" if "k < pages_for_tokens (checkpoint_frontier a)" for k
  proof (rule reprotects_touch [OF protect_coverage_touches])
    have k: "k < page_count a" using that few by simp
    show "valid_page (space_pages s) (membership s i k)" using m(7) k by (simp add: a_def)
    show "min page_size (checkpoint_frontier a - k * page_size) \<le> committed_columns pg"
      if "reprotected (membership s i k) (page_at (space_pages s) (membership s i k)) pg" for pg
    proof -
      have "committed_columns pg = committed_columns (page_at (space_pages s) (membership s i k))"
        using that by (auto simp: reprotected_def)
      moreover have "min page_size (checkpoint_frontier a - k * page_size) \<le> min page_size (committed_frontier a - k * page_size)"
        using f(2) by (intro min.mono) simp_all
      ultimately show ?thesis using f(3) [OF k] by linarith
    qed
  qed
  then have "reprotects (act_for ?B [0..<pages_for_tokens (checkpoint_frontier a)]) s" by (intro reprotects_for) simp
  then have "reprotects (act_when (addr_occupied a \<and> checkpoint_frontier a \<noteq> 0) (act_for ?B [0..<pages_for_tokens (checkpoint_frontier a)])) s"
    by (rule reprotects_when)
  moreover have "act_then (act_guard (\<lambda>s. checkpoint_frontier a > committed_frontier a
      \<or> pages_for_tokens (checkpoint_frontier a) > page_count a) Terminate) B t = B t" for B :: "unit space_action" and t
    using f(2) few by (simp add: act_then_def act_bind_def act_guard_def not_less)
  ultimately show ?thesis
    unfolding reprotects_def protect_address_def Let_def a_def act_when_def by (simp split: if_splits)
qed

lemma rebuild_ok:
  assumes inv: "space_inv H s"
  obtains p' where "rebuild_checkpoint_protection s = (s\<lparr>space_pages := p'\<rparr>, Inr ())" "pages_rel reprotected (space_pages s) p'"
proof -
  have "reprotects (act_then (act_for unprotect_address [0..<length (addresses s)]) (act_for protect_address [0..<length (addresses s)])) s"
    using reprotects_unprotect [OF inv] reprotects_protect [OF inv] by (intro reprotects_then reprotects_for) auto
  from reprotects_run [OF this space_invD(1) [OF inv]] obtain p' where
    "act_then (act_for unprotect_address [0..<length (addresses s)]) (act_for protect_address [0..<length (addresses s)]) s
      = (s\<lparr>space_pages := p'\<rparr>, Inr ())" "pages_rel reprotected (space_pages s) p'" .
  then show ?thesis using that [of p'] by (simp add: rebuild_checkpoint_protection_def act_noexcept_def)
qed

lemma rebuild_step:
  assumes inv: "space_inv H s"
  obtains s' where "rebuild_checkpoint_protection s = (s', Inr ())" "space_inv H s'" "\<And>P. keeps P s s'"
    "\<exists>p'. s' = s\<lparr>space_pages := p'\<rparr> \<and> pages_rel reprotected (space_pages s) p'"
proof -
  obtain p' where p': "rebuild_checkpoint_protection s = (s\<lparr>space_pages := p'\<rparr>, Inr ())" "pages_rel reprotected (space_pages s) p'"
    by (rule rebuild_ok [OF inv])
  have c: "pages_rel calm (space_pages s) p'" by (rule pages_rel_mono [OF p'(2) reprotected_calm])
  show ?thesis
    using that p' space_inv_calm [OF inv c] keeps_pages [OF inv c] by (auto simp: calm_def)
qed

lemma set_checkpoint_step:
  assumes inv: "space_inv H s" and run: "set_checkpoint_requirement h c s = (s', r)"
  shows "space_inv H s'" "keeps P s s'" "r = Inr () \<or> (s' = s \<and> r = Inl InvalidArgument)"
    "r = Inr () \<longleftrightarrow> valid_address s h \<and> c \<le> committed_frontier (address_at s h)"
proof -
  have "space_inv H s' \<and> keeps P s s' \<and> (r = Inr () \<or> (s' = s \<and> r = Inl InvalidArgument))
    \<and> (r = Inr () \<longleftrightarrow> valid_address s h \<and> c \<le> committed_frontier (address_at s h))" for P
  proof (cases "valid_address s h \<and> c \<le> committed_frontier (address_at s h)")
    case False
    then have "s' = s \<and> r = Inl InvalidArgument"
      using run by (auto simp: set_checkpoint_requirement_def act_bind_def act_ask_def require_address_def split: if_splits)
    then show ?thesis using inv False by (simp add: keeps_refl)
  next
    case True
    define i where "i = space_index h"
    have i: "i < length (addresses s)" using valid_addressD True by (simp add: i_def)
    define t where "t = s\<lparr>addresses := (addresses s)[i := (addresses s ! i)\<lparr>checkpoint_frontier := c\<rparr>]\<rparr>"
    have "space_inv_but (Some i) H t" unfolding t_def
      by (rule space_inv_frontier [OF inv i, where c = "committed_frontier (addresses s ! i)"]) auto
    moreover have "frontier_ok t i" using space_invD(9) [OF inv i] True i
      by (simp add: frontier_ok_def Let_def t_def address_at_def i_def)
    ultimately have "space_inv H t" by (rule space_inv_complete)
    from rebuild_step [OF this] obtain s'' where s'': "rebuild_checkpoint_protection t = (s'', Inr ())" "space_inv H s''" "\<And>P. keeps P t s''"
      by blast
    have "set_checkpoint_requirement h c s = (s'', Inr ())"
      using True s''(1) by (simp add: set_checkpoint_requirement_def act_bind_def act_then_def act_ask_def require_address_def t_def i_def)
    moreover have "keeps P s t" unfolding t_def by (rule keeps_put) simp_all
    ultimately show ?thesis using run s'' True keeps_trans by (metis prod.inject)
  qed
  then show "space_inv H s'" "keeps P s s'" "r = Inr () \<or> (s' = s \<and> r = Inl InvalidArgument)"
    "r = Inr () \<longleftrightarrow> valid_address s h \<and> c \<le> committed_frontier (address_at s h)" by blast+
qed

section \<open>Entitlements\<close>

lemma address_reserved:
  assumes inv: "space_inv_but x H s" and i: "i < length (addresses s)"
  shows "reservation_pages (addr_reservation (addresses s ! i)) \<le> reserved_pages (physical_pool (space_pages s))"
proof -
  have "reservation_pages (addr_reservation (addresses s ! i)) \<le> space_reserved (addresses s)"
    unfolding space_reserved_def using i elem_le_sum_list [of i "map (\<lambda>a. reservation_pages (addr_reservation a)) (addresses s)"] by simp
  then show ?thesis using space_invD(6) [OF inv] by (simp add: accounts_ok_def)
qed

lemma address_may_spend:
  assumes inv: "space_inv_but x H s" and i: "i < length (addresses s)" "addr_active (addresses s ! i)"
  shows "may_spend (space_pages s) (addr_reservation (addresses s ! i))"
  using address_reserved [OF inv i(1)] activity_okD(2) [OF space_invD(8) [OF inv i(1)] i(2)]
  by (simp add: may_spend_def reservation_belongs_to_def)

text \<open>The reservation of an active address changes, and with it the reserved count of the pool.\<close>

lemma space_inv_set_reservation:
  assumes inv: "space_inv_but x H s" and i: "i < length (addresses s)" "addr_active (addresses s ! i)"
    and q: "pool_inv ((physical_pool (space_pages s))\<lparr>reserved_pages := n\<rparr>)"
    and n: "n + reservation_pages (addr_reservation (addresses s ! i)) = reserved_pages (physical_pool (space_pages s)) + reservation_pages r"
    and r: "reservation_owner r = Some (pool_id (physical_pool (space_pages s)))"
      "page_count (addresses s ! i) + reservation_pages r \<le> page_capacity s"
  shows "space_inv_but x H ((set_reserved n s)\<lparr>addresses := (addresses s)[i := (addresses s ! i)\<lparr>addr_reservation := r\<rparr>]\<rparr>)"
proof -
  note I = space_invD [OF inv]
  define a where "a = (addresses s ! i)\<lparr>addr_reservation := r\<rparr>"
  define s' where "s' = (set_reserved n s)\<lparr>addresses := (addresses s)[i := a]\<rparr>"
  have pc: "page_count a = page_count (addresses s ! i)" "addr_active a = addr_active (addresses s ! i)" by (simp_all add: a_def)
  have mem: "membership s' = membership s" "pages_of s' = pages_of s" "users s' = users s" "active_users s' = active_users s"
    "shown s' = shown s" "page_capacity s' = page_capacity s" "space_tables s' = space_tables s"
    "addresses s' = (addresses s)[i := a]" "space_pages s' = space_pages (set_reserved n s)"
    using pages_of_put [of a "set_reserved n s" i] users_put [of a "set_reserved n s" i]
      active_users_put [of a "set_reserved n s" i] pc by (simp_all add: s'_def fun_eq_iff)
  have "members_ok s' j \<and> activity_ok s' j \<and> (Some j \<noteq> x \<longrightarrow> frontier_ok s' j)" if j: "j < length (addresses s)" for j
  proof (intro conjI impI)
    show "members_ok s' j" using I(7) [OF j]
      by (cases "j = i") (simp_all add: members_ok_def Let_def mem nth_update_at, (simp_all add: a_def i(1))?)
    show "activity_ok s' j"
    proof (cases "j = i")
      case True
      then show ?thesis using I(8) [OF j] r i by (auto simp: activity_ok_def Let_def mem nth_update_at a_def)
    next
      case False
      have "activity_ok s' j = activity_ok s j" using False by (simp add: activity_ok_def Let_def mem nth_update_at)
      then show ?thesis using I(8) [OF j] by simp
    qed
    show "frontier_ok s' j" if "Some j \<noteq> x" using I(9) [OF j that]
      by (cases "j = i") (simp_all add: frontier_ok_def Let_def mem nth_update_at, (simp_all add: a_def i(1))?)
  qed
  moreover have "slots_fit s'"
  proof -
    have "{j. j < length (addresses s) \<and> \<not> addr_occupied ((addresses s)[i := a] ! j)} = {j. j < length (addresses s) \<and> \<not> addr_occupied (addresses s ! j)}"
      by (auto simp: a_def nth_update_at split: if_splits)
    then show ?thesis using I(3) by (simp add: slots_fit_def Let_def s'_def)
  qed
  moreover have "counts_ok H s'" using I(4) by (simp add: counts_ok_def mem)
  moreover have "space_reserved (addresses s') + reservation_pages (addr_reservation (addresses s ! i)) = space_reserved (addresses s) + reservation_pages r"
    "space_rows (addresses s') = space_rows (addresses s)"
    using sum_mset_update [OF i(1), of "\<lambda>a. reservation_pages (addr_reservation a)" a]
      sum_mset_update [OF i(1), of "\<lambda>a. mset_set (set_option (addr_row a))" a]
    by (simp_all add: space_reserved_def space_rows_def a_def mem(8))
  then have "accounts_ok H s'" using I(6) n by (simp add: accounts_ok_def mem)
  moreover have "holds_ok H (space_pages s')" using I(5) by (simp add: holds_ok_def mem)
  ultimately show ?thesis using I(2) store_inv_reserved [OF I(1) q] unfolding a_def [symmetric] s'_def [symmetric]
    by (simp add: space_inv_but_def mem)
qed

lemma keeps_set_reservation:
  "keeps P s ((set_reserved n s)\<lparr>addresses := (addresses s)[i := (addresses s ! i)\<lparr>addr_reservation := r\<rparr>]\<rparr>)"
  by (auto simp: keeps_def valid_address_def address_at_def nth_update_at)

lemma resize_address:
  assumes inv: "space_inv_but x H s" and i: "i < length (addresses s)" "addr_active (addresses s ! i)"
    and ent: "page_count (addresses s ! i) + n \<le> page_capacity s"
    and run: "act_bind (on_pool (\<lambda>p. resize_reservation p (addr_reservation (addresses s ! i)) n))
      (\<lambda>r. put_address i (\<lambda>a. a\<lparr>addr_reservation := r\<rparr>)) s = (s', res)"
  shows "space_inv_but x H s'" "keeps P s s'" "res = Inr () \<or> (s' = s \<and> res = Inl BadAlloc)"
    "res = Inr () \<Longrightarrow> addresses s' = (addresses s)[i := (addresses s ! i)\<lparr>addr_reservation := (addr_reservation (addresses s ! i))\<lparr>reservation_pages := n\<rparr>\<rparr>]"
proof -
  note I = space_invD [OF inv]
  let ?q = "physical_pool (space_pages s)" and ?r = "addr_reservation (addresses s ! i)"
  have pool: "pool_inv ?q" by (rule store_pool_inv [OF I(1)])
  have le: "reservation_pages ?r \<le> reserved_pages ?q" by (rule address_reserved [OF inv i(1)])
  have small: "n \<le> u32_max"
  proof -
    have "page_capacity s \<le> i32_max" using I(2,3) by (simp add: tables_ok_def table_inv_def slots_fit_def Let_def)
    moreover have "i32_max \<le> u32_max" by (simp add: i32_max_def u32_max_def)
    ultimately show ?thesis using ent by linarith
  qed
  have "space_inv_but x H s' \<and> keeps P s s' \<and> (res = Inr () \<or> (s' = s \<and> res = Inl BadAlloc))
    \<and> (res = Inr () \<longrightarrow> addresses s' = (addresses s)[i := (addresses s ! i)\<lparr>addr_reservation := ?r\<lparr>reservation_pages := n\<rparr>\<rparr>])" for P
  proof (cases "resize_reservation ?q ?r n")
    case (Inl e)
    then have "s' = s \<and> res = Inl BadAlloc"
      using run by (auto simp: act_bind_def on_pool_def on_pages_result_def resize_reservation_def split: if_splits)
    then show ?thesis using inv by (simp add: keeps_refl)
  next
    case (Inr v)
    obtain q r where v: "v = (q, r)" by fastforce
    have Q: "pool_inv q" "q = ?q\<lparr>reserved_pages := reserved_pages ?q - reservation_pages ?r + n\<rparr>" "r = ?r\<lparr>reservation_pages := n\<rparr>"
      using resize_reservation_inv(2) [OF pool le small] Inr v by auto
    have res: "res = Inr ()" and s': "s' = (set_reserved (reserved_pages ?q - reservation_pages ?r + n) s)\<lparr>addresses := (addresses s)[i := (addresses s ! i)\<lparr>addr_reservation := r\<rparr>]\<rparr>"
      using run Inr v Q(2) by (auto simp: act_bind_def on_pool_def on_pages_result_def)
    have "space_inv_but x H s'" unfolding s'
      using Q ent le activity_okD(2) [OF I(8) [OF i(1)] i(2)] by (intro space_inv_set_reservation [OF inv i]) auto
    moreover have "keeps P s s'" unfolding s' by (rule keeps_set_reservation)
    ultimately show ?thesis using res s' Q(3) by simp
  qed
  then show "space_inv_but x H s'" "keeps P s s'" "res = Inr () \<or> (s' = s \<and> res = Inl BadAlloc)"
    "res = Inr () \<Longrightarrow> addresses s' = (addresses s)[i := (addresses s ! i)\<lparr>addr_reservation := ?r\<lparr>reservation_pages := n\<rparr>\<rparr>]" by blast+
qed

lemma resize_entitlement_step:
  assumes inv: "space_inv H s" and run: "resize_entitlement h ent s = (s', r)"
  shows "space_inv H s'" "keeps P s s'" "r = Inr () \<or> (s' = s \<and> r \<in> {Inl InvalidArgument, Inl LogicError, Inl BadAlloc})"
proof -
  have "space_inv H s' \<and> keeps P s s' \<and> (r = Inr () \<or> (s' = s \<and> r \<in> {Inl InvalidArgument, Inl LogicError, Inl BadAlloc}))" for P
  proof (cases "require_active s h")
    case (Inl e)
    then show ?thesis using run inv require_active_err [OF Inl]
      by (auto simp: resize_entitlement_def act_bind_def act_ask_def keeps_refl)
  next
    case (Inr a)
    note a = require_active_ok [OF inv Inr]
    show ?thesis
    proof (cases "ent < page_count a \<or> ent > page_capacity s")
      case True
      then show ?thesis using run Inr inv
        by (auto simp: resize_entitlement_def act_bind_def act_then_def act_ask_def act_guard_def keeps_refl)
    next
      case False
      have "act_bind (on_pool (\<lambda>p. resize_reservation p (addr_reservation a) (ent - page_count a)))
          (\<lambda>r. put_address (space_index h) (\<lambda>a. a\<lparr>addr_reservation := r\<rparr>)) s = (s', r)"
        using run Inr False by (simp add: resize_entitlement_def act_bind_def act_then_def act_ask_def act_guard_def)
      from resize_address [OF inv a(2) _ _ this [unfolded a(3)]] a False show ?thesis by auto
    qed
  qed
  then show "space_inv H s'" "keeps P s s'" "r = Inr () \<or> (s' = s \<and> r \<in> {Inl InvalidArgument, Inl LogicError, Inl BadAlloc})" by blast+
qed

lemma release_growth_step:
  assumes inv: "space_inv H s" and run: "release_growth_entitlement h s = (s', r)"
  shows "space_inv H s'" "keeps P s s'" "r = Inr () \<or> (s' = s \<and> r \<in> {Inl InvalidArgument, Inl LogicError, Inl BadAlloc})"
proof -
  have "space_inv H s' \<and> keeps P s s' \<and> (r = Inr () \<or> (s' = s \<and> r \<in> {Inl InvalidArgument, Inl LogicError, Inl BadAlloc}))" for P
  proof (cases "require_active s h")
    case (Inl e)
    then show ?thesis using run inv require_active_err [OF Inl]
      by (auto simp: release_growth_entitlement_def act_bind_def act_ask_def keeps_refl)
  next
    case (Inr a)
    note a = require_active_ok [OF inv Inr]
    have "act_bind (on_pool (\<lambda>p. resize_reservation p (addr_reservation a) 0))
        (\<lambda>r. put_address (space_index h) (\<lambda>a. a\<lparr>addr_reservation := r\<rparr>)) s = (s', r)"
      using run Inr by (simp add: release_growth_entitlement_def act_bind_def act_ask_def)
    from resize_address [OF inv a(2) _ _ this [unfolded a(3)]] a members_okD(2) [OF space_invD(7) [OF inv a(2)]]
    show ?thesis by auto
  qed
  then show "space_inv H s'" "keeps P s s'" "r = Inr () \<or> (s' = s \<and> r \<in> {Inl InvalidArgument, Inl LogicError, Inl BadAlloc})" by blast+
qed

section \<open>Operations on one address\<close>

text \<open>The shape of most operations: address \<open>i\<close>, the pages and the tables change.\<close>

lemma space_inv_change_slots:
  assumes inv: "space_inv_but x H s" and i: "i < length (addresses s)" "x = None \<or> x = Some i"
    and s': "addresses s' = (addresses s)[i := a]" "page_capacity s' = page_capacity s" "slots_fit s'"
    and mem: "\<And>j k. j \<noteq> i \<Longrightarrow> k < page_capacity s \<Longrightarrow> membership s' j k = membership s j k"
    and fr: "store_frame (space_pages s) (space_pages s')"
    and tab: "tables_ok (space_tables s')"
    and others: "\<And>j l. j \<noteq> i \<Longrightarrow> j < length (addresses s) \<Longrightarrow> l \<in> set (pages_of s j) \<Longrightarrow> valid_page (space_pages s) l \<Longrightarrow>
      valid_page (space_pages s') l \<and> committed_columns (page_at (space_pages s) l) \<le> committed_columns (page_at (space_pages s') l)
      \<and> (addr_active (addresses s ! j) \<longrightarrow> device_replica (page_at (space_pages s') l) = device_replica (page_at (space_pages s) l))"
    and sh: "\<And>j row k. j \<noteq> i \<Longrightarrow> j < length (addresses s) \<Longrightarrow> addr_row (addresses s ! j) = Some row \<Longrightarrow>
      k < page_count (addresses s ! j) \<Longrightarrow> shown s' row k = shown s row k"
    and new: "members_ok s' i" "activity_ok s' i" "Some i \<noteq> y \<Longrightarrow> frontier_ok s' i"
    and all: "counts_ok H' s'" "holds_ok H' (space_pages s')" "accounts_ok H' s'"
  shows "space_inv_but y H' s'"
proof -
  note I = space_invD [OF inv]
  have "members_ok s' j \<and> activity_ok s' j \<and> (Some j \<noteq> y \<longrightarrow> frontier_ok s' j)" if j: "j < length (addresses s)" for j
  proof (cases "j = i")
    case True
    then show ?thesis using new by simp
  next
    case False
    note m = members_okD [OF I(7) [OF j]]
    have at: "addresses s' ! j = addresses s ! j" using False by (simp add: s'(1))
    note o = others [OF False j]
    have "members_ok s' j" using m(4) o by (intro members_frame [OF I(7) [OF j] at s'(2) mem [OF False]]) auto
    moreover have "activity_ok s' j" using m(2,4) o fr sh [OF False j]
      by (intro activity_frame [OF I(8) [OF j] at m(2) s'(2) _ mem [OF False]]) (auto simp: store_frame_def)
    moreover have "frontier_ok s' j" using m(2,4) o i(2) False
      by (intro frontier_frame [OF I(9) [OF j] at m(2) mem [OF False]]) auto
    ultimately show ?thesis by simp
  qed
  then show ?thesis using fr tab s'(3) all by (simp add: space_inv_but_def store_frame_def s'(1))
qed

lemma slots_fit_change:
  assumes "slots_fit s" "addresses s' = (addresses s)[i := a]" "page_capacity s' = page_capacity s"
      "length (memberships s') = length (memberships s)" "space_free s' = space_free s" "space_free_count s' = space_free_count s"
      "addr_occupied a = addr_occupied (addresses s ! i)"
      "logical_page_capacity (space_tables s') = logical_page_capacity (space_tables s)"
  shows "slots_fit s'"
proof -
  have "{j. j < length (addresses s) \<and> \<not> addr_occupied ((addresses s)[i := a] ! j)} = {j. j < length (addresses s) \<and> \<not> addr_occupied (addresses s ! j)}"
    using assms(7) by (auto simp: nth_update_at split: if_splits)
  then show ?thesis using assms(1,8) by (simp add: slots_fit_def Let_def assms(2-6))
qed

lemma space_inv_change:
  assumes inv: "space_inv_but x H s" and i: "i < length (addresses s)" "x = None \<or> x = Some i"
    and s': "addresses s' = (addresses s)[i := a]" "page_capacity s' = page_capacity s"
      "length (memberships s') = length (memberships s)" "space_free s' = space_free s" "space_free_count s' = space_free_count s"
      "addr_occupied a = addr_occupied (addresses s ! i)"
    and mem: "\<And>j k. j \<noteq> i \<Longrightarrow> k < page_capacity s \<Longrightarrow> membership s' j k = membership s j k"
    and fr: "store_frame (space_pages s) (space_pages s')"
    and tab: "tables_ok (space_tables s')" "logical_page_capacity (space_tables s') = logical_page_capacity (space_tables s)"
    and others: "\<And>j l. j \<noteq> i \<Longrightarrow> j < length (addresses s) \<Longrightarrow> l \<in> set (pages_of s j) \<Longrightarrow> valid_page (space_pages s) l \<Longrightarrow>
      valid_page (space_pages s') l \<and> committed_columns (page_at (space_pages s) l) \<le> committed_columns (page_at (space_pages s') l)
      \<and> (addr_active (addresses s ! j) \<longrightarrow> device_replica (page_at (space_pages s') l) = device_replica (page_at (space_pages s) l))"
    and sh: "\<And>j row k. j \<noteq> i \<Longrightarrow> j < length (addresses s) \<Longrightarrow> addr_row (addresses s ! j) = Some row \<Longrightarrow>
      k < page_count (addresses s ! j) \<Longrightarrow> shown s' row k = shown s row k"
    and new: "members_ok s' i" "activity_ok s' i" "Some i \<noteq> y \<Longrightarrow> frontier_ok s' i"
    and all: "counts_ok H' s'" "holds_ok H' (space_pages s')" "accounts_ok H' s'"
  shows "space_inv_but y H' s'"
  by (rule space_inv_change_slots [OF inv i s'(1,2) slots_fit_change [OF space_invD(3) [OF inv] s' tab(2)] mem fr tab(1) others sh new all])

lemma reserved_update:
  "i < length as \<Longrightarrow> space_reserved (as[i := a]) + reservation_pages (addr_reservation (as ! i))
     = space_reserved as + reservation_pages (addr_reservation a)"
  unfolding space_reserved_def by (rule sum_mset_update)

lemma rows_update:
  "i < length as \<Longrightarrow> space_rows (as[i := a]) + mset_set (set_option (addr_row (as ! i))) = space_rows as + mset_set (set_option (addr_row a))"
  unfolding space_rows_def by (rule sum_mset_update)

lemma row_live:
  assumes "space_inv_but x H s" "l \<in># space_rows (addresses s) + held_rows H"
  shows "row_lease_owner l \<noteq> None" "valid_row_handle (space_tables s) (row_lease_handle l)"
    "row_number (row_lease_handle l) = row_lease_number l"
proof -
  have "rows_live (space_tables s) (space_rows (addresses s) + held_rows H)" using space_invD(6) [OF assms(1)] by (simp add: accounts_ok_def)
  then show o: "row_lease_owner l \<noteq> None" and "valid_row_handle (space_tables s) (row_lease_handle l)"
    using assms(2) unfolding rows_live_def by blast+
  show "row_number (row_lease_handle l) = row_lease_number l" using o by (auto simp: row_lease_handle_def)
qed

lemma address_row_in:
  assumes "i < length as" "addr_row (as ! i) = Some l"
  shows "l \<in># space_rows as"
  unfolding space_rows_def in_sum_mset using assms by (intro bexI [of _ "as ! i"]) simp_all

text \<open>Different holders of rows have different row numbers.\<close>

lemma rows_apart:
  assumes live: "rows_live t (add_mset l (add_mset m R))"
  shows "row_lease_number l \<noteq> row_lease_number m"
proof
  assume "row_lease_number l = row_lease_number m"
  then have "count (image_mset row_lease_number (add_mset l (add_mset m R))) (row_lease_number l) \<ge> 2" by simp
  moreover have "count (image_mset row_lease_number (add_mset l (add_mset m R))) (row_lease_number l) \<le> 1"
    using live by (simp only: rows_live_def)
  ultimately show False by linarith
qed

lemma space_rows_split:
  assumes "i < length as" "addr_row (as ! i) = Some l"
  obtains R where "space_rows as = add_mset l R" "\<And>j m. j < length as \<Longrightarrow> j \<noteq> i \<Longrightarrow> addr_row (as ! j) = Some m \<Longrightarrow> m \<in># R"
proof -
  define R where "R = space_rows (as[i := (as ! i)\<lparr>addr_row := None\<rparr>])"
  have "R + mset_set {l} = space_rows as" using rows_update [OF assms(1), of "(as ! i)\<lparr>addr_row := None\<rparr>"] assms(2) by (simp add: R_def)
  then have "space_rows as = add_mset l R" by simp
  moreover have "m \<in># R" if "j < length as" "j \<noteq> i" "addr_row (as ! j) = Some m" for j m
    unfolding R_def using that by (intro address_row_in [of j]) simp_all
  ultimately show ?thesis using that by blast
qed

section \<open>Publishing rows\<close>

lemma publish_ok:
  assumes t: "tables_ok t" and v: "valid_row_handle t h" and fits: "b + length hs \<le> logical_page_capacity t"
    and hs: "\<forall>g \<in> set hs. valid_handle p g"
  obtains cs where "publish t p h b hs = (t\<lparr>host_shadow := overwrite (host_shadow t) (nat (row_number h) * logical_page_capacity t + b) (map handle_index hs)\<rparr>, Inr cs)"
    "tables_ok (t\<lparr>host_shadow := overwrite (host_shadow t) (nat (row_number h) * logical_page_capacity t + b) (map handle_index hs)\<rparr>)"
proof -
  have ti: "table_inv t" using t by (simp add: tables_ok_def)
  define pos where "pos = nat (row_number h) * logical_page_capacity t + b"
  define t' where "t' = t\<lparr>host_shadow := overwrite (host_shadow t) pos (map handle_index hs)\<rparr>"
  have pos: "pos + length hs \<le> length (host_shadow t)" unfolding pos_def using row_position [OF ti v fits] .
  have w: "write_handles p (host_shadow t) pos hs = (host_shadow t', Inr ())"
    using write_handles_spec [OF pos, of p] hs by (simp add: t'_def takeWhile_eq_all_conv [THEN iffD2])
  have ti': "table_inv t'" unfolding t'_def using pos by (intro table_inv_shadow [OF ti]) simp
  have cap: "logical_page_capacity t' = logical_page_capacity t" "table_row_count t' = table_row_count t"
    by (simp_all add: t'_def logical_page_capacity_def table_row_count_def)
  have run: "publish t p h b hs = (t', publish_indices t' h b pos (length hs))"
    using v w fits by (auto simp: publish_def pos_def [symmetric] width_simps t'_def Let_def)
  have "\<exists>cs. publish_indices t' h b pos (length hs) = Inr cs"
  proof (cases "hs = []")
    case True
    then show ?thesis by (simp add: publish_indices_def)
  next
    case False
    have "row_number h < table_row_count t" "0 \<le> row_number h" using v by (simp_all add: valid_row_handle_iff)
    then have "4 * int (logical_page_capacity t) * row_number h \<le> 4 * int (logical_page_capacity t) * table_row_count t"
      by (intro mult_left_mono) simp_all
    then have "4 * int (logical_page_capacity t') * row_number h \<le> int i64_max" using t cap by (simp add: tables_ok_def)
    then obtain r where "table_row t' h = Inr r" "data r = Some (table_base t' + 4 * int (logical_page_capacity t') * row_number h)"
      using table_row_ok [OF ti'] v by (auto simp: t'_def)
    then show ?thesis using False by (simp add: publish_indices_def)
  qed
  then obtain cs where "publish t p h b hs = (t', Inr cs)" using run by auto
  moreover have "tables_ok t'" using t ti' cap by (simp add: tables_ok_def)
  ultimately show ?thesis using that unfolding t'_def pos_def by blast
qed

lemma physical_all_ok:
  assumes "\<forall>l \<in> set hs. valid_page p l \<and> device_replica (page_at p l) \<noteq> None"
  shows "physical_all p hs = Inr (map (\<lambda>l. lease_handle (the (device_replica (page_at p l)))) hs)"
  using assms by (induction hs) (auto simp: physical_def require_page_def)

lemma resident_live:
  assumes inv: "store_inv p" and l: "valid_page p l" "device_replica (page_at p l) \<noteq> None"
  shows "valid_handle (physical_pool p) (lease_handle (the (device_replica (page_at p l))))"
    "handle_index (lease_handle (the (device_replica (page_at p l)))) = frame_of p l"
proof -
  obtain d where d: "device_replica (page_at p l) = Some d" using l(2) by blast
  have "d \<in># store_leases p" by (rule page_lease_held(1) [OF inv l(1) d])
  then have "lease_belongs_to d (physical_pool p)" "valid_handle (physical_pool p) (lease_handle d)"
    using inv by (auto simp: store_inv_with_def leases_held_def)
  then show "valid_handle (physical_pool p) (lease_handle (the (device_replica (page_at p l))))"
    "handle_index (lease_handle (the (device_replica (page_at p l)))) = frame_of p l"
    using live_lease_index by (simp_all add: d frame_of_def)
qed

text \<open>The shadow after a publication of resident pages at position \<open>b\<close> of a live row.\<close>

lemma publish_pages:
  assumes st: "store_inv (space_pages s)" and tab: "tables_ok (space_tables s)"
    and cap: "page_capacity s = logical_page_capacity (space_tables s)"
    and row: "row_lease_owner row \<noteq> None" "valid_row_handle (space_tables s) (row_lease_handle row)"
    and hs: "\<forall>l \<in> set hs. valid_page (space_pages s) l \<and> device_replica (page_at (space_pages s) l) \<noteq> None"
    and fits: "b + length hs \<le> page_capacity s"
  obtains t' cs where
    "act_bind (ask_pages (\<lambda>p. physical_all p hs)) (\<lambda>ds. publish_row (row_lease_handle row) b ds) s
      = (s\<lparr>space_tables := t', issued := issued s @ cs\<rparr>, Inr ())"
    "tables_ok t'" "logical_page_capacity t' = logical_page_capacity (space_tables s)"
    "\<And>R. rows_live t' R = rows_live (space_tables s) R"
    "\<And>k. k < length hs \<Longrightarrow> host_shadow t' ! (nat (row_lease_number row) * page_capacity s + b + k) = frame_of (space_pages s) (hs ! k)"
    "\<And>n k. n < nat (table_row_count (space_tables s)) \<Longrightarrow> k < page_capacity s \<Longrightarrow> n \<noteq> nat (row_lease_number row) \<or> k < b \<Longrightarrow>
       host_shadow t' ! (n * page_capacity s + k) = host_shadow (space_tables s) ! (n * page_capacity s + k)"
proof -
  let ?t = "space_tables s" and ?ds = "map (\<lambda>l. lease_handle (the (device_replica (page_at (space_pages s) l)))) hs"
  have rn: "row_number (row_lease_handle row) = row_lease_number row" using row(1) by (auto simp: row_lease_handle_def)
  define pos where "pos = nat (row_lease_number row) * page_capacity s + b"
  define t' where "t' = ?t\<lparr>host_shadow := overwrite (host_shadow ?t) pos (map handle_index ?ds)\<rparr>"
  have live: "\<forall>g \<in> set ?ds. valid_handle (physical_pool (space_pages s)) g" using resident_live(1) [OF st] hs by auto
  obtain cs where cs: "publish ?t (physical_pool (space_pages s)) (row_lease_handle row) b ?ds = (t', Inr cs)" "tables_ok t'"
    using publish_ok [OF tab row(2), of b ?ds "physical_pool (space_pages s)"] fits live unfolding cap [symmetric] rn pos_def [symmetric] t'_def by auto
  have len: "pos + length hs \<le> length (host_shadow ?t)"
    using row_position [OF _ row(2), of b "length hs"] tab fits unfolding pos_def by (simp add: cap rn tables_ok_def)
  have run: "act_bind (ask_pages (\<lambda>p. physical_all p hs)) (\<lambda>ds. publish_row (row_lease_handle row) b ds) s
      = (s\<lparr>space_tables := t', issued := issued s @ cs\<rparr>, Inr ())"
    using cs(1) physical_all_ok [OF hs] by (simp add: act_bind_def ask_pages_def act_ask_def publish_row_def)
  have here: "host_shadow t' ! (nat (row_lease_number row) * page_capacity s + b + k) = frame_of (space_pages s) (hs ! k)" if "k < length hs" for k
    using that len resident_live(2) [OF st] hs by (simp add: t'_def overwrite_nth pos_def [symmetric])
  have there: "host_shadow t' ! (n * page_capacity s + k) = host_shadow ?t ! (n * page_capacity s + k)"
    if k: "k < page_capacity s" "n \<noteq> nat (row_lease_number row) \<or> k < b" and n: "n < nat (table_row_count ?t)" for n k
  proof -
    have "n * page_capacity s + k < length (host_shadow ?t)" using cell_in_range [OF n k(1)] tab by (simp add: tables_ok_def table_inv_def cap)
    moreover
    have "\<not> (pos \<le> n * page_capacity s + k \<and> n * page_capacity s + k < pos + length hs)"
    proof
      assume A: "pos \<le> n * page_capacity s + k \<and> n * page_capacity s + k < pos + length hs"
      then have "n * page_capacity s + k = nat (row_lease_number row) * page_capacity s + (b + (n * page_capacity s + k - pos))" by (simp add: pos_def)
      moreover have "b + (n * page_capacity s + k - pos) < page_capacity s" using A fits by linarith
      ultimately have "n = nat (row_lease_number row) \<and> k = b + (n * page_capacity s + k - pos)" using cell_unique [OF k(1)] by blast
      then show False using k(2) by linarith
    qed
    ultimately show ?thesis using len by (auto simp: t'_def overwrite_nth)
  qed
  have "rows_live t' R = rows_live ?t R" for R by (simp add: rows_live_def t'_def)
  then show ?thesis using that [OF run cs(2)] here there by (simp add: t'_def logical_page_capacity_def)
qed

end
