(* ===== verification/Space_Lifecycle.thy ===== *)
theory Space_Lifecycle
  imports Space_Operations
begin

text \<open>
  Activation, deactivation and release of addresses keep the invariant of the address-space store. A
  call that throws does so with the invariant intact, and none of them ends the process.
\<close>

definition benign :: "'a res \<Rightarrow> bool" where
  "benign r \<longleftrightarrow> (case r of Inl e \<Rightarrow> e \<notin> {Terminate, Abort, Undefined} | Inr x \<Rightarrow> True)"

lemma benign_simps [simp]:
  "benign (Inr x)" "benign (Inl InvalidArgument)" "benign (Inl LogicError)" "benign (Inl OutOfRange)"
  "benign (Inl OverflowError)" "benign (Inl BadAlloc)"
  by (simp_all add: benign_def)

text \<open>Running through a query or a guard.\<close>

lemma act_askE:
  assumes "act_bind (act_ask q) k s = (s', r)"
  obtains (throws) e where "q s = Inl e" "s' = s" "r = Inl e" | (goes) x where "q s = Inr x" "k x s = (s', r)"
  using assms by (cases "q s") (auto simp: act_bind_def act_ask_def)

lemma act_guardE:
  assumes "act_then (act_guard b e) k s = (s', r)"
  obtains (throws) "b s" "s' = s" "r = Inl e" | (goes) "\<not> b s" "k s = (s', r)"
  using assms by (cases "b s") (auto simp: act_then_def act_bind_def act_guard_def)

lemma act_bindE:
  assumes "act_bind m k s = (s', r)"
  obtains (throws) e where "m s = (s', Inl e)" "r = Inl e" | (goes) s1 x where "m s = (s1, Inr x)" "k x s1 = (s', r)"
  using assms by (auto simp: act_bind_def split: prod.splits sum.splits)

lemma act_thenE:
  assumes "act_then m k s = (s', r)"
  obtains (throws) e where "m s = (s', Inl e)" "r = Inl e" | (goes) s1 where "m s = (s1, Inr ())" "k s1 = (s', r)"
  using assms by (auto simp: act_then_def elim: act_bindE)

section \<open>Preparing an activation\<close>

definition activation_hold :: "KVActivationReservation \<Rightarrow> hold" where
  "activation_hold v = \<lparr>pinned = [], frozen = False, transfer = None, held_pages = activation_pages v, held_row = activation_row v\<rparr>"

lemma count_missing_ok:
  assumes "\<forall>l \<in> set hs. valid_page p l"
  shows "\<exists>n \<le> length hs. count_missing p hs = Inr n"
  using assms
proof (induction hs)
  case (Cons h hs)
  then obtain n where "n \<le> length hs" "count_missing p hs = Inr n" by auto
  then show ?case using Cons.prems by (auto simp: device_resident_def require_page_def)
qed simp

text \<open>Reserving pages and acquiring a row, as the preparations of activations and forks do it.\<close>

lemma reserve_and_acquire:
  assumes inv: "space_inv_but x H s" and n: "n \<le> u32_max"
    and run: "act_bind (on_pool (\<lambda>p. resize_reservation p (make_empty_reservation p) n)) (\<lambda>r.
      act_bind (act_cleanup (acquire_row m) (drop_reservation r)) (\<lambda>row. K r row)) s = (s', res)"
  shows "(\<exists>e. res = Inl e \<and> benign (Inl e :: unit res) \<and> space_inv_but x H s' \<and> (\<forall>P. keeps P s s'))
    \<or> (\<exists>s1 r row. K r row s1 = (s', res) \<and> space_inv_but x (add_mset (res_hold r) (add_mset (row_hold (Some row)) H)) s1
        \<and> (\<forall>P. keeps P s s1) \<and> r = \<lparr>reservation_owner = Some (pool_id (physical_pool (space_pages s))), reservation_pages = n\<rparr>
        \<and> addresses s1 = addresses s \<and> memberships s1 = memberships s \<and> page_capacity s1 = page_capacity s \<and> space_id s1 = space_id s
        \<and> store_pages (space_pages s1) = store_pages (space_pages s) \<and> store_id (space_pages s1) = store_id (space_pages s)
        \<and> pool_id (physical_pool (space_pages s1)) = pool_id (physical_pool (space_pages s)))"
proof (cases "on_pool (\<lambda>p. resize_reservation p (make_empty_reservation p) n) s")
  case (Pair s1 v)
  let ?r0 = "make_empty_reservation (physical_pool (space_pages s))"
  have Pair': "on_pool (\<lambda>p. resize_reservation p ?r0 n) s = (s1, v)" using Pair by (simp add: on_pool_def on_pages_result_def)
  show ?thesis
  proof (cases v)
    case (Inl e)
    then have "s1 = s" "e = BadAlloc" using resize_fails Pair' by blast+
    then show ?thesis using run Pair Inl inv by (auto simp: act_bind_def keeps_refl)
  next
    case (Inr r)
    note rs = resize_hold [OF empty_hold [OF inv] n Pair' [unfolded Inr]]
    show ?thesis
    proof (cases "acquire_row m s1")
      case acq: (Pair s2 w)
      show ?thesis
      proof (cases w)
        case e: (Inl e)
        have s2: "s2 = s1" and be: "e = OutOfRange \<or> e = LogicError" using acquire_fails acq e by blast+
        obtain s3 where s3: "drop_reservation r s1 = (s3, Inr ())" "space_inv_but x H s3" "\<And>P. keeps P s1 s3"
          using drop_hold [OF rs(1)] by metis
        have "s' = s3" "res = Inl e" using run Pair Inr acq e s2 s3(1) by (auto simp: act_bind_def act_cleanup_def)
        moreover have "keeps P s s3" for P by (rule keeps_trans [OF rs(3) s3(3)])
        ultimately show ?thesis using s3(2) be by auto
      next
        case row: (Inr row)
        note a = acquire_hold [OF rs(1) acq [unfolded row]]
        have "K r row s2 = (s', res)" using run Pair Inr acq row by (simp add: act_bind_def act_cleanup_def)
        moreover have "space_inv_but x (add_mset (res_hold r) (add_mset (row_hold (Some row)) H)) s2"
          using a(1) by (simp add: add_mset_commute)
        moreover have "keeps P s s2" for P by (rule keeps_trans [OF rs(3) a(2)])
        moreover have "r = \<lparr>reservation_owner = Some (pool_id (physical_pool (space_pages s))), reservation_pages = n\<rparr>"
          using rs(2) by (simp add: make_empty_reservation_def)
        ultimately show ?thesis using a rs(4) by (intro disjI2 exI [of _ s2] exI [of _ r] exI [of _ row]) simp
      qed
    qed
  qed
qed

lemma split_hold:
  assumes "space_inv_but x (add_mset \<lparr>pinned = ps, frozen = b, transfer = t, held_pages = r, held_row = w\<rparr> H) s"
  shows "space_inv_but x (add_mset (res_hold r) (add_mset (row_hold w) (add_mset (tail_hold t) (add_mset (pin_hold b ps) H)))) s"
  by (rule space_inv_holds [OF assms]) (use space_invD(5) [OF assms] in \<open>auto simp: same_holds_def holds_ok_def\<close>)

lemma join_hold:
  assumes "space_inv_but x (add_mset (res_hold r) (add_mset (row_hold w) (add_mset (tail_hold t) (add_mset (pin_hold b ps) H)))) s"
  shows "space_inv_but x (add_mset \<lparr>pinned = ps, frozen = b, transfer = t, held_pages = r, held_row = w\<rparr> H) s"
  by (rule space_inv_holds [OF assms]) (use space_invD(5) [OF assms] in \<open>auto simp: same_holds_def holds_ok_def\<close>)

lemma empty_hold_iff:
  "space_inv_but x (add_mset \<lparr>pinned = [], frozen = b, transfer = None, held_pages = null_reservation, held_row = None\<rparr> H) s \<longleftrightarrow> space_inv_but x H s"
    (is "?L \<longleftrightarrow> ?R")
proof
  assume l: ?L
  show ?R by (rule space_inv_holds [OF l]) (use space_invD(5) [OF l] in \<open>auto simp: same_holds_def holds_ok_def\<close>)
next
  assume r: ?R
  show ?L by (rule space_inv_holds [OF r]) (use space_invD(5) [OF r] in \<open>auto simp: same_holds_def holds_ok_def\<close>)
qed

lemma empty_parts [simp]:
  "space_inv_but x (add_mset (tail_hold None) H) s \<longleftrightarrow> space_inv_but x H s"
  "space_inv_but x (add_mset (pin_hold b []) H) s \<longleftrightarrow> space_inv_but x H s"
  "space_inv_but x (add_mset (row_hold None) H) s \<longleftrightarrow> space_inv_but x H s"
  "space_inv_but x (add_mset (res_hold null_reservation) H) s \<longleftrightarrow> space_inv_but x H s"
  using empty_hold_iff [of x b H s] empty_hold_iff [of x False H s] by (simp_all add: hold_defs)

lemma activation_hold_iff:
  "space_inv_but x (add_mset (activation_hold v) H) s
    \<longleftrightarrow> space_inv_but x (add_mset (res_hold (activation_pages v)) (add_mset (row_hold (activation_row v)) H)) s"
proof -
  let ?K = "add_mset (res_hold (activation_pages v)) (add_mset (row_hold (activation_row v))
      (add_mset (tail_hold None) (add_mset (pin_hold False []) H)))"
  let ?J = "add_mset (res_hold (activation_pages v)) (add_mset (row_hold (activation_row v)) H)"
  have good: "\<forall>h \<in># ?K. reservation_owner (held_pages h) = Some (pool_id (physical_pool (space_pages s))) \<or> held_pages h = null_reservation"
    "\<forall>h \<in># ?J. reservation_owner (held_pages h) = Some (pool_id (physical_pool (space_pages s))) \<or> held_pages h = null_reservation"
    if "space_inv_but x ?J s \<or> space_inv_but x ?K s"
    using that by (auto dest!: space_invD(5) simp: holds_ok_def)
  have "same_holds ?K ?J" "same_holds ?J ?K" by (simp_all add: same_holds_def)
  then have "space_inv_but x ?K s \<longleftrightarrow> space_inv_but x ?J s" using space_inv_holds good by blast
  moreover have "space_inv_but x (add_mset (activation_hold v) H) s \<longleftrightarrow> space_inv_but x ?K s"
    unfolding activation_hold_def using split_hold join_hold by blast
  ultimately show ?thesis by simp
qed

lemma prepare_activation_step:
  assumes inv: "space_inv H s" and run: "prepare_activation h ent m f s = (s', r)"
  shows "benign r" "keeps P s s'" "r = Inl e \<Longrightarrow> space_inv H s'"
    "r = Inr v \<Longrightarrow> space_inv (add_mset (activation_hold v) H) s' \<and> activation_owner v = Some (space_id s')
       \<and> activation_address v = h \<and> activation_row v \<noteq> None"
proof -
  let ?goal = "\<lambda>P. benign r \<and> keeps P s s' \<and> (\<forall>e. r = Inl e \<longrightarrow> space_inv H s') \<and>
    (\<forall>v. r = Inr v \<longrightarrow> space_inv (add_mset (activation_hold v) H) s' \<and> activation_owner v = Some (space_id s')
       \<and> activation_address v = h \<and> activation_row v \<noteq> None)"
  have stay: "?goal P" if "s' = s" "r = Inl e" "benign (Inl e :: unit res)" for P e
    using that inv by (simp add: keeps_refl benign_def)
  have "?goal P" for P
    using run [unfolded prepare_activation_def Let_def]
  proof (cases rule: act_askE)
    case (throws e)
    then show ?thesis using stay by (simp add: require_address_def split: if_splits)
  next
    case (goes a)
    have va: "valid_address s h" and a: "a = addresses s ! space_index h"
      using goes(1) by (auto simp: require_address_def address_at_def split: if_splits)
    have i: "space_index h < length (addresses s)" using valid_addressD [OF va] by simp
    note m = members_okD [OF space_invD(7) [OF inv i]]
    from goes(2) show ?thesis
    proof (cases rule: act_guardE)
      case throws
      then show ?thesis using stay by simp
    next
      case guarded: goes
      let ?req = "case f of None \<Rightarrow> page_count a | Some f \<Rightarrow> pages_for_tokens f"
      have "committed_frontier a \<le> page_count a * page_size"
        using space_invD(9) [OF inv i] by (simp add: frontier_ok_def Let_def a)
      then have "?req \<le> page_count a"
        using guarded(1) pages_for_tokens_le by (auto split: option.splits)
      then have "\<forall>l \<in> set (page_handles s (space_index h) [0..<?req]). valid_page (space_pages s) l"
        using m by (auto simp: page_handles_def a)
      then obtain k where k: "count_missing (space_pages s) (page_handles s (space_index h) [0..<?req]) = Inr k"
        using count_missing_ok by blast
      from guarded(2) show ?thesis
      proof (cases rule: act_askE)
        case (goes k)
        from goes(2) show ?thesis
        proof (cases rule: act_guardE)
          case small: goes
          from reserve_and_acquire [OF inv _ small(2)] small(1) show ?thesis
            by (auto simp: activation_hold_iff benign_def)
        qed (use stay in simp)
      qed (use k in simp)
    qed
  qed
  then show "benign r" "keeps P s s'" "r = Inl e \<Longrightarrow> space_inv H s'"
    "r = Inr v \<Longrightarrow> space_inv (add_mset (activation_hold v) H) s' \<and> activation_owner v = Some (space_id s')
       \<and> activation_address v = h \<and> activation_row v \<noteq> None" by blast+
qed

lemma destroy_activation_step:
  assumes "space_inv (add_mset (activation_hold v) H) s"
  obtains s' where "destroy_activation v s = (s', Inr ())" "space_inv H s'" "\<And>P. keeps P s s'"
proof -
  have inv: "space_inv (add_mset (row_hold (activation_row v)) (add_mset (res_hold (activation_pages v)) H)) s"
    using assms by (simp add: activation_hold_iff add_mset_commute)
  obtain s1 where s1: "drop_row (activation_row v) s = (s1, Inr ())" "space_inv (add_mset (res_hold (activation_pages v)) H) s1" "\<And>P. keeps P s s1"
    using drop_row_hold [OF inv] by metis
  obtain s2 where s2: "drop_reservation (activation_pages v) s1 = (s2, Inr ())" "space_inv H s2" "\<And>P. keeps P s1 s2"
    using drop_hold [OF s1(2)] by metis
  have "destroy_activation v s = (s2, Inr ())"
    using s1(1) s2(1) by (simp add: destroy_activation_def act_noexcept_def act_then_def act_bind_def)
  then show ?thesis using that s2(2) keeps_trans [OF s1(3) s2(3)] by blast
qed

section \<open>Committing an activation\<close>

lemma check_pages_ok:
  assumes "check_pages ok e hs = Inr ()" "h \<in> set hs"
  shows "ok h = Inr True"
  using assms by (induction hs) (auto split: sum.splits if_splits)

lemma check_pages_err:
  assumes "check_pages ok e hs = Inl x" "\<forall>h \<in> set hs. \<exists>b. ok h = Inr b"
  shows "x = e"
  using assms by (induction hs) (auto split: sum.splits if_splits)

lemma page_queries [simp]:
  assumes "valid_page p l"
  shows "page_field f p l = Inr (f (page_at p l))" "device_resident p l = Inr (device_replica (page_at p l) \<noteq> None)"
    "require_page p l = Inr (page_at p l)"
  using assms by (simp_all add: page_field_def device_resident_def require_page_def)

lemma valid_address_occupied: "valid_address s h \<Longrightarrow> addr_occupied (addresses s ! space_index h)"
  by (simp add: valid_address_def)

lemma activation_ready_ok:
  assumes inv: "space_inv_but x H s" and ready: "activation_ready s v = Inr ()"
  defines "i \<equiv> space_index (activation_address v)"
  shows "valid_address s (activation_address v)" "i < length (addresses s)" "\<not> addr_active (addresses s ! i)"
    "activation_row v \<noteq> None" "reservation_owner (activation_pages v) = Some (pool_id (physical_pool (space_pages s)))"
    "page_count (addresses s ! i) + reservation_pages (activation_pages v) \<le> page_capacity s"
    "\<And>l. l \<in> set (pages_of s i) \<Longrightarrow> device_replica (page_at (space_pages s) l) \<noteq> None \<and>
       (references (page_at (space_pages s) l) = 1 \<longrightarrow> can_set_writer (space_pages s) l True)"
proof -
  show v: "valid_address s (activation_address v)" and row: "activation_row v \<noteq> None"
    using ready by (auto simp: activation_ready_def split: if_splits)
  show i: "i < length (addresses s)" unfolding i_def by (rule valid_addressD [OF v])
  note m = members_okD [OF space_invD(7) [OF inv i]]
  have r: "idle_address (addresses s ! i)" "requested_entitlement v \<le> page_capacity s"
    "reservation_belongs_to (activation_pages v) (physical_pool (space_pages s))"
    "reservation_pages (activation_pages v) = (if requested_entitlement v > page_count (addresses s ! i)
        then requested_entitlement v - page_count (addresses s ! i) else 0)"
    using ready v by (auto simp: activation_ready_def Let_def address_at_def i_def split: if_splits)
  show "\<not> addr_active (addresses s ! i)" using r(1) idle_iff [OF space_invD(8) [OF inv i]] by simp
  show "reservation_owner (activation_pages v) = Some (pool_id (physical_pool (space_pages s)))"
    using r(3) by (simp add: reservation_belongs_to_def)
  show "page_count (addresses s ! i) + reservation_pages (activation_pages v) \<le> page_capacity s"
    using r(2,4) m(2) by auto
  have c: "check_pages (\<lambda>l. res_bind (device_resident (space_pages s) l) (\<lambda>b.
        if \<not> b then Inr False
        else res_bind (page_field references (space_pages s) l) (\<lambda>n.
          Inr (\<not> (n = 1 \<and> \<not> can_set_writer (space_pages s) l True))))) LogicError (pages_of s i) = Inr ()"
    using ready v row by (simp add: activation_ready_def Let_def address_at_def i_def pages_of_def split: if_splits)
  fix l
  assume l: "l \<in> set (pages_of s i)"
  show "device_replica (page_at (space_pages s) l) \<noteq> None \<and>
       (references (page_at (space_pages s) l) = 1 \<longrightarrow> can_set_writer (space_pages s) l True)"
    using check_pages_ok [OF c l] m(4) [OF l] by (auto split: if_splits)
qed

lemma activation_ready_err:
  assumes inv: "space_inv_but x H s" and err: "activation_ready s v = Inl e"
  shows "e = LogicError"
proof (cases "valid_address s (activation_address v)")
  case True
  note m = members_okD [OF space_invD(7) [OF inv valid_addressD [OF True]]]
  show ?thesis using err True
    by (auto simp: activation_ready_def Let_def address_at_def pages_of_def [symmetric] m(4) split: if_splits dest!: check_pages_err)
qed (use err in \<open>auto simp: activation_ready_def split: if_splits\<close>)

text \<open>Publishing the whole of an address once it holds its row: the rows of the others are not touched.\<close>

lemma publish_membership_ok:
  assumes st: "store_inv (space_pages s)" and tab: "tables_ok (space_tables s)"
    and cap: "page_capacity s = logical_page_capacity (space_tables s)"
    and row: "addr_row (addresses s ! i) = Some row" "row_lease_owner row \<noteq> None" "valid_row_handle (space_tables s) (row_lease_handle row)"
    and ls: "\<forall>l \<in> set (pages_of s i). valid_page (space_pages s) l \<and> device_replica (page_at (space_pages s) l) \<noteq> None"
    and fits: "page_count (addresses s ! i) \<le> page_capacity s"
  obtains t' cs where "publish_membership i s = (s\<lparr>space_tables := t', issued := issued s @ cs\<rparr>, Inr ())"
    "tables_ok t'" "logical_page_capacity t' = logical_page_capacity (space_tables s)"
    "\<And>R. rows_live t' R = rows_live (space_tables s) R"
    "\<And>k. k < page_count (addresses s ! i) \<Longrightarrow>
       host_shadow t' ! (nat (row_lease_number row) * page_capacity s + k) = frame_of (space_pages s) (membership s i k)"
    "\<And>n k. n < nat (table_row_count (space_tables s)) \<Longrightarrow> k < page_capacity s \<Longrightarrow> n \<noteq> nat (row_lease_number row) \<Longrightarrow>
       host_shadow t' ! (n * page_capacity s + k) = host_shadow (space_tables s) ! (n * page_capacity s + k)"
proof -
  have fits': "0 + length (pages_of s i) \<le> page_capacity s" using fits by simp
  obtain t' cs where p: "act_bind (ask_pages (\<lambda>p. physical_all p (pages_of s i))) (\<lambda>ds. publish_row (row_lease_handle row) 0 ds) s
      = (s\<lparr>space_tables := t', issued := issued s @ cs\<rparr>, Inr ())"
    "tables_ok t'" "logical_page_capacity t' = logical_page_capacity (space_tables s)"
    "\<And>R. rows_live t' R = rows_live (space_tables s) R"
    "\<And>k. k < length (pages_of s i) \<Longrightarrow> host_shadow t' ! (nat (row_lease_number row) * page_capacity s + 0 + k)
        = frame_of (space_pages s) (pages_of s i ! k)"
    "\<And>n k. n < nat (table_row_count (space_tables s)) \<Longrightarrow> k < page_capacity s \<Longrightarrow> n \<noteq> nat (row_lease_number row) \<or> k < 0 \<Longrightarrow>
       host_shadow t' ! (n * page_capacity s + k) = host_shadow (space_tables s) ! (n * page_capacity s + k)"
    using publish_pages [OF st tab cap row(2,3) ls fits'] by metis
  have "publish_membership i s = (s\<lparr>space_tables := t', issued := issued s @ cs\<rparr>, Inr ())"
    using p(1) row(1) by (simp add: publish_membership_def pages_of_def)
  from that [OF this p(2,3,4)] show ?thesis using p(5,6) by (auto simp: pages_of_nth)
qed

text \<open>Where the rows of other addresses lie in the shadow.\<close>

lemma other_rows:
  assumes inv: "space_inv_but x H s" and j: "j < length (addresses s)" "addr_row (addresses s ! j) = Some m"
    and row: "row \<in># space_rows (addresses s) + held_rows H - {#m#}"
  shows "nat (row_lease_number m) < nat (table_row_count (space_tables s))" "nat (row_lease_number m) \<noteq> nat (row_lease_number row)"
proof -
  let ?R = "space_rows (addresses s) + held_rows H"
  have m: "m \<in># ?R" using address_row_in [OF j] by simp
  have row': "row \<in># ?R" using row by (rule in_diffD)
  note lm = row_live [OF inv m] and lr = row_live [OF inv row']
  have vm: "0 \<le> row_lease_number m" "row_lease_number m < table_row_count (space_tables s)"
    using lm(2,3) by (simp_all add: valid_row_handle_iff)
  have vr: "0 \<le> row_lease_number row" using lr(2,3) by (simp add: valid_row_handle_iff)
  obtain R where "?R = add_mset m (add_mset row R)" using m row by (metis insert_DiffM)
  then have "rows_live (space_tables s) (add_mset m (add_mset row R))" using space_invD(6) [OF inv] by (simp add: accounts_ok_def)
  then have "row_lease_number m \<noteq> row_lease_number row" by (rule rows_apart)
  then show "nat (row_lease_number m) < nat (table_row_count (space_tables s))" "nat (row_lease_number m) \<noteq> nat (row_lease_number row)"
    using vm vr by auto
qed

lemma held_row_apart:
  assumes "j < length as" "addr_row (as ! j) = Some m" "row \<in># R"
  shows "row \<in># space_rows as + R - {#m#}"
proof -
  obtain Q where "space_rows as = add_mset m Q" using address_row_in [OF assms(1,2)] by (metis insert_DiffM)
  then show ?thesis using assms(3) by simp
qed

lemma keeps_change:
  assumes "addresses s' = (addresses s)[i := a]" "space_id s' = space_id s" "page_capacity s' = page_capacity s"
    "addr_occupied a = addr_occupied (addresses s ! i)" "addr_generation a = addr_generation (addresses s ! i)"
    and "\<And>j k. j < length (addresses s) \<Longrightarrow> k < page_count (addresses s ! j) \<Longrightarrow> membership s j k \<in># P \<Longrightarrow>
      k < page_count (addresses s' ! j) \<and> membership s' j k = membership s j k \<and>
        committed_columns (page_at (space_pages s) (membership s j k)) \<le> committed_columns (page_at (space_pages s') (membership s j k))"
  shows "keeps P s s'"
  unfolding keeps_def
proof (intro conjI allI impI)
  fix h k
  assume h: "valid_address s h" "k < page_count (address_at s h)" "membership s (space_index h) k \<in># P"
  note c = assms(6) [OF valid_addressD [OF h(1)] h(2) [unfolded address_at_def] h(3)]
  show "valid_address s' h" using h(1) assms(1,2,4,5) by (auto simp: valid_address_def nth_update_at)
  show "k < page_count (address_at s' h)" "membership s' (space_index h) k = membership s (space_index h) k"
    "committed_columns (page_at (space_pages s) (membership s (space_index h) k))
      \<le> committed_columns (page_at (space_pages s') (membership s (space_index h) k))"
    using c by (simp_all add: address_at_def)
qed (use assms in simp_all)

lemma adopt_activation_step:
  assumes inv: "space_inv (add_mset (activation_hold v) H) s" and ready: "activation_ready s v = Inr ()"
  obtains s' where "adopt_activation v s = (s', Inr ())" "space_inv H s'" "\<And>P. keeps P s s'"
proof -
  define i where "i = space_index (activation_address v)"
  define a where "a = addresses s ! i"
  note I = space_invD [OF inv] and rd = activation_ready_ok [OF inv ready, folded i_def, folded a_def]
  note m = members_okD [OF I(7) [OF rd(2)], folded a_def]
  obtain row where row: "activation_row v = Some row" using rd(4) by blast
  define a' where "a' = a\<lparr>addr_reservation := activation_pages v, addr_row := Some row, addr_active := True, checkpoint_frontier := 0\<rparr>"
  define s1 where "s1 = s\<lparr>addresses := (addresses s)[i := a']\<rparr>"
  have pc: "page_count a' = page_count (addresses s ! i)" by (simp add: a'_def a_def)
  have old: "addr_row a = None" "addr_reservation a = null_reservation" using activity_okD(1) [OF I(8) [OF rd(2)]] rd(3) by (simp_all add: a_def)
  have s1: "pages_of s1 = pages_of s" "membership s1 = membership s" "addresses s1 ! i = a'" "space_pages s1 = space_pages s"
    using pages_of_put [OF pc] rd(2) by (auto simp: s1_def)
  have notin: "i \<notin> active_users s l" for l using rd(3) by (simp add: active_users_def a_def)
  have used: "i \<in> users s l" if "l \<in> set (pages_of s i)" for l using that rd(2) by (simp add: users_def)
  have unshared: "active_references (page_at (space_pages s) l) < references (page_at (space_pages s) l) \<and>
      (references (page_at (space_pages s) l) = 1 \<longrightarrow> source_pins (page_at (space_pages s) l) = 0 \<and> writer_references (page_at (space_pages s) l) = 0)"
    if "l \<in> set (pages_of s i)" for l
  proof -
    have "active_users s l \<subset> users s l" using notin [of l] used [OF that] by (auto simp: active_users_def)
    then have "card (active_users s l) < card (users s l)" by (simp add: psubset_card_mono)
    then show ?thesis using counts_okD(1,2) [OF I(4) m(4) [OF that]] rd(7) [OF that] m(4) [OF that] by (simp add: can_set_writer_def Let_def)
  qed
  obtain p' where loop: "act_for activate_page (pages_of s i) s1 = (s1\<lparr>space_pages := p'\<rparr>, Inr ())"
    and rel: "touched activated (set (pages_of s i)) (space_pages s) p'"
    using touches_loop [OF activate_page_touches, of s1 "pages_of s i"] I(1) m(3,4) s1(4) unshared by auto
  note fr = pages_rel_frame [OF rel]
  have P: "page_at p' l = (if l \<in> set (pages_of s i) then activated (page_at (space_pages s) l) else page_at (space_pages s) l)"
    if "valid_page (space_pages s) l" for l using pages_relD [OF rel that] .
  have act: "committed_columns (activated pg) = committed_columns pg" "device_replica (activated pg) = device_replica pg"
    "references (activated pg) = references pg" "source_pins (activated pg) = source_pins pg"
    "active_references (activated pg) = active_references pg + 1"
    "writer_references (activated pg) \<noteq> 0 \<Longrightarrow> references pg = 1 \<or> writer_references pg \<noteq> 0" for pg
    by (auto simp: activated_def Let_def split: if_splits)
  define s2 where "s2 = s1\<lparr>space_pages := p'\<rparr>"
  have s2: "pages_of s2 = pages_of s" "membership s2 = membership s" "addresses s2 = (addresses s)[i := a']" "space_pages s2 = p'"
    "space_tables s2 = space_tables s" "page_capacity s2 = page_capacity s"
    using s1 by (simp_all add: s2_def) (simp_all add: s1_def)
  have inR: "row \<in># held_rows (add_mset (activation_hold v) H)" by (simp add: activation_hold_def row)
  have rl: "row_lease_owner row \<noteq> None" "valid_row_handle (space_tables s) (row_lease_handle row)"
    using row_live [OF inv, of row] inR by auto
  have live: "\<forall>l \<in> set (pages_of s2 i). valid_page (space_pages s2) l \<and> device_replica (page_at (space_pages s2) l) \<noteq> None"
    using fr(6) m(4) rd(7) by (auto simp: s2 P act)
  have a2: "addresses s2 ! i = a'" using rd(2) by (simp add: s2)
  have c: "store_inv (space_pages s2)" "tables_ok (space_tables s2)" "page_capacity s2 = logical_page_capacity (space_tables s2)"
      "addr_row (addresses s2 ! i) = Some row" "valid_row_handle (space_tables s2) (row_lease_handle row)"
      "page_count (addresses s2 ! i) \<le> page_capacity s2"
    using fr(1) I(2,3) m(2) rl(2) pc rd(2) by (simp_all add: s2(3-) slots_fit_def Let_def a_def) (simp add: a'_def)
  obtain t' cs where pub: "publish_membership i s2 = (s2\<lparr>space_tables := t', issued := issued s2 @ cs\<rparr>, Inr ())"
    and t': "tables_ok t'" "logical_page_capacity t' = logical_page_capacity (space_tables s2)"
      "\<And>R. rows_live t' R = rows_live (space_tables s2) R"
    and here: "\<And>k. k < page_count (addresses s2 ! i) \<Longrightarrow>
       host_shadow t' ! (nat (row_lease_number row) * page_capacity s2 + k) = frame_of (space_pages s2) (membership s2 i k)"
    and there: "\<And>n k. n < nat (table_row_count (space_tables s2)) \<Longrightarrow> k < page_capacity s2 \<Longrightarrow> n \<noteq> nat (row_lease_number row) \<Longrightarrow>
       host_shadow t' ! (n * page_capacity s2 + k) = host_shadow (space_tables s2) ! (n * page_capacity s2 + k)"
    by (rule publish_membership_ok [OF c(1-4) rl(1) c(5) live c(6)]) (assumption | rule that)+
  define s' where "s' = s2\<lparr>space_tables := t', issued := issued s2 @ cs\<rparr>"
  have put: "put_address i (\<lambda>a. a\<lparr>addr_reservation := activation_pages v, addr_row := activation_row v,
                                      addr_active := True, checkpoint_frontier := 0\<rparr>) s = (s1, Inr ())"
    by (simp add: s1_def a'_def a_def row)
  have ls: "page_handles s1 i [0..<page_count (addresses s1 ! i)] = pages_of s i" unfolding pages_of_def [symmetric] s1(1) ..
  have run: "adopt_activation v s = (s', Inr ())"
    using put loop pub ls
    by (simp only: adopt_activation_def Let_def i_def [symmetric] act_then_def act_bind_def prod.case sum.case s2_def s'_def)
  have f: "space_pages s' = p'" "addresses s' = (addresses s)[i := a']" "page_capacity s' = page_capacity s" "membership s' = membership s"
    "space_tables s' = t'" "pages_of s' = pages_of s"
    by (simp_all add: s'_def s2)
  have us: "users s' l = users s l" for l
    using users_put [OF pc, of l] by (simp add: s'_def s2_def s1_def)
  have aus: "active_users s' l = (if l \<in> set (pages_of s i) then insert i (active_users s l) else active_users s l)" for l
  proof -
    have "addr_active (addresses s' ! j) = (j = i \<or> addr_active (addresses s ! j))" if "j < length (addresses s)" for j
      using that by (auto simp: f nth_update_at a'_def)
    then show ?thesis unfolding active_users_def us using rd(2) by (auto simp: users_def)
  qed
  have "space_inv H s'"
  proof (rule space_inv_change [OF inv rd(2), where s' = s' and a = a'])
    show "addr_occupied a' = addr_occupied (addresses s ! i)" by (simp add: a'_def a_def)
    show "store_frame (space_pages s) (space_pages s')" unfolding f(1) by (rule store_frame_rel [OF rel])
    show "valid_page (space_pages s') l \<and> committed_columns (page_at (space_pages s) l) \<le> committed_columns (page_at (space_pages s') l)
      \<and> (addr_active (addresses s ! j) \<longrightarrow> device_replica (page_at (space_pages s') l) = device_replica (page_at (space_pages s) l))"
      if "valid_page (space_pages s) l" for j l using that fr(6) by (simp add: f P act)
    show "shown s' m k = shown s m k"
      if "j < length (addresses s)" "addr_row (addresses s ! j) = Some m" "k < page_count (addresses s ! j)" for j m k
      using there [of "nat (row_lease_number m)" k] other_rows [OF inv that(1,2) held_row_apart [OF that(1,2) inR]]
        members_okD(2) [OF I(7) [OF that(1)]] that(3) by (simp add: shown_def f s2)
    show "members_ok s' i" using m fr(6) rd(2) valid_address_occupied [OF rd(1)] by (simp add: i_def [symmetric] members_ok_def Let_def f a'_def a_def)
    show "activity_ok s' i"
    proof -
      have "shown s' row k = frame_of p' (membership s i k)" if "k < page_count a" for k
        using here [of k] that rd(2) by (simp add: shown_def f s2 a'_def)
      then show ?thesis using rd(2,5,6) live fr(3) by (simp add: activity_ok_def Let_def f a'_def s2)
    qed
    show "frontier_ok s' i"
      using I(9) [OF rd(2)] rd(2) m(7) by (auto simp: frontier_ok_def Let_def f a'_def a_def P act)
    show "counts_ok H s'"
      unfolding counts_ok_def Let_def
    proof (intro allI impI)
      fix l
      assume "valid_page (space_pages s') l"
      then have v: "valid_page (space_pages s) l" using fr(6) by (simp add: f)
      note c = counts_okD [OF I(4) v]
      have "pins (add_mset (activation_hold v) H) = pins H" by (simp add: activation_hold_def)
      moreover have "l \<in> set (pages_of s i) \<Longrightarrow> references (page_at (space_pages s) l) = 1 \<Longrightarrow> active_references (page_at (space_pages s) l) = 0"
        using c(1,2) used [of l] notin [of l] by (auto simp: card_1_singleton_iff active_users_def)
      ultimately show "references (page_at (space_pages s') l) = card (users s' l) \<and> active_references (page_at (space_pages s') l) = card (active_users s' l) \<and>
          source_pins (page_at (space_pages s') l) = count (pins H) l \<and> (writer_references (page_at (space_pages s') l) \<noteq> 0 \<longrightarrow>
          references (page_at (space_pages s') l) = 1 \<and> active_references (page_at (space_pages s') l) = 1)"
        using c notin [of l] act(6) [of "page_at (space_pages s) l"] by (auto simp: f us aus P [OF v] act)
    qed
    show "holds_ok H (space_pages s')"
    proof -
      have t: "l \<notin> set (pages_of s i)" if "l \<in># transfers H" for l
        using transfer_not_pinned(2) [OF inv, of l] that used [of l] by (auto simp: activation_hold_def)
      have "valid_page p' l \<and> page_at p' l = page_at (space_pages s) l" if "l \<in># transfers H" for l
        using I(5) that fr(6) t [OF that] by (auto simp: holds_ok_def P activation_hold_def)
      moreover have "writer_references (page_at p' l) = 0" if "l \<in> frozen_pages H" for l
      proof -
        have l: "valid_page (space_pages s) l" "writer_references (page_at (space_pages s) l) = 0" "l \<in># pins H"
          using holds_frozen [OF I(5), of l] frozen_pinned [OF that] that by (simp_all add: activation_hold_def)
        then have "source_pins (page_at (space_pages s) l) \<noteq> 0" using counts_okD(3) [OF I(4) l(1)] by (simp add: activation_hold_def)
        then show ?thesis using l(2) unshared [of l] by (auto simp: P [OF l(1)] activated_def Let_def)
      qed
      ultimately show ?thesis using I(5) fr(3,6)
        by (intro holds_frame [OF I(5)]) (auto simp: holds_ok_def f activation_hold_def)
    qed
    show "accounts_ok H s'"
    proof -
      have "space_reserved ((addresses s)[i := a']) = space_reserved (addresses s) + reservation_pages (activation_pages v)"
        using reserved_update [OF rd(2), of a'] old by (simp add: a'_def a_def)
      moreover have "space_rows ((addresses s)[i := a']) = add_mset row (space_rows (addresses s))"
        using rows_update [OF rd(2), of a'] old by (simp add: a'_def a_def)
      ultimately show ?thesis using I(6) fr(3) t'(3) by (simp add: accounts_ok_def f s2 activation_hold_def row)
    qed
  qed (use t' in \<open>simp_all add: f s'_def s2_def s1_def\<close>)
  moreover have "keeps P s s'" for P
  proof (rule keeps_change [where i = i and a = a'])
    show "k < page_count (addresses s' ! j) \<and> membership s' j k = membership s j k \<and>
        committed_columns (page_at (space_pages s) (membership s j k)) \<le> committed_columns (page_at (space_pages s') (membership s j k))"
      if "j < length (addresses s)" "k < page_count (addresses s ! j)" for j k
      using that pc members_okD(7) [OF I(7) [OF that(1)] that(2)] by (simp add: f P act nth_update_at)
  qed (simp_all add: f s'_def s2_def s1_def a'_def a_def)
  ultimately show ?thesis using that run by blast
qed

text \<open>Whatever the commit does, the activation it leaves still accounts for what is in flight.\<close>

lemma commit_activation_step:
  assumes inv: "space_inv (add_mset (activation_hold v) H) s" and run: "commit_activation v s = (s', v', r)"
  shows "space_inv (add_mset (activation_hold v') H) s'" "keeps P s s'" "benign r"
    "r = Inl e \<Longrightarrow> s' = s \<and> v' = v" "r = Inr () \<Longrightarrow> v' = spent_activation v \<and> space_inv H s'"
proof -
  have spent: "space_inv (add_mset (activation_hold (spent_activation v)) H) t \<longleftrightarrow> space_inv H t" for t
    by (simp add: activation_hold_iff spent_activation_def)
  have "space_inv (add_mset (activation_hold v') H) s' \<and> keeps P s s' \<and> benign r
    \<and> (\<forall>e. r = Inl e \<longrightarrow> s' = s \<and> v' = v) \<and> (r = Inr () \<longrightarrow> v' = spent_activation v \<and> space_inv H s')" for P
  proof (cases "activation_ready s v")
    case (Inl e)
    then have "s' = s" "v' = v" "r = Inl LogicError" using run activation_ready_err [OF inv Inl] by (auto simp: commit_activation_def)
    then show ?thesis using inv by (simp add: keeps_refl)
  next
    case (Inr u)
    then have ready: "activation_ready s v = Inr ()" by simp
    obtain t where t: "adopt_activation v s = (t, Inr ())" "space_inv H t" "\<And>P. keeps P s t"
      using adopt_activation_step [OF inv ready] by metis
    then have "s' = t" "v' = spent_activation v" "r = Inr ()" using run ready by (simp_all add: commit_activation_def)
    then show ?thesis using t spent by simp
  qed
  then show "space_inv (add_mset (activation_hold v') H) s'" "keeps P s s'" "benign r"
    "r = Inl e \<Longrightarrow> s' = s \<and> v' = v" "r = Inr () \<Longrightarrow> v' = spent_activation v \<and> space_inv H s'" by blast+
qed

lemma activate_step:
  assumes inv: "space_inv H s" and run: "activate h ent m s = (s', r)"
  shows "space_inv H s'" "keeps P s s'" "benign r"
proof -
  have "space_inv H s' \<and> keeps P s s' \<and> benign r" for P
    using run [unfolded activate_def]
  proof (cases rule: act_askE)
    case (throws e)
    then show ?thesis using inv by (auto simp: require_address_def keeps_refl split: if_splits)
  next
    case (goes a)
    from goes(2) show ?thesis
    proof (cases rule: act_guardE)
      case throws
      then show ?thesis using inv by (simp add: keeps_refl)
    next
      case guarded: goes
      from guarded(2) show ?thesis
      proof (cases rule: act_bindE)
        case (throws e)
        then show ?thesis using prepare_activation_step [OF inv throws(1)] by (simp add: benign_def)
      next
        case prep: (goes s1 v)
        note p = prepare_activation_step [OF inv prep(1)]
        obtain s2 v' r' where c: "commit_activation v s1 = (s2, v', r')" by (metis surj_pair)
        note k = commit_activation_step [OF conjunct1 [OF p(4) [OF refl]] c]
        obtain s3 where d: "destroy_activation v' s2 = (s3, Inr ())" "space_inv H s3" "\<And>P. keeps P s2 s3"
          using destroy_activation_step [OF k(1)] by metis
        have "s' = s3" "r = r'" using prep(2) c d(1) by simp_all
        then show ?thesis using d(2) k(3) keeps_trans [OF p(2) keeps_trans [OF k(2) d(3)]] by simp
      qed
    qed
  qed
  then show "space_inv H s'" "keeps P s s'" "benign r" by blast+
qed

section \<open>Deactivation\<close>

lemma drop_row_put:
  "drop_row w (s\<lparr>addresses := as\<rparr>) = (\<lambda>(t, r). (t\<lparr>addresses := as\<rparr>, r)) (drop_row w s)"
  by (simp add: drop_row_def split: option.splits)

lemma drop_reservation_put:
  "drop_reservation r (s\<lparr>addresses := as\<rparr>) = (\<lambda>(t, r). (t\<lparr>addresses := as\<rparr>, r)) (drop_reservation r s)"
  by (cases "reservation_release (physical_pool (space_pages s)) r")
    (auto simp: drop_reservation_def act_bind_def on_pool_def on_pages_result_def)

lemma drop_row_keeps: "drop_row w s = (s', r) \<Longrightarrow> addresses s' = addresses s"
  by (auto simp: drop_row_def split: option.splits)

text \<open>The row and the reservation of an address handed to the transaction that gives them up.\<close>

lemma space_inv_idle:
  assumes inv: "space_inv H s" and i: "i < length (addresses s)" and act: "addr_active (addresses s ! i)"
    and rel: "touched deactivated (set (pages_of s i)) (space_pages s) p'"
    and a': "a' = (addresses s ! i)\<lparr>addr_row := None, addr_reservation := null_reservation, addr_active := False\<rparr>"
    and s': "s' = s\<lparr>addresses := (addresses s)[i := a'], space_pages := p'\<rparr>"
  shows "space_inv (add_mset (row_hold (addr_row (addresses s ! i))) (add_mset (res_hold (addr_reservation (addresses s ! i))) H)) s'"
    "keeps P s s'"
proof -
  note I = space_invD [OF inv] and fr = pages_rel_frame [OF rel] and act' = activity_okD [OF space_invD(8) [OF inv i]]
  note m = members_okD [OF I(7) [OF i]]
  let ?H = "add_mset (row_hold (addr_row (addresses s ! i))) (add_mset (res_hold (addr_reservation (addresses s ! i))) H)"
  have pc: "page_count a' = page_count (addresses s ! i)" by (simp add: a')
  have P: "page_at p' l = (if l \<in> set (pages_of s i) then deactivated (page_at (space_pages s) l) else page_at (space_pages s) l)"
    if "valid_page (space_pages s) l" for l using pages_relD [OF rel that] .
  have f: "space_pages s' = p'" "addresses s' = (addresses s)[i := a']" "page_capacity s' = page_capacity s" "membership s' = membership s"
    "space_tables s' = space_tables s" "shown s' = shown s"
    by (simp_all add: s')
  have pg: "pages_of s' = pages_of s" using pages_of_put [OF pc] by (simp add: s' fun_eq_iff)
  note f = f pg
  have d: "committed_columns (deactivated pg) = committed_columns pg" "device_replica (deactivated pg) = device_replica pg"
    "references (deactivated pg) = references pg" "source_pins (deactivated pg) = source_pins pg"
    "active_references (deactivated pg) = active_references pg - 1" "writer_references (deactivated pg) = 0" for pg
    by (simp_all add: deactivated_def)
  have us: "users s' l = users s l" for l using users_put [OF pc, of l] by (simp add: s')
  have aus: "active_users s' l = active_users s l - {i}" for l
  proof -
    have "addr_active (addresses s' ! j) = (j \<noteq> i \<and> addr_active (addresses s ! j))" if "j < length (addresses s)" for j
      using that by (auto simp: f nth_update_at a')
    then show ?thesis unfolding active_users_def us by (auto simp: users_def)
  qed
  have inact: "i \<in> active_users s l \<longleftrightarrow> l \<in> set (pages_of s i)" for l using i act by (simp add: active_users_def users_def)
  show "space_inv ?H s'"
  proof (rule space_inv_change [OF inv i, where s' = s' and a = a'])
    show "store_frame (space_pages s) (space_pages s')" unfolding f(1) by (rule store_frame_rel [OF rel])
    show "valid_page (space_pages s') l \<and> committed_columns (page_at (space_pages s) l) \<le> committed_columns (page_at (space_pages s') l)
      \<and> (addr_active (addresses s ! j) \<longrightarrow> device_replica (page_at (space_pages s') l) = device_replica (page_at (space_pages s) l))"
      if "valid_page (space_pages s) l" for j l using that fr(6) by (simp add: f P d)
    show "members_ok s' i" using m fr(6) i by (auto simp: members_ok_def Let_def f a')
    show "activity_ok s' i" using i by (simp add: activity_ok_def Let_def f a')
    show "frontier_ok s' i" using I(9) [OF i] i m(7) by (auto simp: frontier_ok_def Let_def f a' P d)
    show "counts_ok ?H s'"
      unfolding counts_ok_def Let_def
    proof (intro allI impI)
      fix l
      assume "valid_page (space_pages s') l"
      then have v: "valid_page (space_pages s) l" using fr(6) by (simp add: f)
      show "references (page_at (space_pages s') l) = card (users s' l) \<and> active_references (page_at (space_pages s') l) = card (active_users s' l) \<and>
          source_pins (page_at (space_pages s') l) = count (pins ?H) l \<and> (writer_references (page_at (space_pages s') l) \<noteq> 0 \<longrightarrow>
          references (page_at (space_pages s') l) = 1 \<and> active_references (page_at (space_pages s') l) = 1)"
        using counts_okD [OF I(4) v] inact [of l] by (auto simp: f us aus P [OF v] d)
    qed
    show "holds_ok ?H (space_pages s')"
    proof -
      have t: "l \<notin> set (pages_of s i)" if "l \<in># transfers H" for l
        using transfer_not_pinned(2) [OF inv that] i by (auto simp: users_def)
      have "valid_page p' l \<and> page_at p' l = page_at (space_pages s) l" if "l \<in># transfers H" for l
        using I(5) that fr(6) t [OF that] by (auto simp: holds_ok_def P)
      moreover have "writer_references (page_at p' l) = 0" if "l \<in> frozen_pages H" for l
        using holds_frozen [OF I(5) that] by (simp add: P deactivated_def)
      ultimately show ?thesis using I(5) fr(3,6) act'(2) [OF act]
        by (intro holds_frame [OF I(5)]) (auto simp: holds_ok_def f)
    qed
    show "accounts_ok ?H s'"
    proof -
      have "space_reserved ((addresses s)[i := a']) + reservation_pages (addr_reservation (addresses s ! i)) = space_reserved (addresses s)"
        using reserved_update [OF i, of a'] by (simp add: a')
      moreover have "space_rows ((addresses s)[i := a']) + mset_set (set_option (addr_row (addresses s ! i))) = space_rows (addresses s)"
        using rows_update [OF i, of a'] by (simp add: a')
      ultimately show ?thesis using I(6) fr(3) by (simp add: accounts_ok_def f add.assoc [symmetric])
    qed
  qed (use I(2) in \<open>simp_all add: f s' a'\<close>)
  show "keeps P s s'"
  proof (rule keeps_change [where i = i and a = a'])
    show "k < page_count (addresses s' ! j) \<and> membership s' j k = membership s j k \<and>
        committed_columns (page_at (space_pages s) (membership s j k)) \<le> committed_columns (page_at (space_pages s') (membership s j k))"
      if "j < length (addresses s)" "k < page_count (addresses s ! j)" for j k
      using that pc members_okD(7) [OF I(7) [OF that(1)] that(2)] by (simp add: f P d nth_update_at)
  qed (simp_all add: f s' a')
qed

text \<open>An active address can always be deactivated.\<close>

lemma deactivate_ok:
  assumes inv: "space_inv H s" and v: "valid_address s h" and act: "addr_active (addresses s ! space_index h)"
  obtains s' p' where "deactivate h s = (s', Inr ())" "space_inv H s'" "\<And>P. keeps P s s'"
    "touched deactivated (set (pages_of s (space_index h))) (space_pages s) p'" "store_pages (space_pages s') = store_pages p'"
    "store_id (space_pages s') = store_id p'" "memberships s' = memberships s" "page_capacity s' = page_capacity s" "space_id s' = space_id s"
    "addresses s' = (addresses s)[space_index h := (addresses s ! space_index h)\<lparr>addr_row := None, addr_reservation := null_reservation, addr_active := False\<rparr>]"
proof -
  define i where "i = space_index h"
  define a where "a = addresses s ! i"
  have i: "i < length (addresses s)" unfolding i_def by (rule valid_addressD [OF v])
  note I = space_invD [OF inv] and m = members_okD [OF space_invD(7) [OF inv i]]
  have req: "require_active s h = Inr a" using require_active_iff [OF inv] v act by (simp add: a_def i_def)
  have ls: "page_handles s i [0..<page_count a] = pages_of s i" by (simp add: pages_of_def a_def)
  let ?ok = "\<lambda>s l. res_bind (page_field writer_references (space_pages s) l) (\<lambda>n.
             Inr (\<not> (n \<noteq> 0 \<and> \<not> can_set_writer (space_pages s) l False)))"
  have "check_pages (?ok s) LogicError ks = Inr ()" if "\<forall>l \<in> set ks. valid_page (space_pages s) l" for ks
    using that
  proof (induction ks)
    case (Cons l ks)
    then have "writer_references (page_at (space_pages s) l) \<le> 1"
      using valid_page_ok(2,3) [OF I(1), of l] by (simp add: page_ok_def)
    then show ?case using Cons by (auto simp: can_set_writer_def Let_def)
  qed simp
  then have chk: "check_pages (?ok s) LogicError (pages_of s i) = Inr ()" using m(4) by blast
  have "active_references (page_at (space_pages s) l) \<noteq> 0" if "l \<in> set (pages_of s i)" for l
  proof -
    have "i \<in> active_users s l" using that i act by (simp add: active_users_def users_def i_def)
    then show ?thesis using counts_okD(2) [OF I(4) m(4) [OF that]] by (auto simp: card_gt_0_iff simp flip: neq0_conv)
  qed
  then obtain p' where loop: "act_for deactivate_page (pages_of s i) s = (s\<lparr>space_pages := p'\<rparr>, Inr ())"
    and rel: "touched deactivated (set (pages_of s i)) (space_pages s) p'"
    using touches_loop [OF deactivate_page_touches I(1) m(3)] m(4) by blast
  define a' where "a' = a\<lparr>addr_row := None, addr_reservation := null_reservation, addr_active := False\<rparr>"
  let ?as = "(addresses s)[i := a']"
  define s1 where "s1 = s\<lparr>addresses := ?as, space_pages := p'\<rparr>"
  note id = space_inv_idle [OF inv i _ rel, of a' s1, folded a_def, OF _ a'_def s1_def]
  have act2: "addr_active a" using act by (simp add: a_def i_def)
  obtain s2 where s2: "drop_row (addr_row a) s1 = (s2, Inr ())" "space_inv (add_mset (res_hold (addr_reservation a)) H) s2" "\<And>P. keeps P s1 s2"
    "space_pages s2 = space_pages s1" "addresses s2 = addresses s1" "memberships s2 = memberships s1" "page_capacity s2 = page_capacity s1"
    using drop_row_hold [OF id(1) [OF act2]] by metis
  obtain s3 where s3: "drop_reservation (addr_reservation a) s2 = (s3, Inr ())" "space_inv H s3" "\<And>P. keeps P s2 s3"
    "s3 = set_reserved (reserved_pages (physical_pool (space_pages s2)) - reservation_pages (addr_reservation a)) s2"
    using drop_hold [OF s2(2)] by metis
  define u1 where "u1 = s\<lparr>space_pages := p'\<rparr>"
  obtain u2 where u2: "drop_row (addr_row a) u1 = (u2, Inr ())" by (simp add: drop_row_def)
  obtain u3 r3 where u3: "drop_reservation (addr_reservation a) u2 = (u3, r3)" by (metis surj_pair)
  have e1: "s1 = u1\<lparr>addresses := ?as\<rparr>" by (simp add: s1_def u1_def)
  have e2: "s2 = u2\<lparr>addresses := ?as\<rparr>" using s2(1) u2 drop_row_put [where s = u1 and as = ?as and w = "addr_row a"] by (simp add: e1)
  have e3: "s3 = u3\<lparr>addresses := ?as\<rparr>" and r3: "r3 = Inr ()"
    using s3(1) u3 drop_reservation_put [where s = u2 and as = ?as and r = "addr_reservation a"] by (simp_all add: e2)
  have "addresses u2 = addresses s" using drop_row_keeps [OF u2] by (simp add: u1_def)
  moreover have "addresses u3 = addresses u2"
    using u3 by (auto simp: drop_reservation_def act_bind_def on_pool_def on_pages_result_def split: sum.splits prod.splits)
  ultimately have put: "put_address i (\<lambda>a. a\<lparr>addr_row := None, addr_reservation := null_reservation, addr_active := False\<rparr>) u3 = (s3, Inr ())"
    by (simp add: e3 a'_def a_def)
  have run: "deactivate h s = (s3, Inr ())"
    using req chk loop u2 u3 r3 put
    by (simp add: deactivate_def act_bind_def act_then_def act_ask_def Let_def i_def [symmetric] ls u1_def [symmetric] del: put_address_run)
  have sid: "space_id s2 = space_id s1" using s2(3) [of "{#}"] by (simp add: keeps_def)
  show ?thesis
  proof (rule that [OF run s3(2) _ rel [unfolded i_def]])
    show "keeps P s s3" for P by (rule keeps_trans [OF id(2) [OF act2] keeps_trans [OF s2(3) s3(3)]])
  qed (simp_all add: s3(4) s2(4-) sid s1_def a'_def a_def i_def)
qed

lemma deactivate_step:
  assumes inv: "space_inv H s" and run: "deactivate h s = (s', r)"
  shows "space_inv H s'" "keeps P s s'" "benign r"
    "r = Inr () \<longleftrightarrow> address_active s h"
proof -
  have "space_inv H s' \<and> keeps P s s' \<and> benign r \<and> (r = Inr () \<longleftrightarrow> address_active s h)" for P
  proof (cases "address_active s h")
    case True
    then have v: "valid_address s h" "addr_active (addresses s ! space_index h)" by (simp_all add: address_active_def address_at_def)
    obtain t where "deactivate h s = (t, Inr ())" "space_inv H t" "\<And>P. keeps P s t"
      using deactivate_ok [OF inv v] by metis
    then show ?thesis using True run by simp
  next
    case False
    then obtain e where e: "require_active s h = Inl e" "e = InvalidArgument \<or> e = LogicError"
      using require_active_iff [OF inv, of h] by (auto simp: address_active_def address_at_def split: if_splits)
    then have "s' = s" "r = Inl e" using run by (simp_all add: deactivate_def act_bind_def act_ask_def)
    then show ?thesis using inv e(2) False by (auto simp: keeps_refl)
  qed
  then show "space_inv H s'" "keeps P s s'" "benign r" "r = Inr () \<longleftrightarrow> address_active s h" by blast+
qed

end
