(* ===== verification/Space_Release.thy ===== *)
theory Space_Release
  imports Space_Lifecycle
begin

text \<open>
  Inactive addresses give up pages: release of a whole address, truncation of a retained one, and what
  is built from them (release after deactivation, creation of an active address with its rollback).
\<close>

section \<open>Giving up the pages from position \<open>n\<close> on\<close>

definition cleared :: "nat \<Rightarrow> nat \<Rightarrow> KVAddressSpaceStore \<Rightarrow> KVAddressSpaceStore" where
  "cleared i k s = s\<lparr>memberships := (memberships s)[i * page_capacity s + k := null_logical]\<rparr>"

definition shortened :: "nat \<Rightarrow> nat \<Rightarrow> KVAddressSpaceStore \<Rightarrow> KVAddressSpaceStore" where
  "shortened i k s = cleared i k (s\<lparr>addresses := (addresses s)[i := (addresses s ! i)\<lparr>page_count := k\<rparr>]\<rparr>)"

lemma cleared_simps [simp]:
  "space_pages (cleared i k s) = space_pages s" "addresses (cleared i k s) = addresses s" "page_capacity (cleared i k s) = page_capacity s"
  "space_tables (cleared i k s) = space_tables s" "space_free (cleared i k s) = space_free s" "space_free_count (cleared i k s) = space_free_count s"
  "space_id (cleared i k s) = space_id s" "length (memberships (cleared i k s)) = length (memberships s)"
  "cleared i k (s\<lparr>space_pages := p\<rparr>) = (cleared i k s)\<lparr>space_pages := p\<rparr>"
  "cleared i k (s\<lparr>addresses := as\<rparr>) = (cleared i k s)\<lparr>addresses := as\<rparr>"
  by (simp_all add: cleared_def)

lemma cleared_other: "j \<noteq> k \<Longrightarrow> membership (cleared i k s) i j = membership s i j"
  by (simp add: cleared_def membership_def)

lemma cleared_membership:
  assumes "slots_fit s" "i < length (addresses s)" "k < page_capacity s" "m < page_capacity s"
  shows "membership (cleared i k s) j m = (if j = i \<and> m = k then null_logical else membership s j m)"
  unfolding cleared_def by (rule membership_set [OF assms])

lemma slots_fit_fields:
  assumes "slots_fit s" "length (addresses s') = length (addresses s)" "page_capacity s' = page_capacity s" "space_tables s' = space_tables s"
    "length (memberships s') = length (memberships s)" "space_free s' = space_free s" "space_free_count s' = space_free_count s"
    "\<And>j. j < length (addresses s) \<Longrightarrow> addr_occupied (addresses s' ! j) = addr_occupied (addresses s ! j)"
  shows "slots_fit s'"
proof -
  have "{j. j < length (addresses s) \<and> \<not> addr_occupied (addresses s' ! j)} = {j. j < length (addresses s) \<and> \<not> addr_occupied (addresses s ! j)}"
    using assms(8) by auto
  then show ?thesis using assms(1) by (simp add: slots_fit_def Let_def assms(2-7))
qed

lemma fold_cleared:
  assumes "slots_fit s" "i < length (addresses s)" "\<forall>k \<in> set ks. k < page_capacity s"
  shows "m < page_capacity s \<Longrightarrow> membership (fold (cleared i) ks s) j m = (if j = i \<and> m \<in> set ks then null_logical else membership s j m)"
    "fold (cleared i) ks s = s\<lparr>memberships := memberships (fold (cleared i) ks s)\<rparr>"
    "length (memberships (fold (cleared i) ks s)) = length (memberships s)"
proof -
  have "(m < page_capacity s \<longrightarrow> membership (fold (cleared i) ks s) j m = (if j = i \<and> m \<in> set ks then null_logical else membership s j m)) \<and>
    fold (cleared i) ks s = s\<lparr>memberships := memberships (fold (cleared i) ks s)\<rparr> \<and>
    length (memberships (fold (cleared i) ks s)) = length (memberships s)"
    using assms
  proof (induction ks arbitrary: s)
    case (Cons k ks)
    have fit: "slots_fit (cleared i k s)" by (rule slots_fit_fields [OF Cons.prems(1)]) simp_all
    note IH = Cons.IH [OF fit, simplified]
    have "fold (cleared i) ks (cleared i k s) = (cleared i k s)\<lparr>memberships := memberships (fold (cleared i) ks (cleared i k s))\<rparr>"
      using IH Cons.prems(2,3) by simp
    also have "\<dots> = s\<lparr>memberships := memberships (fold (cleared i) ks (cleared i k s))\<rparr>" by (simp add: cleared_def)
    finally have e: "fold (cleared i) ks (cleared i k s) = s\<lparr>memberships := memberships (fold (cleared i) ks (cleared i k s))\<rparr>" .
    show ?case using IH Cons.prems e cleared_membership [OF Cons.prems(1,2), of k m j] by auto
  qed simp
  then show "m < page_capacity s \<Longrightarrow> membership (fold (cleared i) ks s) j m = (if j = i \<and> m \<in> set ks then null_logical else membership s j m)"
    "fold (cleared i) ks s = s\<lparr>memberships := memberships (fold (cleared i) ks s)\<rparr>"
    "length (memberships (fold (cleared i) ks s)) = length (memberships s)" by blast+
qed

lemma fold_shortened:
  "fold (shortened i) ks s = (fold (cleared i) ks s)\<lparr>addresses :=
     (if ks = [] then addresses s else (addresses s)[i := (addresses s ! i)\<lparr>page_count := last ks\<rparr>])\<rparr>"
proof (induction ks arbitrary: s)
  case (Cons k ks)
  have put: "fold (cleared i) ks (t\<lparr>addresses := as\<rparr>) = (fold (cleared i) ks t)\<lparr>addresses := as\<rparr>" for t as
    by (induction ks arbitrary: t) simp_all
  have same: "addresses (fold (cleared i) ks t) = addresses t" for t
    by (induction ks arbitrary: t) simp_all
  let ?as = "(addresses s)[i := (addresses s ! i)\<lparr>page_count := k\<rparr>]"
  have one: "shortened i k s = (cleared i k s)\<lparr>addresses := ?as\<rparr>" by (simp add: shortened_def cleared_def)
  show ?case
  proof (cases "ks = []")
    case True
    then show ?thesis using one by simp
  next
    case False
    have "(?as ! i)\<lparr>page_count := last ks\<rparr> = (addresses s ! i)\<lparr>page_count := last ks\<rparr>" if "i < length (addresses s)" using that by simp
    then have "?as[i := (?as ! i)\<lparr>page_count := last ks\<rparr>] = (addresses s)[i := (addresses s ! i)\<lparr>page_count := last ks\<rparr>]"
      by (cases "i < length (addresses s)") (simp_all add: list_update_beyond)
    then show ?thesis using Cons.IH [of "shortened i k s"] False by (simp add: one put)
  qed
qed simp

lemma can_release_referenceD:
  assumes "can_release_reference p l w"
  shows "valid_page p l" "source_pins (page_at p l) = 0"
  using assms by (auto simp: can_release_reference_def Let_def split: if_splits)

lemma space_inv_shrink:
  assumes inv: "space_inv_but x H s" and i: "i < length (addresses s)" "x = None \<or> x = Some i"
    and idle: "\<not> addr_active (addresses s ! i)" and n: "n \<le> page_count (addresses s ! i)"
    and can: "\<And>k. n \<le> k \<Longrightarrow> k < page_count (addresses s ! i) \<Longrightarrow> can_release_reference (space_pages s) (membership s i k) False"
    and rel: "released (membership s i ` {n..<page_count (addresses s ! i)}) (space_pages s) (space_pages s')"
    and s': "addresses s' = (addresses s)[i := a]" "page_capacity s' = page_capacity s" "slots_fit s'" "space_tables s' = space_tables s"
    and a: "page_count a = n" "\<not> addr_active a" "addr_row a = None" "addr_reservation a = null_reservation" "addr_generation a \<noteq> 0"
      "\<not> addr_occupied a \<Longrightarrow> n = 0"
    and mem: "\<And>j k. k < page_capacity s \<Longrightarrow> membership s' j k = (if j = i \<and> n \<le> k then null_logical else membership s j k)"
    and fro: "Some i \<noteq> y \<Longrightarrow> frontier_ok s' i"
  shows "space_inv_but y H s'"
    "\<And>l. l \<notin> membership s i ` {n..<page_count (addresses s ! i)} \<Longrightarrow> valid_page (space_pages s) l \<Longrightarrow>
       valid_page (space_pages s') l \<and> page_at (space_pages s') l = page_at (space_pages s) l"
proof -
  let ?L = "membership s i ` {n..<page_count (addresses s ! i)}"
  note I = space_invD [OF inv] and m = members_okD [OF space_invD(7) [OF inv i(1)]]
  have old: "addr_row (addresses s ! i) = None" "addr_reservation (addresses s ! i) = null_reservation"
    using activity_okD(1) [OF I(8) [OF i(1)] idle] by simp_all
  have R: "valid_page (space_pages s') l \<longleftrightarrow> valid_page (space_pages s) l \<and> \<not> (l \<in> ?L \<and> retires (page_at (space_pages s) l))"
    "valid_page (space_pages s') l \<Longrightarrow> page_at (space_pages s') l = (if l \<in> ?L then unreferenced (page_at (space_pages s) l) else page_at (space_pages s) l)"
    "store_frame (space_pages s) (space_pages s')" "reserved_pages (physical_pool (space_pages s')) = reserved_pages (physical_pool (space_pages s))" for l
    using rel by (auto simp: released_def)
  show kept: "valid_page (space_pages s') l \<and> page_at (space_pages s') l = page_at (space_pages s) l"
    if "l \<notin> ?L" "valid_page (space_pages s) l" for l using that R(1,2) [of l] by simp
  have L: "valid_page (space_pages s) l" "l \<in> set (pages_of s i)" "source_pins (page_at (space_pages s) l) = 0"
    "i \<in> users s l" "i \<notin> active_users s l" "writer_references (page_at (space_pages s) l) = 0" if "l \<in> ?L" for l
  proof -
    obtain k where k: "l = membership s i k" "n \<le> k" "k < page_count (addresses s ! i)" using \<open>l \<in> ?L\<close> by auto
    show v: "valid_page (space_pages s) l" and "source_pins (page_at (space_pages s) l) = 0"
      using can_release_referenceD [OF can [OF k(2,3)]] by (simp_all add: k(1))
    show "l \<in> set (pages_of s i)" using membership_in [OF k(3)] by (simp add: k(1))
    then show u: "i \<in> users s l" using i(1) by (simp add: users_def)
    show na: "i \<notin> active_users s l" using idle by (simp add: active_users_def)
    show "writer_references (page_at (space_pages s) l) = 0"
    proof (rule ccontr)
      assume "writer_references (page_at (space_pages s) l) \<noteq> 0"
      then have "card (users s l) = 1" "card (active_users s l) = 1" using counts_okD [OF I(4) v] by auto
      then show False using u na by (auto simp: card_1_singleton_iff active_users_def)
    qed
  qed
  have others: "pages_of s' j = pages_of s j" if "j \<noteq> i" "j < length (addresses s)" for j
    using that members_okD(2) [OF I(7) [OF that(2)]] mem by (intro pages_of_frame) (simp_all add: s'(1))
  have pi: "pages_of s' i = map (membership s i) [0..<n]"
    using mem n m(2) i(1) a(1) by (simp add: pages_of_def page_handles_def s'(1))
  have inL: "l \<in> set (pages_of s' i) \<longleftrightarrow> l \<in> set (pages_of s i) \<and> l \<notin> ?L" for l
  proof -
    have inj: "inj_on (membership s i) {0..<page_count (addresses s ! i)}"
      using m(3) by (simp add: pages_of_def page_handles_def distinct_map)
    then have "membership s i ` {0..<n} \<inter> ?L = membership s i ` ({0..<n} \<inter> {n..<page_count (addresses s ! i)})"
      using n by (intro inj_on_image_Int [symmetric, OF inj]) auto
    then have "membership s i ` {0..<n} \<inter> ?L = {}" by simp
    moreover have "{0..<page_count (addresses s ! i)} = {0..<n} \<union> {n..<page_count (addresses s ! i)}" using n by auto
    then have "membership s i ` {0..<n} \<union> ?L = set (pages_of s i)"
      by (simp add: pages_of_def page_handles_def image_Un [symmetric])
    ultimately show ?thesis by (auto simp: pi)
  qed
  have us: "users s' l = (if l \<in> ?L then users s l - {i} else users s l)" for l
    using users_change [of s' s i l] others inL [of l] L(2) [of l] i(1) by (auto simp: s'(1) users_def)
  have aus: "active_users s' l = active_users s l" for l
  proof -
    have "addr_active (addresses s' ! j) = addr_active (addresses s ! j)" if "j < length (addresses s)" for j
      using that idle a(2) by (auto simp: s'(1) nth_update_at)
    then show ?thesis unfolding active_users_def us using L(5) [of l] by (auto simp: users_def active_users_def)
  qed
  have two: "references (page_at (space_pages s) l) \<noteq> 1"
    if l: "l \<in> ?L" "l \<in> set (pages_of s j)" "valid_page (space_pages s) l" "j \<noteq> i" "j < length (addresses s)" for l j
  proof -
    have "{i, j} \<subseteq> users s l" using L(4) [OF l(1)] l(2,5) by (simp add: users_def)
    then have "card {i, j} \<le> card (users s l)" by (rule card_mono [OF finite_users(1)])
    then show ?thesis using counts_okD(1) [OF I(4) l(3)] l(4) by simp
  qed
  have un: "committed_columns (unreferenced pg) = committed_columns pg" "source_pins (unreferenced pg) = source_pins pg"
    "references (unreferenced pg) = references pg - 1" "active_references (unreferenced pg) = active_references pg"
    "writer_references (unreferenced pg) = writer_references pg"
    "references pg \<noteq> 1 \<Longrightarrow> device_replica (unreferenced pg) = device_replica pg" for pg
    by (simp_all add: unreferenced_def dropped_reference_def)
  show "space_inv_but y H s'"
  proof (rule space_inv_change_slots [OF inv i s'(1,2,3) _ R(3)])
    show "valid_page (space_pages s') l \<and> committed_columns (page_at (space_pages s) l) \<le> committed_columns (page_at (space_pages s') l)
      \<and> (addr_active (addresses s ! j) \<longrightarrow> device_replica (page_at (space_pages s') l) = device_replica (page_at (space_pages s) l))"
      if l: "j \<noteq> i" "j < length (addresses s)" "l \<in> set (pages_of s j)" "valid_page (space_pages s) l" for j l
    proof -
      have v: "valid_page (space_pages s') l" using R(1) [of l] two [OF _ l(3,4,1,2)] l(4) by (auto simp: retires_def)
      show ?thesis
      proof (cases "l \<in> ?L")
        case True
        then show ?thesis using v R(2) [OF v] two [OF True l(3,4,1,2)] un by simp
      next
        case False
        then show ?thesis using v R(2) [OF v] by simp
      qed
    qed
    show "members_ok s' i" using a(1,2,5,6) m n i(1) mem inL kept
      by (auto simp: members_ok_def Let_def s'(1,2) pi distinct_map pages_of_def [of s] page_handles_def inj_on_def)
    show "activity_ok s' i" using i(1) a by (simp add: activity_ok_def Let_def s'(1))
    show "counts_ok H s'"
      unfolding counts_ok_def Let_def
    proof (intro allI impI)
      fix l
      assume v': "valid_page (space_pages s') l"
      then have v: "valid_page (space_pages s) l" using R(1) by simp
      note c = counts_okD [OF I(4) v]
      show "references (page_at (space_pages s') l) = card (users s' l) \<and> active_references (page_at (space_pages s') l) = card (active_users s' l) \<and>
          source_pins (page_at (space_pages s') l) = count (pins H) l \<and> (writer_references (page_at (space_pages s') l) \<noteq> 0 \<longrightarrow>
          references (page_at (space_pages s') l) = 1 \<and> active_references (page_at (space_pages s') l) = 1)"
        using c L(4,6) [of l] R(2) [OF v'] un by (auto simp: us aus)
    qed
    show "holds_ok H (space_pages s')"
    proof -
      have t: "l \<notin> ?L" if "l \<in># transfers H" for l using transfer_not_pinned(2) [OF inv that] L(4) by blast
      have p: "l \<notin> ?L" if "l \<in># pins H" for l
        using counts_okD(3) [OF I(4) L(1) [of l]] L(3) [of l] that by (metis count_eq_zero_iff)
      have "writer_references (page_at (space_pages s') l) = 0" if "l \<in> frozen_pages H" for l
        using holds_frozen [OF I(5) that] kept p [OF frozen_pinned [OF that]] by simp
      then show ?thesis using I(5) R(3) kept t p by (auto simp: holds_ok_def store_frame_def)
    qed
    show "accounts_ok H s'"
      using I(6) R(4) reserved_update [OF i(1), of a] rows_update [OF i(1), of a] old a(3,4) by (simp add: accounts_ok_def s'(1,4))
  qed (use mem I(2) fro in \<open>simp_all add: s'(4) shown_def s'(2)\<close>)
qed

section \<open>Releasing an address\<close>

lemma release_member_run:
  "release_reference (space_pages s) (membership s i k) False = Inr (p', True) \<Longrightarrow>
     release_member i k s = (cleared i k (s\<lparr>space_pages := p'\<rparr>), Inr ())"
  by (simp add: release_member_def act_bind_def act_then_def act_guard_def on_pages_result_def set_membership_def cleared_def)

lemma drop_member_run:
  "release_reference (space_pages s) (membership s i k) False = Inr (p', True) \<Longrightarrow>
     drop_member i k s = (shortened i k (s\<lparr>space_pages := p'\<rparr>), Inr ())"
  by (simp add: drop_member_def Let_def act_bind_def act_then_def act_guard_def on_pages_result_def set_membership_def cleared_def shortened_def)

lemma shortened_simps [simp]:
  "space_pages (shortened i k s) = space_pages s" "shortened i k (s\<lparr>space_pages := p\<rparr>) = (shortened i k s)\<lparr>space_pages := p\<rparr>"
  by (simp_all add: shortened_def)

lemma shortened_other: "j \<noteq> k \<Longrightarrow> membership (shortened i k s) i j = membership s i j"
  by (simp add: shortened_def cleared_other)

lemma release_members:
  assumes "store_inv (space_pages s)" "distinct ks" "distinct (map (membership s i) ks)"
    and "\<forall>k \<in> set ks. can_release_reference (space_pages s) (membership s i k) False"
  obtains p' where "act_for (release_member i) ks s = ((fold (cleared i) ks s)\<lparr>space_pages := p'\<rparr>, Inr ())"
    "released (membership s i ` set ks) (space_pages s) p'"
proof (rule release_loop [where B = "release_member i" and F = "cleared i"])
  show "release_member i k s = (cleared i k (s\<lparr>space_pages := p'\<rparr>), Inr ())"
    if "release_reference (space_pages s) (membership s i k) False = Inr (p', True)" for k s p'
    by (rule release_member_run [OF that])
qed (use assms in \<open>simp_all add: cleared_other\<close>)

lemma drop_members:
  assumes "store_inv (space_pages s)" "distinct ks" "distinct (map (membership s i) ks)"
    and "\<forall>k \<in> set ks. can_release_reference (space_pages s) (membership s i k) False"
  obtains p' where "act_for (drop_member i) ks s = ((fold (shortened i) ks s)\<lparr>space_pages := p'\<rparr>, Inr ())"
    "released (membership s i ` set ks) (space_pages s) p'"
proof (rule release_loop [where B = "drop_member i" and F = "shortened i"])
  show "drop_member i k s = (shortened i k (s\<lparr>space_pages := p'\<rparr>), Inr ())"
    if "release_reference (space_pages s) (membership s i k) False = Inr (p', True)" for k s p'
    by (rule drop_member_run [OF that])
qed (use assms in \<open>simp_all add: shortened_other\<close>)

lemma next_generation_nonzero [simp]: "next_generation g \<noteq> 0"
  by (simp add: next_generation_def Let_def)

lemma fresh_fields [simp]:
  "addr_generation (fresh_address g) = g" "page_count (fresh_address g) = 0" "committed_frontier (fresh_address g) = 0"
  "checkpoint_frontier (fresh_address g) = 0" "addr_reservation (fresh_address g) = null_reservation" "addr_row (fresh_address g) = None"
  "\<not> addr_occupied (fresh_address g)" "\<not> addr_active (fresh_address g)"
  by (simp_all add: fresh_address_def)

text \<open>The slot of a released address goes on top of the free stack, which has room for it.\<close>

lemma slots_fit_push:
  assumes fit: "slots_fit s" and i: "i < length (addresses s)" "addr_occupied (addresses s ! i)"
    and s': "addresses s' = (addresses s)[i := a]" "\<not> addr_occupied a" "page_capacity s' = page_capacity s" "space_tables s' = space_tables s"
      "length (memberships s') = length (memberships s)" "space_free s' = (space_free s)[space_free_count s := i]"
      "space_free_count s' = space_free_count s + 1"
  shows "space_free_count s < length (space_free s)" "slots_fit s'"
proof -
  let ?F = "take (space_free_count s) (space_free s)"
  have free: "set ?F = {j. j < length (addresses s) \<and> \<not> addr_occupied (addresses s ! j)}" "distinct ?F"
    "length (space_free s) = length (addresses s)" "space_free_count s \<le> length (addresses s)"
    using fit by (auto simp: slots_fit_def Let_def)
  have "card (set ?F) \<le> card ({..<length (addresses s)} - {i})" using free(1) i by (intro card_mono) auto
  then show lt: "space_free_count s < length (space_free s)" using free(2,3,4) i(1) by (simp add: distinct_card)
  have "take (space_free_count s + 1) ((space_free s)[space_free_count s := i]) = ?F @ [i]"
    using lt by (simp add: take_Suc_conv_app_nth)
  moreover have "i \<notin> set ?F" using free(1) i(2) by simp
  moreover have "{j. j < length (addresses s) \<and> \<not> addr_occupied ((addresses s)[i := a] ! j)}
      = insert i {j. j < length (addresses s) \<and> \<not> addr_occupied (addresses s ! j)}"
    using i s'(2) by (auto simp: nth_update_at)
  ultimately show "slots_fit s'" using fit free lt unfolding slots_fit_def Let_def s' by simp
qed

lemma release_step:
  assumes inv: "space_inv H s"
  obtains s' where "release h s = (s', Inr (can_release s h))" "space_inv H s'" "keeps (pins H) s s'"
proof (cases "can_release s h")
  case False
  then show ?thesis using that [of s] inv by (simp add: release_def act_noexcept_def keeps_refl)
next
  case True
  define i where "i = space_index h"
  define a where "a = addresses s ! i"
  have v: "valid_address s h" and idle: "idle_address a"
    and can: "\<And>k. k < page_count a \<Longrightarrow> can_release_reference (space_pages s) (membership s i k) False"
    using True by (auto simp: can_release_def Let_def address_at_def a_def i_def page_handles_def list_all_iff split: if_splits)
  have i: "i < length (addresses s)" unfolding i_def by (rule valid_addressD [OF v])
  note I = space_invD [OF inv] and m = members_okD [OF space_invD(7) [OF inv i], folded a_def]
  have occ: "addr_occupied (addresses s ! i)" using valid_address_occupied [OF v] by (simp add: i_def)
  have nact: "\<not> addr_active a" using idle idle_iff [OF I(8) [OF i]] by (simp add: a_def)
  let ?ks = "[0..<page_count a]"
  have dist: "distinct (map (membership s i) ?ks)" using m(3) by (simp add: pages_of_def page_handles_def a_def)
  obtain p' where loop: "act_for (release_member i) ?ks s = ((fold (cleared i) ?ks s)\<lparr>space_pages := p'\<rparr>, Inr ())"
    and rel: "released (membership s i ` set ?ks) (space_pages s) p'"
    using release_members [OF I(1) _ dist] can by auto
  define ms where "ms = memberships (fold (cleared i) ?ks s)"
  have ks: "\<forall>k \<in> set ?ks. k < page_capacity s" using m(2) by auto
  note fc = fold_cleared [OF I(3) i ks, folded ms_def]
  define a' where "a' = fresh_address (next_generation (addr_generation a))"
  define s1 where "s1 = s\<lparr>memberships := ms, space_pages := p', addresses := (addresses s)[i := a'],
      space_free := (space_free s)[space_free_count s := i], space_free_count := space_free_count s + 1\<rparr>"
  have push: "space_free_count s < length (space_free s)" "slots_fit s1"
    using slots_fit_push [OF I(3) i occ, of s1 a'] fc(3) by (simp_all add: s1_def a'_def)
  have mem: "membership s1 j k = (if j = i \<and> 0 \<le> k then null_logical else membership s j k)" if "k < page_capacity s" for j k
  proof -
    have "membership s1 j k = membership (fold (cleared i) ?ks s) j k" by (subst fc(2)) (simp add: s1_def membership_def)
    then show ?thesis using fc(1) [OF that, of j] m(5) [OF _ that] by (auto simp: a_def [symmetric])
  qed
  have inv1: "space_inv H s1"
  proof (rule space_inv_shrink(1) [OF inv i, where n = 0 and a = a'])
    show "frontier_ok s1 i" using i by (simp add: frontier_ok_def Let_def s1_def a'_def)
    show "released (membership s i ` {0..<page_count (addresses s ! i)}) (space_pages s) (space_pages s1)"
      using rel by (simp add: s1_def a_def)
  qed (use nact can push(2) mem in \<open>simp_all add: s1_def a_def a'_def\<close>)
  obtain s2 where s2: "rebuild_checkpoint_protection s1 = (s2, Inr ())" "space_inv H s2" "\<And>P. keeps P s1 s2"
    using rebuild_step [OF inv1] by metis
  have "act_for (release_member i) ?ks s = (s\<lparr>memberships := ms, space_pages := p'\<rparr>, Inr ())"
    using loop fc(2) by simp
  then have run: "release h s = (s2, Inr True)"
    using s2(1) True push(1)
    by (simp add: release_def act_noexcept_def Let_def act_then_def act_bind_def act_guard_def address_at_def i_def [symmetric] a_def [symmetric]
        s1_def a'_def)
  have "keeps (pins H) s s1"
  proof -
    have np: "membership s i k \<notin># pins H" if "k < page_count a" for k
    proof -
      have "valid_page (space_pages s) (membership s i k)" "source_pins (page_at (space_pages s) (membership s i k)) = 0"
        using can_release_referenceD [OF can [OF that]] by simp_all
      then show ?thesis using counts_okD(3) [OF I(4)] by (metis count_eq_zero_iff)
    qed
    have other: "valid_page p' l \<and> page_at p' l = page_at (space_pages s) l \<or> l \<notin># pins H" if "valid_page (space_pages s) l" for l
    proof (cases "l \<in> membership s i ` set ?ks")
      case True
      then show ?thesis using np by auto
    next
      case False
      then show ?thesis using rel that by (auto simp: released_def)
    qed
    show ?thesis
      unfolding keeps_def
    proof (intro conjI allI impI)
      fix h' k
      assume h': "valid_address s h'" "k < page_count (address_at s h')" "membership s (space_index h') k \<in># pins H"
      have ne: "space_index h' \<noteq> i" using h'(2,3) np by (auto simp: address_at_def a_def)
      note j = valid_addressD [OF h'(1)]
      have k: "k < page_capacity s" using members_okD(2) [OF I(7) [OF j]] h'(2) by (simp add: address_at_def)
      show "valid_address s1 h'" "k < page_count (address_at s1 h')" using h'(1,2) ne by (simp_all add: valid_address_def address_at_def s1_def)
      show "membership s1 (space_index h') k = membership s (space_index h') k" using mem [OF k] ne by simp
      show "committed_columns (page_at (space_pages s) (membership s (space_index h') k))
          \<le> committed_columns (page_at (space_pages s1) (membership s (space_index h') k))"
        using other [OF members_okD(7) [OF I(7) [OF j], of k]] h'(2,3) by (auto simp: s1_def address_at_def)
    qed (simp_all add: s1_def)
  qed
  then show ?thesis using that [of s2] run s2(2) True keeps_trans [OF _ s2(3)] by simp
qed

lemma release_after_deactivate_step:
  assumes inv: "space_inv H s"
  obtains s' where "release_after_deactivate h s = (s', Inr (can_release_after_deactivate s h))" "space_inv H s'" "keeps (pins H) s s'"
proof (cases "can_release_after_deactivate s h")
  case False
  then show ?thesis using that [of s] inv by (simp add: release_after_deactivate_def act_noexcept_def keeps_refl)
next
  case True
  have v: "valid_address s h" using True by (auto simp: can_release_after_deactivate_def split: if_splits)
  define i where "i = space_index h"
  have i: "i < length (addresses s)" unfolding i_def by (rule valid_addressD [OF v])
  note I = space_invD [OF inv] and m = members_okD [OF space_invD(7) [OF inv i]]
  have finish: "\<exists>s'. release_after_deactivate h s = (s', Inr True) \<and> space_inv H s' \<and> keeps (pins H) s s'"
    if f: "act_when (addr_active (address_at s h)) (deactivate h) s = (s1, Inr ())" "space_inv H s1" "keeps (pins H) s s1" "can_release s1 h" for s1
  proof -
    obtain s2 where s2: "release h s1 = (s2, Inr (can_release s1 h))" "space_inv H s2" "keeps (pins H) s1 s2" by (rule release_step [OF f(2)])
    then have "release_after_deactivate h s = (s2, Inr True)" using True f
      by (simp add: release_after_deactivate_def act_noexcept_def act_then_def act_bind_def act_guard_def)
    then show ?thesis using s2(2) keeps_trans [OF f(3) s2(3)] by blast
  qed
  have "\<exists>s'. release_after_deactivate h s = (s', Inr True) \<and> space_inv H s' \<and> keeps (pins H) s s'"
  proof (cases "addr_active (addresses s ! i)")
    case False
    then have "can_release s h" using True v by (simp add: can_release_after_deactivate_def Let_def address_at_def i_def)
    then show ?thesis using finish [of s] False inv by (simp add: act_when_def address_at_def i_def keeps_refl)
  next
    case act: True
    obtain s1 p' where s1: "deactivate h s = (s1, Inr ())" "space_inv H s1" "\<And>P. keeps P s s1"
      "touched deactivated (set (pages_of s i)) (space_pages s) p'" "store_pages (space_pages s1) = store_pages p'"
      "store_id (space_pages s1) = store_id p'" "memberships s1 = memberships s" "page_capacity s1 = page_capacity s" "space_id s1 = space_id s"
      "addresses s1 = (addresses s)[i := (addresses s ! i)\<lparr>addr_row := None, addr_reservation := null_reservation, addr_active := False\<rparr>]"
      by (rule deactivate_ok [OF inv v act [unfolded i_def], folded i_def]) (assumption | rule that)+
    have at: "page_at (space_pages s1) l = deactivated (page_at (space_pages s) l)" "valid_page (space_pages s1) l" if "l \<in> set (pages_of s i)" for l
      using pages_relD [OF s1(4) m(4) [OF that]] pages_rel_frame(6) [OF s1(4), of l] m(4) [OF that] that s1(5,6)
      by (simp_all add: page_at_def valid_page_def)
    have "can_release_reference_after_active_reference (space_pages s) l" if "l \<in> set (pages_of s i)" for l
      using True act v that by (auto simp: can_release_after_deactivate_def Let_def address_at_def i_def pages_of_def list_all_iff split: if_splits)
    then have "can_release_reference (space_pages s1) l False" if "l \<in> set (pages_of s i)" for l
      using that at [OF that] by (force simp: can_release_reference_def can_release_reference_after_active_reference_def Let_def deactivated_def split: if_splits)
    then have "can_release s1 h"
      using i v s1(7-10) by (auto simp: can_release_def Let_def address_at_def i_def valid_address_def idle_address_def reservation_valid_def
          list_all_iff pages_of_def page_handles_def membership_def)
    then show ?thesis using finish [of s1] act s1(1,2,3) by (simp add: act_when_def address_at_def i_def)
  qed
  then show ?thesis using that True by auto
qed

lemma create_active_step:
  assumes inv: "space_inv H s" and run: "create_active ent m s = (s', r)"
  shows "space_inv H s'" "keeps (pins H) s s'" "benign r"
proof -
  have "space_inv H s' \<and> keeps (pins H) s s' \<and> benign r"
  proof (cases "ent = 0 \<or> ent > page_capacity s")
    case True
    then show ?thesis using run inv by (auto simp: create_active_def keeps_refl)
  next
    case False
    obtain s1 h where c: "create_inactive s = (s1, h)" by (metis surj_pair)
    note k = create_inactive_step [OF inv c]
    show ?thesis
    proof (cases h)
      case None
      then show ?thesis using run False c k(1) k(2) by (auto simp: create_active_def)
    next
      case (Some h')
      obtain s2 r2 where a: "activate h' ent m s1 = (s2, r2)" by (metis surj_pair)
      note st = activate_step [OF k(1) a]
      show ?thesis
      proof (cases r2)
        case (Inl e)
        obtain s3 where s3: "release h' s2 = (s3, Inr (can_release s2 h'))" "space_inv H s3" "keeps (pins H) s2 s3"
          by (rule release_step [OF st(1)])
        have "s' = s3" "r = Inl e" using run False c Some a Inl s3(1) by (auto simp: create_active_def act_bind_def act_cleanup_def)
        then show ?thesis using s3(2) st(3) Inl keeps_trans [OF k(2) keeps_trans [OF st(2) s3(3)]] by (simp add: benign_def)
      next
        case (Inr u)
        then have "s' = s2" "r = Inr (Some h')" using run False c Some a by (auto simp: create_active_def act_bind_def act_cleanup_def)
        then show ?thesis using st(1) keeps_trans [OF k(2) st(2)] by simp
      qed
    qed
  qed
  then show "space_inv H s'" "keeps (pins H) s s'" "benign r" by blast+
qed

section \<open>Truncating an inactive address\<close>

text \<open>Moving the frontiers of an address, with the columns of pages that only it maps cut on the way.\<close>

lemma space_inv_cut:
  assumes inv: "space_inv_but (Some i) H s" and i: "i < length (addresses s)"
    and rel: "touched f L (space_pages s) p'"
    and L: "\<And>l. l \<in> L \<Longrightarrow> l \<in> set (pages_of s i) \<and> references (page_at (space_pages s) l) = 1 \<and> source_pins (page_at (space_pages s) l) = 0"
    and f: "\<And>pg. references (f pg) = references pg \<and> active_references (f pg) = active_references pg \<and> source_pins (f pg) = source_pins pg
      \<and> writer_references (f pg) = writer_references pg \<and> device_replica (f pg) = device_replica pg"
    and a: "a = (addresses s ! i)\<lparr>committed_frontier := c, checkpoint_frontier := d\<rparr>"
    and s': "s' = s\<lparr>space_pages := p', addresses := (addresses s)[i := a]\<rparr>" and fro: "frontier_ok s' i"
  shows "space_inv H s'" "keeps (pins H) s s'"
proof -
  note I = space_invD [OF inv] and fr = pages_rel_frame [OF rel] and m = members_okD [OF space_invD(7) [OF inv i]]
  have P: "page_at p' l = (if l \<in> L then f (page_at (space_pages s) l) else page_at (space_pages s) l)"
    if "valid_page (space_pages s) l" for l using pages_relD [OF rel that] .
  have pc: "page_count a = page_count (addresses s ! i)" "addr_active a = addr_active (addresses s ! i)" by (simp_all add: a)
  have g: "space_pages s' = p'" "addresses s' = (addresses s)[i := a]" "page_capacity s' = page_capacity s" "membership s' = membership s"
    "space_tables s' = space_tables s" "shown s' = shown s"
    by (simp_all add: s')
  have pg: "pages_of s' = pages_of s" "users s' = users s" "active_users s' = active_users s"
    using pages_of_put [of a "s\<lparr>space_pages := p'\<rparr>" i] users_put [of a "s\<lparr>space_pages := p'\<rparr>" i]
      active_users_put [of a "s\<lparr>space_pages := p'\<rparr>" i] pc by (simp_all add: s' fun_eq_iff)
  have mine: "users s l = {i}" if "l \<in> L" for l
  proof -
    have "i \<in> users s l" using L [OF that] i by (simp add: users_def)
    moreover have "card (users s l) = 1" using counts_okD(1) [OF I(4) m(4) [of l]] L [OF that] by simp
    ultimately show ?thesis by (auto simp: card_1_singleton_iff)
  qed
  have npin: "l \<notin># pins H" if "l \<in> L" for l
    using counts_okD(3) [OF I(4) m(4) [of l]] L [OF that] by (metis count_eq_zero_iff)
  show "space_inv H s'"
  proof (rule space_inv_change [OF inv i, where s' = s' and a = a])
    show "store_frame (space_pages s) (space_pages s')" unfolding g(1) by (rule store_frame_rel [OF rel])
    show "valid_page (space_pages s') l \<and> committed_columns (page_at (space_pages s) l) \<le> committed_columns (page_at (space_pages s') l)
      \<and> (addr_active (addresses s ! j) \<longrightarrow> device_replica (page_at (space_pages s') l) = device_replica (page_at (space_pages s) l))"
      if l: "j \<noteq> i" "j < length (addresses s)" "l \<in> set (pages_of s j)" "valid_page (space_pages s) l" for j l
    proof -
      have "j \<in> users s l" using l(2,3) by (simp add: users_def)
      then have "l \<notin> L" using mine [of l] l(1) by auto
      then show ?thesis using l(4) fr(6) by (simp add: g P)
    qed
    show "members_ok s' i" using m fr(6) i by (auto simp: members_ok_def Let_def g pg a)
    show "activity_ok s' i"
    proof (rule iffD2 [OF activity_fields [of s' i "s\<lparr>space_pages := p'\<rparr>"]])
      show "activity_ok (s\<lparr>space_pages := p'\<rparr>) i"
        using m(2,4,7) fr(3) f by (intro activity_frame [OF I(8) [OF i]]) (auto simp: P)
    qed (use i in \<open>simp_all add: g pg a\<close>)
    show "frontier_ok s' i" by (rule fro)
    show "counts_ok H s'" using I(4) fr(6) f by (auto simp: counts_ok_def Let_def g pg P)
    show "holds_ok H (space_pages s')"
    proof -
      have "l \<notin> L" if "l \<in># transfers H" for l using transfer_not_pinned(2) [OF inv that] mine [of l] by auto
      moreover have "writer_references (page_at p' l) = 0" if "l \<in> frozen_pages H" for l
        using holds_frozen [OF I(5) that] f by (simp add: P)
      ultimately show ?thesis using I(5) fr(3,6) by (auto simp: holds_ok_def g P)
    qed
    show "accounts_ok H s'"
      using I(6) fr(3) reserved_update [OF i, of a] rows_update [OF i, of a] by (simp add: accounts_ok_def g a)
  qed (use I(2) in \<open>simp_all add: g s' a\<close>)
  show "keeps (pins H) s s'"
  proof (rule keeps_change [where i = i and a = a])
    show "k < page_count (addresses s' ! j) \<and> membership s' j k = membership s j k \<and>
        committed_columns (page_at (space_pages s) (membership s j k)) \<le> committed_columns (page_at (space_pages s') (membership s j k))"
      if "j < length (addresses s)" "k < page_count (addresses s ! j)" "membership s j k \<in># pins H" for j k
      using that pc npin members_okD(7) [OF I(7) [OF that(1)] that(2)] by (auto simp: g P nth_update_at)
  qed (simp_all add: g s' a)
qed

text \<open>The state after the pages beyond \<open>frontier\<close> are dropped.\<close>

lemma drop_pages_step:
  assumes inv: "space_inv H s" and can: "can_truncate_inactive_prefix s h frontier"
  defines "i \<equiv> space_index h"
  defines "a \<equiv> addresses s ! i"
  defines "target \<equiv> pages_for_tokens frontier"
  obtains s1 where "act_for (drop_member i) (rev [target..<page_count a]) s = (s1, Inr ())" "space_inv_but (Some i) H s1"
    "valid_address s h" "i < length (addresses s)" "keeps (pins H) s s1" "target \<le> page_count a" "frontier \<le> committed_frontier a"
    "addresses s1 = (addresses s)[i := a\<lparr>page_count := target\<rparr>]" "space_tables s1 = space_tables s" "page_capacity s1 = page_capacity s"
    "\<And>k. k < target \<Longrightarrow> membership s1 i k = membership s i k"
    "\<And>k. k < target \<Longrightarrow> page_at (space_pages s1) (membership s i k) = page_at (space_pages s) (membership s i k)"
    "\<And>k. k < target \<Longrightarrow> valid_page (space_pages s1) (membership s i k)" "\<not> addr_active a"
proof -
  have v: "valid_address s h" and idle: "idle_address a" and le: "frontier \<le> committed_frontier a"
    and rls: "\<And>k. target \<le> k \<Longrightarrow> k < page_count a \<Longrightarrow> can_release_reference (space_pages s) (membership s i k) False"
    using can by (auto simp: can_truncate_inactive_prefix_def Let_def address_at_def a_def i_def target_def page_handles_def list_all_iff split: if_splits)
  have i: "i < length (addresses s)" unfolding i_def by (rule valid_addressD [OF v])
  note I = space_invD [OF inv] and m = members_okD [OF space_invD(7) [OF inv i], folded a_def]
  have occ: "addr_occupied a" using valid_address_occupied [OF v] by (simp add: i_def a_def)
  have nact: "\<not> addr_active a" using idle idle_iff [OF I(8) [OF i]] by (simp add: a_def)
  have "committed_frontier a \<le> page_count a * page_size" using I(9) [OF i] by (simp add: frontier_ok_def Let_def a_def)
  then have tle: "target \<le> page_count a" using le pages_for_tokens_le unfolding target_def by (metis le_trans)
  let ?ks = "rev [target..<page_count a]"
  have inj: "inj_on (membership s i) {0..<page_count a}" using m(3) by (simp add: pages_of_def page_handles_def distinct_map a_def)
  then have dist: "distinct (map (membership s i) ?ks)" by (simp add: distinct_map inj_on_def)
  obtain p' where loop: "act_for (drop_member i) ?ks s = ((fold (shortened i) ?ks s)\<lparr>space_pages := p'\<rparr>, Inr ())"
    and rel: "released (membership s i ` set ?ks) (space_pages s) p'"
    using drop_members [OF I(1) _ dist] rls by auto
  define ms where "ms = memberships (fold (cleared i) ?ks s)"
  have ks: "\<forall>k \<in> set ?ks. k < page_capacity s" using m(2) by auto
  note fc = fold_cleared [OF I(3) i ks, folded ms_def]
  have lst: "(if ?ks = [] then addresses s else (addresses s)[i := (addresses s ! i)\<lparr>page_count := last ?ks\<rparr>]) = (addresses s)[i := a\<lparr>page_count := target\<rparr>]"
  proof (cases "target < page_count a")
    case True
    then have "last ?ks = target" by (simp add: last_rev upt_conv_Cons)
    then show ?thesis using True by (simp add: a_def)
  next
    case False
    then have "a\<lparr>page_count := target\<rparr> = a" using tle by simp
    then show ?thesis using False i by (simp add: a_def)
  qed
  define s1 where "s1 = s\<lparr>memberships := ms, addresses := (addresses s)[i := a\<lparr>page_count := target\<rparr>], space_pages := p'\<rparr>"
  have run: "act_for (drop_member i) ?ks s = (s1, Inr ())"
    using loop unfolding fold_shortened lst by (subst (asm) fc(2)) (simp add: s1_def)
  have mem: "membership s1 j k = (if j = i \<and> target \<le> k then null_logical else membership s j k)" if "k < page_capacity s" for j k
  proof -
    have "membership s1 j k = membership (fold (cleared i) ?ks s) j k" by (subst fc(2)) (simp add: s1_def membership_def)
    then show ?thesis using fc(1) [OF that, of j] m(5) [OF _ that] by (auto simp: a_def [symmetric])
  qed
  have fit: "slots_fit s1" using fc(3) by (intro slots_fit_fields [OF I(3)]) (auto simp: s1_def a_def nth_update_at)
  have rel': "released (membership s i ` {target..<page_count (addresses s ! i)}) (space_pages s) (space_pages s1)"
    using rel by (simp add: s1_def a_def)
  have "\<not> addr_active (addresses s ! i)" "target \<le> page_count (addresses s ! i)"
    "\<And>k. target \<le> k \<Longrightarrow> k < page_count (addresses s ! i) \<Longrightarrow> can_release_reference (space_pages s) (membership s i k) False"
    using nact tle rls by (simp_all add: a_def)
  note sh = space_inv_shrink [OF inv i disjI1 [OF refl] this rel', where a = "a\<lparr>page_count := target\<rparr>" and y = "Some i"]
  have sh: "space_inv_but (Some i) H s1"
    "\<And>l. l \<notin> membership s i ` {target..<page_count (addresses s ! i)} \<Longrightarrow> valid_page (space_pages s) l \<Longrightarrow>
       valid_page (space_pages s1) l \<and> page_at (space_pages s1) l = page_at (space_pages s) l"
    by (rule sh; use nact fit mem m(1) occ activity_okD(1) [OF I(8) [OF i]] in \<open>simp add: s1_def a_def\<close>)+
  have low: "valid_page (space_pages s1) (membership s i k) \<and> page_at (space_pages s1) (membership s i k) = page_at (space_pages s) (membership s i k)"
    if "k < target" for k
  proof (rule sh(2))
    show "membership s i k \<notin> membership s i ` {target..<page_count (addresses s ! i)}"
    proof
      assume "membership s i k \<in> membership s i ` {target..<page_count (addresses s ! i)}"
      then obtain q where q: "membership s i k = membership s i q" "target \<le> q" "q < page_count a" by (auto simp: a_def)
      have "k = q" by (rule inj_onD [OF inj q(1)]) (use that tle q in simp_all)
      then show False using that q(2) by simp
    qed
    show "valid_page (space_pages s) (membership s i k)" using m(7) that tle by simp
  qed
  have "keeps (pins H) s s1"
  proof (rule keeps_change [where i = i and a = "a\<lparr>page_count := target\<rparr>"])
    show "k < page_count (addresses s1 ! j) \<and> membership s1 j k = membership s j k \<and>
        committed_columns (page_at (space_pages s) (membership s j k)) \<le> committed_columns (page_at (space_pages s1) (membership s j k))"
      if jk: "j < length (addresses s)" "k < page_count (addresses s ! j)" "membership s j k \<in># pins H" for j k
    proof -
      have np: "l \<notin> membership s i ` {target..<page_count (addresses s ! i)}" if "l \<in># pins H" for l
      proof
        assume "l \<in> membership s i ` {target..<page_count (addresses s ! i)}"
        then have "can_release_reference (space_pages s) l False" using rls by (auto simp: a_def)
        then have "valid_page (space_pages s) l" "source_pins (page_at (space_pages s) l) = 0" by (rule can_release_referenceD)+
        then show False using counts_okD(3) [OF I(4)] that by (metis count_eq_zero_iff)
      qed
      have "k < target" if "j = i" using np [OF jk(3)] jk(2) that by (force simp: image_iff)
      moreover have "k < page_capacity s" using members_okD(2) [OF I(7) [OF jk(1)]] jk(2) by simp
      ultimately show ?thesis
        using mem [of k j] sh(2) [OF np [OF jk(3)] members_okD(7) [OF I(7) [OF jk(1)] jk(2)]] jk by (auto simp: s1_def nth_update_at)
    qed
  qed (simp_all add: s1_def a_def)
  then show ?thesis
    using that [OF run sh(1) v i _ tle le] low mem m(2) tle nact by (simp add: s1_def)
qed

lemma tail_cut_min: "0 < frontier \<Longrightarrow> k = pages_for_tokens frontier - 1 \<Longrightarrow> min page_size (frontier - k * page_size) = tail_cut frontier"
  using pages_for_tokens_cover [of frontier] pages_for_tokens_needed [of k frontier] pages_for_tokens_zero(2) [of frontier]
  by (cases "pages_for_tokens frontier") (auto simp: tail_cut_def min_def)

text \<open>The frontiers of the shortened address, when every page but perhaps the last is as before.\<close>

lemma frontier_cut:
  assumes fro: "frontier_ok s i" and a: "addresses s' ! i = (addresses s ! i)\<lparr>page_count := pages_for_tokens f, committed_frontier := f, checkpoint_frontier := d\<rparr>"
    and f: "f \<le> committed_frontier (addresses s ! i)" "d \<le> f" "pages_for_tokens f \<le> page_count (addresses s ! i)"
    and mem: "\<And>k. k < pages_for_tokens f \<Longrightarrow> membership s' i k = membership s i k"
    and cols: "\<And>k. k < pages_for_tokens f \<Longrightarrow>
      committed_columns (page_at (space_pages s') (membership s i k)) = committed_columns (page_at (space_pages s) (membership s i k))
      \<or> k = pages_for_tokens f - 1 \<and> committed_columns (page_at (space_pages s') (membership s i k)) = tail_cut f"
  shows "frontier_ok s' i"
proof -
  have "min page_size (f - k * page_size) \<le> committed_columns (page_at (space_pages s') (membership s' i k))" if k: "k < pages_for_tokens f" for k
  proof (cases "committed_columns (page_at (space_pages s') (membership s i k)) = committed_columns (page_at (space_pages s) (membership s i k))")
    case True
    have "min page_size (f - k * page_size) \<le> min page_size (committed_frontier (addresses s ! i) - k * page_size)" using f(1) by (intro min.mono diff_le_mono) simp_all
    also have "\<dots> \<le> committed_columns (page_at (space_pages s) (membership s i k))"
      using fro k f(3) by (simp add: frontier_ok_def Let_def)
    finally show ?thesis using True mem [OF k] by simp
  next
    case False
    then have k': "k = pages_for_tokens f - 1" and c: "committed_columns (page_at (space_pages s') (membership s i k)) = tail_cut f"
      using cols [OF k] by auto
    have "0 < f" using k by (cases f) simp_all
    from tail_cut_min [OF this k'] show ?thesis using c mem [OF k] by simp
  qed
  then show ?thesis using a f(2) pages_for_tokens_cover [of f] by (simp add: frontier_ok_def Let_def)
qed

lemma truncate_inactive_prefix_step:
  assumes inv: "space_inv H s" and run: "truncate_inactive_prefix h frontier s = (s', r)"
  shows "space_inv H s'" "keeps (pins H) s s'" "benign r" "r = Inr () \<longleftrightarrow> can_truncate_inactive_prefix s h frontier"
proof -
  have "space_inv H s' \<and> keeps (pins H) s s' \<and> benign r \<and> (r = Inr () \<longleftrightarrow> can_truncate_inactive_prefix s h frontier)"
  proof (cases "can_truncate_inactive_prefix s h frontier")
    case False
    then show ?thesis using run inv by (auto simp: truncate_inactive_prefix_def act_then_def act_bind_def act_guard_def keeps_refl)
  next
    case can: True
    define i where "i = space_index h"
    define a where "a = addresses s ! i"
    define target where "target = pages_for_tokens frontier"
    obtain s1 where s1: "act_for (drop_member i) (rev [target..<page_count a]) s = (s1, Inr ())" "space_inv_but (Some i) H s1"
      "valid_address s h" "i < length (addresses s)" "keeps (pins H) s s1" "target \<le> page_count a" "frontier \<le> committed_frontier a"
      "addresses s1 = (addresses s)[i := a\<lparr>page_count := target\<rparr>]" "space_tables s1 = space_tables s" "page_capacity s1 = page_capacity s"
      "\<And>k. k < target \<Longrightarrow> membership s1 i k = membership s i k"
      "\<And>k. k < target \<Longrightarrow> page_at (space_pages s1) (membership s i k) = page_at (space_pages s) (membership s i k)"
      "\<And>k. k < target \<Longrightarrow> valid_page (space_pages s1) (membership s i k)" "\<not> addr_active a"
      by (rule drop_pages_step [OF inv can, folded target_def i_def, folded a_def]) (assumption | rule that)+
    let ?a = "a\<lparr>page_count := target, committed_frontier := frontier, checkpoint_frontier := min (checkpoint_frontier a) frontier\<rparr>"
    define s2 where "s2 = s1\<lparr>space_pages := space_pages s1, addresses := (addresses s1)[i := ?a]\<rparr>"
    have "frontier_ok s2 i"
      by (rule frontier_cut [OF space_invD(9) [OF inv s1(4)], where f = frontier and d = "min (checkpoint_frontier a) frontier"])
        (use s1(4,6,7,8,11,12) in \<open>simp_all add: s2_def a_def target_def\<close>)
    then have c: "space_inv H s2" "keeps (pins H) s1 s2"
      using space_inv_cut [OF s1(2) _ touched_none [OF space_invD(1) [OF s1(2)]], where f = id and a = ?a and c = frontier and d = "min (checkpoint_frontier a) frontier" and s' = s2] s1(4,8)
      by (simp_all add: s2_def)
    obtain s3 where s3: "rebuild_checkpoint_protection s2 = (s3, Inr ())" "space_inv H s3" "\<And>P. keeps P s2 s3"
      using rebuild_step [OF c(1)] by metis
    have put: "put_address i (\<lambda>a. a\<lparr>committed_frontier := frontier, checkpoint_frontier := min (checkpoint_frontier a) frontier\<rparr>) s1 = (s2, Inr ())"
      using s1(4,8) by (simp add: s2_def)
    have "truncate_inactive_prefix h frontier s = (s3, Inr ())"
      using can s1(1,3) put s3(1)
      by (simp add: truncate_inactive_prefix_def act_then_def act_bind_def act_guard_def act_ask_def require_address_def address_at_def
          Let_def i_def [symmetric] a_def [symmetric] target_def [symmetric] del: put_address_run)
    then show ?thesis using run can s3(2) keeps_trans [OF s1(5) keeps_trans [OF c(2) s3(3)]] by simp
  qed
  then show "space_inv H s'" "keeps (pins H) s s'" "benign r" "r = Inr () \<longleftrightarrow> can_truncate_inactive_prefix s h frontier" by blast+
qed

lemma can_truncate_inactive_total:
  assumes inv: "space_inv H s"
  obtains b where "can_truncate_inactive s h frontier host = Inr b" "b \<Longrightarrow> can_truncate_inactive_prefix s h frontier"
    "b \<Longrightarrow> \<not> host \<Longrightarrow> pages_for_tokens frontier \<noteq> 0 \<Longrightarrow>
       (let l = membership s (space_index h) (pages_for_tokens frontier - 1) in
        tail_cut frontier = committed_columns (page_at (space_pages s) l) \<or> can_destructive_truncate_inactive (space_pages s) l (tail_cut frontier))"
proof (cases "can_truncate_inactive_prefix s h frontier \<and> pages_for_tokens frontier \<noteq> 0")
  case False
  then show ?thesis using that [of "can_truncate_inactive_prefix s h frontier"] by (auto simp: can_truncate_inactive_def no_throw_def Let_def)
next
  case True
  define i where "i = space_index h"
  have v: "valid_address s h" and le: "frontier \<le> committed_frontier (addresses s ! i)"
    using True by (auto simp: can_truncate_inactive_prefix_def Let_def address_at_def i_def split: if_splits)
  have i: "i < length (addresses s)" unfolding i_def by (rule valid_addressD [OF v])
  have "committed_frontier (addresses s ! i) \<le> page_count (addresses s ! i) * page_size"
    using space_invD(9) [OF inv i] by (simp add: frontier_ok_def Let_def)
  then have "pages_for_tokens frontier \<le> page_count (addresses s ! i)" using le pages_for_tokens_le by (metis le_trans)
  then have "pages_for_tokens frontier - 1 < page_count (addresses s ! i)" using conjunct2 [OF True] by linarith
  then have "valid_page (space_pages s) (membership s i (pages_for_tokens frontier - 1))"
    by (rule members_okD(7) [OF space_invD(7) [OF inv i]])
  then show ?thesis using that True by (simp add: can_truncate_inactive_def no_throw_def Let_def i_def)
qed

lemma truncate_tail_touches:
  assumes st: "store_inv p" and can: "c = committed_columns (page_at p l) \<or> can_destructive_truncate_inactive p l c" and v: "valid_page p l"
    and p: "space_pages s = p"
  defines "f \<equiv> \<lambda>pg. let pg' = cut_columns c pg in pg'\<lparr>protected_columns := min (protected_columns pg') c\<rparr>"
  obtains p' L where "act_bind (ask_pages (\<lambda>p. page_field committed_columns p l)) (\<lambda>n.
            act_when (c \<noteq> n) (on_pages (\<lambda>p. destructive_truncate_inactive p l c))) s = (s\<lparr>space_pages := p'\<rparr>, Inr ())"
    "touched f L p p'" "L \<subseteq> {l}" "L \<noteq> {} \<Longrightarrow> references (page_at p l) = 1 \<and> source_pins (page_at p l) = 0"
    "committed_columns (page_at p' l) = c"
proof (cases "c = committed_columns (page_at p l)")
  case True
  show ?thesis
    by (rule that [of p "{}"]) (use v p True touched_none [OF st, of f] in \<open>simp_all add: act_bind_def ask_pages_def act_ask_def act_when_def\<close>)
next
  case False
  then have d: "can_destructive_truncate_inactive p l c" using can by blast
  have ok: "page_ok (f (page_at p l))" "page_leases (f (page_at p l)) = page_leases (page_at p l)"
    using valid_page_ok(2,3) [OF st v] d
    by (auto simp: f_def cut_columns_def page_ok_def page_leases_def can_destructive_truncate_inactive_def Let_def split: if_splits)
  have kp: "keeps_page f" by (simp add: keeps_page_def f_def cut_columns_def Let_def)
  have g: "(\<lambda>pg. if \<not> can_destructive_truncate_inactive p l c then Some LogicError else None) (page_at p l) = None" using d by simp
  obtain p' where p'': "change_page p l (\<lambda>pg. if \<not> can_destructive_truncate_inactive p l c then Some LogicError else None) f = Inr p'"
    and rel: "touched f {l} p p'"
    by (rule change_page_touched [OF st v g ok kp])
  have p': "destructive_truncate_inactive p l c = Inr p'" "touched f {l} p p'"
    using p'' rel by (simp_all add: destructive_truncate_inactive_def f_def)
  have "committed_columns (page_at p' l) = c" using pages_relD [OF p'(2) v] by (simp add: f_def cut_columns_def Let_def)
  moreover have "references (page_at p l) = 1 \<and> source_pins (page_at p l) = 0"
    using d by (auto simp: can_destructive_truncate_inactive_def Let_def split: if_splits)
  ultimately show ?thesis
    by (intro that [of p' "{l}"] p'(2)) (use v p p'(1) False in \<open>simp_all add: act_bind_def ask_pages_def act_ask_def act_when_def on_pages_def\<close>)
qed

lemma truncate_inactive_step:
  assumes inv: "space_inv H s" and run: "truncate_inactive h frontier s = (s', r)"
  shows "space_inv H s'" "keeps (pins H) s s'" "benign r" "r = Inr () \<longleftrightarrow> can_truncate_inactive s h frontier False = Inr True"
proof -
  obtain b where b: "can_truncate_inactive s h frontier False = Inr b" "b \<Longrightarrow> can_truncate_inactive_prefix s h frontier"
    "b \<Longrightarrow> pages_for_tokens frontier \<noteq> 0 \<Longrightarrow>
       (let l = membership s (space_index h) (pages_for_tokens frontier - 1) in
        tail_cut frontier = committed_columns (page_at (space_pages s) l) \<or> can_destructive_truncate_inactive (space_pages s) l (tail_cut frontier))"
    by (rule can_truncate_inactive_total [OF inv, of h frontier False]) (use that in blast)
  have "space_inv H s' \<and> keeps (pins H) s s' \<and> benign r \<and> (r = Inr () \<longleftrightarrow> b)"
  proof (cases b)
    case False
    then show ?thesis using run inv b(1) by (auto simp: truncate_inactive_def act_then_def act_bind_def act_guard_def act_ask_def keeps_refl)
  next
    case can: True
    define i where "i = space_index h"
    define a where "a = addresses s ! i"
    define target where "target = pages_for_tokens frontier"
    define l where "l = membership s i (target - 1)"
    obtain s1 where s1: "act_for (drop_member i) (rev [target..<page_count a]) s = (s1, Inr ())" "space_inv_but (Some i) H s1"
      "valid_address s h" "i < length (addresses s)" "keeps (pins H) s s1" "target \<le> page_count a" "frontier \<le> committed_frontier a"
      "addresses s1 = (addresses s)[i := a\<lparr>page_count := target\<rparr>]" "space_tables s1 = space_tables s" "page_capacity s1 = page_capacity s"
      "\<And>k. k < target \<Longrightarrow> membership s1 i k = membership s i k"
      "\<And>k. k < target \<Longrightarrow> page_at (space_pages s1) (membership s i k) = page_at (space_pages s) (membership s i k)"
      "\<And>k. k < target \<Longrightarrow> valid_page (space_pages s1) (membership s i k)" "\<not> addr_active a"
      by (rule drop_pages_step [OF inv b(2) [OF can], folded target_def i_def, folded a_def]) (assumption | rule that)+
    let ?cut = "\<lambda>s. let tail = membership s i (target - 1) in
          act_bind (ask_pages (\<lambda>p. page_field committed_columns p tail)) (\<lambda>n.
            act_when (tail_cut frontier \<noteq> n) (on_pages (\<lambda>p. destructive_truncate_inactive p tail (tail_cut frontier)))) s"
    let ?f = "\<lambda>pg. let pg' = cut_columns (tail_cut frontier) pg in pg'\<lparr>protected_columns := min (protected_columns pg') (tail_cut frontier)\<rparr>"
    note st1 = space_invD(1) [OF s1(2)]
    obtain p2 L where cut: "act_when (target \<noteq> 0) ?cut s1 = (s1\<lparr>space_pages := p2\<rparr>, Inr ())" "touched ?f L (space_pages s1) p2"
      and L: "L \<subseteq> {l}" "L \<noteq> {} \<Longrightarrow> target \<noteq> 0 \<and> references (page_at (space_pages s1) l) = 1 \<and> source_pins (page_at (space_pages s1) l) = 0"
      and col: "target \<noteq> 0 \<Longrightarrow> committed_columns (page_at p2 l) = tail_cut frontier"
    proof (cases "target = 0")
      case True
      then show ?thesis using that [of "space_pages s1" "{}"] touched_none [OF st1, of ?f] by (simp add: act_when_def)
    next
      case False
      then have lt: "target - 1 < target" by simp
      note same = s1(12) [OF lt, folded l_def] s1(13) [OF lt, folded l_def] s1(11) [OF lt, folded l_def]
      have vs: "valid_page (space_pages s) l"
        unfolding l_def using members_okD(7) [OF space_invD(7) [OF inv s1(4)], of "target - 1"] lt s1(6) by (simp add: a_def)
      have "tail_cut frontier = committed_columns (page_at (space_pages s1) l) \<or> can_destructive_truncate_inactive (space_pages s1) l (tail_cut frontier)"
        using b(3) [OF can, folded target_def i_def, unfolded Let_def, folded l_def, OF False] same(1,2) vs
        by (simp add: can_destructive_truncate_inactive_def)
      from truncate_tail_touches [OF st1 this same(2) refl] obtain p2 L where
        t: "act_bind (ask_pages (\<lambda>p. page_field committed_columns p l)) (\<lambda>n.
            act_when (tail_cut frontier \<noteq> n) (on_pages (\<lambda>p. destructive_truncate_inactive p l (tail_cut frontier)))) s1 = (s1\<lparr>space_pages := p2\<rparr>, Inr ())"
          "touched ?f L (space_pages s1) p2" "L \<subseteq> {l}"
          "L \<noteq> {} \<Longrightarrow> references (page_at (space_pages s1) l) = 1 \<and> source_pins (page_at (space_pages s1) l) = 0"
          "committed_columns (page_at p2 l) = tail_cut frontier" by blast
      have "act_when (target \<noteq> 0) ?cut s1 = (s1\<lparr>space_pages := p2\<rparr>, Inr ())"
        using t(1) False unfolding act_when_run Let_def same(3) by simp
      then show ?thesis by (rule that [OF _ t(2,3)]) (use t(4,5) False in simp_all)
    qed
    let ?a = "a\<lparr>page_count := target, committed_frontier := frontier, checkpoint_frontier := 0\<rparr>"
    define s2 where "s2 = s1\<lparr>space_pages := p2, addresses := (addresses s1)[i := ?a]\<rparr>"
    have fro: "frontier_ok s2 i"
    proof (rule frontier_cut [OF space_invD(9) [OF inv s1(4)], where f = frontier and d = 0], goal_cases)
      case (7 k)
      then have k: "k < target" by (simp add: target_def)
      have "membership s i k \<notin> L \<or> k = target - 1 \<and> membership s i k = l"
      proof (cases "membership s i k = l")
        case True
        have "inj_on (membership s i) {0..<page_count a}"
          using members_okD(3) [OF space_invD(7) [OF inv s1(4)]] by (simp add: pages_of_def page_handles_def distinct_map a_def)
        from inj_onD [OF this, of k "target - 1"] True k s1(6) show ?thesis by (auto simp: l_def)
      qed (use L(1) in blast)
      then show ?case using pages_relD [OF cut(2) s1(13) [OF k]] s1(12) [OF k] col k by (auto simp: s2_def target_def [symmetric])
    qed (use s1(4,6,7,8,11) in \<open>simp_all add: s2_def a_def target_def\<close>)
    have c: "space_inv H s2" "keeps (pins H) s1 s2"
    proof -
      have mine: "l \<in> set (pages_of s1 i)" if "target \<noteq> 0"
        using s1(4,8) s1(11) [of "target - 1"] that membership_in [of "target - 1" s1 i] by (simp add: l_def)
      have hyp: "m \<in> set (pages_of s1 i) \<and> references (page_at (space_pages s1) m) = 1 \<and> source_pins (page_at (space_pages s1) m) = 0" if "m \<in> L" for m
        using that L mine by auto
      have fields: "references (?f pg) = references pg \<and> active_references (?f pg) = active_references pg \<and> source_pins (?f pg) = source_pins pg
          \<and> writer_references (?f pg) = writer_references pg \<and> device_replica (?f pg) = device_replica pg" for pg
        by (simp add: cut_columns_def Let_def)
      have i1: "i < length (addresses s1)" using s1(4,8) by simp
      have a1: "?a = (addresses s1 ! i)\<lparr>committed_frontier := frontier, checkpoint_frontier := 0\<rparr>" using s1(4,8) by simp
      show "space_inv H s2" "keeps (pins H) s1 s2"
        by (rule space_inv_cut [OF s1(2) i1 cut(2) hyp fields a1 s2_def fro]; assumption)+
    qed
    obtain s3 where s3: "rebuild_checkpoint_protection s2 = (s3, Inr ())" "space_inv H s3" "\<And>P. keeps P s2 s3"
      using rebuild_step [OF c(1)] by metis
    have put: "put_address i (\<lambda>a. a\<lparr>committed_frontier := frontier, checkpoint_frontier := 0\<rparr>) (s1\<lparr>space_pages := p2\<rparr>) = (s2, Inr ())"
      using s1(4,8) by (simp add: s2_def)
    have "truncate_inactive h frontier s = (s3, Inr ())"
      using b(1) can s1(1,3) put s3(1) cut(1)
      by (simp add: truncate_inactive_def act_then_def act_bind_def act_guard_def act_ask_def require_address_def address_at_def
          Let_def i_def [symmetric] a_def [symmetric] target_def [symmetric] del: put_address_run)
    then show ?thesis using run can s3(2) keeps_trans [OF s1(5) keeps_trans [OF c(2) s3(3)]] by simp
  qed
  then show "space_inv H s'" "keeps (pins H) s s'" "benign r" "r = Inr () \<longleftrightarrow> can_truncate_inactive s h frontier False = Inr True"
    using b(1) by simp_all
qed

end
