(* ===== verification/Space_Growth.thy ===== *)
theory Space_Growth
  imports Space_Release Logical_Store_Use
begin

text \<open>
  An active address grows and shrinks: pages are mapped against its entitlement and published in its
  row, columns are committed, and truncation gives the pages at the end back to its reservation.
\<close>

section \<open>Committing columns\<close>

lemma calm_refl: "calm l a a"
  by (simp add: calm_def)

lemma calm_trans: "calm l a b \<Longrightarrow> calm l b c \<Longrightarrow> calm l a c"
  by (simp add: calm_def)

lemma pages_rel_here:
  assumes "pages_rel Q p p'" "\<And>l. valid_page p l \<Longrightarrow> Q l (page_at p l) (page_at p' l) \<Longrightarrow> R l (page_at p l) (page_at p' l)"
  shows "pages_rel R p p'"
  using assms by (auto simp: pages_rel_def)

lemma commit_page_run:
  assumes inv: "space_inv_but x H s" and i: "i < length (addresses s)" and k: "k < page_count (addresses s ! i)"
    and run: "commit_page i f k s = (s', r)"
  obtains p' where "s' = s\<lparr>space_pages := p'\<rparr>" "pages_rel calm (space_pages s) p'" "benign r"
    "r = Inr () \<Longrightarrow> min page_size (f - k * page_size) \<le> committed_columns (page_at p' (membership s i k))"
proof -
  define l where "l = membership s i k"
  define c where "c = min page_size (f - k * page_size)"
  note st = space_invD(1) [OF inv] and fin = that [folded l_def, folded c_def]
  have v: "valid_page (space_pages s) l" unfolding l_def by (rule members_okD(7) [OF space_invD(7) [OF inv i] k])
  have stay: "pages_rel calm (space_pages s) (space_pages s)" by (rule pages_rel_refl [OF st]) (simp add: calm_refl)
  have r: "act_when (c > committed_columns (page_at (space_pages s) l)) (on_pages (\<lambda>p. commit_coverage p l c)) s = (s', r)"
    using run [unfolded commit_page_def Let_def, folded l_def, folded c_def] v by (simp add: act_bind_def ask_pages_def act_ask_def)
  let ?G = "\<lambda>pg. device_replica pg \<noteq> None \<and> writer_references pg = 1 \<and> committed_columns pg \<le> c \<and> c \<le> page_size"
  consider (skip) "c \<le> committed_columns (page_at (space_pages s) l)"
    | (go) "committed_columns (page_at (space_pages s) l) < c" "?G (page_at (space_pages s) l)"
    | (bad) "committed_columns (page_at (space_pages s) l) < c" "\<not> ?G (page_at (space_pages s) l)" by linarith
  then show ?thesis
  proof cases
    case skip
    then show ?thesis using fin [of "space_pages s"] r stay by (auto simp: act_when_def)
  next
    case go
    obtain p' where p': "touched (\<lambda>pg. pg\<lparr>committed_columns := c\<rparr>) {l} (space_pages s) p'" "on_pages (\<lambda>p. commit_coverage p l c) s = (s\<lparr>space_pages := p'\<rparr>, Inr ())"
      by (rule touches_run [OF commit_coverage_touches st v go(2)])
    have "pages_rel calm (space_pages s) p'" using go(1) by (intro pages_rel_here [OF p'(1)]) (auto simp: calm_def)
    then show ?thesis using fin [of p'] r p'(2) go(1) pages_relD [OF p'(1) v] by (auto simp: act_when_def)
  next
    case bad
    moreover have "c \<le> page_size" by (simp add: c_def)
    ultimately have "commit_coverage (space_pages s) l c = Inl InvalidArgument" using v by (auto simp: commit_coverage_def change_page_def)
    then show ?thesis using fin [of "space_pages s"] r stay bad(1) by (auto simp: act_when_def on_pages_def)
  qed
qed

lemma commit_pages_run:
  assumes "space_inv_but x H s" "i < length (addresses s)" "\<forall>k \<in> set ks. k < page_count (addresses s ! i)"
    and "act_for (commit_page i f) ks s = (s', r)"
  obtains p' where "s' = s\<lparr>space_pages := p'\<rparr>" "pages_rel calm (space_pages s) p'" "benign r"
    "r = Inr () \<Longrightarrow> \<forall>k \<in> set ks. min page_size (f - k * page_size) \<le> committed_columns (page_at p' (membership s i k))"
  using assms
proof (induction ks arbitrary: s thesis)
  case Nil
  then show ?case using Nil.prems(1) [of "space_pages s"] pages_rel_refl [OF space_invD(1) [OF Nil.prems(2)], of calm] calm_refl by auto
next
  case (Cons k ks)
  obtain s1 r1 where s1: "commit_page i f k s = (s1, r1)" by (metis surj_pair)
  obtain p1 where p1: "s1 = s\<lparr>space_pages := p1\<rparr>" "pages_rel calm (space_pages s) p1" "benign r1"
    "r1 = Inr () \<Longrightarrow> min page_size (f - k * page_size) \<le> committed_columns (page_at p1 (membership s i k))"
    by (rule commit_page_run [OF Cons.prems(2,3) _ s1]) (use Cons.prems(4) that in auto)
  show ?case
  proof (cases r1)
    case (Inl e)
    then have "s' = s1" "r = Inl e" using Cons.prems(5) s1 by (simp_all add: act_then_def act_bind_def)
    then show ?thesis using Cons.prems(1) [OF _ p1(2)] p1(1,3) Inl by (simp add: benign_def)
  next
    case (Inr u)
    then have run: "act_for (commit_page i f) ks s1 = (s', r)" using Cons.prems(5) s1 by (simp add: act_then_def act_bind_def)
    have inv1: "space_inv_but x H s1" unfolding p1(1) by (rule space_inv_calm [OF Cons.prems(2) p1(2)])
    obtain p2 where p2: "s' = s1\<lparr>space_pages := p2\<rparr>" "pages_rel calm (space_pages s1) p2" "benign r"
      "r = Inr () \<Longrightarrow> \<forall>k \<in> set ks. min page_size (f - k * page_size) \<le> committed_columns (page_at p2 (membership s1 i k))"
      using Cons.IH [OF _ inv1 _ _ run] Cons.prems(3,4) by (auto simp: p1(1))
    have rel: "pages_rel calm (space_pages s) p2"
      using p2(2) by (intro pages_rel_trans [OF p1(2) _ calm_trans]) (simp_all add: p1(1))
    have v: "valid_page p1 (membership s i k)"
      using members_okD(7) [OF space_invD(7) [OF Cons.prems(2,3)]] Cons.prems(4) pages_rel_frame(6) [OF p1(2)] by simp
    have "committed_columns (page_at p1 (membership s i k)) \<le> committed_columns (page_at p2 (membership s i k))"
      using pages_relD [OF p2(2), of "membership s i k"] v by (simp add: p1(1) calm_def)
    then show ?thesis using Cons.prems(1) [OF _ rel p2(3)] p1(1,4) p2(1,4) Inr by force
  qed
qed

lemma commit_frontier_step:
  assumes inv: "space_inv H s" and run: "commit_frontier h f s = (s', r)"
  shows "space_inv H s'" "keeps P s s'" "benign r"
proof -
  have "space_inv H s' \<and> keeps P s s' \<and> benign r" for P
    using run [unfolded commit_frontier_def]
  proof (cases rule: act_askE)
    case (throws e)
    then show ?thesis using inv require_active_err [OF throws(1)] by (auto simp: keeps_refl)
  next
    case (goes a)
    define i where "i = space_index h"
    note ra = require_active_ok [OF inv goes(1), folded i_def]
    note I = space_invD [OF inv] and m = members_okD [OF space_invD(7) [OF inv ra(2)], folded ra(3)]
    consider (bad) "f < committed_frontier a \<or> pages_for_tokens f > page_count a" | (same) "f = committed_frontier a" "pages_for_tokens f \<le> page_count a"
      | (go) "committed_frontier a < f" "pages_for_tokens f \<le> page_count a" by linarith
    then show ?thesis
    proof cases
      case bad
      then show ?thesis using goes(2) inv by (auto simp: keeps_refl)
    next
      case same
      then show ?thesis using goes(2) inv by (auto simp: keeps_refl)
    next
      case go
      let ?ks = "[committed_frontier a div page_size..<(f - 1) div page_size + 1]"
      have last: "(f - 1) div page_size + 1 = pages_for_tokens f" using go(1) by (simp add: pages_for_tokens_def)
      from goes(2) go have "act_then (act_for (commit_page i f) ?ks) (put_address i (\<lambda>a. a\<lparr>committed_frontier := f\<rparr>)) s = (s', r)"
        by (simp add: Let_def i_def del: page_size_pos put_address_run)
      then show ?thesis
      proof (cases rule: act_thenE)
        case (throws e)
        obtain p' where p': "s' = s\<lparr>space_pages := p'\<rparr>" "pages_rel calm (space_pages s) p'" "benign (Inl e :: unit res)"
          by (rule commit_pages_run [OF inv ra(2) _ throws(1)]) (use go(2) last in \<open>auto simp: ra(3) [symmetric]\<close>)
        then show ?thesis using throws(2) space_inv_calm [OF inv p'(2)] keeps_pages [OF inv p'(2)] by (simp add: benign_def calm_def)
      next
        case loop: (goes s1)
        obtain p' where p': "s1 = s\<lparr>space_pages := p'\<rparr>" "pages_rel calm (space_pages s) p'"
          "\<forall>k \<in> set ?ks. min page_size (f - k * page_size) \<le> committed_columns (page_at p' (membership s i k))"
          by (rule commit_pages_run [OF inv ra(2) _ loop(1)]) (use go(2) last in \<open>auto simp: ra(3) [symmetric]\<close>)
        have inv1: "space_inv H s1" unfolding p'(1) by (rule space_inv_calm [OF inv p'(2)])
        define a' where "a' = (addresses s1 ! i)\<lparr>committed_frontier := f, checkpoint_frontier := checkpoint_frontier a\<rparr>"
        have s': "s' = s1\<lparr>addresses := (addresses s1)[i := a']\<rparr>" "r = Inr ()" using loop(2) by (simp_all add: a'_def p'(1) ra(3))
        have i1: "i < length (addresses s1)" using ra(2) by (simp add: p'(1))
        have but: "space_inv_but (Some i) H s'" unfolding s'(1) by (rule space_inv_frontier [OF inv1 i1 _ a'_def]) simp
        have fo: "frontier_ok s i" using I(9) [OF ra(2)] by simp
        have "min page_size (f - k * page_size) \<le> committed_columns (page_at p' (membership s i k))" if k: "k < page_count a" for k
        proof (cases "k < committed_frontier a div page_size")
          case True
          then have "(k + 1) * page_size \<le> committed_frontier a" by simp
          then have "page_size \<le> committed_columns (page_at (space_pages s) (membership s i k))"
            using fo k by (auto simp: frontier_ok_def Let_def ra(3) [symmetric] min_def split: if_splits)
          also have "\<dots> \<le> committed_columns (page_at p' (membership s i k))"
            using pages_relD [OF p'(2) m(7) [OF k]] by (simp add: calm_def)
          finally show ?thesis by simp
        next
          case False
          show ?thesis
          proof (cases "k < pages_for_tokens f")
            case True
            then have "k \<in> set ?ks" using False unfolding last by simp
            then show ?thesis using p'(3) by blast
          next
            case False
            then have "f \<le> k * page_size" using pages_for_tokens_needed [of k f] by simp
            then show ?thesis by simp
          qed
        qed
        then have "frontier_ok s' i"
          using fo go i1 pages_for_tokens_le [of f "page_count a"] by (simp add: frontier_ok_def Let_def s'(1) a'_def p'(1) ra(3) [symmetric])
        then have "space_inv H s'" by (rule space_inv_complete [OF but])
        moreover have "keeps P s s1" unfolding p'(1) by (rule keeps_pages [OF inv p'(2)]) (simp add: calm_def)
        moreover have "keeps P s1 s'" unfolding s'(1) by (rule keeps_put) (simp_all add: a'_def)
        ultimately show ?thesis using s'(2) keeps_trans by fastforce
      qed
    qed
  qed
  then show "space_inv H s'" "keeps P s s'" "benign r" by blast+
qed

section \<open>Mapping more pages\<close>

lemma set_members_run:
  assumes "slots_fit s" "i < length (addresses s)" "b + length hs \<le> page_capacity s"
  obtains ms where "act_for (\<lambda>(page, h). set_membership i page h) (zip [b..<b + length hs] hs) s = (s\<lparr>memberships := ms\<rparr>, Inr ())"
    "length ms = length (memberships s)"
    "\<And>j k. k < page_capacity s \<Longrightarrow> membership (s\<lparr>memberships := ms\<rparr>) j k
      = (if j = i \<and> b \<le> k \<and> k < b + length hs then hs ! (k - b) else membership s j k)"
  using assms
proof (induction hs arbitrary: b s thesis)
  case Nil
  show ?case by (rule Nil.prems(1) [of "memberships s"]) auto
next
  case (Cons h hs)
  define s1 where "s1 = s\<lparr>memberships := (memberships s)[i * page_capacity s + b := h]\<rparr>"
  have one: "membership s1 j k = (if j = i \<and> k = b then h else membership s j k)" if "k < page_capacity s" for j k
    unfolding s1_def using Cons.prems(4) that by (intro membership_set [OF Cons.prems(2,3)]) simp_all
  have fit: "slots_fit s1" by (rule slots_fit_fields [OF Cons.prems(2)]) (simp_all add: s1_def)
  obtain ms where ms: "act_for (\<lambda>(page, h). set_membership i page h) (zip [Suc b..<Suc b + length hs] hs) s1 = (s1\<lparr>memberships := ms\<rparr>, Inr ())"
    "length ms = length (memberships s1)"
    "\<And>j k. k < page_capacity s1 \<Longrightarrow> membership (s1\<lparr>memberships := ms\<rparr>) j k
      = (if j = i \<and> Suc b \<le> k \<and> k < Suc b + length hs then hs ! (k - Suc b) else membership s1 j k)"
    by (rule Cons.IH [OF _ fit, of "Suc b"]) (use Cons.prems(3,4) in \<open>(simp add: s1_def | rule that | assumption)+\<close>)
  have z: "zip [b..<b + length (h # hs)] (h # hs) = (b, h) # zip [Suc b..<Suc b + length hs] hs"
    using upt_conv_Cons [of b "b + length (h # hs)"] by (simp del: upt_Suc)
  show ?case
  proof (rule Cons.prems(1) [of ms])
    show "act_for (\<lambda>(page, h). set_membership i page h) (zip [b..<b + length (h # hs)] (h # hs)) s = (s\<lparr>memberships := ms\<rparr>, Inr ())"
      unfolding z using ms(1) by (simp add: act_then_def act_bind_def set_membership_def s1_def)
    show "length ms = length (memberships s)" using ms(2) by (simp add: s1_def)
    show "membership (s\<lparr>memberships := ms\<rparr>) j k = (if j = i \<and> b \<le> k \<and> k < b + length (h # hs) then (h # hs) ! (k - b) else membership s j k)"
      if "k < page_capacity s" for j k
    proof -
      have "membership (s\<lparr>memberships := ms\<rparr>) j k = membership (s1\<lparr>memberships := ms\<rparr>) j k" by (simp add: membership_def s1_def)
      then show ?thesis using ms(3) [of k j] one [OF that, of j] that by (auto simp: s1_def nth_Cons' Suc_diff_le not_less_eq_eq)
    qed
  qed
qed

lemma grow_address:
  assumes inv: "space_inv H s" and i: "i < length (addresses s)" and act: "addr_active (addresses s ! i)"
    and row: "addr_row (addresses s ! i) = Some row"
    and target: "page_count (addresses s ! i) \<le> target"
    and mat: "materialize_batch (space_pages s) (addr_reservation (addresses s ! i)) ds pred = Inr (p1, r', hs)"
      "page_count (addresses s ! i) + length ds = target"
    and s1: "s1 = s\<lparr>space_pages := p1, addresses := (addresses s)[i := (addresses s ! i)\<lparr>addr_reservation := r'\<rparr>], memberships := ms\<rparr>"
    and ms: "length ms = length (memberships s)"
      "\<And>j k. k < page_capacity s \<Longrightarrow> membership s1 j k
        = (if j = i \<and> page_count (addresses s ! i) \<le> k \<and> k < target then hs ! (k - page_count (addresses s ! i)) else membership s j k)"
  obtains t' cs p2 s' where
    "act_bind (ask_pages (\<lambda>p. physical_all p hs)) (\<lambda>ds. publish_row (row_lease_handle row) (page_count (addresses s ! i)) ds) s1
      = (s1\<lparr>space_tables := t', issued := issued s1 @ cs\<rparr>, Inr ())"
    "act_for (\<lambda>l. on_pages (\<lambda>p. retain_active_reference p l)) hs (s1\<lparr>space_tables := t', issued := issued s1 @ cs\<rparr>)
      = (s1\<lparr>space_tables := t', issued := issued s1 @ cs, space_pages := p2\<rparr>, Inr ())"
    "s' = s1\<lparr>space_tables := t', issued := issued s1 @ cs, space_pages := p2,
        addresses := (addresses s)[i := (addresses s ! i)\<lparr>addr_reservation := r', page_count := target\<rparr>]\<rparr>"
    "space_inv H s'" "\<And>P. keeps P s s'"
proof -
  define a where "a = addresses s ! i"
  define b where "b = page_count a"
  note I = space_invD [OF inv] and m = members_okD [OF space_invD(7) [OF inv i], folded a_def] and A = activity_okD [OF space_invD(8) [OF inv i], folded a_def]
  note spend = address_may_spend [OF inv i act]
  note B = materialize_batch_step [OF I(1) spend mat(1)] and G = batch_granted_pages [OF I(1) spend mat(1)]
  have len: "length hs = target - b" "b \<le> target" using B(2) mat(2) target by (simp_all add: a_def b_def)
  have cap: "target + reservation_pages r' \<le> page_capacity s" using A(3) act B(4) mat(2) by (simp add: a_def)
  have gr: "store_frame (space_pages s) p1" "\<And>l. valid_page p1 l \<longleftrightarrow> valid_page (space_pages s) l \<or> l \<in> set hs"
    "\<And>l. l \<in> set hs \<Longrightarrow> \<not> valid_page (space_pages s) l \<and> is_fresh (page_at p1 l)" "\<And>l. valid_page (space_pages s) l \<Longrightarrow> page_at p1 l = page_at (space_pages s) l"
    using G(1) by (auto simp: granted_def)
  have s1f: "space_pages s1 = p1" "space_tables s1 = space_tables s" "page_capacity s1 = page_capacity s" by (simp_all add: s1)
  have inR: "row \<in># space_rows (addresses s) + held_rows H" using address_row_in [OF i row] by simp
  note rl = row_live [OF inv inR]
  have hs1: "\<forall>l \<in> set hs. valid_page (space_pages s1) l \<and> device_replica (page_at (space_pages s1) l) \<noteq> None"
    using gr(2,3) by (simp add: s1f is_fresh_def)
  have st1: "store_inv (space_pages s1)" using gr(1) by (simp add: s1f store_frame_def)
  have capt: "page_capacity s1 = logical_page_capacity (space_tables s1)" using I(3) by (simp add: s1f slots_fit_def Let_def)
  have fits: "b + length hs \<le> page_capacity s1" using cap len by (simp add: s1f)
  have tab1: "tables_ok (space_tables s1)" "valid_row_handle (space_tables s1) (row_lease_handle row)" using I(2) rl(2) by (simp_all add: s1f)
  obtain t' cs where pub: "act_bind (ask_pages (\<lambda>p. physical_all p hs)) (\<lambda>ds. publish_row (row_lease_handle row) b ds) s1
      = (s1\<lparr>space_tables := t', issued := issued s1 @ cs\<rparr>, Inr ())"
    and t': "tables_ok t'" "logical_page_capacity t' = logical_page_capacity (space_tables s1)" "\<And>R. rows_live t' R = rows_live (space_tables s1) R"
    and here: "\<And>k. k < length hs \<Longrightarrow> host_shadow t' ! (nat (row_lease_number row) * page_capacity s1 + b + k) = frame_of (space_pages s1) (hs ! k)"
    and there: "\<And>n k. n < nat (table_row_count (space_tables s1)) \<Longrightarrow> k < page_capacity s1 \<Longrightarrow> n \<noteq> nat (row_lease_number row) \<or> k < b \<Longrightarrow>
       host_shadow t' ! (n * page_capacity s1 + k) = host_shadow (space_tables s1) ! (n * page_capacity s1 + k)"
    by (rule publish_pages [OF st1 tab1(1) capt rl(1) tab1(2) hs1 fits]) (assumption | rule that)+
  let ?s2 = "s1\<lparr>space_tables := t', issued := issued s1 @ cs\<rparr>"
  let ?f = "\<lambda>pg. pg\<lparr>active_references := active_references pg + 1\<rparr>"
  have hs2: "\<forall>l \<in> set hs. valid_page (space_pages ?s2) l \<and> active_references (page_at (space_pages ?s2) l) < references (page_at (space_pages ?s2) l)"
    using gr(2,3) by (simp add: s1f is_fresh_def)
  obtain p2 where loop: "act_for (\<lambda>l. on_pages (\<lambda>p. retain_active_reference p l)) hs ?s2 = (?s2\<lparr>space_pages := p2\<rparr>, Inr ())"
    and rel: "touched ?f (set hs) (space_pages ?s2) p2"
    by (rule touches_loop [OF retain_active_touches _ G(2) hs2]) (use st1 that in simp_all)
  have rel: "touched ?f (set hs) p1 p2" using rel by (simp add: s1f)
  note fr = pages_rel_frame [OF rel]
  define a' where "a' = a\<lparr>addr_reservation := r', page_count := target\<rparr>"
  define s' where "s' = ?s2\<lparr>space_pages := p2, addresses := (addresses s)[i := a']\<rparr>"
  have f: "space_pages s' = p2" "addresses s' = (addresses s)[i := a']" "page_capacity s' = page_capacity s" "space_tables s' = t'" "membership s' = membership s1"
    by (simp_all add: s'_def s1 membership_def fun_eq_iff)
  have P: "page_at p2 l = page_at (space_pages s) l" "valid_page p2 l" if "valid_page (space_pages s) l" for l
    using that gr(2,3,4) pages_relD [OF rel, of l] fr(6) by auto
  have N: "page_at p2 l = ?f (page_at p1 l)" "valid_page p2 l" "is_fresh (page_at p1 l)" "\<not> valid_page (space_pages s) l" if "l \<in> set hs" for l
    using that gr(2,3) pages_relD [OF rel, of l] fr(6) by auto
  have V: "valid_page p2 l \<longleftrightarrow> valid_page (space_pages s) l \<or> l \<in> set hs" for l using gr(2) fr(6) by simp
  have mem: "membership s' j k = (if j = i \<and> b \<le> k \<and> k < target then hs ! (k - b) else membership s j k)" if "k < page_capacity s" for j k
    using ms(2) [OF that] by (simp add: f a_def b_def)
  have tcap: "target \<le> page_capacity s" using cap by simp
  have others: "pages_of s' j = pages_of s j" if "j \<noteq> i" "j < length (addresses s)" for j
    using that members_okD(2) [OF I(7) [OF that(2)]] mem by (intro pages_of_frame) (simp_all add: f)
  have low: "membership s' i k = membership s i k" if "k < b" for k using mem [of k i] that len(2) tcap by simp
  have high: "membership s' i k = hs ! (k - b)" if "b \<le> k" "k < target" for k using mem [of k i] that tcap by simp
  have pi: "pages_of s' i = pages_of s i @ hs"
  proof (rule nth_equalityI)
    show "length (pages_of s' i) = length (pages_of s i @ hs)" using len i by (simp add: f a'_def b_def a_def)
    fix k
    assume "k < length (pages_of s' i)"
    then have k: "k < target" using i by (simp add: f a'_def)
    have "pages_of s' i ! k = membership s' i k" using k i by (intro pages_of_nth) (simp add: f a'_def)
    then show "pages_of s' i ! k = (pages_of s i @ hs) ! k"
      using k low high pages_of_nth [of k s i] by (auto simp: nth_append b_def a_def not_less)
  qed
  have us: "users s' l = (if l \<in> set hs then {i} else users s l)" for l
  proof -
    have "users s l = {}" if "l \<in> set hs" using N(4) [OF that] users_valid [OF inv, of l] by blast
    moreover have "i \<in> users s l" if "l \<in> set (pages_of s i)" using that i by (simp add: users_def)
    moreover have "i \<notin> users s l" if "l \<notin> set (pages_of s i)" using that by (simp add: users_def)
    ultimately show ?thesis using users_change [of s' s i l] others i by (auto simp: f pi)
  qed
  have aus: "active_users s' l = (if l \<in> set hs then {i} else active_users s l)" for l
  proof -
    have "addr_active (addresses s' ! j) = addr_active (addresses s ! j)" if "j < length (addresses s)" for j
      using that by (auto simp: f nth_update_at a'_def a_def)
    then show ?thesis unfolding active_users_def us using i act by (auto simp: users_def)
  qed
  have "space_inv H s'"
  proof (rule space_inv_change [OF inv i, where s' = s' and a = a'])
    show "store_frame (space_pages s) (space_pages s')" unfolding f(1) by (rule store_frame_trans [OF gr(1) store_frame_rel [OF rel]])
    show "valid_page (space_pages s') l \<and> committed_columns (page_at (space_pages s) l) \<le> committed_columns (page_at (space_pages s') l)
      \<and> (addr_active (addresses s ! j) \<longrightarrow> device_replica (page_at (space_pages s') l) = device_replica (page_at (space_pages s) l))"
      if "valid_page (space_pages s) l" for j l using P [OF that] by (simp add: f)
    show "shown s' w k = shown s w k"
      if w: "j \<noteq> i" "j < length (addresses s)" "addr_row (addresses s ! j) = Some w" "k < page_count (addresses s ! j)" for j w k
    proof -
      obtain R where R: "space_rows (addresses s) = add_mset row R" "\<And>j m. j < length (addresses s) \<Longrightarrow> j \<noteq> i \<Longrightarrow> addr_row (addresses s ! j) = Some m \<Longrightarrow> m \<in># R"
        by (rule space_rows_split [OF i row]) (use that in blast)
      have "w \<in># R" by (rule R(2) [OF w(2,1,3)])
      then have "row \<in># space_rows (addresses s) + held_rows H - {#w#}" by (cases "row = w") (auto simp: R(1) in_diff_count)
      from other_rows [OF inv w(2,3) this] members_okD(2) [OF I(7) [OF w(2)]] w(4)
      show ?thesis using there [of "nat (row_lease_number w)" k] by (simp add: shown_def f s1f)
    qed
    show "members_ok s' i"
    proof -
      have "set (pages_of s i) \<inter> set hs = {}" using m(4) N(4) by blast
      moreover have "membership s' i k = null_logical" if "target \<le> k" "k < page_capacity s" for k
        using mem [OF that(2), of i] m(5) [of k] that len(2) by (simp add: b_def)
      ultimately show ?thesis using m G(2) V i act tcap by (auto simp: members_ok_def Let_def pi f a'_def a_def)
    qed
    show "activity_ok s' i"
    proof -
      have "shown s' row k = frame_of p2 (membership s' i k)" if k: "k < target" for k
      proof (cases "k < b")
        case True
        have "row_lease_number row < table_row_count (space_tables s)" "0 \<le> row_lease_number row"
          using rl(2,3) by (simp_all add: valid_row_handle_iff)
        then have "shown s' row k = shown s row k" using there [of "nat (row_lease_number row)" k] True len(2) tcap by (simp add: shown_def f s1f)
        also have "\<dots> = frame_of (space_pages s) (membership s i k)" using A(5) act row True by (auto simp: b_def a_def)
        finally show ?thesis using low [OF True] P(1) [OF m(7)] True by (simp add: frame_of_def b_def)
      next
        case False
        then show ?thesis using here [of "k - b"] high [of k] k len N(1) [of "hs ! (k - b)"] by (simp add: shown_def f s1f frame_of_def add.assoc)
      qed
      moreover have "\<forall>l \<in> set (pages_of s' i). device_replica (page_at p2 l) \<noteq> None"
        using A(4) act P(1) m(4) N(1,3) by (auto simp: pi a_def is_fresh_def)
      ultimately show ?thesis using i act cap row B(1) A(2) gr(1) fr(3)
        by (simp add: activity_ok_def Let_def f a'_def a_def store_step_def store_frame_def)
    qed
    show "frontier_ok s' i"
    proof -
      have fo: "frontier_ok s i" using I(9) [OF i] by simp
      have "min page_size (committed_frontier a - k * page_size) \<le> committed_columns (page_at p2 (membership s' i k))" if k: "k < target" for k
      proof (cases "k < b")
        case True
        then show ?thesis using fo low [OF True] P(1) [OF m(7)] by (simp add: frontier_ok_def Let_def b_def a_def)
      next
        case False
        then have "committed_frontier a \<le> k * page_size" using fo by (simp add: frontier_ok_def Let_def b_def a_def)
        then show ?thesis by simp
      qed
      moreover have "committed_frontier a \<le> target * page_size" using fo len(2) by (simp add: frontier_ok_def Let_def b_def a_def)
      ultimately show ?thesis using fo i by (simp add: frontier_ok_def Let_def f a'_def a_def)
    qed
    show "counts_ok H s'"
      unfolding counts_ok_def Let_def
    proof (intro allI impI)
      fix l
      assume v': "valid_page (space_pages s') l"
      show "references (page_at (space_pages s') l) = card (users s' l) \<and> active_references (page_at (space_pages s') l) = card (active_users s' l) \<and>
          source_pins (page_at (space_pages s') l) = count (pins H) l \<and> (writer_references (page_at (space_pages s') l) \<noteq> 0 \<longrightarrow>
          references (page_at (space_pages s') l) = 1 \<and> active_references (page_at (space_pages s') l) = 1)"
      proof (cases "l \<in> set hs")
        case True
        have "l \<notin># pins H" using I(5) N(4) [OF True] by (auto simp: holds_ok_def)
        then show ?thesis using N(1,3) [OF True] True by (simp add: f us aus is_fresh_def count_eq_zero_iff)
      next
        case False
        then have v: "valid_page (space_pages s) l" using v' V by (simp add: f)
        show ?thesis using counts_okD [OF I(4) v] P(1) [OF v] False by (simp add: f us aus)
      qed
    qed
    have "writer_references (page_at p2 l) = 0" if "l \<in> frozen_pages H" for l
      using holds_frozen [OF I(5) that] P by simp
    then show "holds_ok H (space_pages s')"
      using I(5) P gr(1) fr(3) by (auto simp: holds_ok_def f store_frame_def)
    show "accounts_ok H s'"
      using I(6) reserved_update [OF i, of a'] rows_update [OF i, of a'] B(1) fr(3) t'(3)
      by (simp add: accounts_ok_def f a'_def a_def store_step_def s1f)
  qed (use t' mem ms(1) in \<open>simp_all add: f s'_def s1 a'_def a_def\<close>)
  moreover have "keeps P s s'" for P
  proof (rule keeps_change [where i = i and a = a'])
    show "k < page_count (addresses s' ! j) \<and> membership s' j k = membership s j k \<and>
        committed_columns (page_at (space_pages s) (membership s j k)) \<le> committed_columns (page_at (space_pages s') (membership s j k))"
      if jk: "j < length (addresses s)" "k < page_count (addresses s ! j)" for j k
    proof -
      have "k < page_capacity s" using members_okD(2) [OF I(7) [OF jk(1)]] jk(2) by simp
      then show ?thesis using mem [of k j] jk P(1) [OF members_okD(7) [OF I(7) [OF jk(1)] jk(2)]] len(2)
        by (auto simp: f nth_update_at a'_def b_def a_def)
    qed
  qed (simp_all add: f s'_def s1 a'_def a_def)
  ultimately show ?thesis using that [OF pub [unfolded b_def a_def] loop] by (simp add: s'_def a'_def a_def)
qed

lemma entitlement_exact:
  assumes inv: "space_inv_but x H s" and i: "i < length (addresses s)" and act: "addr_active (addresses s ! i)"
  shows "entitlement_of (addresses s ! i) = page_count (addresses s ! i) + reservation_pages (addr_reservation (addresses s ! i))"
    "entitlement_of (addresses s ! i) \<le> page_capacity s"
proof -
  note A = activity_okD [OF space_invD(8) [OF inv i]]
  have "page_capacity s \<le> i32_max" using space_invD(2,3) [OF inv] by (simp add: tables_ok_def table_inv_def slots_fit_def Let_def)
  then have "page_count (addresses s ! i) + reservation_pages (addr_reservation (addresses s ! i)) \<le> u32_max"
    using A(3) [OF act] by (simp add: i32_max_def u32_max_def)
  then show "entitlement_of (addresses s ! i) = page_count (addresses s ! i) + reservation_pages (addr_reservation (addresses s ! i))"
    using A(2) [OF act] by (simp add: entitlement_of_def reservation_valid_def width_simps)
  then show "entitlement_of (addresses s ! i) \<le> page_capacity s" using A(3) [OF act] by simp
qed

text \<open>The call as one step: either the batch is refused and nothing has changed, or every page of the
  target is mapped, resident and published.\<close>

lemma ensure_mapped_run:
  fixes tokens :: nat
  assumes inv: "space_inv H s" and v: "valid_address s h" and act: "addr_active (addresses s ! space_index h)"
  defines "i \<equiv> space_index h"
  defines "a \<equiv> addresses s ! i"
  defines "target \<equiv> pages_for_tokens tokens"
  assumes fits: "target \<le> entitlement_of a" "page_count a < target"
  defines "pred \<equiv> if page_count a = 0 then None else Some (membership s i (page_count a - 1))"
  shows "case materialize_batch (space_pages s) (addr_reservation a) (page_handles s i [page_count a..<target]) pred of
      Inl e \<Rightarrow> ensure_mapped_to_tokens h tokens s = (s, Inl e)
    | Inr _ \<Rightarrow> \<exists>s'. ensure_mapped_to_tokens h tokens s = (s', Inr ()) \<and> space_inv H s' \<and> (\<forall>P. keeps P s s') \<and>
        page_count (addresses s' ! i) = target \<and> addr_active (addresses s' ! i) \<and> valid_address s' h \<and>
        committed_frontier (addresses s' ! i) = committed_frontier a"
proof -
  have i: "i < length (addresses s)" unfolding i_def by (rule valid_addressD [OF v])
  have act': "addr_active a" using act by (simp add: a_def i_def)
  note I = space_invD [OF inv] and m = members_okD [OF space_invD(7) [OF inv i], folded a_def] and A = activity_okD [OF space_invD(8) [OF inv i], folded a_def]
  obtain row where row: "addr_row a = Some row" using A(5) [OF act'] by blast
  have req: "require_active s h = Inr a" using require_active_iff [OF inv] v act by (simp add: a_def i_def)
  have n: "page_count a + (target - page_count a) = target" using fits(2) by simp
  have cap: "target \<le> page_capacity s" using fits(1) entitlement_exact(2) [OF inv i] act' by (simp add: a_def)
  let ?ds = "page_handles s i [page_count a..<target]"
  have call: "ensure_mapped_to_tokens h tokens s =
     act_then (materialize_members i (page_count a) (target - page_count a) pred)
       (act_then (act_cleanup
          (\<lambda>s. act_bind (ask_pages (\<lambda>p. physical_all p (page_handles s i [page_count a..<target])))
            (\<lambda>ds. publish_row (row_lease_handle row) (page_count a) ds) s)
          (act_for (\<lambda>page s. act_then (dematerialize_member i (membership s i page)) (set_membership i page null_logical) s)
             [page_count a..<target]))
       (act_then (\<lambda>s. act_for (\<lambda>l. on_pages (\<lambda>p. retain_active_reference p l)) (page_handles s i [page_count a..<target]) s)
         (put_address i (\<lambda>a. a\<lparr>page_count := target\<rparr>)))) s"
    using req fits row by (simp add: ensure_mapped_to_tokens_def act_bind_def act_ask_def act_then_def Let_def i_def [symmetric] target_def [symmetric] pred_def
        del: put_address_run)
  show ?thesis
  proof (cases "materialize_batch (space_pages s) (addr_reservation a) ?ds pred")
    case (Inl e)
    then have "materialize_members i (page_count a) (target - page_count a) pred s = (s, Inl e)"
      by (simp add: materialize_members_def n a_def [symmetric])
    then show ?thesis using Inl by (simp add: call act_then_def act_bind_def)
  next
    case (Inr res)
    obtain p1 r' hs where res: "res = (p1, r', hs)" by (cases res)
    have mat: "materialize_batch (space_pages s) (addr_reservation (addresses s ! i)) ?ds pred = Inr (p1, r', hs)" using Inr res by (simp add: a_def)
    have len: "length hs = target - page_count a"
      using materialize_batch_step(2) [OF I(1) address_may_spend [OF inv i] mat] act' by (simp add: a_def page_handles_def)
    let ?a1 = "a\<lparr>addr_reservation := r'\<rparr>"
    define s0 where "s0 = s\<lparr>space_pages := p1, addresses := (addresses s)[i := ?a1]\<rparr>"
    have fit0: "slots_fit s0" by (rule slots_fit_fields [OF I(3)]) (auto simp: s0_def a_def nth_update_at)
    obtain ms where ms: "act_for (\<lambda>(page, h). set_membership i page h) (zip [page_count a..<page_count a + length hs] hs) s0 = (s0\<lparr>memberships := ms\<rparr>, Inr ())"
      "length ms = length (memberships s0)"
      "\<And>j k. k < page_capacity s0 \<Longrightarrow> membership (s0\<lparr>memberships := ms\<rparr>) j k
        = (if j = i \<and> page_count a \<le> k \<and> k < page_count a + length hs then hs ! (k - page_count a) else membership s0 j k)"
      by (rule set_members_run [OF fit0, of i "page_count a" hs]) (use i len n cap that in \<open>simp_all add: s0_def\<close>)
    define s1 where "s1 = s\<lparr>space_pages := p1, addresses := (addresses s)[i := (addresses s ! i)\<lparr>addr_reservation := r'\<rparr>], memberships := ms\<rparr>"
    have s1: "s1 = s0\<lparr>memberships := ms\<rparr>" by (simp add: s1_def s0_def a_def)
    have mm: "materialize_members i (page_count a) (target - page_count a) pred s = (s1, Inr ())"
      using mat [folded a_def] ms(1) by (simp add: materialize_members_def n len s1 act_then_def act_bind_def s0_def a_def [symmetric])
    have mem1: "membership s1 j k = (if j = i \<and> page_count (addresses s ! i) \<le> k \<and> k < target then hs ! (k - page_count (addresses s ! i)) else membership s j k)"
      if "k < page_capacity s" for j k
    proof -
      have "membership s0 = membership s" "page_capacity s0 = page_capacity s" "page_count a + length hs = target" using len n by (simp_all add: s0_def)
      then show ?thesis using ms(3) [of k j] that unfolding s1 a_def [symmetric] by simp
    qed
    have hs1: "page_handles u i [page_count a..<target] = hs" if "membership u = membership s1" for u
      using len mem1 cap that by (auto simp: page_handles_def a_def intro!: nth_equalityI)
    obtain t' cs p2 s' where g:
      "act_bind (ask_pages (\<lambda>p. physical_all p hs)) (\<lambda>ds. publish_row (row_lease_handle row) (page_count (addresses s ! i)) ds) s1
        = (s1\<lparr>space_tables := t', issued := issued s1 @ cs\<rparr>, Inr ())"
      "act_for (\<lambda>l. on_pages (\<lambda>p. retain_active_reference p l)) hs (s1\<lparr>space_tables := t', issued := issued s1 @ cs\<rparr>)
        = (s1\<lparr>space_tables := t', issued := issued s1 @ cs, space_pages := p2\<rparr>, Inr ())"
      "s' = s1\<lparr>space_tables := t', issued := issued s1 @ cs, space_pages := p2,
          addresses := (addresses s)[i := (addresses s ! i)\<lparr>addr_reservation := r', page_count := target\<rparr>]\<rparr>"
      "space_inv H s'" "\<And>P. keeps P s s'"
      by (rule grow_address [OF inv i _ _ _ mat _ s1_def _ mem1, where row = row]; (use act' row fits(2) n ms(2) that in \<open>simp_all add: a_def s0_def page_handles_def\<close>)?)
    have "ensure_mapped_to_tokens h tokens s = (s', Inr ())"
      using mm g(1,2) [folded a_def] g(3) i
      by (simp add: call act_then_def act_bind_def act_cleanup_def hs1) (simp add: s1_def)
    moreover have "valid_address s' h" using v i unfolding g(3) by (simp add: valid_address_def i_def s1_def)
    ultimately show ?thesis using Inr g(3,4,5) i act' by (auto simp: a_def)
  qed
qed

lemma ensure_mapped_step:
  assumes inv: "space_inv H s" and run: "ensure_mapped_to_tokens h tokens s = (s', r)"
  shows "space_inv H s'" "keeps P s s'" "benign r"
proof -
  have "space_inv H s' \<and> keeps P s s' \<and> benign r" for P
  proof (cases "require_active s h")
    case (Inl e)
    then have "s' = s" "r = Inl e" using run by (simp_all add: ensure_mapped_to_tokens_def act_bind_def act_ask_def)
    then show ?thesis using inv require_active_err [OF Inl] by (auto simp: keeps_refl)
  next
    case (Inr a)
    note ra = require_active_ok [OF inv Inr]
    consider (over) "pages_for_tokens tokens > entitlement_of a" | (mapped) "pages_for_tokens tokens \<le> entitlement_of a" "pages_for_tokens tokens \<le> page_count a"
      | (grow) "pages_for_tokens tokens \<le> entitlement_of a" "page_count a < pages_for_tokens tokens" by linarith
    then show ?thesis
    proof cases
      case over
      then show ?thesis using run inv Inr by (auto simp: ensure_mapped_to_tokens_def act_bind_def act_ask_def Let_def keeps_refl)
    next
      case mapped
      then show ?thesis using run inv Inr by (auto simp: ensure_mapped_to_tokens_def act_bind_def act_ask_def Let_def keeps_refl)
    next
      case grow
      let ?b = "materialize_batch (space_pages s) (addr_reservation a) (page_handles s (space_index h) [page_count a..<pages_for_tokens tokens])
        (if page_count a = 0 then None else Some (membership s (space_index h) (page_count a - 1)))"
      note e = ensure_mapped_run [OF inv ra(1) ra(4) [unfolded ra(3)] grow [unfolded ra(3)], folded ra(3)]
      show ?thesis
      proof (cases ?b)
        case (Inl x)
        then have "s' = s" "r = Inl x" using e run by simp_all
        moreover have "x = InvalidArgument \<or> x = LogicError"
          using materialize_batch_fault [OF space_invD(1) [OF inv] _ Inl] address_may_spend [OF inv ra(2)] ra(3,4) by simp
        ultimately show ?thesis using inv by (auto simp: keeps_refl)
      next
        case (Inr y)
        then show ?thesis using e run by auto
      qed
    qed
  qed
  then show "space_inv H s'" "keeps P s s'" "benign r" by blast+
qed

text \<open>Within the entitlement, and with page descriptors left, the call succeeds.\<close>

lemma ensure_mapped_succeeds:
  assumes inv: "space_inv H s" and act: "address_active s h"
    and fits: "pages_for_tokens tokens \<le> entitlement_of (address_at s h)"
    and free: "pages_for_tokens tokens - page_count (address_at s h) \<le> free_count (space_pages s)"
  obtains s' where "ensure_mapped_to_tokens h tokens s = (s', Inr ())" "space_inv H s'" "address_active s' h"
    "page_count (address_at s' h) = max (page_count (address_at s h)) (pages_for_tokens tokens)"
proof -
  define i where "i = space_index h"
  define a where "a = addresses s ! i"
  have v: "valid_address s h" and act': "addr_active a" using act by (auto simp: address_active_def address_at_def a_def i_def)
  have i: "i < length (addresses s)" unfolding i_def by (rule valid_addressD [OF v])
  note I = space_invD [OF inv] and m = members_okD [OF space_invD(7) [OF inv i], folded a_def] and A = activity_okD [OF space_invD(8) [OF inv i], folded a_def]
  have at: "address_at s h = a" by (simp add: address_at_def a_def i_def)
  show ?thesis
  proof (cases "pages_for_tokens tokens \<le> page_count a")
    case True
    have "require_active s h = Inr a" using require_active_iff [OF inv] v act' by (simp add: a_def i_def)
    then have "ensure_mapped_to_tokens h tokens s = (s, Inr ())"
      using True fits at by (simp add: ensure_mapped_to_tokens_def act_bind_def act_ask_def Let_def)
    then show ?thesis using that [of s] inv act True at by (simp add: max_def)
  next
    case False
    define b where "b = materialize_batch (space_pages s) (addr_reservation a) (page_handles s i [page_count a..<pages_for_tokens tokens])
        (if page_count a = 0 then None else Some (membership s i (page_count a - 1)))"
    have ent: "entitlement_of a = page_count a + reservation_pages (addr_reservation a)" "entitlement_of a \<le> page_capacity s"
      using entitlement_exact [OF inv i] act' by (simp_all add: a_def)
    have null: "logical_owner (membership s i k) = None" if "page_count a \<le> k" "k < pages_for_tokens tokens" for k
      using m(5) [of k] that fits ent(2) at by (simp add: null_logical_def)
    have "page_count a - 1 < page_count a" if "page_count a \<noteq> 0" using that by simp
    then have "\<exists>p r hs. b = Inr (p, r, hs)" unfolding b_def
      using null fits ent at free A(4) [OF act'] m(7) membership_in [of _ s i] address_may_spend [OF inv i] act'
      by (intro materialize_batch_granted [OF I(1)]) (auto simp: page_handles_def a_def)
    then obtain y where y: "b = Inr y" by blast
    have "addr_active (addresses s ! i)" "pages_for_tokens tokens \<le> entitlement_of a" "page_count a < pages_for_tokens tokens"
      using act' fits False at by (simp_all add: a_def)
    note e = ensure_mapped_run [OF inv v, of tokens, folded i_def, folded a_def, folded b_def, OF this [folded a_def]]
    obtain s' where s': "ensure_mapped_to_tokens h tokens s = (s', Inr ())" "space_inv H s'"
      "page_count (addresses s' ! i) = pages_for_tokens tokens" "addr_active (addresses s' ! i)" "valid_address s' h"
      using e y by auto
    then show ?thesis using that [of s'] False at by (simp add: address_active_def address_at_def i_def max_def)
  qed
qed

section \<open>Truncating an active address\<close>

lemma pop_page_step:
  assumes inv: "space_inv_but x H s" and i: "i < length (addresses s)" "x = None \<or> x = Some i" and act: "addr_active (addresses s ! i)"
    and k: "page_count (addresses s ! i) = Suc k" and can: "can_dematerialize (space_pages s) (membership s i k)"
  obtains s' r' where "pop_page i k s = (s', Inr ())" "space_inv_but (Some i) H s'" "keeps (pins H) s s'"
    "addresses s' = (addresses s)[i := (addresses s ! i)\<lparr>page_count := k, addr_reservation := r'\<rparr>]" "page_capacity s' = page_capacity s"
    "space_tables s' = space_tables s"
    "\<And>q. q < k \<Longrightarrow> membership s' i q = membership s i q"
    "\<And>m. valid_page (space_pages s) m \<Longrightarrow> m \<noteq> membership s i k \<Longrightarrow> valid_page (space_pages s') m \<and> page_at (space_pages s') m = page_at (space_pages s) m"
proof -
  define a where "a = addresses s ! i"
  define l where "l = membership s i k"
  note I = space_invD [OF inv] and m = members_okD [OF space_invD(7) [OF inv i(1)], folded a_def] and A = activity_okD [OF space_invD(8) [OF inv i(1)], folded a_def]
  have c: "valid_page (space_pages s) l" "references (page_at (space_pages s) l) = 1" "writer_references (page_at (space_pages s) l) = 1"
    "source_pins (page_at (space_pages s) l) = 0" "\<not> destination_pinned (page_at (space_pages s) l)" "host_replica (page_at (space_pages s) l) = None"
    "device_replica (page_at (space_pages s) l) \<noteq> None"
    using can by (auto simp: can_dematerialize_def Let_def l_def split: if_splits)
  have kin: "l \<in> set (pages_of s i)" unfolding l_def by (rule membership_in) (simp add: k)
  have cu: "card (users s l) = 1" "card (active_users s l) = 1" using counts_okD(1,2) [OF I(4) c(1)] counts_okD(4) [OF I(4) c(1)] c(2,3) by (metis zero_neq_one)+
  have mine: "users s l = {i}"
  proof -
    have "i \<in> users s l" using kin i(1) by (simp add: users_def)
    then show ?thesis using cu(1) by (auto simp: card_1_singleton_iff)
  qed
  have spend: "may_spend (space_pages s) (addr_reservation a)" using address_may_spend [OF inv i(1) act] by (simp add: a_def)
  define s1 where "s1 = (cleared i k (s\<lparr>addresses := (addresses s)[i := a\<lparr>page_count := k\<rparr>]\<rparr>))"
  have s1: "space_pages s1 = space_pages s" "addresses s1 = (addresses s)[i := a\<lparr>page_count := k\<rparr>]" "space_tables s1 = space_tables s"
    "page_capacity s1 = page_capacity s" "space_free s1 = space_free s" "space_free_count s1 = space_free_count s" "space_id s1 = space_id s"
    "length (memberships s1) = length (memberships s)"
    by (simp_all add: s1_def)
  have kc: "k < page_capacity s" using m(2) k by (simp add: a_def)
  have mem1: "membership s1 j q = (if j = i \<and> q = k then null_logical else membership s j q)" if "q < page_capacity s" for j q
    using cleared_membership [OF I(3) i(1) kc that, of j] by (simp add: s1_def)
  have aref: "active_references (page_at (space_pages s1) l) \<noteq> 0" "valid_page (space_pages s1) l"
    using counts_okD(2) [OF I(4) c(1)] cu(2) c(1) by (simp_all add: s1)
  obtain p1 where p1: "touched (\<lambda>pg. pg\<lparr>active_references := active_references pg - 1\<rparr>) {l} (space_pages s1) p1"
    "on_pages (\<lambda>p. release_active_reference p l) s1 = (s1\<lparr>space_pages := p1\<rparr>, Inr ())"
    by (rule touches_run [OF release_active_touches _ aref(2,1)]) (use I(1) s1(1) in simp_all)
  note fr1 = pages_rel_frame [OF p1(1)]
  have at1: "page_at p1 q = (if q = l then (page_at (space_pages s) l)\<lparr>active_references := 0\<rparr> else page_at (space_pages s) q)" "valid_page p1 q = valid_page (space_pages s) q"
    if "valid_page (space_pages s) q" for q
    using pages_relD [OF p1(1), of q] fr1(6) that counts_okD(2) [OF I(4) c(1)] cu(2) by (auto simp: s1)
  obtain d where d: "device_replica (page_at p1 l) = Some d" using c(1,7) at1(1) [OF c(1)] by auto
  have spend1: "may_spend p1 (addr_reservation a)" using spend fr1(3) by (simp add: may_spend_def s1)
  define r' where "r' = (addr_reservation a)\<lparr>reservation_pages := reservation_pages (addr_reservation a) + 1\<rparr>"
  have v1: "valid_page p1 l" "active_references (page_at p1 l) = 0" using c(1) at1 [OF c(1)] by simp_all
  obtain p2 where p2: "give_back_page p1 l (addr_reservation a) d = Inr (p2, r')" "returned {l} p1 p2"
    "reserved_pages (physical_pool p2) = reserved_pages (physical_pool p1) + 1"
    unfolding r'_def by (rule give_back_returned [OF fr1(1) v1(1) spend1 d v1(2)])
  have dem: "dematerialize_logical p1 l (addr_reservation a) = Inr (p2, r')"
    using p2(1) v1(1) d c at1(1) [OF c(1)] by (simp add: dematerialize_logical_def)
  define a' where "a' = a\<lparr>page_count := k, addr_reservation := r'\<rparr>"
  define s' where "s' = s1\<lparr>space_pages := p2, addresses := (addresses s)[i := a']\<rparr>"
  have e: "(cleared i k s)\<lparr>addresses := (addresses s)[i := a\<lparr>page_count := k\<rparr>]\<rparr> = s1" by (simp add: s1_def)
  have run: "pop_page i k s = (s', Inr ())"
    using p1(2) dem i(1)
    by (simp add: pop_page_def Let_def l_def [symmetric] a_def [symmetric] act_then_def act_bind_def set_membership_def
        cleared_def [symmetric] e dematerialize_member_def s1(2) s'_def a'_def)
  have R: "valid_page p2 q \<longleftrightarrow> valid_page (space_pages s) q \<and> q \<noteq> l" "valid_page p2 q \<Longrightarrow> page_at p2 q = page_at (space_pages s) q"
    "store_frame p1 p2" for q
    using p2(2) at1 fr1(6) by (auto simp: returned_def s1)
  have frame: "store_frame (space_pages s) p2" using store_frame_trans [OF store_frame_rel [OF p1(1)] R(3)] by (simp add: s1)
  have f: "space_pages s' = p2" "addresses s' = (addresses s)[i := a']" "page_capacity s' = page_capacity s" "space_tables s' = space_tables s"
    "membership s' = membership s1" "shown s' = shown s"
    by (simp_all add: s'_def s1) (simp_all add: s1_def cleared_def)
  have mem: "membership s' j q = (if j = i \<and> q = k then null_logical else membership s j q)" if "q < page_capacity s" for j q
    using mem1 [OF that] by (simp add: f)
  have others: "pages_of s' j = pages_of s j" if "j \<noteq> i" "j < length (addresses s)" for j
    using that members_okD(2) [OF I(7) [OF that(2)]] mem by (intro pages_of_frame) (simp_all add: f)
  have pi: "pages_of s i = pages_of s' i @ [l]"
    using mem kc i(1) k by (auto simp: pages_of_def page_handles_def f a'_def l_def)
  have us: "users s' q = (if q = l then {} else users s q)" for q
  proof -
    have "l \<notin> set (pages_of s' i)" using m(3) by (simp add: pi)
    then show ?thesis using users_change [of s' s i q] others i(1) mine by (auto simp: f users_def pi)
  qed
  have aus: "active_users s' q = (if q = l then {} else active_users s q)" for q
  proof -
    have "addr_active (addresses s' ! j) = addr_active (addresses s ! j)" if "j < length (addresses s)" for j
      using that by (auto simp: f nth_update_at a'_def a_def)
    then show ?thesis unfolding active_users_def us by (auto simp: users_def)
  qed
  have np: "l \<notin># pins H" using counts_okD(3) [OF I(4) c(1)] c(4) by (metis count_eq_zero_iff)
  have nt: "l \<notin># transfers H" using transfer_not_pinned(2) [OF inv, of l] mine by auto
  have "space_inv_but (Some i) H s'"
  proof (rule space_inv_change [OF inv i, where s' = s' and a = a'])
    show "store_frame (space_pages s) (space_pages s')" unfolding f(1) by (rule frame)
    show "valid_page (space_pages s') q \<and> committed_columns (page_at (space_pages s) q) \<le> committed_columns (page_at (space_pages s') q)
      \<and> (addr_active (addresses s ! j) \<longrightarrow> device_replica (page_at (space_pages s') q) = device_replica (page_at (space_pages s) q))"
      if q: "j \<noteq> i" "j < length (addresses s)" "q \<in> set (pages_of s j)" "valid_page (space_pages s) q" for j q
    proof -
      have "j \<in> users s q" using q(2,3) by (simp add: users_def)
      then have "q \<noteq> l" using mine q(1) by auto
      then show ?thesis using q(4) R(1,2) by (simp add: f)
    qed
    show "members_ok s' i"
    proof -
      have "membership s' i q = null_logical" if "k \<le> q" "q < page_capacity s" for q
        using mem [OF that(2), of i] m(5) [of q] that k by (cases "q = k") (simp_all add: a_def)
      then show ?thesis using m(1,2,3,4,6) i(1) act k R(1) by (auto simp: members_ok_def Let_def f a'_def a_def pi)
    qed
    show "activity_ok s' i"
    proof -
      obtain row where row: "addr_row a = Some row" "\<And>q. q < page_count a \<Longrightarrow> shown s row q = frame_of (space_pages s) (membership s i q)"
        using A(5) act by (auto simp: a_def)
      have low: "membership s' i q = membership s i q" "membership s i q \<noteq> l" "valid_page p2 (membership s i q)" if "q < k" for q
      proof -
        show "membership s' i q = membership s i q" using mem [of q i] that kc by simp
        then have "membership s i q \<in> set (pages_of s' i)" using that i(1) membership_in [of q s' i] by (simp add: f a'_def)
        then show ne: "membership s i q \<noteq> l" using m(3) by (auto simp: pi)
        show "valid_page p2 (membership s i q)" using R(1) ne m(7) [of q] that k by (simp add: a_def)
      qed
      have "shown s' row q = frame_of p2 (membership s' i q)" if "q < k" for q
        using row(2) [of q] low [OF that] R(2) that k by (simp add: f frame_of_def a_def)
      moreover have "device_replica (page_at p2 q) \<noteq> None" if "q \<in> set (pages_of s' i)" for q
      proof -
        have "q \<in> set (pages_of s i)" "q \<noteq> l" using that m(3) by (auto simp: pi)
        then show ?thesis using A(4) act R(1,2) m(4) by (simp add: a_def)
      qed
      moreover have "reservation_owner (addr_reservation a) = Some (pool_id (physical_pool (space_pages s)))"
        "Suc k + reservation_pages (addr_reservation a) \<le> page_capacity s" using A(2,3) act k by (simp_all add: a_def)
      ultimately show ?thesis using i(1) act row(1) frame
        by (simp add: activity_ok_def Let_def f a'_def a_def r'_def store_frame_def)
    qed
    show "counts_ok H s'"
      unfolding counts_ok_def Let_def
    proof (intro allI impI)
      fix q
      assume "valid_page (space_pages s') q"
      then have v: "valid_page (space_pages s) q" "q \<noteq> l" "page_at (space_pages s') q = page_at (space_pages s) q" using R(1,2) by (simp_all add: f)
      show "references (page_at (space_pages s') q) = card (users s' q) \<and> active_references (page_at (space_pages s') q) = card (active_users s' q) \<and>
          source_pins (page_at (space_pages s') q) = count (pins H) q \<and> (writer_references (page_at (space_pages s') q) \<noteq> 0 \<longrightarrow>
          references (page_at (space_pages s') q) = 1 \<and> active_references (page_at (space_pages s') q) = 1)"
        using counts_okD [OF I(4) v(1)] v(2,3) by (simp add: us aus)
    qed
    show "holds_ok H (space_pages s')"
    proof -
      have pid: "pool_id (physical_pool p2) = pool_id (physical_pool (space_pages s))" using frame by (simp add: store_frame_def)
      have kp: "valid_page p2 q" if "q \<in># pins H" for q using I(5) that np R(1) [of q] by (auto simp: holds_ok_def)
      have kt: "valid_page p2 q \<and> page_at p2 q = page_at (space_pages s) q" if "q \<in># transfers H" for q
      proof -
        have "valid_page (space_pages s) q" "q \<noteq> l" using I(5) that nt by (auto simp: holds_ok_def)
        then show ?thesis using R(1,2) [of q] by simp
      qed
      have "writer_references (page_at p2 q) = 0" if "q \<in> frozen_pages H" for q
      proof -
        have "q \<noteq> l" using frozen_pinned [OF that] np by blast
        then show ?thesis using holds_frozen [OF I(5) that] R(1,2) [of q] by simp
      qed
      then show ?thesis using I(5) pid kp kt by (intro holds_frame [OF I(5)]) (auto simp: holds_ok_def f)
    qed
    show "accounts_ok H s'"
      using I(6) reserved_update [OF i(1), of a'] rows_update [OF i(1), of a'] p2(3) fr1(3)
      by (simp add: accounts_ok_def f a'_def a_def r'_def s1)
  qed (use mem I(2) in \<open>simp_all add: f a'_def a_def, simp_all add: s'_def s1\<close>)
  moreover have "keeps (pins H) s s'"
  proof (rule keeps_change [where i = i and a = a'])
    show "q < page_count (addresses s' ! j) \<and> membership s' j q = membership s j q \<and>
        committed_columns (page_at (space_pages s) (membership s j q)) \<le> committed_columns (page_at (space_pages s') (membership s j q))"
      if jq: "j < length (addresses s)" "q < page_count (addresses s ! j)" "membership s j q \<in># pins H" for j q
    proof -
      have ne: "membership s j q \<noteq> l" using jq(3) np by auto
      then have "j = i \<Longrightarrow> q < k" using jq(2) k by (cases "q = k") (auto simp: l_def)
      moreover have "q < page_capacity s" using members_okD(2) [OF I(7) [OF jq(1)]] jq(2) by simp
      moreover have "valid_page p2 (membership s j q)" using R(1) ne members_okD(7) [OF I(7) [OF jq(1)] jq(2)] by simp
      ultimately show ?thesis using mem [of q j] R(2) jq(1,2) by (auto simp: f nth_update_at a'_def)
    qed
  qed (simp_all add: f a'_def a_def, simp_all add: s'_def s1)
  ultimately show ?thesis
  proof (rule that [OF run])
    show "addresses s' = (addresses s)[i := (addresses s ! i)\<lparr>page_count := k, addr_reservation := r'\<rparr>]" by (simp add: f a'_def a_def)
    show "membership s' i q = membership s i q" if "q < k" for q using mem [of q i] that kc by simp
    show "valid_page (space_pages s') q \<and> page_at (space_pages s') q = page_at (space_pages s) q"
      if "valid_page (space_pages s) q" "q \<noteq> membership s i k" for q using that R(1,2) by (simp add: f l_def)
  qed (simp_all add: f)
qed

lemma address_same: "page_count a = n \<Longrightarrow> a\<lparr>page_count := n\<rparr> = a"
  by (cases a) simp

lemma destructive_truncate_touches:
  "touches (cut_columns c) (\<lambda>pg. c \<le> committed_columns pg \<and> protected_columns pg \<le> c \<and> references pg = 1 \<and> writer_references pg = 1 \<and>
      source_pins pg = 0 \<and> \<not> destination_pinned pg \<and> host_replica pg = None)
     (\<lambda>l. on_pages (\<lambda>p. destructive_truncate p l c))"
  by (rule change_touches [OF destructive_truncate_def]) (auto simp: page_ok_def keeps_page_def cut_columns_def page_leases_def)

lemma pop_pages_step:
  assumes "space_inv_but (Some i) H s" "i < length (addresses s)" "addr_active (addresses s ! i)" "page_count (addresses s ! i) = n" "target \<le> n"
    and "\<forall>k. target \<le> k \<and> k < n \<longrightarrow> can_dematerialize (space_pages s) (membership s i k)"
  shows "\<exists>s' r'. act_for (pop_page i) (rev [target..<n]) s = (s', Inr ()) \<and> space_inv_but (Some i) H s' \<and> keeps (pins H) s s' \<and>
    addresses s' = (addresses s)[i := (addresses s ! i)\<lparr>page_count := target, addr_reservation := r'\<rparr>] \<and> page_capacity s' = page_capacity s \<and>
    (\<forall>k < target. membership s' i k = membership s i k \<and> valid_page (space_pages s') (membership s i k) \<and>
      page_at (space_pages s') (membership s i k) = page_at (space_pages s) (membership s i k))"
  using assms
proof (induction n arbitrary: s)
  case 0
  note m = members_okD(7) [OF space_invD(7) [OF 0(1,2)]]
  have "addresses s = (addresses s)[i := (addresses s ! i)\<lparr>page_count := 0, addr_reservation := addr_reservation (addresses s ! i)\<rparr>]"
    using 0(2,4) by (simp add: address_same)
  then show ?case using 0 by (intro exI [of _ s] exI [of _ "addr_reservation (addresses s ! i)"]) (simp add: keeps_refl)
next
  case (Suc n)
  note m = members_okD(7) [OF space_invD(7) [OF Suc.prems(1,2)]] and dist = members_okD(3) [OF space_invD(7) [OF Suc.prems(1,2)]]
  show ?case
  proof (cases "target = Suc n")
    case True
    then have "addresses s = (addresses s)[i := (addresses s ! i)\<lparr>page_count := target, addr_reservation := addr_reservation (addresses s ! i)\<rparr>]"
      using Suc.prems(2,4) True by (simp add: address_same)
    then show ?thesis using Suc.prems True m by (intro exI [of _ s] exI [of _ "addr_reservation (addresses s ! i)"]) (simp add: keeps_refl)
  next
    case False
    then have le: "target \<le> n" using Suc.prems(5) by simp
    have inj: "membership s i k \<noteq> membership s i n" if "k < n" for k
    proof -
      have "inj_on (membership s i) {0..<Suc n}" using dist Suc.prems(4) by (simp add: pages_of_def page_handles_def distinct_map del: upt_Suc)
      then show ?thesis using that inj_onD [of "membership s i" "{0..<Suc n}" k n] by auto
    qed
    obtain s1 r1 where s1: "pop_page i n s = (s1, Inr ())" "space_inv_but (Some i) H s1" "keeps (pins H) s s1"
      "addresses s1 = (addresses s)[i := (addresses s ! i)\<lparr>page_count := n, addr_reservation := r1\<rparr>]" "page_capacity s1 = page_capacity s"
      "\<And>q. q < n \<Longrightarrow> membership s1 i q = membership s i q"
      "\<And>m. valid_page (space_pages s) m \<Longrightarrow> m \<noteq> membership s i n \<Longrightarrow> valid_page (space_pages s1) m \<and> page_at (space_pages s1) m = page_at (space_pages s) m"
      by (rule pop_page_step [OF Suc.prems(1,2) _ Suc.prems(3,4)]) (use Suc.prems(6) le that in auto)
    have low: "valid_page (space_pages s1) (membership s i k) \<and> page_at (space_pages s1) (membership s i k) = page_at (space_pages s) (membership s i k)"
      if "k < n" for k using s1(7) [OF m inj] that Suc.prems(4) by simp
    have can1: "\<forall>k. target \<le> k \<and> k < n \<longrightarrow> can_dematerialize (space_pages s1) (membership s1 i k)"
    proof (intro allI impI)
      fix k
      assume k: "target \<le> k \<and> k < n"
      then have "can_dematerialize (space_pages s) (membership s i k)" using Suc.prems(6) by simp
      then show "can_dematerialize (space_pages s1) (membership s1 i k)" using low [of k] s1(6) [of k] k m [of k] Suc.prems(4)
        by (simp add: can_dematerialize_def)
    qed
    have pre: "i < length (addresses s1)" "addr_active (addresses s1 ! i)" "page_count (addresses s1 ! i) = n" using Suc.prems(2,3) by (simp_all add: s1(4))
    from Suc.IH [OF s1(2) pre le can1] obtain s' r' where s': "act_for (pop_page i) (rev [target..<n]) s1 = (s', Inr ())"
      "space_inv_but (Some i) H s'" "keeps (pins H) s1 s'"
      "addresses s' = (addresses s1)[i := (addresses s1 ! i)\<lparr>page_count := target, addr_reservation := r'\<rparr>]" "page_capacity s' = page_capacity s1"
      "\<forall>k < target. membership s' i k = membership s1 i k \<and> valid_page (space_pages s') (membership s1 i k) \<and>
        page_at (space_pages s') (membership s1 i k) = page_at (space_pages s1) (membership s1 i k)" by blast
    have "act_for (pop_page i) (rev [target..<Suc n]) s = (s', Inr ())"
      using s1(1) s'(1) le by (simp add: act_then_def act_bind_def)
    moreover have "addresses s' = (addresses s)[i := (addresses s ! i)\<lparr>page_count := target, addr_reservation := r'\<rparr>]"
      using s'(4) s1(4) Suc.prems(2) by simp
    ultimately show ?thesis using s'(2,5,6) keeps_trans [OF s1(3) s'(3)] s1(5,6) low le by (intro exI [of _ s'] exI [of _ r']) auto
  qed
qed

lemma truncate_active_step:
  assumes inv: "space_inv H s" and run: "truncate_active h frontier s = (s', r)"
    and ck: "checkpoint_frontier (address_at s h) \<le> frontier"
  shows "space_inv H s'" "keeps (pins H) s s'" "benign r"
proof -
  have "space_inv H s' \<and> keeps (pins H) s s' \<and> benign r"
    using run [unfolded truncate_active_def]
  proof (cases rule: act_askE)
    case (throws e)
    then show ?thesis using inv require_active_err [OF throws(1)] by (auto simp: keeps_refl)
  next
    case (goes a)
    define i where "i = space_index h"
    define target where "target = pages_for_tokens frontier"
    note ra = require_active_ok [OF inv goes(1), folded i_def]
    note I = space_invD [OF inv] and m = members_okD [OF space_invD(7) [OF inv ra(2)], folded ra(3)]
    have fo: "frontier_ok s i" using I(9) [OF ra(2)] by simp
    consider (bad) "frontier > committed_frontier a" | (same) "frontier = committed_frontier a" "target = page_count a"
      | (go) "frontier \<le> committed_frontier a" "\<not> (frontier = committed_frontier a \<and> target = page_count a)" by linarith
    then show ?thesis
    proof cases
      case bad
      then show ?thesis using goes(2) inv by (auto simp: Let_def keeps_refl)
    next
      case same
      then show ?thesis using goes(2) inv by (auto simp: Let_def target_def keeps_refl)
    next
      case go
      let ?l = "membership s i (target - 1)"
      let ?rest = "act_then (act_for (pop_page i) (rev [target..<page_count a]))
       (act_then (act_when (target \<noteq> 0)
          (\<lambda>s. on_pages (\<lambda>p. destructive_truncate p (membership s i (target - 1)) (tail_cut frontier)) s))
         (put_address i (\<lambda>a. a\<lparr>committed_frontier := frontier\<rparr>)))"
      from goes(2) go have "act_then (act_guard (\<lambda>s. \<not> list_all (can_dematerialize (space_pages s))
                                        (page_handles s i [target..<page_count a])) LogicError)
       (act_then (act_guard (\<lambda>s. target \<noteq> 0 \<and>
                    \<not> can_destructive_truncate (space_pages s) (membership s i (target - 1)) (tail_cut frontier)) LogicError) ?rest) s = (s', r)"
        by (auto simp: Let_def target_def i_def simp del: put_address_run split: if_splits)
      then show ?thesis
      proof (cases rule: act_guardE)
        case throws
        then show ?thesis using inv by (simp add: keeps_refl)
      next
        case dem: goes
        from dem(2) show ?thesis
        proof (cases rule: act_guardE)
          case throws
          then show ?thesis using inv by (simp add: keeps_refl)
        next
          case cut: goes
          have "committed_frontier a \<le> page_count a * page_size" using fo by (simp add: frontier_ok_def Let_def ra(3))
          then have tle: "target \<le> page_count a" unfolding target_def using go(1) pages_for_tokens_le by (metis le_trans)
          have can: "\<forall>k. target \<le> k \<and> k < page_count a \<longrightarrow> can_dematerialize (space_pages s) (membership s i k)"
            using dem(1) by (auto simp: list_all_iff page_handles_def)
          obtain s1 r1 where s1: "act_for (pop_page i) (rev [target..<page_count a]) s = (s1, Inr ())" "space_inv_but (Some i) H s1" "keeps (pins H) s s1"
            "addresses s1 = (addresses s)[i := a\<lparr>page_count := target, addr_reservation := r1\<rparr>]"
            "\<And>k. k < target \<Longrightarrow> membership s1 i k = membership s i k \<and> valid_page (space_pages s1) (membership s i k) \<and>
              page_at (space_pages s1) (membership s i k) = page_at (space_pages s) (membership s i k)"
            using pop_pages_step [OF space_inv_weaken [OF inv] ra(2) ra(4) [unfolded ra(3)] _ tle can] ra(3) by auto
          let ?f = "cut_columns (tail_cut frontier)"
          note st1 = space_invD(1) [OF s1(2)]
          have i1: "i < length (addresses s1)" using ra(2) by (simp add: s1(4))
          obtain p2 L where cutr: "act_when (target \<noteq> 0) (\<lambda>s. on_pages (\<lambda>p. destructive_truncate p (membership s i (target - 1)) (tail_cut frontier)) s) s1
              = (s1\<lparr>space_pages := p2\<rparr>, Inr ())" "touched ?f L (space_pages s1) p2"
            and L: "L \<subseteq> {?l}" "L \<noteq> {} \<Longrightarrow> target \<noteq> 0 \<and> references (page_at (space_pages s1) ?l) = 1 \<and> source_pins (page_at (space_pages s1) ?l) = 0"
            and col: "target \<noteq> 0 \<Longrightarrow> committed_columns (page_at p2 ?l) = tail_cut frontier"
          proof (cases "target = 0")
            case True
            then show ?thesis using that [of "space_pages s1" "{}"] touched_none [OF st1, of ?f] by (simp add: act_when_def)
          next
            case False
            then have lt: "target - 1 < target" by simp
            note same = s1(5) [OF lt]
            have c: "can_destructive_truncate (space_pages s) ?l (tail_cut frontier)" using cut(1) False by simp
            then have G: "tail_cut frontier \<le> committed_columns (page_at (space_pages s1) ?l) \<and> protected_columns (page_at (space_pages s1) ?l) \<le> tail_cut frontier
                \<and> references (page_at (space_pages s1) ?l) = 1 \<and> writer_references (page_at (space_pages s1) ?l) = 1 \<and> source_pins (page_at (space_pages s1) ?l) = 0
                \<and> \<not> destination_pinned (page_at (space_pages s1) ?l) \<and> host_replica (page_at (space_pages s1) ?l) = None"
              using same by (auto simp: can_destructive_truncate_def Let_def split: if_splits)
            obtain p2 where p2: "touched ?f {?l} (space_pages s1) p2" "on_pages (\<lambda>p. destructive_truncate p ?l (tail_cut frontier)) s1 = (s1\<lparr>space_pages := p2\<rparr>, Inr ())"
              using touches_run [OF destructive_truncate_touches st1, of ?l "tail_cut frontier"] G same by blast
            have "committed_columns (page_at p2 ?l) = tail_cut frontier" using pages_relD [OF p2(1), of ?l] same by (simp add: cut_columns_def)
            then show ?thesis using that [of p2 "{?l}"] p2 G False same by (simp add: act_when_def)
          qed
          let ?a = "a\<lparr>page_count := target, addr_reservation := r1, committed_frontier := frontier, checkpoint_frontier := checkpoint_frontier a\<rparr>"
          define s2 where "s2 = s1\<lparr>space_pages := p2, addresses := (addresses s1)[i := ?a]\<rparr>"
          have fo2: "frontier_ok s2 i"
          proof -
            have inj: "inj_on (membership s i) {0..<page_count a}" using m(3) by (simp add: pages_of_def page_handles_def distinct_map ra(3))
            have cols: "committed_columns (page_at p2 (membership s i k)) = committed_columns (page_at (space_pages s) (membership s i k))
                \<or> k = target - 1 \<and> committed_columns (page_at p2 (membership s i k)) = tail_cut frontier" if k: "k < target" for k
            proof (cases "membership s i k = ?l")
              case True
              then have "k = target - 1" using inj_onD [OF inj, of k "target - 1"] k tle by auto
              then show ?thesis using col k by auto
            next
              case False
              then have "membership s i k \<notin> L" using L(1) by blast
              then show ?thesis using pages_relD [OF cutr(2), of "membership s i k"] s1(5) [OF k] by simp
            qed
            have "checkpoint_frontier a \<le> frontier" using ck ra(3) by (simp add: address_at_def i_def)
            moreover have "min page_size (frontier - k * page_size) \<le> committed_columns (page_at p2 (membership s i k))" if k: "k < target" for k
              using cols [OF k]
            proof
              assume e: "committed_columns (page_at p2 (membership s i k)) = committed_columns (page_at (space_pages s) (membership s i k))"
              have "min page_size (frontier - k * page_size) \<le> min page_size (committed_frontier a - k * page_size)" using go(1) by (intro min.mono diff_le_mono) simp_all
              also have "\<dots> \<le> committed_columns (page_at (space_pages s) (membership s i k))" using fo k tle by (simp add: frontier_ok_def Let_def ra(3))
              finally show ?thesis using e by simp
            next
              assume t: "k = target - 1 \<and> committed_columns (page_at p2 (membership s i k)) = tail_cut frontier"
              have "0 < frontier" using k by (cases frontier) (simp_all add: target_def)
              then show ?thesis using tail_cut_min [of frontier k] t by (auto simp: target_def)
            qed
            ultimately show ?thesis using s1(5) i1 pages_for_tokens_cover [of frontier] by (simp add: frontier_ok_def Let_def s2_def target_def)
          qed
          have c: "space_inv H s2" "keeps (pins H) s1 s2"
          proof -
            have mine: "?l \<in> set (pages_of s1 i)" if "target \<noteq> 0"
              using ra(2) s1(4) s1(5) [of "target - 1"] that membership_in [of "target - 1" s1 i] by simp
            have hyp: "q \<in> set (pages_of s1 i) \<and> references (page_at (space_pages s1) q) = 1 \<and> source_pins (page_at (space_pages s1) q) = 0" if "q \<in> L" for q
              using that L mine by auto
            have fields: "references (?f pg) = references pg \<and> active_references (?f pg) = active_references pg \<and> source_pins (?f pg) = source_pins pg
                \<and> writer_references (?f pg) = writer_references pg \<and> device_replica (?f pg) = device_replica pg" for pg
              by (simp add: cut_columns_def)
            have a1: "?a = (addresses s1 ! i)\<lparr>committed_frontier := frontier, checkpoint_frontier := checkpoint_frontier a\<rparr>" using ra(2) by (simp add: s1(4))
            show "space_inv H s2" "keeps (pins H) s1 s2"
              by (rule space_inv_cut [OF s1(2) i1 cutr(2) hyp fields a1 s2_def fo2]; assumption)+
          qed
          have "put_address i (\<lambda>a. a\<lparr>committed_frontier := frontier\<rparr>) (s1\<lparr>space_pages := p2\<rparr>) = (s2, Inr ())"
            using ra(2) by (simp add: s2_def s1(4))
          then have "s' = s2" "r = Inr ()" using cut(2) s1(1) cutr(1) by (simp_all add: act_then_def act_bind_def del: put_address_run)
          then show ?thesis using c(1) keeps_trans [OF s1(3) c(2)] by simp
        qed
      qed
    qed
  qed
  then show "space_inv H s'" "keeps (pins H) s s'" "benign r" by blast+
qed

end
