(* ===== verification/Space_Adoption.thy ===== *)
theory Space_Adoption
  imports Space_Growth
begin

text \<open>
  An empty address becomes active on pages that others already map and on a transfer page nobody maps yet. This
  is how a prefix fork and an active snapshot end: the reservation and the row a transaction held become the
  address's own, the pages it pinned are released.
\<close>

section \<open>The pages\<close>

text \<open>What happens to a page when an address adopts the shared pages \<open>L\<close> and the transfer page \<open>t\<close> while the
  pins on \<open>ps\<close> are given up; the protected columns do not matter here.\<close>

definition adopted ::
  "LogicalKVPageHandle list \<Rightarrow> LogicalKVPageHandle option \<Rightarrow> LogicalKVPageHandle list \<Rightarrow> LogicalKVPageHandle \<Rightarrow> LogicalPage \<Rightarrow> LogicalPage \<Rightarrow> bool"
where
  "adopted L t ps l a b \<longleftrightarrow>
     references b = (if t = Some l then 1 else references a + of_bool (l \<in> set L)) \<and>
     active_references b = active_references a + of_bool (l \<in> set L \<or> t = Some l) \<and>
     source_pins b = source_pins a - of_bool (l \<in> set ps) \<and>
     writer_references b = (if t = Some l then 1 else writer_references a) \<and>
     device_replica b = device_replica a \<and> pending_device_replica b = pending_device_replica a \<and> host_replica b = host_replica a \<and>
     destination_pinned b = (destination_pinned a \<and> t \<noteq> Some l) \<and> committed_columns b = committed_columns a"

abbreviation adopted_pages :: "LogicalKVPageHandle list \<Rightarrow> LogicalKVPageHandle option \<Rightarrow> LogicalKVPageHandle list" where
  "adopted_pages L t \<equiv> L @ (case t of None \<Rightarrow> [] | Some l \<Rightarrow> [l])"

lemma in_adopted_pages: "l \<in> set (adopted_pages L t) \<longleftrightarrow> l \<in> set L \<or> t = Some l"
  by (auto split: option.splits)

section \<open>The address\<close>

abbreviation adopt_hold ::
  "LogicalKVPageHandle list \<Rightarrow> bool \<Rightarrow> nat \<Rightarrow> LogicalKVPageHandle option \<Rightarrow> DeviceKVPageReservation \<Rightarrow> KVExecutionRowLease \<Rightarrow> hold" where
  "adopt_hold ps b c t r row \<equiv> \<lparr>pinned = ps, frozen = b, transfer = map_option (\<lambda>l. (l, c)) t, held_pages = r, held_row = Some row\<rparr>"

text \<open>The states before and after, as far as the invariant looks at them.\<close>

definition adoption ::
  "KVAddressSpaceStore \<Rightarrow> KVAddressSpaceStore \<Rightarrow> nat \<Rightarrow> LogicalKVPageHandle list \<Rightarrow> LogicalKVPageHandle option \<Rightarrow> LogicalKVPageHandle list
   \<Rightarrow> nat \<Rightarrow> DeviceKVPageReservation \<Rightarrow> KVExecutionRowLease \<Rightarrow> bool" where
  "adoption s s' d L t ps f r row \<longleftrightarrow> (let a = addresses s ! d; N = adopted_pages L t in
     d < length (addresses s) \<and> addr_occupied a \<and> \<not> addr_active a \<and> page_count a = 0 \<and>
     addresses s' = (addresses s)[d := a\<lparr>page_count := length N, committed_frontier := f, addr_reservation := r, addr_row := Some row, addr_active := True\<rparr>] \<and>
     space_id s' = space_id s \<and> page_capacity s' = page_capacity s \<and> length (memberships s') = length (memberships s) \<and>
     space_free s' = space_free s \<and> space_free_count s' = space_free_count s \<and>
     (\<forall>j k. k < page_capacity s \<longrightarrow> membership s' j k = (if j = d \<and> k < length N then N ! k else membership s j k)) \<and>
     store_frame (space_pages s) (space_pages s') \<and> physical_pool (space_pages s') = physical_pool (space_pages s) \<and>
     (\<forall>l. valid_page (space_pages s') l = valid_page (space_pages s) l) \<and>
     (\<forall>l. valid_page (space_pages s) l \<longrightarrow> adopted L t ps l (page_at (space_pages s) l) (page_at (space_pages s') l)) \<and>
     tables_ok (space_tables s') \<and> logical_page_capacity (space_tables s') = logical_page_capacity (space_tables s) \<and>
     (\<forall>R. rows_live (space_tables s') R = rows_live (space_tables s) R) \<and>
     (\<forall>k < length N. shown s' row k = frame_of (space_pages s) (N ! k)) \<and>
     (\<forall>n k. n < nat (table_row_count (space_tables s)) \<longrightarrow> k < page_capacity s \<longrightarrow> n \<noteq> nat (row_lease_number row) \<longrightarrow>
        host_shadow (space_tables s') ! (n * page_capacity s + k) = host_shadow (space_tables s) ! (n * page_capacity s + k)))"

text \<open>What the shared pages and the frontier must be like.\<close>

definition adoptable ::
  "KVAddressSpaceStore \<Rightarrow> LogicalKVPageHandle list \<Rightarrow> LogicalKVPageHandle option \<Rightarrow> nat \<Rightarrow> DeviceKVPageReservation \<Rightarrow> bool" where
  "adoptable s L t f r \<longleftrightarrow> (let N = adopted_pages L t; p = space_pages s in
     distinct L \<and> length N + reservation_pages r \<le> page_capacity s \<and> f \<le> length N * page_size \<and>
     reservation_owner r = Some (pool_id (physical_pool p)) \<and>
     (\<forall>l \<in> set L. users s l \<noteq> {} \<and> device_replica (page_at p l) \<noteq> None \<and> writer_references (page_at p l) = 0) \<and>
     (\<forall>k < length N. min page_size (f - k * page_size) \<le> committed_columns (page_at p (N ! k))))"

lemma adoption_holds:
  assumes inv: "space_inv (add_mset (adopt_hold ps b c t r row) H) s" and ad: "adoption s s' d L t ps f r row" and ok: "adoptable s L t f r"
  shows "holds_ok H (space_pages s')"
proof -
  note I = space_invD [OF inv]
  have A: "adopted L t ps l (page_at (space_pages s) l) (page_at (space_pages s') l)" "valid_page (space_pages s') l"
    if "valid_page (space_pages s) l" for l using ad that by (simp_all add: adoption_def Let_def)
  have tail: "l \<notin># pins (add_mset (adopt_hold ps b c t r row) H) \<and> l \<notin># transfers H" if "t = Some l" for l
  proof
    show "l \<notin># pins (add_mset (adopt_hold ps b c t r row) H)" by (rule transfer_not_pinned(1) [OF inv]) (simp add: that)
    have "count (transfers (add_mset (adopt_hold ps b c t r row) H)) l \<le> 1" using I(5) by (simp only: holds_ok_def)
    then show "l \<notin># transfers H" by (simp add: that not_in_iff del: set_image_mset)
  qed
  have tr: "unpublished_transfer (page_at (space_pages s') l) \<and> q \<le> committed_columns (page_at (space_pages s') l)" if "(l, q) \<in># tails H" for l q
  proof -
    have h: "valid_page (space_pages s) l" "unpublished_transfer (page_at (space_pages s) l)" "q \<le> committed_columns (page_at (space_pages s) l)" "l \<in># transfers H"
      using holds_tail [OF I(5), of l q] that by force+
    have "users s l = {}" by (rule transfer_not_pinned(2) [OF inv]) (use h(4) in simp)
    then have "l \<notin> set L" using ok by (auto simp: adoptable_def Let_def)
    moreover have "t \<noteq> Some l" using tail h(4) by blast
    ultimately show ?thesis using A(1) [OF h(1)] h(2,3) by (simp add: adopted_def unpublished_transfer_def)
  qed
  have fz: "writer_references (page_at (space_pages s') l) = 0" if "l \<in> frozen_pages H" for l
  proof -
    have h: "valid_page (space_pages s) l" "writer_references (page_at (space_pages s) l) = 0" using holds_frozen [OF I(5), of l] that by simp_all
    have "t \<noteq> Some l" using tail frozen_pinned [OF that] by auto
    then show ?thesis using A(1) [OF h(1)] h(2) by (simp add: adopted_def)
  qed
  have v: "valid_page (space_pages s') l" if "l \<in># pins H" for l using I(5) A(2) that by (simp add: holds_ok_def)
  have tv: "valid_page (space_pages s') l" if "l \<in># transfers H" for l using I(5) A(2) that by (auto simp: holds_ok_def)
  have one: "count (transfers H) l \<le> 1" for l
  proof -
    have "count (transfers (add_mset (adopt_hold ps b c t r row) H)) l \<le> 1" using I(5) by (simp only: holds_ok_def)
    then show ?thesis by simp
  qed
  have res: "reservation_owner (held_pages h) = Some (pool_id (physical_pool (space_pages s'))) \<or> held_pages h = null_reservation" if "h \<in># H" for h
  proof -
    have "physical_pool (space_pages s') = physical_pool (space_pages s)" using ad by (simp add: adoption_def Let_def)
    then show ?thesis using I(5) that by (simp add: holds_ok_def)
  qed
  show ?thesis unfolding holds_ok_def
  proof (intro conjI ballI allI)
    show "unpublished_transfer (page_at (space_pages s') l)" if "l \<in># transfers H" for l using that tr by auto
    show "snd u \<le> committed_columns (page_at (space_pages s') (fst u))" if "u \<in># tails H" for u using that tr [of "fst u" "snd u"] by simp
  qed (use v tv fz one res in blast)+
qed

lemma adoption_fields:
  assumes "adoption s s' d L t ps f r row"
  shows "d < length (addresses s)" "addr_occupied (addresses s ! d)" "\<not> addr_active (addresses s ! d)" "page_count (addresses s ! d) = 0"
    "addresses s' = (addresses s)[d := (addresses s ! d)\<lparr>page_count := length (adopted_pages L t), committed_frontier := f, addr_reservation := r, addr_row := Some row, addr_active := True\<rparr>]"
    "space_id s' = space_id s" "page_capacity s' = page_capacity s" "length (memberships s') = length (memberships s)"
    "space_free s' = space_free s" "space_free_count s' = space_free_count s"
    "\<And>j k. k < page_capacity s \<Longrightarrow> membership s' j k = (if j = d \<and> k < length (adopted_pages L t) then adopted_pages L t ! k else membership s j k)"
    "store_frame (space_pages s) (space_pages s')" "physical_pool (space_pages s') = physical_pool (space_pages s)"
    "\<And>l. valid_page (space_pages s') l = valid_page (space_pages s) l"
    "\<And>l. valid_page (space_pages s) l \<Longrightarrow> adopted L t ps l (page_at (space_pages s) l) (page_at (space_pages s') l)"
    "tables_ok (space_tables s')" "logical_page_capacity (space_tables s') = logical_page_capacity (space_tables s)"
    "\<And>R. rows_live (space_tables s') R = rows_live (space_tables s) R"
    "\<And>k. k < length (adopted_pages L t) \<Longrightarrow> shown s' row k = frame_of (space_pages s) (adopted_pages L t ! k)"
    "\<And>n k. n < nat (table_row_count (space_tables s)) \<Longrightarrow> k < page_capacity s \<Longrightarrow> n \<noteq> nat (row_lease_number row) \<Longrightarrow>
        host_shadow (space_tables s') ! (n * page_capacity s + k) = host_shadow (space_tables s) ! (n * page_capacity s + k)"
  using assms unfolding adoption_def Let_def by blast+

lemma adoption_users:
  assumes inv: "space_inv_but x K s" and ad: "adoption s s' d L t ps f r row" and fits: "length (adopted_pages L t) \<le> page_capacity s"
  shows "pages_of s' d = adopted_pages L t" "j < length (addresses s) \<Longrightarrow> j \<noteq> d \<Longrightarrow> pages_of s' j = pages_of s j"
    "users s' l = (if l \<in> set (adopted_pages L t) then insert d (users s l) else users s l)"
    "active_users s' l = (if l \<in> set (adopted_pages L t) then insert d (active_users s l) else active_users s l)"
    "d \<notin> users s l" "d \<notin> active_users s l"
proof -
  note F = adoption_fields [OF ad] and I = space_invD [OF inv]
  have d: "addresses s' ! d = (addresses s ! d)\<lparr>page_count := length (adopted_pages L t), committed_frontier := f, addr_reservation := r, addr_row := Some row, addr_active := True\<rparr>"
    using F(1,5) by simp
  show here: "pages_of s' d = adopted_pages L t"
    using F(11) fits by (intro nth_equalityI) (auto simp: pages_of_nth d)
  have there: "pages_of s' j = pages_of s j" if "j < length (addresses s)" "j \<noteq> d" for j
    using that F(5,11) members_okD(2) [OF I(7) [OF that(1)]] by (intro pages_of_frame) simp_all
  then show "j < length (addresses s) \<Longrightarrow> j \<noteq> d \<Longrightarrow> pages_of s' j = pages_of s j" .
  have none: "pages_of s d = []" using F(4) by (simp add: pages_of_def page_handles_def)
  then show out: "d \<notin> users s l" "d \<notin> active_users s l" by (simp_all add: users_def active_users_def)
  show "users s' l = (if l \<in> set (adopted_pages L t) then insert d (users s l) else users s l)"
    using users_change [of s' s d l] F(1,5) there out(1) by (simp add: here)
  show "active_users s' l = (if l \<in> set (adopted_pages L t) then insert d (active_users s l) else active_users s l)"
    using active_users_change [of s' s d l] F(1,5) there out(2) by (simp add: here d)
qed

lemma adoption_counts:
  assumes inv: "space_inv (add_mset (adopt_hold ps b c t r row) H) s" and ad: "adoption s s' d L t ps f r row" and ok: "adoptable s L t f r"
    and ps: "distinct ps"
  shows "counts_ok H s'"
  unfolding counts_ok_def Let_def
proof (intro allI impI)
  fix l
  assume "valid_page (space_pages s') l"
  then have v: "valid_page (space_pages s) l" using adoption_fields(14) [OF ad] by simp
  note I = space_invD [OF inv] and c = counts_okD [OF space_invD(4) [OF inv] v] and A = adoption_fields(15) [OF ad v, unfolded adopted_def]
  have fits: "length (adopted_pages L t) \<le> page_capacity s" using ok by (simp add: adoptable_def Let_def)
  note us = adoption_users(3-6) [OF inv ad fits, of l]
  have pin: "source_pins (page_at (space_pages s) l) = of_bool (l \<in> set ps) + count (pins H) l"
    using c(3) ps by (simp add: distinct_count_atmost_1)
  show "references (page_at (space_pages s') l) = card (users s' l) \<and> active_references (page_at (space_pages s') l) = card (active_users s' l) \<and>
      source_pins (page_at (space_pages s') l) = count (pins H) l \<and> (writer_references (page_at (space_pages s') l) \<noteq> 0 \<longrightarrow>
      references (page_at (space_pages s') l) = 1 \<and> active_references (page_at (space_pages s') l) = 1)"
  proof (cases "t = Some l")
    case True
    have "users s l = {}" by (rule transfer_not_pinned(2) [OF inv]) (simp add: True)
    then have "active_users s l = {}" by (simp add: active_users_def)
    then show ?thesis using A True us c(2) \<open>users s l = {}\<close> pin by (simp add: in_adopted_pages)
  next
    case False
    have "l \<in> set L \<Longrightarrow> writer_references (page_at (space_pages s) l) = 0" using ok by (simp add: adoptable_def Let_def)
    then show ?thesis using A False us c pin by (cases "l \<in> set L") (simp_all add: in_adopted_pages)
  qed
qed

lemma adoption_frontier:
  assumes inv: "space_inv_but x K s" and ad: "adoption s s' d L t ps f r row" and ok: "adoptable s L t f r"
    and v: "\<And>l. l \<in> set (adopted_pages L t) \<Longrightarrow> valid_page (space_pages s) l" and x: "Some d \<noteq> x"
  shows "frontier_ok s' d"
proof -
  note F = adoption_fields [OF ad]
  have fits: "length (adopted_pages L t) \<le> page_capacity s" using ok by (simp add: adoptable_def Let_def)
  have old: "checkpoint_frontier (addresses s ! d) = 0"
    using space_invD(9) [OF inv F(1) x] F(4) by (simp add: frontier_ok_def Let_def)
  have "min page_size (f - k * page_size) \<le> committed_columns (page_at (space_pages s') (membership s' d k))" if k: "k < length (adopted_pages L t)" for k
  proof -
    have "membership s' d k = adopted_pages L t ! k" using F(11) [of k d] k fits by simp
    moreover have "committed_columns (page_at (space_pages s') (adopted_pages L t ! k)) = committed_columns (page_at (space_pages s) (adopted_pages L t ! k))"
      using F(15) [OF v [OF nth_mem [OF k]]] by (simp add: adopted_def)
    ultimately show ?thesis using ok k unfolding adoptable_def Let_def by metis
  qed
  then show ?thesis using ok F(1,5) old by (simp add: frontier_ok_def Let_def adoptable_def del: page_size_pos)
qed

lemma space_inv_adopt:
  assumes inv: "space_inv (add_mset (adopt_hold ps b c t r row) H) s" and ad: "adoption s s' d L t ps f r row" and ok: "adoptable s L t f r"
    and ps: "distinct ps"
  shows "space_inv H s'" "keeps P s s'"
proof -
  note F = adoption_fields [OF ad] and I = space_invD [OF inv]
  let ?N = "adopted_pages L t" and ?K = "add_mset (adopt_hold ps b c t r row) H"
  have fits: "length ?N + reservation_pages r \<le> page_capacity s" and own: "reservation_owner r = Some (pool_id (physical_pool (space_pages s)))"
    using ok by (simp_all add: adoptable_def Let_def)
  have fits': "length ?N \<le> page_capacity s" using fits by simp
  note us = adoption_users [OF inv ad fits']
  have tail: "valid_page (space_pages s) l \<and> device_replica (page_at (space_pages s) l) \<noteq> None \<and> users s l = {}" if "t = Some l" for l
    using holds_tail [OF I(5), of l c] transfer_not_pinned(2) [OF inv, of l] that by (simp add: unpublished_transfer_def)
  have L: "users s l \<noteq> {}" "device_replica (page_at (space_pages s) l) \<noteq> None" if "l \<in> set L" for l
    using ok that by (auto simp: adoptable_def Let_def)
  have v: "valid_page (space_pages s) l" "device_replica (page_at (space_pages s) l) \<noteq> None" if "l \<in> set ?N" for l
    using that tail L users_valid [OF inv] unfolding in_adopted_pages by blast+
  have dis: "distinct ?N"
    using ok tail L(1) by (auto simp: adoptable_def Let_def split: option.splits)
  have dev: "device_replica (page_at (space_pages s') l) = device_replica (page_at (space_pages s) l)"
    "committed_columns (page_at (space_pages s') l) = committed_columns (page_at (space_pages s) l)" if "valid_page (space_pages s) l" for l
    using F(15) [OF that] by (simp_all add: adopted_def)
  have row: "row \<in># held_rows ?K" by simp
  define a where "a = (addresses s ! d)\<lparr>page_count := length ?N, committed_frontier := f, addr_reservation := r, addr_row := Some row, addr_active := True\<rparr>"
  have a': "addresses s' ! d = a" "addresses s' = (addresses s)[d := a]" using F(1,5) by (simp_all add: a_def)
  have idle: "addr_row (addresses s ! d) = None" "addr_reservation (addresses s ! d) = null_reservation"
    using activity_okD(1) [OF I(8) [OF F(1)] F(3)] by simp_all
  have m: "members_ok s d" by (rule I(7) [OF F(1)])
  show "space_inv H s'"
  proof (rule space_inv_change [OF inv F(1), where s' = s' and a = a])
    show "membership s' j k = membership s j k" if "j \<noteq> d" "k < page_capacity s" for j k using F(11) [OF that(2), of j] that(1) by simp
    show "valid_page (space_pages s') l \<and> committed_columns (page_at (space_pages s) l) \<le> committed_columns (page_at (space_pages s') l)
      \<and> (addr_active (addresses s ! j) \<longrightarrow> device_replica (page_at (space_pages s') l) = device_replica (page_at (space_pages s) l))"
      if "valid_page (space_pages s) l" for j l using that dev F(14) by simp
    show "shown s' w k = shown s w k"
      if "j < length (addresses s)" "addr_row (addresses s ! j) = Some w" "k < page_count (addresses s ! j)" for j w k
      using F(20) [of "nat (row_lease_number w)" k] other_rows [OF inv that(1,2) held_row_apart [OF that(1,2) row]]
        members_okD(2) [OF I(7) [OF that(1)]] that(3) F(7) by (simp add: shown_def)
    show "members_ok s' d"
    proof -
      have "membership s' d k = null_logical" if "length ?N \<le> k" "k < page_capacity s" for k
        using F(4) F(11) [OF that(2), of d] members_okD(5) [OF m, of k] that by simp
      then show ?thesis using members_okD(1) [OF m] F(2,7) fits' dis v F(14) us(1) by (simp add: members_ok_def Let_def a'(1)) (simp add: a_def)
    qed
    show "activity_ok s' d"
    proof -
      have "shown s' row k = frame_of (space_pages s') (membership s' d k)" if "k < length ?N" for k
        using F(19) [OF that] F(11) [of k d] that fits' dev(1) [OF v(1) [OF nth_mem [OF that]]] by (simp add: frame_of_def)
      moreover have "\<forall>l \<in> set ?N. device_replica (page_at (space_pages s') l) \<noteq> None" using dev(1) v by simp
      ultimately show ?thesis using own fits F(7,13) us(1) by (simp add: activity_ok_def Let_def a'(1)) (simp add: a_def)
    qed
    show "frontier_ok s' d" by (rule adoption_frontier [OF inv ad ok v(1)]) simp_all
    show "counts_ok H s'" by (rule adoption_counts [OF inv ad ok ps])
    show "holds_ok H (space_pages s')" by (rule adoption_holds [OF inv ad ok])
    show "accounts_ok H s'"
    proof -
      have "space_reserved (addresses s') = space_reserved (addresses s) + reservation_pages r"
        using reserved_update [OF F(1), of a] idle by (simp add: a'(2) a_def)
      moreover have "space_rows (addresses s') = add_mset row (space_rows (addresses s))"
        using rows_update [OF F(1), of a] idle by (simp add: a'(2) a_def)
      ultimately show ?thesis using I(6) F(13,18) by (simp add: accounts_ok_def)
    qed
  qed (use F(7-10,12,16,17) a' in \<open>simp_all add: a_def\<close>)
  show "keeps P s s'"
  proof (rule keeps_change [where i = d and a = a])
    show "k < page_count (addresses s' ! j) \<and> membership s' j k = membership s j k \<and>
        committed_columns (page_at (space_pages s) (membership s j k)) \<le> committed_columns (page_at (space_pages s') (membership s j k))"
      if "j < length (addresses s)" "k < page_count (addresses s ! j)" for j k
    proof -
      have "j \<noteq> d" using that(2) F(4) by auto
      then show ?thesis using that F(5) F(11) [of k j] members_okD(2,7) [OF I(7) [OF that(1)]] dev(2) by simp
    qed
  qed (use F(6,7) a' in \<open>simp_all add: a_def\<close>)
qed

section \<open>Loops that fill an address\<close>

text \<open>Round \<open>k\<close> changes the page \<open>g k\<close> and makes it the \<open>k\<close>-th page of address \<open>d\<close>.\<close>

lemma member_loop:
  assumes Z: "touches f G Z" and B: "\<And>k l s. B k l s = act_then (Z l) (set_membership d k l) s"
    and fit: "slots_fit s" "d < length (addresses s)" "store_inv (space_pages s)"
    and n: "n \<le> page_capacity s" "distinct (map g [0..<n])" "\<And>k. k < n \<Longrightarrow> valid_page (space_pages s) (g k) \<and> G (page_at (space_pages s) (g k))"
  obtains p' ms where "act_for (\<lambda>k. B k (g k)) [0..<n] s = (s\<lparr>space_pages := p', memberships := ms\<rparr>, Inr ())"
    "touched f (g ` {..<n}) (space_pages s) p'" "length ms = length (memberships s)"
    "\<And>j k. k < page_capacity s \<Longrightarrow> membership (s\<lparr>space_pages := p', memberships := ms\<rparr>) j k = (if j = d \<and> k < n then g k else membership s j k)"
  using n
proof (induction n arbitrary: thesis)
  case 0
  show ?case by (rule 0(1) [where p' = "space_pages s" and ms = "memberships s"]) (use touched_none [OF fit(3)] in simp_all)
next
  case (Suc n)
  obtain p1 m1 where run1: "act_for (\<lambda>k. B k (g k)) [0..<n] s = (s\<lparr>space_pages := p1, memberships := m1\<rparr>, Inr ())"
    and rel1: "touched f (g ` {..<n}) (space_pages s) p1" and len1: "length m1 = length (memberships s)"
    and mem1: "\<And>j k. k < page_capacity s \<Longrightarrow> membership (s\<lparr>space_pages := p1, memberships := m1\<rparr>) j k = (if j = d \<and> k < n then g k else membership s j k)"
    by (rule Suc.IH) (use Suc.prems(2-4) in \<open>(simp | assumption)+\<close>)
  define s1 where "s1 = s\<lparr>space_pages := p1, memberships := m1\<rparr>"
  have new: "g n \<notin> g ` {..<n}" using Suc.prems(3) by auto
  have v: "valid_page (space_pages s) (g n)" "G (page_at (space_pages s) (g n))" using Suc.prems(4) [of n] by simp_all
  have G1: "store_inv (space_pages s1)" "valid_page (space_pages s1) (g n)" "G (page_at (space_pages s1) (g n))"
    using pages_rel_frame(1,6) [OF rel1] pages_relD [OF rel1 v(1)] v new by (simp_all add: s1_def)
  obtain p2 where p2: "touched f {g n} (space_pages s1) p2" "Z (g n) s1 = (s1\<lparr>space_pages := p2\<rparr>, Inr ())"
    by (rule touches_run [OF Z G1]) (rule that)
  define m2 where "m2 = m1[d * page_capacity s + n := g n]"
  let ?s = "s\<lparr>space_pages := p2, memberships := m2\<rparr>"
  have "B n (g n) s1 = (?s, Inr ())"
    unfolding B act_then_def act_bind_def p2(2) by (simp add: set_membership_def s1_def m2_def)
  then have run: "act_for (\<lambda>k. B k (g k)) [0..<Suc n] s = (?s, Inr ())"
    using run1 by (simp add: act_for_append act_then_def act_bind_def s1_def)
  have rel: "touched f (g ` {..<Suc n}) (space_pages s) p2"
  proof (rule pages_rel_trans [OF rel1])
    show "touched f {g n} p1 p2" using p2(1) by (simp add: s1_def)
  qed (use new in \<open>auto simp: lessThan_Suc\<close>)
  have fit1: "slots_fit (s1\<lparr>space_pages := p2\<rparr>)" by (rule slots_fit_fields [OF fit(1)]) (simp_all add: s1_def len1)
  have mem: "membership ?s j k = (if j = d \<and> k < Suc n then g k else membership s j k)" if "k < page_capacity s" for j k
  proof -
    have "membership ?s j k = (if j = d \<and> k = n then g n else membership (s1\<lparr>space_pages := p2\<rparr>) j k)"
      using membership_set [OF fit1, of d n k "g n" j] fit(2) Suc.prems(2) that by (simp add: s1_def m2_def)
    moreover have "membership (s1\<lparr>space_pages := p2\<rparr>) j k = membership (s\<lparr>space_pages := p1, memberships := m1\<rparr>) j k"
      by (simp add: membership_def s1_def)
    ultimately show ?thesis using mem1 [OF that, of j] by auto
  qed
  show ?case by (rule Suc.prems(1) [OF run rel _ mem]) (simp_all add: m2_def len1)
qed

end
