(* ===== verification/Space_Forks.thy ===== *)
theory Space_Forks
  imports Space_Adoption
begin

text \<open>
  Prefix forks of the address-space store: a fork prepared, its tail source settled, committed, aborted or
  destroyed keeps the invariant. A fork in flight holds pins on the pages it reads, a transfer page it will own,
  a page reservation and a table row; what it recorded when it was prepared stays true while it holds them.
\<close>

section \<open>Taking a tail page and pinning the source\<close>

lemma capacity_small:
  assumes "space_inv_but x H s"
  shows "page_capacity s \<le> u32_max"
proof -
  have "page_capacity s \<le> i32_max"
    using space_invD(2,3) [OF assms] by (simp add: tables_ok_def table_inv_def slots_fit_def Let_def)
  then show ?thesis by (simp add: i32_max_def u32_max_def)
qed

lemma transfer_errors:
  assumes inv: "store_inv p" and r: "may_spend p r" and run: "materialize_transfer_destination p r c = Inl e"
  shows "benign (Inl e :: unit res)"
proof (cases "reservation_pages r = 0")
  case True
  then show ?thesis using run by (auto simp: materialize_transfer_destination_def materialize_one_def Let_def split: if_splits)
next
  case False
  have "\<exists>p' l. materialize_one (physical_pool p) r = Inr (p', r\<lparr>reservation_pages := reservation_pages r - 1\<rparr>, l)"
    using materialize_one_grants [OF store_pool_inv [OF inv], of r] r False by (auto simp: may_spend_def)
  then show ?thesis using run by (auto simp: materialize_transfer_destination_def Let_def split: if_splits prod.splits)
qed

abbreviation tail_of :: "nat \<Rightarrow> LogicalKVPageHandle option \<Rightarrow> (LogicalKVPageHandle \<times> nat) option" where
  "tail_of c t \<equiv> map_option (\<lambda>l. (l, c)) t"

lemma tail_stage:
  assumes inv: "space_inv_but x (add_mset (res_hold r) H) s"
    and own: "reservation_owner r = Some (pool_id (physical_pool (space_pages s)))"
    and run: "act_bind (act_cleanup (if c = 0 then act_return (r, None)
        else on_pages_result (\<lambda>p. res_bind (materialize_transfer_destination p r c) (\<lambda>(p', r', l). Inr (p', (r', Some l))))) C) K s = (s', res)"
    and C: "C s = (sC, Inr ())"
  shows "(\<exists>e. res = Inl e \<and> benign (Inl e :: unit res) \<and> s' = sC)
    \<or> (\<exists>p' r' t. K (r', t) (s\<lparr>space_pages := p'\<rparr>) = (s', res)
        \<and> space_inv_but x (add_mset (res_hold r') (add_mset (tail_hold (tail_of c t)) H)) (s\<lparr>space_pages := p'\<rparr>)
        \<and> (\<forall>P. keeps P s (s\<lparr>space_pages := p'\<rparr>)) \<and> (t = None \<longleftrightarrow> c = 0) \<and> reservation_owner r' = reservation_owner r
        \<and> pool_id (physical_pool p') = pool_id (physical_pool (space_pages s))
        \<and> (\<forall>l. valid_page (space_pages s) l \<longrightarrow> valid_page p' l \<and> page_at p' l = page_at (space_pages s) l))"
proof (cases "c = 0")
  case True
  then have "K (r, None) s = (s', res)" using run by (simp add: act_bind_def act_cleanup_def)
  then show ?thesis using inv True by (intro disjI2 exI [of _ "space_pages s"] exI [of _ r] exI [of _ None])
    (simp add: keeps_refl add_mset_commute [of "res_hold r"])
next
  case False
  let ?M = "on_pages_result (\<lambda>p. res_bind (materialize_transfer_destination p r c) (\<lambda>(p', r', l). Inr (p', (r', Some l))))"
  have run': "act_bind (act_cleanup ?M C) K s = (s', res)" using run False by simp
  show ?thesis
  proof (cases "?M s")
    case M: (Pair s1 w)
    show ?thesis
    proof (cases w)
      case (Inl e)
      have "s1 = s" using take_tail_fails M Inl by blast
      moreover have "benign (Inl e :: unit res)"
        using M Inl transfer_errors [OF space_invD(1) [OF inv], of r c e] hold_may_spend [OF inv, of "res_hold r"] own
        by (cases "materialize_transfer_destination (space_pages s) r c") (auto simp: on_pages_result_def split: sum.splits)
      ultimately show ?thesis using run' M Inl C by (auto simp: act_bind_def act_cleanup_def)
    next
      case (Inr rt)
      obtain r' t where rt: "rt = (r', t)" by fastforce
      obtain l p' where T: "t = Some l" "space_inv_but x (add_mset (res_hold r') (add_mset (tail_hold (Some (l, c))) H)) s1"
        "\<And>P. keeps P s s1" "s1 = s\<lparr>space_pages := p'\<rparr>" "granted (\<lambda>_. is_transfer c) {l} (space_pages s) p'"
        "reservation_owner r' = reservation_owner r"
        using take_tail [OF inv own M [unfolded Inr rt]] by metis
      have "K (r', t) s1 = (s', res)" using run' M Inr rt by (simp add: act_bind_def act_cleanup_def)
      moreover have "\<forall>m. valid_page (space_pages s) m \<longrightarrow> valid_page p' m \<and> page_at p' m = page_at (space_pages s) m"
        "pool_id (physical_pool p') = pool_id (physical_pool (space_pages s))"
        using T(5) by (auto simp: granted_def store_frame_def)
      ultimately show ?thesis using T False
        by (intro disjI2 exI [of _ p'] exI [of _ r'] exI [of _ t]) simp
    qed
  qed
qed

lemma page_handles_take:
  "n \<le> page_count (addresses s ! i) \<Longrightarrow> page_handles s i [0..<n] = take n (pages_of s i)"
  by (simp add: pages_of_def page_handles_def take_map)

lemma page_handles_distinct:
  "members_ok s i \<Longrightarrow> n \<le> page_count (addresses s ! i) \<Longrightarrow> distinct (page_handles s i [0..<n])"
  using members_okD(3) [of s i] by (simp add: page_handles_take)

lemma in_page_handles: "l \<in> set (page_handles s i [0..<n]) \<longleftrightarrow> (\<exists>k < n. l = membership s i k)"
  by (auto simp: page_handles_def)

section \<open>What a fork in flight holds\<close>

definition fork_pinned :: "KVPrefixForkReservation \<Rightarrow> nat" where
  "fork_pinned v = (if tail_source_settled v then fork_full_pages v else pages_for_tokens (fork_frontier v))"

definition fork_pins :: "KVAddressSpaceStore \<Rightarrow> KVPrefixForkReservation \<Rightarrow> LogicalKVPageHandle list" where
  "fork_pins s v = (if fork_owner v = None then [] else page_handles s (space_index (fork_source v)) [0..<fork_pinned v])"

definition fork_hold :: "KVAddressSpaceStore \<Rightarrow> KVPrefixForkReservation \<Rightarrow> hold" where
  "fork_hold s v = \<lparr>pinned = fork_pins s v, frozen = True, transfer = tail_of (fork_tail_columns v) (fork_tail v),
     held_pages = fork_pages v, held_row = fork_row v\<rparr>"

definition fork_covered :: "KVAddressSpaceStore \<Rightarrow> KVPrefixForkReservation \<Rightarrow> nat \<Rightarrow> bool" where
  "fork_covered s v k \<longleftrightarrow> valid_address s (fork_source v) \<and> k < page_count (address_at s (fork_source v)) \<and>
     (if k < fork_full_pages v then page_size else fork_tail_columns v)
       \<le> committed_columns (page_at (space_pages s) (membership s (space_index (fork_source v)) k))"

definition fork_ok :: "KVAddressSpaceStore \<Rightarrow> KVPrefixForkReservation \<Rightarrow> bool" where
  "fork_ok s v \<longleftrightarrow> (if fork_owner v = None then fork_tail v = None else
     fork_owner v = Some (space_id s) \<and> fork_source v \<noteq> fork_destination v \<and> fork_frontier v \<noteq> 0 \<and>
     fork_full_pages v = fork_frontier v div page_size \<and> fork_tail_columns v = fork_frontier v mod page_size \<and>
     pages_for_tokens (fork_frontier v) \<le> fork_entitlement v \<and> fork_entitlement v \<le> page_capacity s \<and>
     (fork_tail v = None \<longleftrightarrow> fork_tail_columns v = 0) \<and> (tail_source_settled v \<longrightarrow> fork_tail_columns v \<noteq> 0) \<and>
     reservation_owner (fork_pages v) \<noteq> None \<and> fork_row v \<noteq> None \<and> (\<forall>k < fork_pinned v. fork_covered s v k))"

text \<open>Steps of others keep it, since they leave pinned pages where they are.\<close>

lemma fork_kept:
  assumes ok: "fork_ok s v" and k: "keeps P s s'" and P: "\<And>l. l \<in> set (fork_pins s v) \<Longrightarrow> l \<in># P"
  shows "fork_ok s' v" "fork_hold s' v = fork_hold s v"
proof -
  have same: "membership s' (space_index (fork_source v)) j = membership s (space_index (fork_source v)) j \<and> fork_covered s' v j"
    if "fork_owner v \<noteq> None" "j < fork_pinned v" for j
  proof -
    have c: "fork_covered s v j" using ok that by (simp add: fork_ok_def)
    have "membership s (space_index (fork_source v)) j \<in># P" using P that by (auto simp: fork_pins_def in_page_handles)
    then show ?thesis using c k by (fastforce simp: fork_covered_def keeps_def)
  qed
  show "fork_ok s' v" using ok same k by (auto simp: fork_ok_def keeps_def)
  show "fork_hold s' v = fork_hold s v" using same by (auto simp: fork_hold_def fork_pins_def page_handles_def)
qed

lemma fork_hold_iff:
  "space_inv_but x (add_mset (fork_hold s v) H) t \<longleftrightarrow> space_inv_but x (add_mset (res_hold (fork_pages v)) (add_mset (row_hold (fork_row v))
     (add_mset (tail_hold (tail_of (fork_tail_columns v) (fork_tail v))) (add_mset (pin_hold True (fork_pins s v)) H)))) t"
  unfolding fork_hold_def using split_hold join_hold by blast

section \<open>Preparing a fork\<close>

lemma prefix_stable_ok:
  assumes run: "prefix_stable s i frontier = Inr ()" and v: "\<And>k. k < pages_for_tokens frontier \<Longrightarrow> valid_page (space_pages s) (membership s i k)"
    and k: "k < pages_for_tokens frontier"
  shows "can_pin_source (space_pages s) (membership s i k)"
    "(if k < frontier div page_size then page_size else frontier mod page_size) \<le> committed_columns (page_at (space_pages s) (membership s i k))"
proof -
  let ?l = "membership s i k"
  have "(k, ?l) \<in> set (map (\<lambda>page. (page, membership s i page)) [0..<pages_for_tokens frontier])" using k by auto
  from check_pages_ok [OF run [unfolded prefix_stable_def Let_def] this]
  show "can_pin_source (space_pages s) ?l"
    "(if k < frontier div page_size then page_size else frontier mod page_size) \<le> committed_columns (page_at (space_pages s) ?l)"
    using v [OF k] by (auto simp: device_resident_def require_page_def page_field_def split: if_splits)
qed

lemma prefix_stable_err:
  assumes run: "prefix_stable s i frontier = Inl e" and v: "\<And>k. k < pages_for_tokens frontier \<Longrightarrow> valid_page (space_pages s) (membership s i k)"
  shows "e = LogicError"
  using run unfolding prefix_stable_def Let_def by (rule check_pages_err) (use v in auto)

lemma required_pages_there:
  assumes "space_inv H s" "valid_address s h" "f \<le> committed_frontier (addresses s ! space_index h)"
  shows "pages_for_tokens f \<le> page_count (addresses s ! space_index h)"
proof -
  have "committed_frontier (addresses s ! space_index h) \<le> page_count (addresses s ! space_index h) * page_size"
    using space_invD(9) [OF assms(1) valid_addressD [OF assms(2)]] by (simp add: frontier_ok_def Let_def)
  then show ?thesis using assms(3) pages_for_tokens_le by (meson le_trans)
qed

text \<open>The last stage, once the pages are reserved, the row is held and the tail page exists.\<close>

lemma pin_stage:
  assumes inv: "space_inv_but x H s" and i: "i < length (addresses s)" and n: "n \<le> page_count (addresses s ! i)"
    and ok: "\<And>k. k < n \<Longrightarrow> source_pins (page_at (space_pages s) (membership s i k)) \<noteq> u32_max
      \<and> \<not> destination_pinned (page_at (space_pages s) (membership s i k))
      \<and> (b \<longrightarrow> writer_references (page_at (space_pages s) (membership s i k)) = 0)"
  obtains p' where "(\<lambda>s. act_for (\<lambda>l. on_pages (\<lambda>p. pin_source p l)) (page_handles s i [0..<n]) s) s = (s\<lparr>space_pages := p'\<rparr>, Inr ())"
    "space_inv_but x (add_mset (pin_hold b (page_handles s i [0..<n])) H) (s\<lparr>space_pages := p'\<rparr>)" "\<And>P. keeps P s (s\<lparr>space_pages := p'\<rparr>)"
    "touched (\<lambda>pg. pg\<lparr>source_pins := source_pins pg + 1\<rparr>) (set (page_handles s i [0..<n])) (space_pages s) p'"
proof -
  note m = members_okD [OF space_invD(7) [OF inv i]]
  obtain s' p' where "act_for (\<lambda>l. on_pages (\<lambda>p. pin_source p l)) (page_handles s i [0..<n]) s = (s', Inr ())" "s' = s\<lparr>space_pages := p'\<rparr>"
    "space_inv_but x (add_mset (pin_hold b (page_handles s i [0..<n])) H) s'" "\<And>P. keeps P s s'"
    "touched (\<lambda>pg. pg\<lparr>source_pins := source_pins pg + 1\<rparr>) (set (page_handles s i [0..<n])) (space_pages s) p'"
  proof (rule pin_loop [OF inv page_handles_distinct [OF space_invD(7) [OF inv i] n], of b])
    show "valid_page (space_pages s) l \<and> source_pins (page_at (space_pages s) l) \<noteq> u32_max \<and> \<not> destination_pinned (page_at (space_pages s) l)
        \<and> (b \<longrightarrow> writer_references (page_at (space_pages s) l) = 0)" if "l \<in> set (page_handles s i [0..<n])" for l
      using that ok m(7) n by (auto simp: in_page_handles)
  qed (rule that)
  then show ?thesis using that by simp
qed

definition fork_made ::
  "KVAddressSpaceStore \<Rightarrow> hold multiset \<Rightarrow> KVAddressSpaceStore \<Rightarrow> KVPrefixForkReservation res \<Rightarrow> bool" where
  "fork_made s H s' r \<longleftrightarrow> benign r \<and> (\<forall>P. keeps P s s') \<and> (case r of Inl e \<Rightarrow> space_inv H s'
     | Inr v \<Rightarrow> space_inv (add_mset (fork_hold s' v) H) s' \<and> fork_ok s' v \<and> fork_owner v \<noteq> None)"

lemma prepare_fork_body:
  fixes src dst :: KVAddressSpaceHandle
  assumes inv: "space_inv H s" and va: "valid_address s src" and ne: "src \<noteq> dst" "f \<noteq> 0"
    and n: "pages_for_tokens f \<le> page_count (addresses s ! space_index src)" "pages_for_tokens f \<le> ent" "ent \<le> page_capacity s"
    and ok: "\<And>k. k < pages_for_tokens f \<Longrightarrow> can_pin_source (space_pages s) (membership s (space_index src) k) \<and>
      (if k < f div page_size then page_size else f mod page_size)
        \<le> committed_columns (page_at (space_pages s) (membership s (space_index src) k))"
    and run: "act_bind (on_pool (\<lambda>p. resize_reservation p (make_empty_reservation p) (if staged then 1 else ent - f div page_size))) (\<lambda>r.
        act_bind (act_cleanup (acquire_row m) (drop_reservation r)) (\<lambda>row.
        act_bind (act_cleanup
          (if f mod page_size = 0 then act_return (r, None)
           else on_pages_result (\<lambda>p. res_bind (materialize_transfer_destination p r (f mod page_size)) (\<lambda>(p', r', l).
                  Inr (p', (r', Some l)))))
          (act_then (drop_row (Some row)) (drop_reservation r))) (\<lambda>(r', tail_destination).
        act_then (act_cleanup
          (\<lambda>s. act_for (\<lambda>l. on_pages (\<lambda>p. pin_source p l)) (page_handles s (space_index src) [0..<pages_for_tokens f]) s)
          (act_then (drop_row (Some row)) (drop_reservation r')))
        (\<lambda>s. (s, Inr \<lparr>fork_owner = Some (space_id s), fork_source = src, fork_destination = dst,
               fork_frontier = f, fork_full_pages = f div page_size, fork_tail_columns = f mod page_size, fork_entitlement = ent,
               fork_pages = r', fork_row = Some row, fork_tail = tail_destination, staged_tail_release = staged,
               tail_source_settled = False\<rparr>))))) s = (s', res)"
  shows "fork_made s H s' res"
proof -
  define i where "i = space_index src"
  define n where "n = pages_for_tokens f"
  have i: "i < length (addresses s)" using valid_addressD [OF va] by (simp add: i_def)
  note ms = members_okD [OF space_invD(7) [OF inv i]]
  have small: "(if staged then 1 else ent - f div page_size) \<le> u32_max"
    using capacity_small [OF inv] assms(7) by (auto simp: u32_max_def)
  from reserve_and_acquire [OF inv small run]
  consider (err) e where "res = Inl e" "benign (Inl e :: unit res)" "space_inv H s'" "\<And>P. keeps P s s'"
    | (go) s1 r row where "act_bind (act_cleanup
          (if f mod page_size = 0 then act_return (r, None)
           else on_pages_result (\<lambda>p. res_bind (materialize_transfer_destination p r (f mod page_size)) (\<lambda>(p', r', l).
                  Inr (p', (r', Some l)))))
          (act_then (drop_row (Some row)) (drop_reservation r))) (\<lambda>(r', tail_destination).
        act_then (act_cleanup
          (\<lambda>s. act_for (\<lambda>l. on_pages (\<lambda>p. pin_source p l)) (page_handles s (space_index src) [0..<pages_for_tokens f]) s)
          (act_then (drop_row (Some row)) (drop_reservation r')))
        (\<lambda>s. (s, Inr \<lparr>fork_owner = Some (space_id s), fork_source = src, fork_destination = dst,
               fork_frontier = f, fork_full_pages = f div page_size, fork_tail_columns = f mod page_size, fork_entitlement = ent,
               fork_pages = r', fork_row = Some row, fork_tail = tail_destination, staged_tail_release = staged,
               tail_source_settled = False\<rparr>))) s1 = (s', res)"
      "space_inv (add_mset (res_hold r) (add_mset (row_hold (Some row)) H)) s1" "\<And>P. keeps P s s1"
      "reservation_owner r = Some (pool_id (physical_pool (space_pages s1)))"
      "addresses s1 = addresses s" "memberships s1 = memberships s" "page_capacity s1 = page_capacity s" "space_id s1 = space_id s"
      "store_pages (space_pages s1) = store_pages (space_pages s)" "store_id (space_pages s1) = store_id (space_pages s)"
    by auto
  then show ?thesis
  proof cases
    case err
    then show ?thesis by (simp add: fork_made_def benign_def)
  next
    case go
    obtain s2 where s2: "drop_row (Some row) s1 = (s2, Inr ())" "space_inv (add_mset (res_hold r) H) s2" "\<And>P. keeps P s1 s2"
      using drop_row_hold [of None "Some row" "add_mset (res_hold r) H" s1] go(2) by (metis add_mset_commute)
    obtain s3 where s3: "drop_reservation r s2 = (s3, Inr ())" "space_inv H s3" "\<And>P. keeps P s2 s3"
      using drop_hold [OF s2(2)] by metis
    have C: "act_then (drop_row (Some row)) (drop_reservation r) s1 = (s3, Inr ())"
      using s2(1) s3(1) by (simp add: act_then_def act_bind_def)
    have undone: "keeps P s s3" for P using keeps_trans [OF go(3) keeps_trans [OF s2(3) s3(3)]] .
    have pages1: "valid_page (space_pages s1) = valid_page (space_pages s)" "page_at (space_pages s1) = page_at (space_pages s)"
      using go(9,10) by (simp_all add: valid_page_def page_at_def fun_eq_iff)
    from tail_stage [OF go(2,4,1) C] consider (err) e where "res = Inl e" "benign (Inl e :: unit res)" "s' = s3"
      | (tail) p' r' t where "act_then (act_cleanup
          (\<lambda>s. act_for (\<lambda>l. on_pages (\<lambda>p. pin_source p l)) (page_handles s (space_index src) [0..<pages_for_tokens f]) s)
          (act_then (drop_row (Some row)) (drop_reservation r')))
        (\<lambda>s. (s, Inr \<lparr>fork_owner = Some (space_id s), fork_source = src, fork_destination = dst,
               fork_frontier = f, fork_full_pages = f div page_size, fork_tail_columns = f mod page_size, fork_entitlement = ent,
               fork_pages = r', fork_row = Some row, fork_tail = t, staged_tail_release = staged,
               tail_source_settled = False\<rparr>)) (s1\<lparr>space_pages := p'\<rparr>) = (s', res)"
        "space_inv (add_mset (res_hold r') (add_mset (tail_hold (tail_of (f mod page_size) t)) (add_mset (row_hold (Some row)) H))) (s1\<lparr>space_pages := p'\<rparr>)"
        "\<And>P. keeps P s1 (s1\<lparr>space_pages := p'\<rparr>)" "t = None \<longleftrightarrow> f mod page_size = 0" "reservation_owner r' = reservation_owner r"
        "\<And>l. valid_page (space_pages s1) l \<Longrightarrow> valid_page p' l \<and> page_at p' l = page_at (space_pages s1) l"
      by (auto simp del: page_size_pos)
    then show ?thesis
    proof cases
      case err
      then show ?thesis using s3(2) undone by (simp add: fork_made_def benign_def)
    next
      case tail
      let ?t = "s1\<lparr>space_pages := p'\<rparr>" and ?H = "add_mset (res_hold r') (add_mset (tail_hold (tail_of (f mod page_size) t)) (add_mset (row_hold (Some row)) H))"
      have mem: "membership ?t = membership s" using go(6,7) by (simp add: membership_def fun_eq_iff)
      have page: "valid_page p' (membership s i k)" "page_at p' (membership s i k) = page_at (space_pages s) (membership s i k)" if "k < n" for k
        using tail(6) [of "membership s i k"] ms(7) [of k] that assms(5) by (simp_all add: pages1 n_def i_def)
      obtain p2 where p2: "(\<lambda>s. act_for (\<lambda>l. on_pages (\<lambda>p. pin_source p l)) (page_handles s i [0..<n]) s) ?t = (?t\<lparr>space_pages := p2\<rparr>, Inr ())"
        "space_inv (add_mset (pin_hold True (page_handles ?t i [0..<n])) ?H) (?t\<lparr>space_pages := p2\<rparr>)" "\<And>P. keeps P ?t (?t\<lparr>space_pages := p2\<rparr>)"
        "touched (\<lambda>pg. pg\<lparr>source_pins := source_pins pg + 1\<rparr>) (set (page_handles ?t i [0..<n])) (space_pages ?t) p2"
      proof (rule pin_stage [OF tail(2), of i n True])
        show "i < length (addresses ?t)" "n \<le> page_count (addresses ?t ! i)" using i assms(5) go(5) by (simp_all add: n_def i_def)
        show "source_pins (page_at (space_pages ?t) (membership ?t i k)) \<noteq> u32_max \<and> \<not> destination_pinned (page_at (space_pages ?t) (membership ?t i k))
            \<and> (True \<longrightarrow> writer_references (page_at (space_pages ?t) (membership ?t i k)) = 0)" if "k < n" for k
          using ok [of k] page [OF that] that unfolding mem by (auto simp: can_pin_source_def Let_def n_def i_def split: if_splits)
      qed (rule that)
      define s4 where "s4 = ?t\<lparr>space_pages := p2\<rparr>"
      define v where "v = \<lparr>fork_owner = Some (space_id s4), fork_source = src, fork_destination = dst,
               fork_frontier = f, fork_full_pages = f div page_size, fork_tail_columns = f mod page_size, fork_entitlement = ent,
               fork_pages = r', fork_row = Some row, fork_tail = t, staged_tail_release = staged,
               tail_source_settled = False\<rparr>"
      have s': "s' = s4" "res = Inr v"
        using tail(1) p2(1) by (auto simp: act_then_def act_bind_def act_cleanup_def i_def n_def s4_def v_def)
      have k: "keeps P s s4" for P
        unfolding s4_def by (rule keeps_trans [OF go(3) keeps_trans [OF tail(3) p2(3)]])
      have pins: "fork_pins s4 v = page_handles ?t i [0..<n]"
        by (simp add: fork_pins_def fork_pinned_def v_def s4_def n_def i_def page_handles_def)
      have "space_inv (add_mset (fork_hold s4 v) H) s4"
      proof -
        have "space_inv (add_mset (pin_hold True (fork_pins s4 v)) ?H) s4" using p2(2) [folded s4_def] by (simp only: pins)
        then show ?thesis unfolding fork_hold_iff by (simp add: v_def add_mset_commute)
      qed
      moreover have "fork_ok s4 v"
      proof -
        have "fork_covered s4 v k" if "k < n" for k
        proof -
          have "committed_columns (page_at p2 (membership s i k)) = committed_columns (page_at (space_pages s) (membership s i k))"
            using pages_relD [OF p2(4), of "membership s i k"] page [OF that] by simp
          then show ?thesis using va ok [of k] that assms(5) mem go(5,7,8)
            by (simp add: fork_covered_def v_def s4_def valid_address_def address_at_def n_def i_def split: if_splits)
        qed
        then show ?thesis using ne n(2,3) tail(4,5) go(4,7) by (simp add: fork_ok_def v_def fork_pinned_def n_def s4_def)
      qed
      ultimately show ?thesis using k by (simp add: fork_made_def s' v_def)
    qed
  qed
qed

lemma fork_guards:
  assumes "act_bind (act_ask (\<lambda>s. require_address s src)) (\<lambda>source.
     act_bind (act_ask (\<lambda>s. require_address s dst)) (\<lambda>destination.
       act_then (act_guard (\<lambda>s. \<not> idle_address source) LogicError)
       (act_then (act_guard (\<lambda>s. \<not> idle_address destination \<or> page_count destination \<noteq> 0
                                 \<or> committed_frontier destination \<noteq> 0) LogicError)
       (act_then (act_guard (\<lambda>s. f = 0 \<or> f > committed_frontier source) LogicError)
       (act_then (act_guard (\<lambda>s. ent < n \<or> ent > page_capacity s) InvalidArgument)
       (act_then (act_guard (\<lambda>s. b) InvalidArgument) (act_then (act_ask Q) K))))))) s = (s', r)"
  shows "(\<exists>e. s' = s \<and> r = Inl e \<and> (e = LogicError \<or> e = InvalidArgument)) \<or>
    valid_address s src \<and> src \<noteq> dst \<and> f \<noteq> 0 \<and> f \<le> committed_frontier (addresses s ! space_index src) \<and> n \<le> ent \<and> ent \<le> page_capacity s \<and>
    ((\<exists>e. s' = s \<and> r = Inl e \<and> Q s = Inl e) \<or> (Q s = Inr () \<and> K s = (s', r)))"
  using assms
  by (auto simp: act_bind_def act_then_def act_ask_def act_guard_def require_address_def address_at_def split: if_splits sum.splits)

lemma prepare_prefix_fork_step:
  assumes inv: "space_inv H s" and run: "prepare_prefix_fork src dst f ent m staged s = (s', r)"
  shows "fork_made s H s' r"
proof -
  have stay: "fork_made s H s' r" if "s' = s" "r = Inl e" "e = LogicError \<or> e = InvalidArgument" for e
    using that inv by (auto simp: keeps_refl fork_made_def)
  from fork_guards [OF run [unfolded prepare_prefix_fork_def Let_def]] show ?thesis
  proof (elim disjE exE conjE, goal_cases)
    case (3 e)
    note there = required_pages_there [OF inv 3(1,4)] and m = members_okD(7) [OF space_invD(7) [OF inv valid_addressD [OF 3(1)]]]
    show ?thesis by (rule stay [OF 3(7,8) disjI1 [OF prefix_stable_err [OF 3(9)]]]) (use m there in simp)
  next
    case 4
    note there = required_pages_there [OF inv 4(1,4)] and m = members_okD(7) [OF space_invD(7) [OF inv valid_addressD [OF 4(1)]]]
    show ?thesis
    proof (rule prepare_fork_body [OF inv 4(1-3) there 4(5,6) _ 4(8)])
      fix k
      assume "k < pages_for_tokens f"
      then show "can_pin_source (space_pages s) (membership s (space_index src) k) \<and>
          (if k < f div page_size then page_size else f mod page_size)
            \<le> committed_columns (page_at (space_pages s) (membership s (space_index src) k))"
        using prefix_stable_ok [OF 4(7)] m there by (meson order_less_le_trans)
    qed
  qed (use stay in auto)
qed

section \<open>Settling and completing a staged fork\<close>

lemma require_fork_ok:
  assumes "require_prefix_fork s v = Inr ()"
  shows "fork_owner v = Some (space_id s)" "valid_address s (fork_source v)" "valid_address s (fork_destination v)"
  using assms by (auto simp: require_prefix_fork_def split: if_splits)

lemma act_then_askE:
  assumes "act_then (act_ask q) k s = (s', r)"
  obtains (throws) e where "q s = Inl e" "s' = s" "r = Inl e" | (goes) "q s = Inr ()" "k s = (s', r)"
  using assms unfolding act_then_def by (rule act_askE) auto

lemma settled_pins:
  assumes "fork_ok s v" "fork_owner v \<noteq> None" "\<not> tail_source_settled v" "fork_tail_columns v \<noteq> 0"
  shows "fork_pins s v = fork_pins s (v\<lparr>tail_source_settled := True\<rparr>) @ [membership s (space_index (fork_source v)) (fork_full_pages v)]"
proof -
  have "pages_for_tokens (fork_frontier v) = Suc (fork_full_pages v)"
    using assms pages_for_tokens_split [of "fork_frontier v"] by (simp add: fork_ok_def)
  then show ?thesis using assms(2,3) by (auto simp: fork_pins_def fork_pinned_def page_handles_def)
qed

lemma unpin_part:
  assumes inv: "space_inv_but x (add_mset (pin_hold b (ps @ [l])) H) s"
  obtains p' where "on_pages (\<lambda>p. unpin_source p l) s = (s\<lparr>space_pages := p'\<rparr>, Inr ())"
    "space_inv_but x (add_mset (pin_hold b ps) H) (s\<lparr>space_pages := p'\<rparr>)" "\<And>P. keeps P s (s\<lparr>space_pages := p'\<rparr>)"
    "touched (\<lambda>pg. pg\<lparr>source_pins := source_pins pg - 1\<rparr>) {l} (space_pages s) p'"
proof -
  have one: "distinct [l]" by simp
  have two: "space_inv_but x (add_mset (pin_hold b [l]) (add_mset (pin_hold b ps) H)) s"
    by (rule space_inv_holds [OF inv]) (use space_invD(5) [OF inv] in \<open>auto simp: same_holds_def holds_ok_def\<close>)
  obtain s' p' where
    run: "act_for (\<lambda>l. on_pages (\<lambda>p. unpin_source p l)) [l] s = (s', Inr ())" and s': "s' = s\<lparr>space_pages := p'\<rparr>"
    and rest: "space_inv_but x (add_mset (pin_hold b ps) H) s'" "\<And>P. keeps P s s'"
      "touched (\<lambda>pg. pg\<lparr>source_pins := source_pins pg - 1\<rparr>) (set [l]) (space_pages s) p'"
    by (rule unpin_loop [OF two one unpin_source_touches]) (rule that)
  have "on_pages (\<lambda>p. unpin_source p l) s = (s\<lparr>space_pages := p'\<rparr>, Inr ())"
    using run s' by (auto simp: act_then_def act_bind_def split: prod.splits sum.splits)
  then show ?thesis using that rest by (simp add: s')
qed

lemma settle_prefix_fork_step:
  assumes inv: "space_inv (add_mset (fork_hold s v) H) s" and ok: "fork_ok s v"
    and run: "settle_prefix_fork_tail_source v s = (s', r)"
  shows "benign r" "keeps P s s'" "r = Inl e \<Longrightarrow> s' = s"
    "r = Inr v' \<Longrightarrow> space_inv (add_mset (fork_hold s' v') H) s' \<and> fork_ok s' v' \<and> v' = v\<lparr>tail_source_settled := True\<rparr>"
proof -
  let ?l = "membership s (space_index (fork_source v)) (fork_full_pages v)" and ?v = "v\<lparr>tail_source_settled := True\<rparr>"
  have "benign r \<and> keeps P s s' \<and> (\<forall>e. r = Inl e \<longrightarrow> s' = s) \<and>
    (\<forall>v'. r = Inr v' \<longrightarrow> space_inv (add_mset (fork_hold s' v') H) s' \<and> fork_ok s' v' \<and> v' = ?v)" for P
    using run [unfolded settle_prefix_fork_tail_source_def]
  proof (cases rule: act_then_askE)
    case (throws e)
    then show ?thesis by (auto simp: require_prefix_fork_def keeps_refl split: if_splits)
  next
    case req: goes
    from req(2) show ?thesis
    proof (cases rule: act_guardE)
      case throws
      then show ?thesis by (simp add: keeps_refl)
    next
      case staged: goes
      from staged(2) [unfolded Let_def] show ?thesis
      proof (cases rule: act_guardE)
        case throws
        then show ?thesis by (simp add: keeps_refl)
      next
        case goes
        have own: "fork_owner v \<noteq> None" using require_fork_ok [OF req(1)] by simp
        have pins: "fork_pins s v = fork_pins s ?v @ [?l]" using settled_pins [OF ok own] staged(1) by simp
        have split: "space_inv (add_mset (pin_hold True (fork_pins s ?v @ [?l])) (add_mset (res_hold (fork_pages v)) (add_mset (row_hold (fork_row v))
            (add_mset (tail_hold (tail_of (fork_tail_columns v) (fork_tail v))) H)))) s"
          using inv unfolding fork_hold_iff pins by (simp add: add_mset_commute)
        obtain p' where p': "on_pages (\<lambda>p. unpin_source p ?l) s = (s\<lparr>space_pages := p'\<rparr>, Inr ())"
          "space_inv (add_mset (pin_hold True (fork_pins s ?v)) (add_mset (res_hold (fork_pages v)) (add_mset (row_hold (fork_row v))
            (add_mset (tail_hold (tail_of (fork_tail_columns v) (fork_tail v))) H)))) (s\<lparr>space_pages := p'\<rparr>)"
          "\<And>P. keeps P s (s\<lparr>space_pages := p'\<rparr>)"
          by (rule unpin_part [OF split]) (rule that)
        have s': "s' = s\<lparr>space_pages := p'\<rparr>" "r = Inr ?v" using goes(2) p'(1) by (auto simp: act_then_def act_bind_def)
        have okv: "fork_ok s ?v"
        proof -
          have "fork_covered s ?v = fork_covered s v" by (simp add: fork_covered_def fun_eq_iff)
          moreover have "length (fork_pins s ?v) \<le> length (fork_pins s v)" unfolding pins by simp
          ultimately show ?thesis using ok own staged(1) by (auto simp: fork_ok_def fork_pins_def page_handles_def)
        qed
        note kept = fork_kept [OF okv p'(3) [of "mset (fork_pins s ?v)"], folded s'(1)]
        have "space_inv (add_mset (fork_hold s ?v) H) s'"
          using p'(2) unfolding fork_hold_iff s'(1) by (simp add: add_mset_commute)
        then show ?thesis using kept p'(3) by (simp add: s')
      qed
    qed
  qed
  then show "benign r" "keeps P s s'" "r = Inl e \<Longrightarrow> s' = s"
    "r = Inr v' \<Longrightarrow> space_inv (add_mset (fork_hold s' v') H) s' \<and> fork_ok s' v' \<and> v' = ?v" by blast+
qed

lemma fork_hold_idle:
  assumes "fork_owner v = None" "fork_tail v = None"
  shows "space_inv_but x (add_mset (fork_hold s v) H) t
    \<longleftrightarrow> space_inv_but x (add_mset (res_hold (fork_pages v)) (add_mset (row_hold (fork_row v)) H)) t"
proof -
  have eq: "add_mset (res_hold r) (add_mset (row_hold w) (add_mset h (add_mset k H)))
      = add_mset h (add_mset k (add_mset (res_hold r) (add_mset (row_hold w) H)))" for r w h k
    by (simp add: multiset_eq_iff)
  show ?thesis unfolding fork_hold_iff eq using assms by (simp add: fork_pins_def)
qed

lemma fork_hold_pages:
  assumes "fork_pins s v' = fork_pins s v" "fork_tail v' = fork_tail v" "fork_tail_columns v' = fork_tail_columns v" "fork_row v' = fork_row v"
  shows "space_inv_but x (add_mset (fork_hold s v') H) t \<longleftrightarrow> space_inv_but x (add_mset (res_hold (fork_pages v')) (add_mset (row_hold (fork_row v))
     (add_mset (tail_hold (tail_of (fork_tail_columns v) (fork_tail v))) (add_mset (pin_hold True (fork_pins s v)) H)))) t"
  by (simp add: fork_hold_iff assms)

lemma complete_prefix_fork_step:
  assumes inv: "space_inv (add_mset (fork_hold s v) H) s" and ok: "fork_ok s v"
    and run: "complete_prefix_fork_after_tail_release v s = (s', r)"
  shows "benign r" "keeps P s s'" "r = Inl e \<Longrightarrow> s' = s"
    "r = Inr v' \<Longrightarrow> space_inv (add_mset (fork_hold s' v') H) s' \<and> fork_ok s' v'"
proof -
  let ?n = "u32_sub (fork_entitlement v) (pages_for_tokens (fork_frontier v))"
  have "benign r \<and> keeps P s s' \<and> (\<forall>e. r = Inl e \<longrightarrow> s' = s) \<and>
    (\<forall>v'. r = Inr v' \<longrightarrow> space_inv (add_mset (fork_hold s' v') H) s' \<and> fork_ok s' v')" for P
    using run [unfolded complete_prefix_fork_after_tail_release_def]
  proof (cases rule: act_then_askE)
    case (throws e)
    then show ?thesis by (auto simp: require_prefix_fork_def keeps_refl split: if_splits)
  next
    case req: goes
    from req(2) show ?thesis
    proof (cases rule: act_guardE)
      case throws
      then show ?thesis by (simp add: keeps_refl)
    next
      case staged: goes
      from staged(2) [unfolded Let_def] show ?thesis
      proof (cases rule: act_guardE)
        case throws
        then show ?thesis by (simp add: keeps_refl)
      next
        case goes
        from goes(2) show ?thesis
        proof (cases rule: act_bindE)
          case (throws e)
          then show ?thesis using resize_fails [OF throws(1)] by (simp add: keeps_refl)
        next
          case sized: (goes s1 q)
          let ?v = "v\<lparr>fork_pages := q\<rparr>"
          have s': "s' = s1" "r = Inr ?v" using sized(2) by auto
          have small: "?n \<le> u32_max"
            using ok require_fork_ok(1) [OF req(1)] capacity_small [OF inv] by (auto simp: u32_sub_def fork_ok_def)
          note rs = resize_hold [OF inv [unfolded fork_hold_iff] small sized(1)]
          have same: "fork_pins s ?v = fork_pins s v" by (simp add: fork_pins_def fork_pinned_def)
          have okv: "fork_ok s ?v"
          proof -
            have "fork_covered s ?v = fork_covered s v" "fork_pinned ?v = fork_pinned v"
              by (simp_all add: fork_covered_def fork_pinned_def fun_eq_iff)
            then show ?thesis using ok rs(2,5) by (auto simp: fork_ok_def)
          qed
          note kept = fork_kept [OF okv rs(3) [of "mset (fork_pins s ?v)"]]
          have "space_inv (add_mset (fork_hold s ?v) H) s1"
            using rs(1) by (simp add: fork_hold_pages [OF same])
          then show ?thesis using kept rs(3) by (simp add: s')
        qed
      qed
    qed
  qed
  then show "benign r" "keeps P s s'" "r = Inl e \<Longrightarrow> s' = s"
    "r = Inr v' \<Longrightarrow> space_inv (add_mset (fork_hold s' v') H) s' \<and> fork_ok s' v'" by blast+
qed

section \<open>Aborting and destroying a fork\<close>

lemma act_for_map: "act_for (\<lambda>x. B (f x)) xs = act_for B (map f xs)"
  by (induction xs) simp_all

lemma act_for_cong: "(\<And>x. x \<in> set xs \<Longrightarrow> f x = g x) \<Longrightarrow> act_for f xs = act_for g xs"
  by (induction xs) simp_all

text \<open>The loops over the pages a fork still pins: all it needed, or all but a settled tail.\<close>

lemma fork_loop:
  assumes ok: "fork_ok s v" "fork_owner v \<noteq> None"
  shows "act_for (\<lambda>page. act_when (\<not> (page = fork_full_pages v \<and> tail_source_settled v)) (B (membership s (space_index (fork_source v)) page)))
      [0..<pages_for_tokens (fork_frontier v)] t = act_for B (fork_pins s v) t"
proof -
  let ?f = "membership s (space_index (fork_source v))"
  have all: "act_for B (fork_pins s v) = act_for (\<lambda>page. B (?f page)) [0..<fork_pinned v]"
    using ok(2) act_for_map [of B ?f "[0..<fork_pinned v]"] by (auto simp: fork_pins_def page_handles_def)
  show ?thesis
  proof (cases "tail_source_settled v")
    case False
    then show ?thesis by (simp add: all act_when_def fork_pinned_def)
  next
    case True
    have "pages_for_tokens (fork_frontier v) = Suc (fork_full_pages v)"
      using ok True pages_for_tokens_split [of "fork_frontier v"] by (auto simp: fork_ok_def)
    moreover have "act_for (\<lambda>page. act_when (page \<noteq> fork_full_pages v) (B (?f page))) [0..<fork_full_pages v]
        = act_for (\<lambda>page. B (?f page)) [0..<fork_full_pages v]"
      by (rule act_for_cong) (simp add: act_when_def)
    ultimately show ?thesis using True
      by (auto simp: all act_for_append fork_pinned_def act_when_def act_then_def act_bind_def split: prod.splits sum.splits)
  qed
qed

lemma fork_pins_distinct:
  assumes inv: "space_inv_but x H s" and ok: "fork_ok s v"
  shows "distinct (fork_pins s v)"
proof (cases "fork_owner v = None \<or> fork_pinned v = 0")
  case False
  have last: "fork_covered s v (fork_pinned v - 1)" using ok False by (auto simp: fork_ok_def)
  then have v: "valid_address s (fork_source v)" "fork_pinned v \<le> page_count (addresses s ! space_index (fork_source v))"
    using False by (auto simp: fork_covered_def address_at_def)
  show ?thesis using page_handles_distinct [OF space_invD(7) [OF inv valid_addressD [OF v(1)]] v(2)] False by (simp add: fork_pins_def)
qed (auto simp: fork_pins_def page_handles_def)

lemma abort_prefix_fork_step:
  assumes inv: "space_inv (add_mset (fork_hold s v) H) s" and ok: "fork_ok s v"
  obtains s' v' where "abort_prefix_fork v s = (s', Inr v')" "space_inv (add_mset (fork_hold s' v') H) s'" "fork_ok s' v'"
    "\<And>P. keeps P s s'" "fork_owner v' = None" "fork_row v' = fork_row v"
proof (cases "fork_owner v = None")
  case True
  then show ?thesis using that [of s v] inv ok by (simp add: abort_prefix_fork_def act_noexcept_def keeps_refl)
next
  case False
  then have own: "fork_owner v = Some (space_id s)" using ok by (simp add: fork_ok_def)
  let ?R = "add_mset (res_hold (fork_pages v)) (add_mset (row_hold (fork_row v)) (add_mset (tail_hold (tail_of (fork_tail_columns v) (fork_tail v))) H))"
  have split: "space_inv (add_mset (pin_hold True (fork_pins s v)) ?R) s"
    using inv unfolding fork_hold_iff by (simp add: add_mset_commute)
  obtain s1 p1 where s1: "act_for unpin_if_pinned (fork_pins s v) s = (s1, Inr ())" "s1 = s\<lparr>space_pages := p1\<rparr>" "space_inv ?R s1" "\<And>P. keeps P s s1"
    by (rule unpin_loop [OF split fork_pins_distinct [OF inv ok] unpin_if_pinned_touches]) (rule that)
  have unpinned: "act_when (valid_address s (fork_source v)) (act_for (\<lambda>page. act_when (\<not> (page = fork_full_pages v \<and> tail_source_settled v))
      (unpin_if_pinned (membership s (space_index (fork_source v)) page))) [0..<pages_for_tokens (fork_frontier v)]) s = (s1, Inr ())"
  proof (cases "valid_address s (fork_source v)")
    case True
    then show ?thesis using s1(1) fork_loop [OF ok False, of unpin_if_pinned s] by (simp add: act_when_def)
  next
    case nv: False
    then have "fork_pinned v = 0" using ok False by (auto simp: fork_ok_def fork_covered_def)
    then have "fork_pins s v = []" using False by (simp add: fork_pins_def page_handles_def)
    then show ?thesis using nv s1(1) by (simp add: act_when_def)
  qed
  have res: "reservation_owner (fork_pages v) = Some (pool_id (physical_pool (space_pages s1)))"
    using ok False space_invD(5) [OF s1(3)] by (auto simp: fork_ok_def holds_ok_def)
  have split2: "space_inv (add_mset (res_hold (fork_pages v)) (add_mset (tail_hold (tail_of (fork_tail_columns v) (fork_tail v))) (add_mset (row_hold (fork_row v)) H))) s1"
    using s1(3) by (simp add: add_mset_commute)
  obtain s2 q where s2: "abort_tail (fork_tail v) (fork_pages v) s1 = (s2, Inr q)" "space_inv (add_mset (res_hold q) (add_mset (row_hold (fork_row v)) H)) s2"
    "\<And>P. keeps P s1 s2"
    by (rule abort_tail_hold [OF split2 res]) (rule that)
  define v' where "v' = v\<lparr>fork_owner := None, fork_tail := None, fork_pages := q\<rparr>"
  have "abort_prefix_fork v s = (s2, Inr v')"
    using unpinned s2(1) by (simp add: abort_prefix_fork_def act_noexcept_def own act_then_def act_bind_def v'_def)
  moreover have "space_inv (add_mset (fork_hold s2 v') H) s2"
    using s2(2) by (simp add: fork_hold_idle v'_def)
  ultimately show ?thesis using that keeps_trans [OF s1(4) s2(3)] by (simp add: v'_def fork_ok_def)
qed

lemma destroy_prefix_fork_step:
  assumes inv: "space_inv (add_mset (fork_hold s v) H) s" and ok: "fork_ok s v"
  obtains s' where "destroy_prefix_fork v s = (s', Inr ())" "space_inv H s'" "\<And>P. keeps P s s'"
proof -
  obtain s1 v1 where s1: "(if fork_owner v = None then act_return v else abort_prefix_fork v) s = (s1, Inr v1)"
    "space_inv (add_mset (fork_hold s1 v1) H) s1" "fork_ok s1 v1" "\<And>P. keeps P s s1" "fork_owner v1 = None"
  proof (cases "fork_owner v = None")
    case True
    then show ?thesis using that [of s v] inv ok by (simp add: keeps_refl)
  next
    case False
    obtain s' v' where "abort_prefix_fork v s = (s', Inr v')" "space_inv (add_mset (fork_hold s' v') H) s'" "fork_ok s' v'"
        "\<And>P. keeps P s s'" "fork_owner v' = None"
      by (rule abort_prefix_fork_step [OF inv ok]) (rule that)
    then show ?thesis using that [of s' v'] False by simp
  qed
  have t: "fork_tail v1 = None" using s1(3,5) by (simp add: fork_ok_def)
  have split: "space_inv (add_mset (row_hold (fork_row v1)) (add_mset (res_hold (fork_pages v1)) H)) s1"
    using s1(2) by (simp add: fork_hold_idle [OF s1(5) t] add_mset_commute)
  obtain s2 where s2: "drop_row (fork_row v1) s1 = (s2, Inr ())" "space_inv (add_mset (res_hold (fork_pages v1)) H) s2" "\<And>P. keeps P s1 s2"
    using drop_row_hold [OF split] by metis
  obtain s3 where s3: "drop_reservation (fork_pages v1) s2 = (s3, Inr ())" "space_inv H s3" "\<And>P. keeps P s2 s3"
    using drop_hold [OF s2(2)] by metis
  have "destroy_prefix_fork v s = (s3, Inr ())"
    using s1(1) s2(1) s3(1) by (simp add: destroy_prefix_fork_def act_noexcept_def act_then_def act_bind_def)
  then show ?thesis using that s3(2) keeps_trans [OF s1(4) keeps_trans [OF s2(3) s3(3)]] by blast
qed

section \<open>Committing a fork\<close>

lemma check_pages_cases:
  assumes "check_pages ok e hs = Inl x"
  shows "x = e \<or> (\<exists>h \<in> set hs. ok h = Inl x)"
  using assms by (induction hs) (auto simp: res_bind_eq_Inl split: if_splits)

lemma fork_ready_err:
  assumes "fork_ready s v = Inl e"
  shows "e = LogicError \<or> e = InvalidArgument"
  using assms
  by (auto simp: fork_ready_def require_prefix_fork_def Let_def page_field_def require_page_def res_bind_eq_Inl split: if_splits dest!: check_pages_cases)

lemma fork_ready_ok:
  assumes ready: "fork_ready s v = Inr ()"
  shows "require_prefix_fork s v = Inr ()" "fork_row v \<noteq> None" "idle_address (address_at s (fork_destination v))"
    "page_count (address_at s (fork_destination v)) = 0"
    "reservation_pages (fork_pages v) = u32_sub (fork_entitlement v) (pages_for_tokens (fork_frontier v))"
    "\<And>k. k < pages_for_tokens (fork_frontier v) \<Longrightarrow> k < fork_full_pages v \<Longrightarrow>
       (let l = membership s (space_index (fork_source v)) k in
        device_replica (page_at (space_pages s) l) \<noteq> None \<and> can_retain_reference (space_pages s) l False)"
proof -
  let ?i = "space_index (fork_source v)" and ?n = "pages_for_tokens (fork_frontier v)"
  let ?ok = "\<lambda>(page, l). let settled = (page = fork_full_pages v \<and> tail_source_settled v) in
           if settled \<and> \<not> staged_tail_release v then Inr False
           else res_bind (page_field id (space_pages s) l) (\<lambda>pg.
             Inr (\<not> ((\<not> settled \<and> (source_pins pg = 0 \<or> device_replica pg = None))
                     \<or> (settled \<and> (device_replica pg \<noteq> None \<or> host_replica pg = None))
                     \<or> (page < fork_full_pages v \<and> \<not> can_retain_reference (space_pages s) l False))))"
  show "require_prefix_fork s v = Inr ()" "fork_row v \<noteq> None" "idle_address (address_at s (fork_destination v))"
    "page_count (address_at s (fork_destination v)) = 0"
    "reservation_pages (fork_pages v) = u32_sub (fork_entitlement v) (pages_for_tokens (fork_frontier v))"
    using ready by (auto simp: fork_ready_def Let_def split: if_splits)
  have chk: "check_pages ?ok LogicError (map (\<lambda>page. (page, membership s ?i page)) [0..<?n]) = Inr ()"
    using ready unfolding fork_ready_def Let_def by (auto split: if_splits)
  fix k
  assume k: "k < ?n" "k < fork_full_pages v"
  then have "(k, membership s ?i k) \<in> set (map (\<lambda>page. (page, membership s ?i page)) [0..<?n])" by simp
  from check_pages_ok [OF chk this] k(2)
  show "let l = membership s ?i k in device_replica (page_at (space_pages s) l) \<noteq> None \<and> can_retain_reference (space_pages s) l False"
    by (auto simp: Let_def page_field_def require_page_def split: if_splits)
qed

text \<open>What a fork that is ready brings along.\<close>

definition fork_shared :: "KVAddressSpaceStore \<Rightarrow> KVPrefixForkReservation \<Rightarrow> LogicalKVPageHandle list" where
  "fork_shared s v = page_handles s (space_index (fork_source v)) [0..<fork_full_pages v]"

lemma fork_parts:
  assumes inv: "space_inv (add_mset (fork_hold s v) H) s" and ok: "fork_ok s v" and ready: "fork_ready s v = Inr ()"
  shows "space_index (fork_source v) < length (addresses s)" "space_index (fork_destination v) < length (addresses s)"
    "space_index (fork_source v) \<noteq> space_index (fork_destination v)"
    "addr_occupied (addresses s ! space_index (fork_destination v))" "\<not> addr_active (addresses s ! space_index (fork_destination v))"
    "page_count (addresses s ! space_index (fork_destination v)) = 0"
    "length (adopted_pages (fork_shared s v) (fork_tail v)) = pages_for_tokens (fork_frontier v)"
    "pages_for_tokens (fork_frontier v) + reservation_pages (fork_pages v) \<le> page_capacity s"
    "reservation_owner (fork_pages v) = Some (pool_id (physical_pool (space_pages s)))"
    "fork_full_pages v \<le> fork_pinned v" "fork_owner v \<noteq> None"
proof -
  note req = require_fork_ok [OF fork_ready_ok(1) [OF ready]]
  have o: "fork_owner v \<noteq> None" using req(1) by simp
  then show "fork_owner v \<noteq> None" .
  note k = ok [unfolded fork_ok_def if_not_P [OF o]]
  show i: "space_index (fork_source v) < length (addresses s)" and d: "space_index (fork_destination v) < length (addresses s)"
    using valid_addressD req(2,3) by blast+
  show "space_index (fork_source v) \<noteq> space_index (fork_destination v)"
    using req(2,3) k by (auto simp: valid_address_def)
  show "addr_occupied (addresses s ! space_index (fork_destination v))" by (rule valid_address_occupied [OF req(3)])
  show "\<not> addr_active (addresses s ! space_index (fork_destination v))"
    using fork_ready_ok(3) [OF ready] idle_iff [OF space_invD(8) [OF inv d]] by (simp add: address_at_def)
  show "page_count (addresses s ! space_index (fork_destination v)) = 0"
    using fork_ready_ok(4) [OF ready] by (simp add: address_at_def)
  show "length (adopted_pages (fork_shared s v) (fork_tail v)) = pages_for_tokens (fork_frontier v)"
    using k by (auto simp: fork_shared_def page_handles_def pages_for_tokens_split simp del: page_size_pos(2) split: option.splits)
  show "pages_for_tokens (fork_frontier v) + reservation_pages (fork_pages v) \<le> page_capacity s"
    using fork_ready_ok(5) [OF ready] k by (simp add: u32_sub_def)
  show "reservation_owner (fork_pages v) = Some (pool_id (physical_pool (space_pages s)))"
    using k space_invD(5) [OF inv] by (auto simp: holds_ok_def fork_hold_def)
  show "fork_full_pages v \<le> fork_pinned v"
    using k by (auto simp: fork_pinned_def pages_for_tokens_split simp del: page_size_pos(2))
qed

lemma fork_shared_page:
  assumes inv: "space_inv (add_mset (fork_hold s v) H) s" and ok: "fork_ok s v" and ready: "fork_ready s v = Inr ()" and l: "l \<in> set (fork_shared s v)"
  shows "users s l \<noteq> {}" "valid_page (space_pages s) l" "device_replica (page_at (space_pages s) l) \<noteq> None" "writer_references (page_at (space_pages s) l) = 0"
    "references (page_at (space_pages s) l) \<noteq> u32_max" "page_size \<le> committed_columns (page_at (space_pages s) l)" "l \<in> set (fork_pins s v)"
proof -
  note F = fork_parts [OF inv ok ready]
  obtain k where k: "k < fork_full_pages v" "l = membership s (space_index (fork_source v)) k" using l by (auto simp: fork_shared_def in_page_handles)
  have c: "fork_covered s v k" using ok F(10,11) k(1) by (simp add: fork_ok_def)
  show pin: "l \<in> set (fork_pins s v)" using F(10,11) k by (auto simp: fork_pins_def in_page_handles intro!: exI [of _ k])
  have "l \<in> set (pages_of s (space_index (fork_source v)))" using c k(2) by (auto simp: fork_covered_def address_at_def intro: membership_in)
  then show "users s l \<noteq> {}" by (rule member_used [OF F(1)])
  have fz: "l \<in> frozen_pages (add_mset (fork_hold s v) H)" using pin by (simp add: fork_hold_def)
  show v: "valid_page (space_pages s) l" "writer_references (page_at (space_pages s) l) = 0" using holds_frozen [OF space_invD(5) [OF inv] fz] .
  have "k < pages_for_tokens (fork_frontier v)" using k(1) F(7) by (simp add: fork_shared_def page_handles_def split: option.splits)
  from fork_ready_ok(6) [OF ready this k(1)] show "device_replica (page_at (space_pages s) l) \<noteq> None" "references (page_at (space_pages s) l) \<noteq> u32_max"
    using v(1) k(2) by (auto simp: can_retain_reference_def Let_def)
  show "page_size \<le> committed_columns (page_at (space_pages s) l)" using c k by (simp add: fork_covered_def del: page_size_pos(2))
qed

lemma fork_tail_page:
  assumes inv: "space_inv (add_mset (fork_hold s v) H) s" and l: "fork_tail v = Some l"
  shows "valid_page (space_pages s) l" "unpublished_transfer (page_at (space_pages s) l)" "fork_tail_columns v \<le> committed_columns (page_at (space_pages s) l)"
    "users s l = {}" "device_replica (page_at (space_pages s) l) \<noteq> None" "l \<notin> set (fork_pins s v)"
proof -
  have t: "(l, fork_tail_columns v) \<in># tails (add_mset (fork_hold s v) H)" by (simp add: fork_hold_def l)
  note h = holds_tail [OF space_invD(5) [OF inv] t] and n = transfer_not_pinned [OF inv holds_tail(4) [OF space_invD(5) [OF inv] t]]
  show "valid_page (space_pages s) l" "unpublished_transfer (page_at (space_pages s) l)" "fork_tail_columns v \<le> committed_columns (page_at (space_pages s) l)"
    "users s l = {}" by (rule h n)+
  show "device_replica (page_at (space_pages s) l) \<noteq> None" using h(2) by (simp add: unpublished_transfer_def)
  show "l \<notin> set (fork_pins s v)" using n(1) by (simp add: fork_hold_def)
qed

lemma fork_adoptable:
  assumes inv: "space_inv (add_mset (fork_hold s v) H) s" and ok: "fork_ok s v" and ready: "fork_ready s v = Inr ()"
  shows "adoptable s (fork_shared s v) (fork_tail v) (fork_frontier v) (fork_pages v)" "distinct (adopted_pages (fork_shared s v) (fork_tail v))"
    "l \<in> set (adopted_pages (fork_shared s v) (fork_tail v)) \<Longrightarrow> valid_page (space_pages s) l \<and> device_replica (page_at (space_pages s) l) \<noteq> None"
proof -
  note F = fork_parts [OF inv ok ready] and S = fork_shared_page [OF inv ok ready] and T = fork_tail_page [OF inv]
  note k = ok [unfolded fork_ok_def if_not_P [OF F(11)]]
  have dis: "distinct (fork_shared s v)"
  proof -
    have "fork_shared s v = take (fork_full_pages v) (fork_pins s v)"
      using F(10,11) by (auto simp: fork_shared_def fork_pins_def page_handles_def take_map)
    then show ?thesis using fork_pins_distinct [OF inv ok] by simp
  qed
  show "distinct (adopted_pages (fork_shared s v) (fork_tail v))"
    using dis S(7) T(6) by (auto split: option.splits)
  show "l \<in> set (adopted_pages (fork_shared s v) (fork_tail v)) \<Longrightarrow> valid_page (space_pages s) l \<and> device_replica (page_at (space_pages s) l) \<noteq> None"
    using S(2,3) T(1,5) unfolding in_adopted_pages by blast
  have "min page_size (fork_frontier v - j * page_size) \<le> committed_columns (page_at (space_pages s) (adopted_pages (fork_shared s v) (fork_tail v) ! j))"
    if j: "j < length (adopted_pages (fork_shared s v) (fork_tail v))" for j
  proof (cases "j < fork_full_pages v")
    case True
    then have "j < length (fork_shared s v)" by (simp add: fork_shared_def page_handles_def)
    then show ?thesis using S(6) [OF nth_mem] by (simp add: nth_append min.coboundedI1 del: page_size_pos(2))
  next
    case False
    then have len: "\<not> j < length (fork_shared s v)" by (simp add: fork_shared_def page_handles_def)
    obtain l where l: "fork_tail v = Some l" using j len by (auto split: option.splits)
    have je: "j = fork_full_pages v" using j False l by (simp add: fork_shared_def page_handles_def)
    have "fork_frontier v - j * page_size = fork_tail_columns v" using k je by (simp add: minus_div_mult_eq_mod del: page_size_pos(2))
    then show ?thesis using T(3) [OF l] len j by (simp add: nth_append l min.coboundedI2 fork_shared_def page_handles_def je del: page_size_pos(2))
  qed
  then show "adoptable s (fork_shared s v) (fork_tail v) (fork_frontier v) (fork_pages v)"
    unfolding adoptable_def Let_def using dis F(7-9) S(1,3,4) pages_for_tokens_cover [of "fork_frontier v"] by auto
qed

lemma act_bind_then: "act_bind m (\<lambda>x. act_then (f x) R) s = act_then (act_bind m f) R s"
  by (auto simp: act_then_def act_bind_def split: prod.splits sum.splits)

definition shared_once :: "LogicalPage \<Rightarrow> LogicalPage" where
  "shared_once pg = pg\<lparr>references := references pg + 1, protected_columns := max (protected_columns pg) page_size\<rparr>"

lemma share_touches:
  "touches shared_once (\<lambda>pg. references pg \<noteq> u32_max \<and> page_size \<le> committed_columns pg)
     (\<lambda>l. act_then (on_pages (\<lambda>p. retain_reference p l False)) (on_pages (\<lambda>p. protect_coverage p l page_size)))"
proof -
  have f: "shared_once = (\<lambda>pg. (\<lambda>pg. pg\<lparr>protected_columns := max (protected_columns pg) page_size\<rparr>) (pg\<lparr>references := references pg + 1\<rparr>))"
    by (simp add: shared_once_def fun_eq_iff)
  show ?thesis unfolding f
    by (rule touches_then [OF touches_weaken [OF retain_reference_touches] protect_coverage_touches]) simp_all
qed

text \<open>A transfer page is published and becomes the \<open>n\<close>-th page of address \<open>d\<close>.\<close>

lemma publish_member:
  assumes fit: "slots_fit s" "d < length (addresses s)" "n < page_capacity s"
    and v: "store_inv (space_pages s)" "valid_page (space_pages s) l" "unpublished_transfer (page_at (space_pages s) l)"
  obtains p' ms where "act_then (on_pages (\<lambda>p. publish_transfer_destination p l True)) (set_membership d n l) s = (s\<lparr>space_pages := p', memberships := ms\<rparr>, Inr ())"
    "touched published {l} (space_pages s) p'" "length ms = length (memberships s)"
    "\<And>j k. k < page_capacity s \<Longrightarrow> membership (s\<lparr>space_pages := p', memberships := ms\<rparr>) j k = (if j = d \<and> k = n then l else membership s j k)"
proof -
  obtain p' where p': "touched published {l} (space_pages s) p'"
    "on_pages (\<lambda>p. publish_transfer_destination p l True) s = (s\<lparr>space_pages := p'\<rparr>, Inr ())"
    by (rule touches_run [OF publish_transfer_touches v]) (rule that)
  let ?ms = "(memberships s)[d * page_capacity s + n := l]"
  have fit1: "slots_fit (s\<lparr>space_pages := p'\<rparr>)" by (rule slots_fit_fields [OF fit(1)]) simp_all
  show ?thesis
  proof (rule that [OF _ p'(1), of ?ms])
    show "act_then (on_pages (\<lambda>p. publish_transfer_destination p l True)) (set_membership d n l) s = (s\<lparr>space_pages := p', memberships := ?ms\<rparr>, Inr ())"
      using p'(2) by (simp add: act_then_def act_bind_def set_membership_def)
    show "membership (s\<lparr>space_pages := p', memberships := ?ms\<rparr>) j k = (if j = d \<and> k = n then l else membership s j k)" if "k < page_capacity s" for j k
      using membership_set [OF fit1, of d n k l j] fit(2,3) that by simp
  qed simp
qed

text \<open>Pages and memberships after the publication, the tail page included.\<close>

lemma fill_address:
  assumes fit: "slots_fit s" "d < length (addresses s)" "store_inv (space_pages s)" and n: "length (adopted_pages (map g [0..<n]) t) \<le> page_capacity s"
    and B: "touches f G Z" "\<And>k l s. B k l s = act_then (Z l) (set_membership d k l) s"
    and L: "distinct (adopted_pages (map g [0..<n]) t)" "\<And>k. k < n \<Longrightarrow> valid_page (space_pages s) (g k) \<and> G (page_at (space_pages s) (g k))"
    and T: "\<And>l. t = Some l \<Longrightarrow> valid_page (space_pages s) l \<and> unpublished_transfer (page_at (space_pages s) l)"
  obtains p' ms where "act_then (act_for (\<lambda>k. B k (g k)) [0..<n]) (case t of None \<Rightarrow> act_return ()
      | Some l \<Rightarrow> act_then (on_pages (\<lambda>p. publish_transfer_destination p l True)) (set_membership d n l)) s
      = (s\<lparr>space_pages := p', memberships := ms\<rparr>, Inr ())"
    "pages_rel (\<lambda>l a b. b = (if t = Some l then published a else if l \<in> g ` {..<n} then f a else a)) (space_pages s) p'" "length ms = length (memberships s)"
    "\<And>j k. k < page_capacity s \<Longrightarrow> membership (s\<lparr>space_pages := p', memberships := ms\<rparr>) j k
      = (if j = d \<and> k < length (adopted_pages (map g [0..<n]) t) then adopted_pages (map g [0..<n]) t ! k else membership s j k)"
proof -
  have n': "n \<le> page_capacity s" "distinct (map g [0..<n])" using n L(1) by (simp_all split: option.splits)
  obtain p1 m1 where run1: "act_for (\<lambda>k. B k (g k)) [0..<n] s = (s\<lparr>space_pages := p1, memberships := m1\<rparr>, Inr ())"
    and rel1: "touched f (g ` {..<n}) (space_pages s) p1" and len1: "length m1 = length (memberships s)"
    and mem1: "\<And>j k. k < page_capacity s \<Longrightarrow> membership (s\<lparr>space_pages := p1, memberships := m1\<rparr>) j k = (if j = d \<and> k < n then g k else membership s j k)"
    by (rule member_loop [OF B fit n' L(2)]) (assumption | rule that)+
  show ?thesis
  proof (cases t)
    case None
    show ?thesis
    proof (rule that [where ms = m1])
      show "pages_rel (\<lambda>l a b. b = (if t = Some l then published a else if l \<in> g ` {..<n} then f a else a)) (space_pages s) p1"
        using rel1 by (simp add: None)
    qed (use run1 len1 mem1 in \<open>simp_all add: None act_then_def act_bind_def\<close>)
  next
    case (Some l)
    define s1 where "s1 = s\<lparr>space_pages := p1, memberships := m1\<rparr>"
    have out: "l \<notin> g ` {..<n}" using L(1) by (auto simp: Some)
    have v: "store_inv (space_pages s1)" "valid_page (space_pages s1) l" "unpublished_transfer (page_at (space_pages s1) l)"
      using pages_rel_frame(1,6) [OF rel1] pages_relD [OF rel1, of l] T [OF Some] out by (simp_all add: s1_def)
    have fit1: "slots_fit s1" "d < length (addresses s1)" "n < page_capacity s1"
      using slots_fit_fields [OF fit(1), of s1] fit(2) n by (simp_all add: s1_def len1 Some)
    obtain p2 m2 where run2: "act_then (on_pages (\<lambda>p. publish_transfer_destination p l True)) (set_membership d n l) s1 = (s1\<lparr>space_pages := p2, memberships := m2\<rparr>, Inr ())"
      and rel2: "touched published {l} (space_pages s1) p2" and len2: "length m2 = length (memberships s1)"
      and mem2: "\<And>j k. k < page_capacity s1 \<Longrightarrow> membership (s1\<lparr>space_pages := p2, memberships := m2\<rparr>) j k = (if j = d \<and> k = n then l else membership s1 j k)"
      by (rule publish_member [OF fit1 v]) (assumption | rule that)+
    show ?thesis
    proof (rule that)
      show "act_then (act_for (\<lambda>k. B k (g k)) [0..<n]) (case t of None \<Rightarrow> act_return ()
          | Some l \<Rightarrow> act_then (on_pages (\<lambda>p. publish_transfer_destination p l True)) (set_membership d n l)) s = (s\<lparr>space_pages := p2, memberships := m2\<rparr>, Inr ())"
        using run1 [folded s1_def] run2 by (simp add: Some act_then_def act_bind_def) (simp add: s1_def)
      show "pages_rel (\<lambda>q a b. b = (if t = Some q then published a else if q \<in> g ` {..<n} then f a else a)) (space_pages s) p2"
        by (rule pages_rel_trans [OF rel1 rel2 [unfolded s1_def, simplified]]) (use out in \<open>auto simp: Some\<close>)
      show "length m2 = length (memberships s)" by (simp add: len2 s1_def len1)
      fix j k
      assume k: "k < page_capacity s"
      show "membership (s\<lparr>space_pages := p2, memberships := m2\<rparr>) j k = (if j = d \<and> k < length (adopted_pages (map g [0..<n]) t) then adopted_pages (map g [0..<n]) t ! k else membership s j k)"
        using mem1 [OF k, of j, folded s1_def] mem2 [of k j] k by (auto simp: Some nth_append s1_def)
    qed
  qed
qed

lemma publish_fork_run:
  assumes inv: "space_inv (add_mset (fork_hold s v) H) s" and ok: "fork_ok s v" and ready: "fork_ready s v = Inr ()" and row: "fork_row v = Some row"
  defines "N \<equiv> adopted_pages (fork_shared s v) (fork_tail v)"
  obtains t' cs p' ms where "publish_prefix_fork v s = (s\<lparr>space_tables := t', issued := issued s @ cs, space_pages := p', memberships := ms\<rparr>, Inr ())"
    "pages_rel (\<lambda>l a b. b = (if fork_tail v = Some l then published a else if l \<in> set (fork_shared s v) then shared_once a else a)) (space_pages s) p'"
    "length ms = length (memberships s)"
    "\<And>j k. k < page_capacity s \<Longrightarrow> membership (s\<lparr>space_tables := t', issued := issued s @ cs, space_pages := p', memberships := ms\<rparr>) j k
      = (if j = space_index (fork_destination v) \<and> k < length N then N ! k else membership s j k)"
    "tables_ok t'" "logical_page_capacity t' = logical_page_capacity (space_tables s)" "\<And>R. rows_live t' R = rows_live (space_tables s) R"
    "\<And>k. k < length N \<Longrightarrow> host_shadow t' ! (nat (row_lease_number row) * page_capacity s + k) = frame_of (space_pages s) (N ! k)"
    "\<And>n k. n < nat (table_row_count (space_tables s)) \<Longrightarrow> k < page_capacity s \<Longrightarrow> n \<noteq> nat (row_lease_number row) \<Longrightarrow>
       host_shadow t' ! (n * page_capacity s + k) = host_shadow (space_tables s) ! (n * page_capacity s + k)"
proof -
  note F = fork_parts [OF inv ok ready] and S = fork_shared_page [OF inv ok ready] and A = fork_adoptable [OF inv ok ready] and I = space_invD [OF inv]
  let ?g = "membership s (space_index (fork_source v))" and ?d = "space_index (fork_destination v)" and ?n = "fork_full_pages v"
  have L: "fork_shared s v = map ?g [0..<?n]" by (simp add: fork_shared_def page_handles_def)
  have len: "length N \<le> page_capacity s" using F(7,8) by (simp add: N_def)
  have rl: "row_lease_owner row \<noteq> None" "valid_row_handle (space_tables s) (row_lease_handle row)"
    using row_live [OF inv, of row] by (simp_all add: fork_hold_def row)
  have cap: "page_capacity s = logical_page_capacity (space_tables s)" using I(3) by (simp add: slots_fit_def Let_def)
  have N: "\<forall>l \<in> set N. valid_page (space_pages s) l \<and> device_replica (page_at (space_pages s) l) \<noteq> None" using A(3) by (auto simp: N_def)
  have fits: "0 + length N \<le> page_capacity s" using len by simp
  obtain t' cs where pub: "act_bind (ask_pages (\<lambda>p. physical_all p N)) (\<lambda>ds. publish_row (row_lease_handle row) 0 ds) s
      = (s\<lparr>space_tables := t', issued := issued s @ cs\<rparr>, Inr ())"
    and t': "tables_ok t'" "logical_page_capacity t' = logical_page_capacity (space_tables s)" "\<And>R. rows_live t' R = rows_live (space_tables s) R"
      "\<And>k. k < length N \<Longrightarrow> host_shadow t' ! (nat (row_lease_number row) * page_capacity s + 0 + k) = frame_of (space_pages s) (N ! k)"
      "\<And>n k. n < nat (table_row_count (space_tables s)) \<Longrightarrow> k < page_capacity s \<Longrightarrow> n \<noteq> nat (row_lease_number row) \<or> k < 0 \<Longrightarrow>
         host_shadow t' ! (n * page_capacity s + k) = host_shadow (space_tables s) ! (n * page_capacity s + k)"
    by (rule publish_pages [OF I(1,2) cap rl N fits]) (assumption | rule that)+
  define s1 where "s1 = s\<lparr>space_tables := t', issued := issued s @ cs\<rparr>"
  have s1: "space_pages s1 = space_pages s" "page_capacity s1 = page_capacity s" "memberships s1 = memberships s" by (simp_all add: s1_def)
  have fit1: "slots_fit s1" using I(3) t'(2) by (simp add: slots_fit_def Let_def s1_def)
  have pre: "?d < length (addresses s1)" "store_inv (space_pages s1)" "length (adopted_pages (map ?g [0..<?n]) (fork_tail v)) \<le> page_capacity s1"
    "distinct (adopted_pages (map ?g [0..<?n]) (fork_tail v))"
    using F(2) I(1) A(2) len unfolding L N_def by (simp_all add: s1_def)
  have body: "share_page ?d k l s = act_then (act_then (on_pages (\<lambda>p. retain_reference p l False)) (on_pages (\<lambda>p. protect_coverage p l page_size))) (set_membership ?d k l) s" for k l s
    by (auto simp: share_page_def act_then_def act_bind_def split: prod.splits sum.splits)
  have full: "valid_page (space_pages s1) (?g k) \<and> references (page_at (space_pages s1) (?g k)) \<noteq> u32_max \<and> page_size \<le> committed_columns (page_at (space_pages s1) (?g k))"
    if "k < ?n" for k using S(2,5,6) [of "?g k"] that by (simp add: L s1 del: page_size_pos(2))
  have tail: "valid_page (space_pages s1) l \<and> unpublished_transfer (page_at (space_pages s1) l)" if "fork_tail v = Some l" for l
    using fork_tail_page(1,2) [OF inv that] by (simp add: s1)
  obtain p' ms where fill: "act_then (act_for (\<lambda>k. share_page ?d k (?g k)) [0..<?n]) (case fork_tail v of None \<Rightarrow> act_return ()
      | Some l \<Rightarrow> act_then (on_pages (\<lambda>p. publish_transfer_destination p l True)) (set_membership ?d ?n l)) s1
      = (s1\<lparr>space_pages := p', memberships := ms\<rparr>, Inr ())"
    and rel: "pages_rel (\<lambda>l a b. b = (if fork_tail v = Some l then published a else if l \<in> ?g ` {..<?n} then shared_once a else a)) (space_pages s1) p'"
    and ms: "length ms = length (memberships s1)"
    and mem: "\<And>j k. k < page_capacity s1 \<Longrightarrow> membership (s1\<lparr>space_pages := p', memberships := ms\<rparr>) j k
      = (if j = ?d \<and> k < length (adopted_pages (map ?g [0..<?n]) (fork_tail v)) then adopted_pages (map ?g [0..<?n]) (fork_tail v) ! k else membership s1 j k)"
    by (rule fill_address [OF fit1 pre(1-3) share_touches body pre(4) full tail]) (assumption | rule that)+
  show ?thesis
  proof (rule that [where t' = t' and cs = cs and p' = p' and ms = ms])
    have "publish_prefix_fork v s = act_then (act_bind (ask_pages (\<lambda>p. physical_all p N)) (\<lambda>ds. publish_row (row_lease_handle row) 0 ds))
        (act_then (act_for (\<lambda>k. share_page ?d k (?g k)) [0..<?n]) (case fork_tail v of None \<Rightarrow> act_return ()
          | Some l \<Rightarrow> act_then (on_pages (\<lambda>p. publish_transfer_destination p l True)) (set_membership ?d ?n l))) s"
      unfolding publish_prefix_fork_def Let_def act_bind_then [symmetric] by (simp add: N_def fork_shared_def row)
    then show "publish_prefix_fork v s = (s\<lparr>space_tables := t', issued := issued s @ cs, space_pages := p', memberships := ms\<rparr>, Inr ())"
      using pub fill by (simp add: act_then_def act_bind_def s1_def)
    show "pages_rel (\<lambda>l a b. b = (if fork_tail v = Some l then published a else if l \<in> set (fork_shared s v) then shared_once a else a)) (space_pages s) p'"
    proof -
      have "?g ` {..<?n} = set (fork_shared s v)" by (simp add: L atLeast0LessThan)
      then show ?thesis using rel by (simp only: s1)
    qed
    show "membership (s\<lparr>space_tables := t', issued := issued s @ cs, space_pages := p', memberships := ms\<rparr>) j k
      = (if j = ?d \<and> k < length N then N ! k else membership s j k)" if "k < page_capacity s" for j k
      using mem [of k j] that by (simp add: s1_def N_def L)
  qed (use ms t' in \<open>simp_all add: s1\<close>)
qed

lemma adopt_fork_run:
  assumes inv: "space_inv (add_mset (fork_hold s v) H) s" and ok: "fork_ok s v" and ready: "fork_ready s v = Inr ()"
    and s1: "addresses s1 = addresses s" "page_capacity s1 = page_capacity s"
      "\<And>j k. k < page_capacity s \<Longrightarrow> membership s1 j k
        = (if j = space_index (fork_destination v) \<and> k < length (adopted_pages (fork_shared s v) (fork_tail v)) then adopted_pages (fork_shared s v) (fork_tail v) ! k else membership s j k)"
    and rel: "pages_rel (\<lambda>l a b. b = (if fork_tail v = Some l then published a else if l \<in> set (fork_shared s v) then shared_once a else a)) (space_pages s) (space_pages s1)"
  defines "d \<equiv> space_index (fork_destination v)"
  obtains p' where "adopt_prefix_fork v s1 = (s1\<lparr>addresses := (addresses s)[d := (addresses s ! d)\<lparr>page_count := pages_for_tokens (fork_frontier v),
      committed_frontier := fork_frontier v, addr_reservation := fork_pages v, addr_row := fork_row v, addr_active := True\<rparr>], space_pages := p'\<rparr>, Inr ())"
    "pages_rel (adopted (fork_shared s v) (fork_tail v) (fork_pins s v)) (space_pages s) p'"
proof -
  note F = fork_parts [OF inv ok ready] and S = fork_shared_page [OF inv ok ready] and T = fork_tail_page [OF inv] and A = fork_adoptable [OF inv ok ready] and I = space_invD [OF inv]
  define N where "N = adopted_pages (fork_shared s v) (fork_tail v)"
  define n where "n = pages_for_tokens (fork_frontier v)"
  have n: "length N = n" "n \<le> page_capacity s" using F(7,8) by (simp_all add: N_def n_def)
  define a where "a = (addresses s ! d)\<lparr>page_count := n, committed_frontier := fork_frontier v, addr_reservation := fork_pages v, addr_row := fork_row v, addr_active := True\<rparr>"
  define s2 where "s2 = s1\<lparr>addresses := (addresses s)[d := a]\<rparr>"
  note fr = pages_rel_frame [OF rel]
  have P1: "page_at (space_pages s1) l = (if fork_tail v = Some l then published (page_at (space_pages s) l) else if l \<in> set (fork_shared s v) then shared_once (page_at (space_pages s) l) else page_at (space_pages s) l)"
    if "valid_page (space_pages s) l" for l using pages_relD [OF rel that] .
  have "active_references (page_at (space_pages s1) l) < references (page_at (space_pages s1) l)" if "l \<in> set N" for l
  proof -
    have v: "valid_page (space_pages s) l" using A(3) that by (simp add: N_def)
    have "card (active_users s l) \<le> card (users s l)" by (rule card_mono) (auto simp: active_users_def)
    then show ?thesis using that counts_okD(1,2) [OF I(4) v] T(4) [of l] P1 [OF v]
      by (auto simp: N_def in_adopted_pages shared_once_def published_def active_users_def)
  qed
  then have G2: "\<forall>l \<in> set N. valid_page (space_pages s2) l \<and> active_references (page_at (space_pages s2) l) < references (page_at (space_pages s2) l)"
    using A(3) fr(6) by (simp add: N_def s2_def)
  have st2: "store_inv (space_pages s2)" using fr(1) by (simp add: s2_def)
  have dN: "distinct N" using A(2) by (simp add: N_def)
  obtain p2 where run2: "act_for (\<lambda>l. on_pages (\<lambda>p. retain_active_reference p l)) N s2 = (s2\<lparr>space_pages := p2\<rparr>, Inr ())"
    and rel2: "touched (\<lambda>pg. pg\<lparr>active_references := active_references pg + 1\<rparr>) (set N) (space_pages s2) p2"
    by (rule touches_loop [OF retain_active_touches st2 dN G2]) (rule that)
  note fr2 = pages_rel_frame [OF rel2]
  define s3 where "s3 = s2\<lparr>space_pages := p2\<rparr>"
  have P2: "page_at p2 l = (if l \<in> set N then (page_at (space_pages s1) l)\<lparr>active_references := active_references (page_at (space_pages s1) l) + 1\<rparr> else page_at (space_pages s1) l)"
    if "valid_page (space_pages s) l" for l using pages_relD [OF rel2, of l] that fr(6) by (simp add: s2_def)
  have pv: "valid_page (space_pages s) l \<and> source_pins (page_at (space_pages s) l) \<noteq> 0" if "l \<in> set (fork_pins s v)" for l
  proof -
    have "l \<in># pins (add_mset (fork_hold s v) H)" using that by (simp add: fork_hold_def)
    then show ?thesis using I(5) counts_okD(3) [OF I(4), of l] by (simp add: holds_ok_def)
  qed
  have G3: "\<forall>l \<in> set (fork_pins s v). valid_page (space_pages s3) l \<and> source_pins (page_at (space_pages s3) l) \<noteq> 0"
  proof
    fix l
    assume l: "l \<in> set (fork_pins s v)"
    have v: "valid_page (space_pages s) l" using pv [OF l] by simp
    then show "valid_page (space_pages s3) l \<and> source_pins (page_at (space_pages s3) l) \<noteq> 0"
      using pv [OF l] fr(6) fr2(6) T(6) [of l] l by (simp add: s3_def s2_def P2 P1 shared_once_def published_def)
  qed
  have st3: "store_inv (space_pages s3)" using fr2(1) by (simp add: s3_def)
  obtain p3 where run3: "act_for (\<lambda>l. on_pages (\<lambda>p. unpin_source p l)) (fork_pins s v) s3 = (s3\<lparr>space_pages := p3\<rparr>, Inr ())"
    and rel3: "touched (\<lambda>pg. pg\<lparr>source_pins := source_pins pg - 1\<rparr>) (set (fork_pins s v)) (space_pages s3) p3"
    by (rule touches_loop [OF unpin_source_touches st3 fork_pins_distinct [OF inv ok] G3]) (rule that)
  have handles: "page_handles s1 d [0..<n] = N"
    using s1(3) n by (intro nth_equalityI) (simp_all add: page_handles_def d_def N_def)
  have src: "membership s1 (space_index (fork_source v)) k = membership s (space_index (fork_source v)) k" if "k < n" for k
    using s1(3) [of k] that n(2) F(3) by simp
  have loop: "act_for (\<lambda>page. act_when (\<not> (page = fork_full_pages v \<and> tail_source_settled v))
      (on_pages (\<lambda>p. unpin_source p (membership s1 (space_index (fork_source v)) page)))) [0..<n] s3 = (s3\<lparr>space_pages := p3\<rparr>, Inr ())"
  proof -
    have "act_for (\<lambda>page. act_when (\<not> (page = fork_full_pages v \<and> tail_source_settled v))
        (on_pages (\<lambda>p. unpin_source p (membership s1 (space_index (fork_source v)) page)))) [0..<n]
      = act_for (\<lambda>page. act_when (\<not> (page = fork_full_pages v \<and> tail_source_settled v))
        (on_pages (\<lambda>p. unpin_source p (membership s (space_index (fork_source v)) page)))) [0..<n]"
      by (rule act_for_cong) (simp add: src)
    then show ?thesis using fork_loop [OF ok F(11), of "\<lambda>l. on_pages (\<lambda>p. unpin_source p l)" s3] run3 by (simp add: n_def)
  qed
  have put: "put_address d (\<lambda>a. a\<lparr>page_count := n, committed_frontier := fork_frontier v, addr_reservation := fork_pages v, addr_row := fork_row v, addr_active := True\<rparr>) s1 = (s2, Inr ())"
    by (simp add: s2_def a_def s1(1))
  have run: "adopt_prefix_fork v s1 = (s3\<lparr>space_pages := p3\<rparr>, Inr ())"
    using put run2 loop handles
    by (simp only: adopt_prefix_fork_def Let_def d_def [symmetric] n_def [symmetric] act_then_def act_bind_def prod.case sum.case s3_def)
  have fin: "pages_rel (adopted (fork_shared s v) (fork_tail v) (fork_pins s v)) (space_pages s) p3"
  proof -
    have "pages_rel (\<lambda>l a b. True) (space_pages s) p3"
      using pages_rel_trans [OF pages_rel_trans [OF rel rel2 [unfolded s2_def, simplified], where T = "\<lambda>_ _ _. True"] rel3 [unfolded s3_def, simplified], where T = "\<lambda>_ _ _. True"] by simp
    moreover have "adopted (fork_shared s v) (fork_tail v) (fork_pins s v) l (page_at (space_pages s) l) (page_at p3 l)" if v: "valid_page (space_pages s) l" for l
    proof -
      have P3: "page_at p3 l = (if l \<in> set (fork_pins s v) then (page_at p2 l)\<lparr>source_pins := source_pins (page_at p2 l) - 1\<rparr> else page_at p2 l)"
        using pages_relD [OF rel3, of l] v fr(6) fr2(6) by (simp add: s3_def s2_def)
      have ex: "fork_tail v = Some l \<Longrightarrow> l \<notin> set (fork_shared s v)" using A(2) by auto
      show ?thesis unfolding adopted_def P3 P2 [OF v] P1 [OF v]
        using T(6) [of l] ex by (auto simp: N_def in_adopted_pages shared_once_def published_def)
    qed
    ultimately show ?thesis by (simp add: pages_rel_def)
  qed
  show ?thesis by (rule that [OF _ fin]) (use run in \<open>simp add: s3_def s2_def a_def n_def\<close>)
qed

lemma pages_relI_frame:
  assumes "pages_rel Q p p'"
  shows "store_frame p p'" "physical_pool p' = physical_pool p" "valid_page p' l = valid_page p l"
  using store_frame_rel [OF assms] pages_rel_frame(3,6) [OF assms] by simp_all

text \<open>A commit that passes its checks adopts the pages.\<close>

lemma commit_fork_adoption:
  assumes inv: "space_inv (add_mset (fork_hold s v) H) s" and ok: "fork_ok s v" and ready: "fork_ready s v = Inr ()"
  obtains s2 row where "commit_prefix_fork v s = (s2, (emptied_fork v)\<lparr>fork_owner := None\<rparr>, Inr ())" "fork_row v = Some row"
    "adoption s s2 (space_index (fork_destination v)) (fork_shared s v) (fork_tail v) (fork_pins s v) (fork_frontier v) (fork_pages v) row"
proof -
  obtain row where row: "fork_row v = Some row" using fork_ready_ok(2) [OF ready] by blast
  note F = fork_parts [OF inv ok ready]
  define N where "N = adopted_pages (fork_shared s v) (fork_tail v)"
  obtain t' cs p1 ms where pub: "publish_prefix_fork v s = (s\<lparr>space_tables := t', issued := issued s @ cs, space_pages := p1, memberships := ms\<rparr>, Inr ())"
    and rel: "pages_rel (\<lambda>l a b. b = (if fork_tail v = Some l then published a else if l \<in> set (fork_shared s v) then shared_once a else a)) (space_pages s) p1"
    and ms: "length ms = length (memberships s)"
    and mem: "\<And>j k. k < page_capacity s \<Longrightarrow> membership (s\<lparr>space_tables := t', issued := issued s @ cs, space_pages := p1, memberships := ms\<rparr>) j k
      = (if j = space_index (fork_destination v) \<and> k < length (adopted_pages (fork_shared s v) (fork_tail v)) then adopted_pages (fork_shared s v) (fork_tail v) ! k else membership s j k)"
    and t': "tables_ok t'" "logical_page_capacity t' = logical_page_capacity (space_tables s)" "\<And>R. rows_live t' R = rows_live (space_tables s) R"
      "\<And>k. k < length (adopted_pages (fork_shared s v) (fork_tail v)) \<Longrightarrow> host_shadow t' ! (nat (row_lease_number row) * page_capacity s + k) = frame_of (space_pages s) (adopted_pages (fork_shared s v) (fork_tail v) ! k)"
      "\<And>n k. n < nat (table_row_count (space_tables s)) \<Longrightarrow> k < page_capacity s \<Longrightarrow> n \<noteq> nat (row_lease_number row) \<Longrightarrow>
         host_shadow t' ! (n * page_capacity s + k) = host_shadow (space_tables s) ! (n * page_capacity s + k)"
    by (rule publish_fork_run [OF inv ok ready row]) (assumption | rule that)+
  define s1 where "s1 = s\<lparr>space_tables := t', issued := issued s @ cs, space_pages := p1, memberships := ms\<rparr>"
  let ?d = "space_index (fork_destination v)"
  obtain p2 where ad: "adopt_prefix_fork v s1 = (s1\<lparr>addresses := (addresses s)[?d := (addresses s ! ?d)\<lparr>page_count := pages_for_tokens (fork_frontier v),
      committed_frontier := fork_frontier v, addr_reservation := fork_pages v, addr_row := fork_row v, addr_active := True\<rparr>], space_pages := p2\<rparr>, Inr ())"
    and rel2: "pages_rel (adopted (fork_shared s v) (fork_tail v) (fork_pins s v)) (space_pages s) p2"
    by (rule adopt_fork_run [OF inv ok ready, of s1]) (use mem rel in \<open>(simp add: s1_def | rule that | assumption)+\<close>)
  define s2 where "s2 = s1\<lparr>addresses := (addresses s)[?d := (addresses s ! ?d)\<lparr>page_count := pages_for_tokens (fork_frontier v),
      committed_frontier := fork_frontier v, addr_reservation := fork_pages v, addr_row := fork_row v, addr_active := True\<rparr>], space_pages := p2\<rparr>"
  have run: "commit_prefix_fork v s = (s2, (emptied_fork v)\<lparr>fork_owner := None\<rparr>, Inr ())"
    using ready pub ad by (simp add: commit_prefix_fork_def act_then_def act_bind_def act_ask_def s1_def s2_def)
  have same: "membership s2 j k = membership s1 j k" for j k by (simp add: membership_def s2_def s1_def)
  have A: "adoption s s2 ?d (fork_shared s v) (fork_tail v) (fork_pins s v) (fork_frontier v) (fork_pages v) row"
    unfolding adoption_def Let_def
    using F(2,4-7) mem ms t' pages_relI_frame [OF rel2] pages_relD [OF rel2]
    by (simp add: same s1_def [symmetric]) (simp add: s2_def s1_def row shown_def)
  show ?thesis by (rule that [OF run row A])
qed

lemma commit_prefix_fork_step:
  assumes inv: "space_inv (add_mset (fork_hold s v) H) s" and ok: "fork_ok s v" and run: "commit_prefix_fork v s = (s', v', r)"
  shows "space_inv (add_mset (fork_hold s' v') H) s'" "fork_ok s' v'" "keeps P s s'" "benign r"
    "r = Inl e \<Longrightarrow> s' = s \<and> v' = v" "r = Inr () \<Longrightarrow> fork_owner v' = None \<and> space_inv H s'"
proof -
  have "space_inv (add_mset (fork_hold s' v') H) s' \<and> fork_ok s' v' \<and> keeps P s s' \<and> benign r \<and>
    (\<forall>e. r = Inl e \<longrightarrow> s' = s \<and> v' = v) \<and> (r = Inr () \<longrightarrow> fork_owner v' = None \<and> space_inv H s')" for P
  proof (cases "fork_ready s v")
    case (Inl e)
    then have "s' = s" "v' = v" "r = Inl e" using run by (simp_all add: commit_prefix_fork_def act_then_def act_bind_def act_ask_def)
    then show ?thesis using inv ok fork_ready_err [OF Inl] by (auto simp: keeps_refl)
  next
    case (Inr u)
    then have ready: "fork_ready s v = Inr ()" by simp
    obtain s2 row where run2: "commit_prefix_fork v s = (s2, (emptied_fork v)\<lparr>fork_owner := None\<rparr>, Inr ())" and row: "fork_row v = Some row"
      and A: "adoption s s2 (space_index (fork_destination v)) (fork_shared s v) (fork_tail v) (fork_pins s v) (fork_frontier v) (fork_pages v) row"
      by (rule commit_fork_adoption [OF inv ok ready]) (rule that)
    have res: "s' = s2" "v' = (emptied_fork v)\<lparr>fork_owner := None\<rparr>" "r = Inr ()" using run run2 by simp_all
    have inv': "space_inv (add_mset (adopt_hold (fork_pins s v) True (fork_tail_columns v) (fork_tail v) (fork_pages v) row) H) s"
      using inv by (simp add: fork_hold_def row)
    note fin = space_inv_adopt [OF inv' A fork_adoptable(1) [OF inv ok ready] fork_pins_distinct [OF inv ok]]
    have "space_inv (add_mset (fork_hold s2 v') H) s2"
      using fin(1) by (simp add: fork_hold_idle res(2) emptied_fork_def)
    then show ?thesis using fin by (simp add: res fork_ok_def emptied_fork_def)
  qed
  then show "space_inv (add_mset (fork_hold s' v') H) s'" "fork_ok s' v'" "keeps P s s'" "benign r"
    "r = Inl e \<Longrightarrow> s' = s \<and> v' = v" "r = Inr () \<Longrightarrow> fork_owner v' = None \<and> space_inv H s'" by blast+
qed

end
