(* ===== verification/Space_Snapshots.thy ===== *)
theory Space_Snapshots
  imports Space_Forks
begin

text \<open>
  Active snapshots of the address-space store. A snapshot in flight pins every page of an active address and owns a
  transfer page for its partial tail; committing it leaves the address as a retained checkpoint and hands its row
  and its reservation to an empty address, which goes on writing on the copy of the tail.
\<close>

section \<open>What a snapshot in flight holds\<close>

definition snapshot_pins :: "KVAddressSpaceStore \<Rightarrow> KVActiveSnapshotReservation \<Rightarrow> LogicalKVPageHandle list" where
  "snapshot_pins s v = (if snapshot_owner v = None then []
     else page_handles s (space_index (snapshot_source v)) [0..<pages_for_tokens (snapshot_frontier v)])"

definition snapshot_hold :: "KVAddressSpaceStore \<Rightarrow> KVActiveSnapshotReservation \<Rightarrow> hold" where
  "snapshot_hold s v = \<lparr>pinned = snapshot_pins s v, frozen = False, transfer = tail_of (tail_columns (snapshot_shape v)) (snapshot_tail v),
     held_pages = tail_reservation v, held_row = None\<rparr>"

definition snapshot_ok :: "KVAddressSpaceStore \<Rightarrow> KVActiveSnapshotReservation \<Rightarrow> bool" where
  "snapshot_ok s v \<longleftrightarrow> (if snapshot_owner v = None then snapshot_tail v = None else
     snapshot_owner v = Some (space_id s) \<and> snapshot_source v \<noteq> snapshot_destination v \<and> snapshot_frontier v \<noteq> 0 \<and>
     full_pages (snapshot_shape v) = snapshot_frontier v div page_size \<and> tail_columns (snapshot_shape v) = snapshot_frontier v mod page_size \<and>
     (snapshot_tail v = None \<longleftrightarrow> tail_columns (snapshot_shape v) = 0) \<and> reservation_owner (tail_reservation v) \<noteq> None \<and>
     valid_address s (snapshot_source v) \<and> pages_for_tokens (snapshot_frontier v) \<le> page_count (address_at s (snapshot_source v)))"

lemma snapshot_kept:
  assumes ok: "snapshot_ok s v" and k: "keeps P s s'" and P: "\<And>l. l \<in> set (snapshot_pins s v) \<Longrightarrow> l \<in># P"
  shows "snapshot_ok s' v" "snapshot_hold s' v = snapshot_hold s v"
proof -
  let ?h = "snapshot_source v"
  have same: "membership s' (space_index ?h) j = membership s (space_index ?h) j \<and> valid_address s' ?h \<and> j < page_count (address_at s' ?h)"
    if "snapshot_owner v \<noteq> None" "j < pages_for_tokens (snapshot_frontier v)" for j
  proof -
    have "valid_address s ?h" "j < page_count (address_at s ?h)" using ok that by (simp_all add: snapshot_ok_def)
    moreover have "membership s (space_index ?h) j \<in># P" using P that by (auto simp: snapshot_pins_def in_page_handles)
    ultimately show ?thesis using k by (simp add: keeps_def)
  qed
  show "snapshot_ok s' v"
  proof (cases "snapshot_owner v = None")
    case False
    then have "pages_for_tokens (snapshot_frontier v) \<noteq> 0" using ok by (auto simp: snapshot_ok_def)
    then have "pages_for_tokens (snapshot_frontier v) - 1 < pages_for_tokens (snapshot_frontier v)" by (simp only: diff_less zero_less_one neq0_conv)
    from same [OF False this] show ?thesis using ok k False by (auto simp: snapshot_ok_def keeps_def)
  qed (use ok in \<open>simp add: snapshot_ok_def\<close>)
  show "snapshot_hold s' v = snapshot_hold s v" using same by (auto simp: snapshot_hold_def snapshot_pins_def page_handles_def)
qed

lemma snapshot_hold_iff:
  "space_inv_but x (add_mset (snapshot_hold s v) H) t \<longleftrightarrow> space_inv_but x (add_mset (res_hold (tail_reservation v))
     (add_mset (tail_hold (tail_of (tail_columns (snapshot_shape v)) (snapshot_tail v))) (add_mset (pin_hold False (snapshot_pins s v)) H))) t"
proof -
  have "space_inv_but x (add_mset (res_hold r) (add_mset (row_hold None) K)) t = space_inv_but x (add_mset (res_hold r) K) t" for r K
    unfolding add_mset_commute [of "res_hold r" "row_hold None"] by simp
  then show ?thesis unfolding snapshot_hold_def using split_hold join_hold by blast
qed

lemma snapshot_hold_idle:
  assumes "snapshot_owner v = None" "snapshot_tail v = None"
  shows "space_inv_but x (add_mset (snapshot_hold s v) H) t \<longleftrightarrow> space_inv_but x (add_mset (res_hold (tail_reservation v)) H) t"
proof -
  have eq: "add_mset (res_hold r) (add_mset h (add_mset k H)) = add_mset h (add_mset k (add_mset (res_hold r) H))" for r h k
    by (simp add: multiset_eq_iff)
  show ?thesis unfolding snapshot_hold_iff eq using assms by (simp add: snapshot_pins_def)
qed

section \<open>The shape of a snapshot\<close>

lemma snapshot_scan_ok:
  assumes "snapshot_scan p im un seen ls = Inr res" "l \<in> set ls"
  shows "valid_page p l" "device_replica (page_at p l) \<noteq> None" "page_size \<le> committed_columns (page_at p l)" "references (page_at p l) \<noteq> u32_max"
    "source_pins (page_at p l) \<noteq> u32_max" "\<not> destination_pinned (page_at p l)"
proof -
  have "valid_page p l \<and> device_replica (page_at p l) \<noteq> None \<and> page_size \<le> committed_columns (page_at p l) \<and> references (page_at p l) \<noteq> u32_max \<and>
    source_pins (page_at p l) \<noteq> u32_max \<and> \<not> destination_pinned (page_at p l)"
    using assms
  proof (induction ls arbitrary: im un seen)
    case (Cons m ls)
    show ?case
    proof (cases "l = m")
      case True
      then show ?thesis using Cons.prems(1)
        by (auto simp: Let_def page_field_def require_page_def can_retain_reference_def can_pin_source_def can_pin_active_source_def res_bind_eq_Inr split: if_splits)
    next
      case False
      then obtain im' un' seen' where "snapshot_scan p im' un' seen' ls = Inr res"
        using Cons.prems(1) by (auto simp: Let_def res_bind_eq_Inr simp del: page_size_pos(2) split: if_splits)
      then show ?thesis using Cons.IH Cons.prems(2) False by simp
    qed
  qed simp
  then show "valid_page p l" "device_replica (page_at p l) \<noteq> None" "page_size \<le> committed_columns (page_at p l)" "references (page_at p l) \<noteq> u32_max"
    "source_pins (page_at p l) \<noteq> u32_max" "\<not> destination_pinned (page_at p l)" by blast+
qed

lemma snapshot_scan_err:
  assumes "snapshot_scan p im un seen ls = Inl e" "\<And>l. l \<in> set ls \<Longrightarrow> valid_page p l"
  shows "e = LogicError"
  using assms
proof (induction ls arbitrary: im un seen)
  case (Cons m ls)
  then show ?case by (auto simp: Let_def simp del: page_size_pos(2) split: if_splits)
qed simp

lemma snapshot_shape_ok:
  assumes inv: "space_inv_but x H s" and run: "active_snapshot_shape s h f = Inr sh"
  defines "i \<equiv> space_index h"
  shows "valid_address s h" "i < length (addresses s)" "addr_active (addresses s ! i)" "f \<noteq> 0" "committed_frontier (addresses s ! i) = f"
    "pages_for_tokens f \<le> page_count (addresses s ! i)" "full_pages sh = f div page_size" "tail_columns sh = f mod page_size"
    "\<And>k. k < f div page_size \<Longrightarrow> device_replica (page_at (space_pages s) (membership s i k)) \<noteq> None \<and> page_size \<le> committed_columns (page_at (space_pages s) (membership s i k))
       \<and> references (page_at (space_pages s) (membership s i k)) \<noteq> u32_max"
    "\<And>k. k < pages_for_tokens f \<Longrightarrow> source_pins (page_at (space_pages s) (membership s i k)) \<noteq> u32_max \<and> \<not> destination_pinned (page_at (space_pages s) (membership s i k))"
    "f mod page_size \<noteq> 0 \<Longrightarrow> f mod page_size \<le> committed_columns (page_at (space_pages s) (membership s i (f div page_size)))"
proof -
  obtain a where a: "require_active s h = Inr a" using run by (auto simp: active_snapshot_shape_def res_bind_eq_Inr)
  note ra = require_active_ok [OF inv a, folded i_def]
  show "valid_address s h" "i < length (addresses s)" "addr_active (addresses s ! i)" using ra by simp_all
  note run' = run [unfolded active_snapshot_shape_def a Let_def res_bind_simps, folded i_def, folded ra(3)]
  have g: "\<not> (f = 0 \<or> f \<noteq> committed_frontier a)" "\<not> (page_count a < pages_for_tokens f \<or> entitlement_of a < pages_for_tokens f)"
    using run' by (auto simp del: page_size_pos(2) split: if_splits)
  from run' [unfolded if_not_P [OF g(1)] if_not_P [OF g(2)]] obtain im un where
    scan: "snapshot_scan (space_pages s) 0 0 False (page_handles s i [0..<f div page_size]) = Inr (im, un)"
    and rest: "(if f mod page_size = 0 then Inr \<lparr>full_pages = f div page_size, immutable_full_pages = im, unique_full_pages = un, tail_columns = f mod page_size\<rparr>
      else res_bind (page_field id (space_pages s) (membership s i (f div page_size))) (\<lambda>pg.
        if device_replica pg = None \<or> writer_references pg \<noteq> 1 \<or> references pg \<noteq> 1 \<or> committed_columns pg < f mod page_size
          \<or> \<not> can_pin_active_source (space_pages s) (membership s i (f div page_size)) then Inl LogicError
        else Inr \<lparr>full_pages = f div page_size, immutable_full_pages = im, unique_full_pages = un, tail_columns = f mod page_size\<rparr>)) = Inr sh"
    by (auto simp: res_bind_eq_Inr simp del: page_size_pos(2))
  have f: "f \<noteq> 0" "committed_frontier (addresses s ! i) = f" "pages_for_tokens f \<le> page_count (addresses s ! i)" using g by (simp_all add: ra(3) [symmetric])
  have sh: "full_pages sh = f div page_size" "tail_columns sh = f mod page_size"
    using rest by (auto simp: res_bind_eq_Inr simp del: page_size_pos(2) split: if_splits)
  have tail: "f mod page_size \<noteq> 0 \<longrightarrow> (\<exists>pg. page_field id (space_pages s) (membership s i (f div page_size)) = Inr pg \<and>
      f mod page_size \<le> committed_columns pg \<and> can_pin_active_source (space_pages s) (membership s i (f div page_size)))"
    using rest by (auto simp: res_bind_eq_Inr simp del: page_size_pos(2) split: if_splits)
  show "f \<noteq> 0" "committed_frontier (addresses s ! i) = f" "pages_for_tokens f \<le> page_count (addresses s ! i)" "full_pages sh = f div page_size" "tail_columns sh = f mod page_size"
    by (fact f sh)+
  note sc = snapshot_scan_ok [OF scan]
  show "device_replica (page_at (space_pages s) (membership s i k)) \<noteq> None \<and> page_size \<le> committed_columns (page_at (space_pages s) (membership s i k))
       \<and> references (page_at (space_pages s) (membership s i k)) \<noteq> u32_max" if "k < f div page_size" for k
    using sc(2-4) [of "membership s i k"] that by (auto simp: in_page_handles simp del: page_size_pos(2))
  show "f mod page_size \<noteq> 0 \<Longrightarrow> f mod page_size \<le> committed_columns (page_at (space_pages s) (membership s i (f div page_size)))"
    using tail by (auto simp: page_field_def require_page_def simp del: page_size_pos(2) split: if_splits)
  show "source_pins (page_at (space_pages s) (membership s i k)) \<noteq> u32_max \<and> \<not> destination_pinned (page_at (space_pages s) (membership s i k))" if "k < pages_for_tokens f" for k
  proof (cases "k < f div page_size")
    case True
    then show ?thesis using sc(5,6) [of "membership s i k"] by (auto simp: in_page_handles)
  next
    case False
    then have "k = f div page_size" "f mod page_size \<noteq> 0" using that by (auto simp: pages_for_tokens_split simp del: page_size_pos(2) split: if_splits)
    then show ?thesis using tail by (auto simp: can_pin_active_source_def Let_def split: if_splits)
  qed
qed

lemma snapshot_shape_err:
  assumes inv: "space_inv H s" and run: "active_snapshot_shape s h f = Inl e"
  shows "e = LogicError \<or> e = InvalidArgument"
proof (cases "require_active s h")
  case (Inl x)
  then show ?thesis using run require_active_err [OF Inl] by (auto simp: active_snapshot_shape_def)
next
  case (Inr a)
  note ra = require_active_ok [OF inv Inr]
  note m = members_okD [OF space_invD(7) [OF inv ra(2)], folded ra(3)]
  show ?thesis
  proof (cases "f = 0 \<or> f \<noteq> committed_frontier a \<or> page_count a < pages_for_tokens f \<or> entitlement_of a < pages_for_tokens f")
    case True
    then show ?thesis using run by (auto simp: active_snapshot_shape_def Inr Let_def simp del: page_size_pos(2) split: if_splits)
  next
    case False
    have there: "valid_page (space_pages s) (membership s (space_index h) k)" if "k < pages_for_tokens f" for k using m(7) that False by simp
    have v: "valid_page (space_pages s) l" if l: "l \<in> set (page_handles s (space_index h) [0..<f div page_size])" for l
    proof -
      obtain k where k: "k < f div page_size" "l = membership s (space_index h) k" using l by (auto simp: in_page_handles simp del: page_size_pos(2))
      have "k < pages_for_tokens f" using k(1) pages_for_tokens_split [of f] by linarith
      then show ?thesis using there k(2) by simp
    qed
    have tail: "f mod page_size \<noteq> 0 \<Longrightarrow> valid_page (space_pages s) (membership s (space_index h) (f div page_size))"
      using there [of "f div page_size"] pages_for_tokens_split [of f] by simp
    show ?thesis
    proof (cases "snapshot_scan (space_pages s) 0 0 False (page_handles s (space_index h) [0..<f div page_size])")
      case scan: (Inl x)
      then show ?thesis using run False snapshot_scan_err [OF scan v] by (auto simp: active_snapshot_shape_def Inr Let_def simp del: page_size_pos(2) split: if_splits)
    next
      case scan: (Inr res)
      then show ?thesis using run False tail
        by (auto simp: active_snapshot_shape_def Inr Let_def page_queries simp del: page_size_pos(2) split: if_splits prod.splits)
    qed
  qed
qed

section \<open>Preparing a snapshot\<close>

lemma page_queries_pool:
  "page_field g (p\<lparr>physical_pool := q\<rparr>) l = page_field g p l" "can_retain_reference (p\<lparr>physical_pool := q\<rparr>) l w = can_retain_reference p l w"
  "can_pin_source (p\<lparr>physical_pool := q\<rparr>) l = can_pin_source p l" "can_pin_active_source (p\<lparr>physical_pool := q\<rparr>) l = can_pin_active_source p l"
  by (simp_all add: page_field_def require_page_def can_retain_reference_def can_pin_source_def can_pin_active_source_def)

lemma snapshot_scan_pool: "snapshot_scan (p\<lparr>physical_pool := q\<rparr>) im un seen ls = snapshot_scan p im un seen ls"
  by (induction ls arbitrary: im un seen) (simp_all add: page_queries_pool Let_def cong: if_cong del: page_size_pos(2))

lemma snapshot_shape_reserved: "active_snapshot_shape (set_reserved n s) h f = active_snapshot_shape s h f"
proof -
  have "require_active (set_reserved n s) h = require_active s h" "page_handles (set_reserved n s) = page_handles s"
    by (simp_all add: require_active_def require_address_def valid_address_def address_at_def page_handles_def fun_eq_iff)
  then show ?thesis
    by (simp add: active_snapshot_shape_def snapshot_scan_pool page_queries_pool Let_def cong: if_cong del: page_size_pos(2))
qed

definition snapshot_made ::
  "KVAddressSpaceStore \<Rightarrow> hold multiset \<Rightarrow> KVAddressSpaceStore \<Rightarrow> KVActiveSnapshotReservation res \<Rightarrow> bool" where
  "snapshot_made s H s' r \<longleftrightarrow> benign r \<and> (\<forall>P. keeps P s s') \<and> (case r of Inl e \<Rightarrow> space_inv H s'
     | Inr v \<Rightarrow> space_inv (add_mset (snapshot_hold s' v) H) s' \<and> snapshot_ok s' v \<and> snapshot_owner v \<noteq> None)"

lemma prepare_snapshot_body:
  fixes src dst :: KVAddressSpaceHandle
  assumes inv: "space_inv (add_mset (res_hold r) H) s" and own: "reservation_owner r = Some (pool_id (physical_pool (space_pages s)))"
    and sh: "active_snapshot_shape s src f = Inr sh" and ne: "src \<noteq> dst"
    and run: "act_bind (act_cleanup
          (if tail_columns sh = 0 then act_return (r, None)
           else on_pages_result (\<lambda>p. res_bind (materialize_transfer_destination p r (tail_columns sh)) (\<lambda>(p', r', l).
                  Inr (p', (r', Some l)))))
          (drop_reservation r)) (\<lambda>(r', tail_destination).
        act_then (act_cleanup
          (\<lambda>s. act_for (\<lambda>l. on_pages (\<lambda>p. pin_source p l)) (page_handles s (space_index src) [0..<pages_for_tokens f]) s)
          (act_bind (abort_tail tail_destination r') drop_reservation))
        (\<lambda>s. (s, Inr \<lparr>snapshot_owner = Some (space_id s), snapshot_source = src, snapshot_destination = dst,
               snapshot_frontier = f, snapshot_shape = sh, snapshot_entitlement = ent,
               tail_reservation = r', snapshot_tail = tail_destination\<rparr>))) s = (s', res)"
  shows "snapshot_made s H s' res"
proof -
  define i where "i = space_index src"
  define n where "n = pages_for_tokens f"
  note S = snapshot_shape_ok [OF inv sh, folded i_def n_def] and m = members_okD [OF space_invD(7) [OF inv snapshot_shape_ok(2) [OF inv sh, folded i_def]]]
  obtain s0 where s0: "drop_reservation r s = (s0, Inr ())" "space_inv H s0" "\<And>P. keeps P s s0" using drop_hold [OF inv] by metis
  from tail_stage [OF inv own run s0(1)] consider (err) e where "res = Inl e" "benign (Inl e :: unit res)" "s' = s0"
    | (tail) p' r' t where "act_then (act_cleanup
          (\<lambda>s. act_for (\<lambda>l. on_pages (\<lambda>p. pin_source p l)) (page_handles s (space_index src) [0..<pages_for_tokens f]) s)
          (act_bind (abort_tail t r') drop_reservation))
        (\<lambda>s. (s, Inr \<lparr>snapshot_owner = Some (space_id s), snapshot_source = src, snapshot_destination = dst,
               snapshot_frontier = f, snapshot_shape = sh, snapshot_entitlement = ent,
               tail_reservation = r', snapshot_tail = t\<rparr>)) (s\<lparr>space_pages := p'\<rparr>) = (s', res)"
      "space_inv (add_mset (res_hold r') (add_mset (tail_hold (tail_of (tail_columns sh) t)) H)) (s\<lparr>space_pages := p'\<rparr>)"
      "\<And>P. keeps P s (s\<lparr>space_pages := p'\<rparr>)" "t = None \<longleftrightarrow> tail_columns sh = 0" "reservation_owner r' = reservation_owner r"
      "\<And>l. valid_page (space_pages s) l \<Longrightarrow> valid_page p' l \<and> page_at p' l = page_at (space_pages s) l"
    by auto
  then show ?thesis
  proof cases
    case err
    then show ?thesis using s0(2,3) by (simp add: snapshot_made_def benign_def)
  next
    case tail
    let ?t = "s\<lparr>space_pages := p'\<rparr>" and ?H = "add_mset (res_hold r') (add_mset (tail_hold (tail_of (tail_columns sh) t)) H)"
    have page: "page_at p' (membership s i k) = page_at (space_pages s) (membership s i k)" if "k < n" for k
      using tail(6) [of "membership s i k"] m(7) [of k] that S(6) by simp
    obtain p2 where p2: "(\<lambda>s. act_for (\<lambda>l. on_pages (\<lambda>p. pin_source p l)) (page_handles s i [0..<n]) s) ?t = (?t\<lparr>space_pages := p2\<rparr>, Inr ())"
      "space_inv (add_mset (pin_hold False (page_handles ?t i [0..<n])) ?H) (?t\<lparr>space_pages := p2\<rparr>)" "\<And>P. keeps P ?t (?t\<lparr>space_pages := p2\<rparr>)"
    proof (rule pin_stage [OF tail(2), of i n False])
      show "i < length (addresses ?t)" "n \<le> page_count (addresses ?t ! i)" using S(2,6) by simp_all
      show "source_pins (page_at (space_pages ?t) (membership ?t i k)) \<noteq> u32_max \<and> \<not> destination_pinned (page_at (space_pages ?t) (membership ?t i k))
          \<and> (False \<longrightarrow> writer_references (page_at (space_pages ?t) (membership ?t i k)) = 0)" if "k < n" for k
        using S(10) [OF that] page [OF that] by simp
    qed (rule that)
    define s4 where "s4 = ?t\<lparr>space_pages := p2\<rparr>"
    define v where "v = \<lparr>snapshot_owner = Some (space_id s4), snapshot_source = src, snapshot_destination = dst,
               snapshot_frontier = f, snapshot_shape = sh, snapshot_entitlement = ent, tail_reservation = r', snapshot_tail = t\<rparr>"
    have s': "s' = s4" "res = Inr v"
      using tail(1) p2(1) by (auto simp: act_then_def act_bind_def act_cleanup_def i_def n_def s4_def v_def)
    have k: "keeps P s s4" for P unfolding s4_def by (rule keeps_trans [OF tail(3) p2(3)])
    have pins: "snapshot_pins s4 v = page_handles ?t i [0..<n]"
      by (simp add: snapshot_pins_def v_def s4_def n_def i_def page_handles_def)
    have "space_inv (add_mset (snapshot_hold s4 v) H) s4"
    proof -
      have "space_inv (add_mset (pin_hold False (snapshot_pins s4 v)) ?H) s4" using p2(2) [folded s4_def] by (simp only: pins)
      then show ?thesis unfolding snapshot_hold_iff by (simp add: v_def add_mset_commute)
    qed
    moreover have "snapshot_ok s4 v"
      using S(1,4,6-8) ne tail(4,5) own by (simp add: snapshot_ok_def v_def s4_def i_def n_def valid_address_def address_at_def)
    ultimately show ?thesis using k by (simp add: snapshot_made_def s' v_def)
  qed
qed

lemma snapshot_guards:
  assumes "act_bind (act_ask (\<lambda>s. require_active s src)) (\<lambda>source.
     act_bind (act_ask (\<lambda>s. require_address s dst)) (\<lambda>destination.
     act_then (act_guard (\<lambda>s. addr_row source = None \<or> \<not> reservation_valid (addr_reservation source)
         \<or> \<not> idle_address destination \<or> page_count destination \<noteq> 0 \<or> committed_frontier destination \<noteq> 0
         \<or> f = 0 \<or> f \<noteq> committed_frontier source) LogicError)
     (act_bind (act_ask (\<lambda>s. active_snapshot_shape s src f)) (\<lambda>sh.
       act_then (act_guard (\<lambda>s. page_count source \<noteq> n) LogicError) (K source sh))))) s = (s', r)"
  shows "(\<exists>e. s' = s \<and> r = Inl e \<and> (e = LogicError \<or> e = InvalidArgument \<or> active_snapshot_shape s src f = Inl e \<or> require_active s src = Inl e)) \<or>
    (\<exists>source sh. src \<noteq> dst \<and> active_snapshot_shape s src f = Inr sh \<and> K source sh s = (s', r))"
proof -
  have "committed_frontier (address_at s src) \<noteq> 0 \<Longrightarrow> committed_frontier (address_at s dst) = 0 \<Longrightarrow> src \<noteq> dst" by auto
  then show ?thesis using assms
    by (auto simp: act_bind_def act_then_def act_ask_def act_guard_def require_address_def require_active_def split: if_splits sum.splits)
qed

lemma prepare_active_snapshot_step:
  assumes inv: "space_inv H s" and run: "prepare_active_snapshot src dst f s = (s', r)"
  shows "snapshot_made s H s' r"
proof -
  have stay: "snapshot_made s H s' r" if "s' = s" "r = Inl e" "e = LogicError \<or> e = InvalidArgument \<or> e = BadAlloc" for e
    using that inv by (auto simp: keeps_refl snapshot_made_def)
  from snapshot_guards [OF run [unfolded prepare_active_snapshot_def Let_def]] show ?thesis
  proof (elim disjE exE conjE, goal_cases)
    case (3 e)
    show ?thesis by (rule stay [OF 3(1,2)]) (use snapshot_shape_err [OF inv 3(3)] in blast)
  next
    case (4 e)
    show ?thesis by (rule stay [OF 4(1,2)]) (use require_active_err [OF 4(3)] in blast)
  next
    case (5 source sh)
    let ?r0 = "make_empty_reservation (physical_pool (space_pages s))"
    from 5(3) show ?thesis
    proof (cases rule: act_bindE)
      case (throws e)
      then have "on_pool (\<lambda>p. resize_reservation p (make_empty_reservation p) (copied_pages sh)) s = (s', Inl e)" by (simp split: if_splits)
      then have "on_pool (\<lambda>p. resize_reservation p ?r0 (copied_pages sh)) s = (s', Inl e)" by (simp add: on_pool_def on_pages_result_def)
      from resize_fails [OF this] show ?thesis using stay [of BadAlloc] throws(2) by simp
    next
      case (goes s1 q)
      have made: "space_inv (add_mset (res_hold q) H) s1 \<and> reservation_owner q = Some (pool_id (physical_pool (space_pages s1)))
        \<and> active_snapshot_shape s1 src f = Inr sh \<and> (\<forall>P. keeps P s s1)"
      proof (cases "copied_pages sh = 0")
        case True
        then have "s1 = s" "q = ?r0" using goes(1) by auto
        then show ?thesis using empty_hold [OF inv] 5(2) by (simp add: make_empty_reservation_def keeps_refl)
      next
        case False
        have run1: "on_pool (\<lambda>p. resize_reservation p ?r0 (copied_pages sh)) s = (s1, Inr q)"
          using goes(1) False by (simp add: on_pool_def on_pages_result_def)
        have "copied_pages sh \<le> u32_max" by (simp add: copied_pages_def u32_max_def)
        note rs = resize_hold [OF empty_hold [OF inv] this run1]
        have "active_snapshot_shape s1 src f = active_snapshot_shape s src f"
          unfolding rs(4) by (rule snapshot_shape_reserved)
        then show ?thesis using rs(1,2,3,5) 5(2) by (simp add: rs(4))
      qed
      have "snapshot_made s1 H s' r"
        by (rule prepare_snapshot_body [OF _ _ _ 5(1) goes(2)]) (use made in simp_all)
      then show ?thesis using made keeps_trans unfolding snapshot_made_def by blast
    qed
  qed (use stay in auto)
qed

section \<open>Aborting and destroying a snapshot\<close>

lemma snapshot_pins_distinct:
  assumes inv: "space_inv_but x H s" and ok: "snapshot_ok s v"
  shows "distinct (snapshot_pins s v)"
proof (cases "snapshot_owner v = None")
  case False
  let ?n = "pages_for_tokens (snapshot_frontier v)"
  have v: "valid_address s (snapshot_source v)" "?n \<le> page_count (addresses s ! space_index (snapshot_source v))"
    using ok False by (simp_all add: snapshot_ok_def address_at_def)
  show ?thesis using page_handles_distinct [OF space_invD(7) [OF inv valid_addressD [OF v(1)]] v(2)] False by (simp add: snapshot_pins_def)
qed (simp add: snapshot_pins_def)

lemma abort_active_snapshot_step:
  assumes inv: "space_inv (add_mset (snapshot_hold s v) H) s" and ok: "snapshot_ok s v"
  obtains s' v' where "abort_active_snapshot v s = (s', Inr v')" "space_inv (add_mset (snapshot_hold s' v') H) s'" "snapshot_ok s' v'"
    "\<And>P. keeps P s s'" "snapshot_owner v' = None"
proof (cases "snapshot_owner v = None")
  case True
  then show ?thesis using that [of s v] inv ok by (simp add: abort_active_snapshot_def act_noexcept_def keeps_refl)
next
  case False
  let ?n = "pages_for_tokens (snapshot_frontier v)" and ?h = "snapshot_source v"
  have own: "snapshot_owner v = Some (space_id s)" using ok False by (simp add: snapshot_ok_def)
  let ?R = "add_mset (res_hold (tail_reservation v)) (add_mset (tail_hold (tail_of (tail_columns (snapshot_shape v)) (snapshot_tail v))) H)"
  have split: "space_inv (add_mset (pin_hold False (snapshot_pins s v)) ?R) s"
    using inv unfolding snapshot_hold_iff by (simp add: add_mset_commute)
  obtain s1 p1 where s1: "act_for unpin_if_pinned (snapshot_pins s v) s = (s1, Inr ())" "s1 = s\<lparr>space_pages := p1\<rparr>" "space_inv ?R s1" "\<And>P. keeps P s s1"
    by (rule unpin_loop [OF split snapshot_pins_distinct [OF inv ok] unpin_if_pinned_touches]) (rule that)
  have va: "valid_address s ?h" "?n \<le> page_count (address_at s ?h)" using ok False by (simp_all add: snapshot_ok_def)
  then have min: "min ?n (page_count (address_at s ?h)) = ?n" by simp
  have unpinned: "act_when (valid_address s ?h) (act_for (\<lambda>page. unpin_if_pinned (membership s (space_index ?h) page)) [0..<min ?n (page_count (address_at s ?h))]) s = (s1, Inr ())"
    unfolding min using s1(1) va(1) False act_for_map [of unpin_if_pinned "membership s (space_index ?h)" "[0..<?n]"]
    by (simp add: act_when_def snapshot_pins_def page_handles_def own)
  have res: "reservation_owner (tail_reservation v) = Some (pool_id (physical_pool (space_pages s1)))"
    using ok False space_invD(5) [OF s1(3)] by (auto simp: snapshot_ok_def holds_ok_def)
  obtain s2 q where s2: "abort_tail (snapshot_tail v) (tail_reservation v) s1 = (s2, Inr q)" "space_inv (add_mset (res_hold q) H) s2" "\<And>P. keeps P s1 s2"
    by (rule abort_tail_hold [OF s1(3) res]) (rule that)
  define v' where "v' = v\<lparr>snapshot_owner := None, snapshot_tail := None, tail_reservation := q\<rparr>"
  have "abort_active_snapshot v s = (s2, Inr v')"
    using unpinned s2(1) by (simp add: abort_active_snapshot_def act_noexcept_def own act_then_def act_bind_def v'_def)
  moreover have "space_inv (add_mset (snapshot_hold s2 v') H) s2" using s2(2) by (simp add: snapshot_hold_idle v'_def)
  ultimately show ?thesis using that keeps_trans [OF s1(4) s2(3)] by (simp add: v'_def snapshot_ok_def)
qed

lemma destroy_active_snapshot_step:
  assumes inv: "space_inv (add_mset (snapshot_hold s v) H) s" and ok: "snapshot_ok s v"
  obtains s' where "destroy_active_snapshot v s = (s', Inr ())" "space_inv H s'" "\<And>P. keeps P s s'"
proof -
  obtain s1 v1 where s1: "(if snapshot_owner v = None then act_return v else abort_active_snapshot v) s = (s1, Inr v1)"
    "space_inv (add_mset (snapshot_hold s1 v1) H) s1" "snapshot_ok s1 v1" "\<And>P. keeps P s s1" "snapshot_owner v1 = None"
  proof (cases "snapshot_owner v = None")
    case True
    then show ?thesis using that [of s v] inv ok by (simp add: keeps_refl)
  next
    case False
    obtain s' v' where "abort_active_snapshot v s = (s', Inr v')" "space_inv (add_mset (snapshot_hold s' v') H) s'" "snapshot_ok s' v'"
        "\<And>P. keeps P s s'" "snapshot_owner v' = None"
      by (rule abort_active_snapshot_step [OF inv ok]) (rule that)
    then show ?thesis using that [of s' v'] False by simp
  qed
  have "snapshot_tail v1 = None" using s1(3,5) by (simp add: snapshot_ok_def)
  then have "space_inv (add_mset (res_hold (tail_reservation v1)) H) s1" using s1(2,5) by (simp add: snapshot_hold_idle)
  then obtain s2 where s2: "drop_reservation (tail_reservation v1) s1 = (s2, Inr ())" "space_inv H s2" "\<And>P. keeps P s1 s2"
    using drop_hold by metis
  have "destroy_active_snapshot v s = (s2, Inr ())"
    using s1(1) s2(1) by (simp add: destroy_active_snapshot_def act_noexcept_def act_bind_def)
  then show ?thesis using that s2(2) keeps_trans [OF s1(4) s2(3)] by blast
qed

section \<open>Committing a snapshot\<close>

lemma act_then_assoc: "act_then a (act_then b c) = act_then (act_then a b) c"
  by (auto simp: act_then_def act_bind_def fun_eq_iff split: prod.splits sum.splits)

lemma act_then_run: "a s = (s', Inr ()) \<Longrightarrow> act_then a b s = b s'"
  by (simp add: act_then_def act_bind_def)

lemma snapshot_ready_err:
  assumes inv: "space_inv H s" and err: "snapshot_ready s v = Inl e"
  shows "e = LogicError \<or> e = InvalidArgument"
proof (cases "require_active_snapshot s v")
  case (Inl x)
  then show ?thesis using err by (auto simp: snapshot_ready_def require_active_snapshot_def split: if_splits)
next
  case req: (Inr u)
  show ?thesis
  proof (cases "require_active s (snapshot_source v)")
    case (Inl x)
    then show ?thesis using err req require_active_err [OF Inl] by (auto simp: snapshot_ready_def)
  next
    case src: (Inr a)
    show ?thesis
    proof (cases "active_snapshot_shape s (snapshot_source v) (snapshot_frontier v)")
      case (Inl x)
      then show ?thesis using err req src snapshot_shape_err [OF inv Inl] by (auto simp: snapshot_ready_def)
    next
      case (Inr sh)
      then show ?thesis using err req src
        by (auto simp: snapshot_ready_def Let_def page_field_def require_page_def res_bind_eq_Inl split: if_splits dest!: check_pages_cases)
    qed
  qed
qed

lemma snapshot_ready_ok:
  assumes inv: "space_inv H s" and ready: "snapshot_ready s v = Inr ()"
  defines "i \<equiv> space_index (snapshot_source v)" and "d \<equiv> space_index (snapshot_destination v)"
  shows "snapshot_owner v = Some (space_id s)" "valid_address s (snapshot_source v)" "valid_address s (snapshot_destination v)"
    "active_snapshot_shape s (snapshot_source v) (snapshot_frontier v) = Inr (snapshot_shape v)"
    "addr_active (addresses s ! i)" "page_count (addresses s ! i) = pages_for_tokens (snapshot_frontier v)"
    "committed_frontier (addresses s ! i) = snapshot_frontier v" "\<not> addr_active (addresses s ! d)" "page_count (addresses s ! d) = 0"
    "reservation_pages (tail_reservation v) = 0" "i < length (addresses s)" "d < length (addresses s)"
proof -
  obtain a where a: "require_active s (snapshot_source v) = Inr a" using ready by (auto simp: snapshot_ready_def res_bind_eq_Inr)
  note ra = require_active_ok [OF inv a, folded i_def]
  have g: "require_active_snapshot s v = Inr ()" "active_snapshot_shape s (snapshot_source v) (snapshot_frontier v) = Inr (snapshot_shape v)"
    "page_count a = pages_for_tokens (snapshot_frontier v)" "committed_frontier a = snapshot_frontier v"
    "idle_address (address_at s (snapshot_destination v))" "page_count (address_at s (snapshot_destination v)) = 0" "reservation_pages (tail_reservation v) = 0"
    using ready by (auto simp: snapshot_ready_def a res_bind_eq_Inr Let_def split: if_splits)
  show own: "snapshot_owner v = Some (space_id s)" and vs: "valid_address s (snapshot_source v)" and vd: "valid_address s (snapshot_destination v)"
    using g(1) by (auto simp: require_active_snapshot_def split: if_splits)
  show d: "d < length (addresses s)" using valid_addressD [OF vd] by (simp add: d_def)
  show "\<not> addr_active (addresses s ! d)" using g(5) idle_iff [OF space_invD(8) [OF inv d]] by (simp add: address_at_def d_def)
  show "active_snapshot_shape s (snapshot_source v) (snapshot_frontier v) = Inr (snapshot_shape v)" by (rule g(2))
  show "addr_active (addresses s ! i)" "page_count (addresses s ! i) = pages_for_tokens (snapshot_frontier v)"
    "committed_frontier (addresses s ! i) = snapshot_frontier v" "page_count (addresses s ! d) = 0"
    "reservation_pages (tail_reservation v) = 0" "i < length (addresses s)"
    using g ra by (simp_all add: address_at_def d_def)
qed

definition snapshot_shared :: "KVAddressSpaceStore \<Rightarrow> KVActiveSnapshotReservation \<Rightarrow> LogicalKVPageHandle list" where
  "snapshot_shared s v = page_handles s (space_index (snapshot_source v)) [0..<full_pages (snapshot_shape v)]"

abbreviation snapshot_adopted :: "KVAddressSpaceStore \<Rightarrow> KVActiveSnapshotReservation \<Rightarrow> LogicalKVPageHandle list" where
  "snapshot_adopted s v \<equiv> adopted_pages (snapshot_shared s v) (snapshot_tail v)"

abbreviation tail_source :: "KVAddressSpaceStore \<Rightarrow> KVActiveSnapshotReservation \<Rightarrow> LogicalKVPageHandle" where
  "tail_source s v \<equiv> membership s (space_index (snapshot_source v)) (full_pages (snapshot_shape v))"

lemma snapshot_parts:
  assumes inv: "space_inv (add_mset (snapshot_hold s v) H) s" and ok: "snapshot_ok s v" and ready: "snapshot_ready s v = Inr ()"
  shows "space_index (snapshot_source v) \<noteq> space_index (snapshot_destination v)"
    "length (snapshot_adopted s v) = pages_for_tokens (snapshot_frontier v)" "pages_for_tokens (snapshot_frontier v) \<le> page_capacity s"
    "pages_of s (space_index (snapshot_source v)) = snapshot_pins s v"
    "snapshot_pins s v = snapshot_shared s v @ (if snapshot_tail v = None then [] else [tail_source s v])"
    "distinct (snapshot_pins s v)" "snapshot_tail v = None \<longleftrightarrow> tail_columns (snapshot_shape v) = 0"
    "full_pages (snapshot_shape v) = snapshot_frontier v div page_size" "tail_columns (snapshot_shape v) = snapshot_frontier v mod page_size"
proof -
  note R = snapshot_ready_ok [OF inv ready] and S = snapshot_shape_ok [OF inv snapshot_ready_ok(4) [OF inv ready]]
  have o: "snapshot_owner v \<noteq> None" using R(1) by simp
  note k = ok [unfolded snapshot_ok_def if_not_P [OF o]]
  show "space_index (snapshot_source v) \<noteq> space_index (snapshot_destination v)" using R(2,3) k by (auto simp: valid_address_def)
  have n: "pages_for_tokens (snapshot_frontier v) = full_pages (snapshot_shape v) + (if snapshot_tail v = None then 0 else 1)"
    using k pages_for_tokens_split [of "snapshot_frontier v"] by auto
  then show "length (snapshot_adopted s v) = pages_for_tokens (snapshot_frontier v)"
    by (simp add: snapshot_shared_def page_handles_def split: option.splits)
  show "pages_for_tokens (snapshot_frontier v) \<le> page_capacity s"
    using members_okD(2) [OF space_invD(7) [OF inv R(11)]] R(6) by simp
  show "pages_of s (space_index (snapshot_source v)) = snapshot_pins s v" using R(1,6) by (simp add: snapshot_pins_def pages_of_def)
  show "snapshot_pins s v = snapshot_shared s v @ (if snapshot_tail v = None then [] else [tail_source s v])"
    using n R(1) by (auto simp: snapshot_pins_def snapshot_shared_def page_handles_def)
  show "distinct (snapshot_pins s v)" by (rule snapshot_pins_distinct [OF inv ok])
  show "snapshot_tail v = None \<longleftrightarrow> tail_columns (snapshot_shape v) = 0"
    "full_pages (snapshot_shape v) = snapshot_frontier v div page_size" "tail_columns (snapshot_shape v) = snapshot_frontier v mod page_size"
    using k by simp_all
qed

lemma snapshot_page:
  assumes inv: "space_inv (add_mset (snapshot_hold s v) H) s" and ok: "snapshot_ok s v" and ready: "snapshot_ready s v = Inr ()"
  shows "l \<in> set (snapshot_pins s v) \<Longrightarrow> valid_page (space_pages s) l" "l \<in> set (snapshot_pins s v) \<Longrightarrow> source_pins (page_at (space_pages s) l) \<noteq> 0"
    "l \<in> set (snapshot_pins s v) \<Longrightarrow> active_references (page_at (space_pages s) l) \<noteq> 0" "l \<in> set (snapshot_pins s v) \<Longrightarrow> users s l \<noteq> {}"
    "l \<in> set (snapshot_pins s v) \<Longrightarrow> device_replica (page_at (space_pages s) l) \<noteq> None"
    "l \<in> set (snapshot_shared s v) \<Longrightarrow> references (page_at (space_pages s) l) \<noteq> u32_max \<and> page_size \<le> committed_columns (page_at (space_pages s) l)"
    "snapshot_tail v \<noteq> None \<Longrightarrow> tail_columns (snapshot_shape v) \<le> committed_columns (page_at (space_pages s) (tail_source s v))"
    "snapshot_tail v = Some q \<Longrightarrow> valid_page (space_pages s) q \<and> unpublished_transfer (page_at (space_pages s) q) \<and> tail_columns (snapshot_shape v) \<le> committed_columns (page_at (space_pages s) q)
       \<and> users s q = {} \<and> q \<notin> set (snapshot_pins s v) \<and> active_references (page_at (space_pages s) q) = 0"
proof -
  let ?i = "space_index (snapshot_source v)"
  note R = snapshot_ready_ok [OF inv ready] and S = snapshot_shape_ok [OF inv snapshot_ready_ok(4) [OF inv ready]]
    and P = snapshot_parts [OF inv ok ready] and I = space_invD [OF inv]
  show v: "valid_page (space_pages s) l" if "l \<in> set (snapshot_pins s v)" for l
    using members_okD(4) [OF I(7) [OF R(11)]] that by (simp add: P(4))
  show "source_pins (page_at (space_pages s) l) \<noteq> 0" if "l \<in> set (snapshot_pins s v)" for l
    using counts_okD(3) [OF I(4) v [OF that]] that by (simp add: snapshot_hold_def)
  show "active_references (page_at (space_pages s) l) \<noteq> 0" if "l \<in> set (snapshot_pins s v)" for l
  proof -
    have "?i \<in> active_users s l" using that R(5,11) by (simp add: active_users_def users_def P(4))
    then have "card (active_users s l) \<noteq> 0" by auto
    then show ?thesis using counts_okD(2) [OF I(4) v [OF that]] by simp
  qed
  show "users s l \<noteq> {}" if "l \<in> set (snapshot_pins s v)" using that by (intro member_used [OF R(11)]) (simp add: P(4))
  show "device_replica (page_at (space_pages s) l) \<noteq> None" if "l \<in> set (snapshot_pins s v)"
    using activity_okD(4) [OF I(8) [OF R(11)] R(5)] that by (simp add: P(4))
  show "references (page_at (space_pages s) l) \<noteq> u32_max \<and> page_size \<le> committed_columns (page_at (space_pages s) l)" if "l \<in> set (snapshot_shared s v)"
    using S(9) that by (auto simp: snapshot_shared_def in_page_handles P(8) simp del: page_size_pos(2))
  show "snapshot_tail v \<noteq> None \<Longrightarrow> tail_columns (snapshot_shape v) \<le> committed_columns (page_at (space_pages s) (tail_source s v))"
    using S(11) P(7-9) by simp
  show "valid_page (space_pages s) q \<and> unpublished_transfer (page_at (space_pages s) q) \<and> tail_columns (snapshot_shape v) \<le> committed_columns (page_at (space_pages s) q)
       \<and> users s q = {} \<and> q \<notin> set (snapshot_pins s v) \<and> active_references (page_at (space_pages s) q) = 0" if q: "snapshot_tail v = Some q"
  proof -
    have t: "(q, tail_columns (snapshot_shape v)) \<in># tails (add_mset (snapshot_hold s v) H)" by (simp add: snapshot_hold_def q)
    note h = holds_tail [OF I(5) t] and n = transfer_not_pinned [OF inv holds_tail(4) [OF I(5) t]]
    have "active_users s q = {}" using n(2) by (simp add: active_users_def)
    then show ?thesis using h n counts_okD(2) [OF I(4) h(1)] by (simp add: snapshot_hold_def)
  qed
qed

text \<open>The pages while the table row and the memberships of the destination are written: full pages lose their
  writer and gain a reference, the source's tail page loses its writer and is protected.\<close>

definition retired :: "LogicalPage \<Rightarrow> LogicalPage" where
  "retired pg = shared_once (pg\<lparr>writer_references := 0\<rparr>)"

definition sealed :: "nat \<Rightarrow> LogicalPage \<Rightarrow> LogicalPage" where
  "sealed c pg = pg\<lparr>writer_references := 0, protected_columns := max (protected_columns pg) c\<rparr>"

lemma unwrite_touches:
  "touches (\<lambda>pg. pg\<lparr>writer_references := 0\<rparr>) (\<lambda>pg. True) (\<lambda>l. on_pages (\<lambda>p. set_writer p l False))"
proof -
  have "touches (\<lambda>pg. pg\<lparr>writer_references := if False then 1 else 0\<rparr>) (\<lambda>pg. True) (\<lambda>l. on_pages (\<lambda>p. set_writer p l False))"
    by (rule touches_weaken [OF set_writer_touches]) simp
  then show ?thesis by simp
qed

lemma seal_touches:
  "touches (sealed c) (\<lambda>pg. c \<le> committed_columns pg)
     (\<lambda>l. act_then (on_pages (\<lambda>p. set_writer p l False)) (on_pages (\<lambda>p. protect_coverage p l c)))"
proof -
  have f: "sealed c = (\<lambda>pg. (\<lambda>pg. pg\<lparr>protected_columns := max (protected_columns pg) c\<rparr>) (pg\<lparr>writer_references := 0\<rparr>))"
    by (simp add: sealed_def fun_eq_iff)
  show ?thesis unfolding f by (rule touches_then [OF touches_weaken [OF unwrite_touches] protect_coverage_touches]) simp_all
qed

definition retire_body :: "LogicalKVPageHandle \<Rightarrow> unit space_action" where
  "retire_body l = act_bind (ask_pages (\<lambda>p. page_field writer_references p l)) (\<lambda>n.
     act_then (act_when (n \<noteq> 0) (on_pages (\<lambda>p. set_writer p l False)))
       (act_then (on_pages (\<lambda>p. retain_reference p l False)) (on_pages (\<lambda>p. protect_coverage p l page_size))))"

lemma retire_touches: "touches retired (\<lambda>pg. references pg \<noteq> u32_max \<and> page_size \<le> committed_columns pg) retire_body"
proof -
  let ?G = "\<lambda>pg. references pg \<noteq> u32_max \<and> page_size \<le> committed_columns pg"
  let ?f = "\<lambda>n pg. if n \<noteq> (0::nat) then pg\<lparr>writer_references := 0\<rparr> else pg"
  have "touches (?f n) (\<lambda>pg. ?G pg \<and> writer_references pg = n) (\<lambda>l. act_when (n \<noteq> 0) (on_pages (\<lambda>p. set_writer p l False)))" for n
    by (rule touches_when, rule touches_weaken [OF unwrite_touches]) simp
  then have "touches (\<lambda>pg. shared_once (?f n pg)) (\<lambda>pg. ?G pg \<and> writer_references pg = n)
      (\<lambda>l. act_then (act_when (n \<noteq> 0) (on_pages (\<lambda>p. set_writer p l False)))
       (act_then (on_pages (\<lambda>p. retain_reference p l False)) (on_pages (\<lambda>p. protect_coverage p l page_size))))" for n
    by (rule touches_then [OF _ share_touches]) simp
  from touches_query [OF this] have "touches (\<lambda>pg. shared_once (?f (writer_references pg) pg)) ?G retire_body"
    unfolding retire_body_def [abs_def] .
  moreover have "(\<lambda>pg. shared_once (?f (writer_references pg) pg)) = retired" by (rule ext) (simp add: retired_def shared_once_def)
  ultimately show ?thesis by simp
qed

lemma retire_page_split: "retire_page d k l s = act_then (retire_body l) (set_membership d k l) s"
  by (auto simp: retire_page_def retire_body_def share_page_def act_then_def act_bind_def split: prod.splits sum.splits)

text \<open>What the publication makes of a page.\<close>

definition snapshot_published ::
  "KVAddressSpaceStore \<Rightarrow> KVActiveSnapshotReservation \<Rightarrow> LogicalKVPageHandle \<Rightarrow> LogicalPage \<Rightarrow> LogicalPage" where
  "snapshot_published s v l a = (if snapshot_tail v = Some l then published a else if l \<in> set (snapshot_shared s v) then retired a
     else if snapshot_tail v \<noteq> None \<and> l = tail_source s v then sealed (tail_columns (snapshot_shape v)) a else a)"

lemma snapshot_fill:
  assumes fit: "slots_fit s" "d < length (addresses s)" "store_inv (space_pages s)" "length (adopted_pages (map g [0..<n]) t) \<le> page_capacity s"
    and L: "distinct (map g [0..<n])" "\<And>k. k < n \<Longrightarrow> valid_page (space_pages s) (g k) \<and> references (page_at (space_pages s) (g k)) \<noteq> u32_max
      \<and> page_size \<le> committed_columns (page_at (space_pages s) (g k))"
    and T: "\<And>l. t = Some l \<Longrightarrow> valid_page (space_pages s) l \<and> unpublished_transfer (page_at (space_pages s) l) \<and> l \<notin> g ` {..<n} \<and> l \<noteq> m
      \<and> valid_page (space_pages s) m \<and> c \<le> committed_columns (page_at (space_pages s) m) \<and> m \<notin> g ` {..<n}"
  obtains p' ms where "act_then (act_for (\<lambda>k. retire_page d k (g k)) [0..<n]) (case t of None \<Rightarrow> act_return ()
      | Some l \<Rightarrow> act_then (on_pages (\<lambda>p. set_writer p m False)) (act_then (on_pages (\<lambda>p. protect_coverage p m c))
          (act_then (on_pages (\<lambda>p. publish_transfer_destination p l True)) (set_membership d n l)))) s
      = (s\<lparr>space_pages := p', memberships := ms\<rparr>, Inr ())"
    "pages_rel (\<lambda>l a b. b = (if t = Some l then published a else if l \<in> g ` {..<n} then retired a
       else if t \<noteq> None \<and> l = m then sealed c a else a)) (space_pages s) p'" "length ms = length (memberships s)"
    "\<And>j k. k < page_capacity s \<Longrightarrow> membership (s\<lparr>space_pages := p', memberships := ms\<rparr>) j k
      = (if j = d \<and> k < length (adopted_pages (map g [0..<n]) t) then adopted_pages (map g [0..<n]) t ! k else membership s j k)"
proof -
  have n': "n \<le> page_capacity s" using fit(4) by (simp split: option.splits)
  obtain p1 m1 where run1: "act_for (\<lambda>k. retire_page d k (g k)) [0..<n] s = (s\<lparr>space_pages := p1, memberships := m1\<rparr>, Inr ())"
    and rel1: "touched retired (g ` {..<n}) (space_pages s) p1" and len1: "length m1 = length (memberships s)"
    and mem1: "\<And>j k. k < page_capacity s \<Longrightarrow> membership (s\<lparr>space_pages := p1, memberships := m1\<rparr>) j k = (if j = d \<and> k < n then g k else membership s j k)"
    by (rule member_loop [OF retire_touches retire_page_split fit(1-3) n' L]) (assumption | rule that)+
  show ?thesis
  proof (cases t)
    case None
    show ?thesis
    proof (rule that [where ms = m1])
      show "pages_rel (\<lambda>l a b. b = (if t = Some l then published a else if l \<in> g ` {..<n} then retired a
         else if t \<noteq> None \<and> l = m then sealed c a else a)) (space_pages s) p1" using rel1 by (simp add: None cong: if_cong)
    qed (use run1 len1 mem1 in \<open>simp_all add: None act_then_def act_bind_def\<close>)
  next
    case (Some l)
    note T = T [OF Some] and fr1 = pages_rel_frame [OF rel1]
    define s1 where "s1 = s\<lparr>space_pages := p1, memberships := m1\<rparr>"
    have st1: "store_inv (space_pages s1)" "valid_page (space_pages s1) m" "c \<le> committed_columns (page_at (space_pages s1) m)"
      using fr1(1,6) pages_relD [OF rel1, of m] T by (simp_all add: s1_def)
    obtain p2 where rel2: "touched (sealed c) {m} (space_pages s1) p2"
      and run2: "act_then (on_pages (\<lambda>p. set_writer p m False)) (on_pages (\<lambda>p. protect_coverage p m c)) s1 = (s1\<lparr>space_pages := p2\<rparr>, Inr ())"
      by (rule touches_run [OF seal_touches st1]) (rule that)
    define s2 where "s2 = s1\<lparr>space_pages := p2\<rparr>"
    have rel12: "pages_rel (\<lambda>q a b. b = (if q \<in> g ` {..<n} then retired a else if q = m then sealed c a else a)) (space_pages s) p2"
      by (rule pages_rel_trans [OF rel1 rel2 [unfolded s1_def, simplified]]) (use T in auto)
    have v: "store_inv (space_pages s2)" "valid_page (space_pages s2) l" "unpublished_transfer (page_at (space_pages s2) l)"
      using pages_rel_frame(1,6) [OF rel12] pages_relD [OF rel12, of l] T by (simp_all add: s2_def)
    have fit2: "slots_fit s2" "d < length (addresses s2)" "n < page_capacity s2"
      using slots_fit_fields [OF fit(1), of s2] fit(2,4) by (simp_all add: s2_def s1_def len1 Some)
    obtain p3 m3 where run3: "act_then (on_pages (\<lambda>p. publish_transfer_destination p l True)) (set_membership d n l) s2 = (s2\<lparr>space_pages := p3, memberships := m3\<rparr>, Inr ())"
      and rel3: "touched published {l} (space_pages s2) p3" and len3: "length m3 = length (memberships s2)"
      and mem3: "\<And>j k. k < page_capacity s2 \<Longrightarrow> membership (s2\<lparr>space_pages := p3, memberships := m3\<rparr>) j k = (if j = d \<and> k = n then l else membership s2 j k)"
      by (rule publish_member [OF fit2 v]) (assumption | rule that)+
    have run23: "act_then (on_pages (\<lambda>p. set_writer p m False)) (act_then (on_pages (\<lambda>p. protect_coverage p m c))
        (act_then (on_pages (\<lambda>p. publish_transfer_destination p l True)) (set_membership d n l))) s1 = (s1\<lparr>space_pages := p3, memberships := m3\<rparr>, Inr ())"
      unfolding act_then_assoc [of "on_pages (\<lambda>p. set_writer p m False)"] using run2 run3 by (simp add: act_then_run s2_def)
    show ?thesis
    proof (rule that)
      show "act_then (act_for (\<lambda>k. retire_page d k (g k)) [0..<n]) (case t of None \<Rightarrow> act_return ()
          | Some l \<Rightarrow> act_then (on_pages (\<lambda>p. set_writer p m False)) (act_then (on_pages (\<lambda>p. protect_coverage p m c))
          (act_then (on_pages (\<lambda>p. publish_transfer_destination p l True)) (set_membership d n l)))) s = (s\<lparr>space_pages := p3, memberships := m3\<rparr>, Inr ())"
        using run1 [folded s1_def] run23 by (simp add: Some act_then_run s1_def)
      show "pages_rel (\<lambda>q a b. b = (if t = Some q then published a else if q \<in> g ` {..<n} then retired a
          else if t \<noteq> None \<and> q = m then sealed c a else a)) (space_pages s) p3"
        by (rule pages_rel_trans [OF rel12 rel3 [unfolded s2_def, simplified]]) (use T in \<open>auto simp: Some\<close>)
      show "length m3 = length (memberships s)" by (simp add: len3 s2_def s1_def len1)
      fix j k
      assume k: "k < page_capacity s"
      have "membership s2 j k = membership s1 j k" by (simp add: s2_def s1_def membership_def)
      then show "membership (s\<lparr>space_pages := p3, memberships := m3\<rparr>) j k = (if j = d \<and> k < length (adopted_pages (map g [0..<n]) t) then adopted_pages (map g [0..<n]) t ! k else membership s j k)"
        using mem1 [OF k, of j, folded s1_def] mem3 [of k j] k by (auto simp: Some nth_append s1_def s2_def)
    qed
  qed
qed

lemma publish_snapshot_run:
  assumes inv: "space_inv (add_mset (snapshot_hold s v) H) s" and ok: "snapshot_ok s v" and ready: "snapshot_ready s v = Inr ()"
    and row: "addr_row (addresses s ! space_index (snapshot_source v)) = Some row"
  defines "N \<equiv> snapshot_adopted s v"
  obtains t' cs p' ms where "publish_active_snapshot v s = (s\<lparr>space_tables := t', issued := issued s @ cs, space_pages := p', memberships := ms\<rparr>, Inr ())"
    "pages_rel (\<lambda>l a b. b = snapshot_published s v l a) (space_pages s) p'"
    "length ms = length (memberships s)"
    "\<And>j k. k < page_capacity s \<Longrightarrow> membership (s\<lparr>space_tables := t', issued := issued s @ cs, space_pages := p', memberships := ms\<rparr>) j k
      = (if j = space_index (snapshot_destination v) \<and> k < length N then N ! k else membership s j k)"
    "tables_ok t'" "logical_page_capacity t' = logical_page_capacity (space_tables s)" "\<And>R. rows_live t' R = rows_live (space_tables s) R"
    "\<And>k. k < length N \<Longrightarrow> host_shadow t' ! (nat (row_lease_number row) * page_capacity s + k) = frame_of (space_pages s) (N ! k)"
    "\<And>n k. n < nat (table_row_count (space_tables s)) \<Longrightarrow> k < page_capacity s \<Longrightarrow> n \<noteq> nat (row_lease_number row) \<Longrightarrow>
       host_shadow t' ! (n * page_capacity s + k) = host_shadow (space_tables s) ! (n * page_capacity s + k)"
proof -
  note R = snapshot_ready_ok [OF inv ready] and P = snapshot_parts [OF inv ok ready] and S = snapshot_page [OF inv ok ready] and I = space_invD [OF inv]
  let ?i = "space_index (snapshot_source v)" and ?d = "space_index (snapshot_destination v)" and ?n = "full_pages (snapshot_shape v)"
  let ?g = "membership s ?i" and ?c = "tail_columns (snapshot_shape v)" and ?t = "snapshot_tail v"
  have L: "snapshot_shared s v = map ?g [0..<?n]" by (simp add: snapshot_shared_def page_handles_def)
  have len: "length N \<le> page_capacity s" using P(2,3) by (simp add: N_def)
  have "row \<in># space_rows (addresses s)" by (rule address_row_in [OF R(11) row])
  then have rl: "row_lease_owner row \<noteq> None" "valid_row_handle (space_tables s) (row_lease_handle row)"
    using row_live [OF inv, of row] by simp_all
  have cap: "page_capacity s = logical_page_capacity (space_tables s)" using I(3) by (simp add: slots_fit_def Let_def)
  have N: "\<forall>l \<in> set N. valid_page (space_pages s) l \<and> device_replica (page_at (space_pages s) l) \<noteq> None"
  proof
    fix l
    assume "l \<in> set N"
    then consider "l \<in> set (snapshot_pins s v)" | "?t = Some l" by (auto simp: N_def in_adopted_pages P(5))
    then show "valid_page (space_pages s) l \<and> device_replica (page_at (space_pages s) l) \<noteq> None"
      using S(1,5) [of l] S(8) [of l] by cases (simp_all add: unpublished_transfer_def)
  qed
  have fits: "0 + length N \<le> page_capacity s" using len by simp
  obtain t' cs where pub: "act_bind (ask_pages (\<lambda>p. physical_all p N)) (\<lambda>ds. publish_row (row_lease_handle row) 0 ds) s
      = (s\<lparr>space_tables := t', issued := issued s @ cs\<rparr>, Inr ())"
    and t': "tables_ok t'" "logical_page_capacity t' = logical_page_capacity (space_tables s)" "\<And>R. rows_live t' R = rows_live (space_tables s) R"
      "\<And>k. k < length N \<Longrightarrow> host_shadow t' ! (nat (row_lease_number row) * page_capacity s + 0 + k) = frame_of (space_pages s) (N ! k)"
      "\<And>n k. n < nat (table_row_count (space_tables s)) \<Longrightarrow> k < page_capacity s \<Longrightarrow> n \<noteq> nat (row_lease_number row) \<or> k < 0 \<Longrightarrow>
         host_shadow t' ! (n * page_capacity s + k) = host_shadow (space_tables s) ! (n * page_capacity s + k)"
    by (rule publish_pages [OF I(1,2) cap rl N fits]) (assumption | rule that)+
  define s1 where "s1 = s\<lparr>space_tables := t', issued := issued s @ cs\<rparr>"
  have s1: "space_pages s1 = space_pages s" "page_capacity s1 = page_capacity s" "memberships s1 = memberships s" by (simp_all add: s1_def)
  have fit1: "slots_fit s1" using I(3) t'(2) by (simp add: slots_fit_def Let_def s1_def)
  have pre: "?d < length (addresses s1)" "store_inv (space_pages s1)" "length (adopted_pages (map ?g [0..<?n]) ?t) \<le> page_capacity s1"
    "distinct (map ?g [0..<?n])"
    using R(12) I(1) P(6) len unfolding L N_def P(5) by (simp_all add: s1_def)
  have full: "valid_page (space_pages s1) (?g k) \<and> references (page_at (space_pages s1) (?g k)) \<noteq> u32_max \<and> page_size \<le> committed_columns (page_at (space_pages s1) (?g k))"
    if "k < ?n" for k using S(1,6) [of "?g k"] that by (simp add: L s1 P(5) del: page_size_pos(2))
  have tail: "valid_page (space_pages s1) l \<and> unpublished_transfer (page_at (space_pages s1) l) \<and> l \<notin> ?g ` {..<?n} \<and> l \<noteq> ?g ?n
      \<and> valid_page (space_pages s1) (?g ?n) \<and> ?c \<le> committed_columns (page_at (space_pages s1) (?g ?n)) \<and> ?g ?n \<notin> ?g ` {..<?n}" if "?t = Some l" for l
    using S(8) [OF that] S(7) S(1) [of "?g ?n"] P(6) unfolding s1 P(5) by (auto simp: that L)
  obtain p' ms where fill: "act_then (act_for (\<lambda>k. retire_page ?d k (?g k)) [0..<?n]) (case ?t of None \<Rightarrow> act_return ()
      | Some l \<Rightarrow> act_then (on_pages (\<lambda>p. set_writer p (?g ?n) False)) (act_then (on_pages (\<lambda>p. protect_coverage p (?g ?n) ?c))
          (act_then (on_pages (\<lambda>p. publish_transfer_destination p l True)) (set_membership ?d ?n l)))) s1
      = (s1\<lparr>space_pages := p', memberships := ms\<rparr>, Inr ())"
    and rel: "pages_rel (\<lambda>l a b. b = (if ?t = Some l then published a else if l \<in> ?g ` {..<?n} then retired a
       else if ?t \<noteq> None \<and> l = ?g ?n then sealed ?c a else a)) (space_pages s1) p'"
    and ms: "length ms = length (memberships s1)"
    and mem: "\<And>j k. k < page_capacity s1 \<Longrightarrow> membership (s1\<lparr>space_pages := p', memberships := ms\<rparr>) j k
      = (if j = ?d \<and> k < length (adopted_pages (map ?g [0..<?n]) ?t) then adopted_pages (map ?g [0..<?n]) ?t ! k else membership s1 j k)"
    by (rule snapshot_fill [OF fit1 pre full tail]) (assumption | rule that)+
  show ?thesis
  proof (rule that [where t' = t' and cs = cs and p' = p' and ms = ms])
    have "publish_active_snapshot v s = act_then (act_bind (ask_pages (\<lambda>p. physical_all p N)) (\<lambda>ds. publish_row (row_lease_handle row) 0 ds))
        (act_then (act_for (\<lambda>k. retire_page ?d k (?g k)) [0..<?n]) (case ?t of None \<Rightarrow> act_return ()
          | Some l \<Rightarrow> act_then (on_pages (\<lambda>p. set_writer p (?g ?n) False)) (act_then (on_pages (\<lambda>p. protect_coverage p (?g ?n) ?c))
          (act_then (on_pages (\<lambda>p. publish_transfer_destination p l True)) (set_membership ?d ?n l))))) s"
      unfolding publish_active_snapshot_def Let_def act_bind_then [symmetric] by (simp add: N_def snapshot_shared_def row)
    then show "publish_active_snapshot v s = (s\<lparr>space_tables := t', issued := issued s @ cs, space_pages := p', memberships := ms\<rparr>, Inr ())"
      using pub fill by (simp add: act_then_run s1_def)
    show "pages_rel (\<lambda>l a b. b = snapshot_published s v l a) (space_pages s) p'"
    proof -
      have "?g ` {..<?n} = set (snapshot_shared s v)" by (simp add: L atLeast0LessThan)
      then show ?thesis using rel by (simp only: s1 snapshot_published_def)
    qed
    show "membership (s\<lparr>space_tables := t', issued := issued s @ cs, space_pages := p', memberships := ms\<rparr>) j k
      = (if j = ?d \<and> k < length N then N ! k else membership s j k)" if "k < page_capacity s" for j k
      using mem [of k j] that by (simp add: s1_def N_def L)
  qed (use ms t' in \<open>simp_all add: s1\<close>)
qed

text \<open>The pages after the commit.\<close>

definition snapshot_final ::
  "KVAddressSpaceStore \<Rightarrow> KVActiveSnapshotReservation \<Rightarrow> LogicalKVPageHandle \<Rightarrow> LogicalPage \<Rightarrow> LogicalPage" where
  "snapshot_final s v l a =
     (if snapshot_tail v = Some l then (published a)\<lparr>active_references := active_references a + 1\<rparr>
      else if l \<in> set (snapshot_shared s v) then (retired a)\<lparr>source_pins := source_pins a - 1\<rparr>
      else if snapshot_tail v \<noteq> None \<and> l = tail_source s v
        then (sealed (tail_columns (snapshot_shape v)) a)\<lparr>active_references := active_references a - 1, source_pins := source_pins a - 1\<rparr>
      else a)"

lemma move_active_reference:
  assumes "store_inv (space_pages s)" "valid_page (space_pages s) m" "active_references (page_at (space_pages s) m) \<noteq> 0"
    "valid_page (space_pages s) l" "active_references (page_at (space_pages s) l) < references (page_at (space_pages s) l)" "l \<noteq> m"
  obtains p' where "act_then (on_pages (\<lambda>p. release_active_reference p m)) (on_pages (\<lambda>p. retain_active_reference p l)) s = (s\<lparr>space_pages := p'\<rparr>, Inr ())"
    "pages_rel (\<lambda>q a b. b = (if q = l then a\<lparr>active_references := active_references a + 1\<rparr>
       else if q = m then a\<lparr>active_references := active_references a - 1\<rparr> else a)) (space_pages s) p'"
proof -
  obtain p1 where rel1: "touched (\<lambda>pg. pg\<lparr>active_references := active_references pg - 1\<rparr>) {m} (space_pages s) p1"
    and run1: "on_pages (\<lambda>p. release_active_reference p m) s = (s\<lparr>space_pages := p1\<rparr>, Inr ())"
    by (rule touches_run [OF release_active_touches assms(1-3)]) (rule that)
  let ?s = "s\<lparr>space_pages := p1\<rparr>"
  have v: "store_inv (space_pages ?s)" "valid_page (space_pages ?s) l" "active_references (page_at (space_pages ?s) l) < references (page_at (space_pages ?s) l)"
    using pages_rel_frame(1,6) [OF rel1] pages_relD [OF rel1 assms(4)] assms by simp_all
  obtain p2 where rel2: "touched (\<lambda>pg. pg\<lparr>active_references := active_references pg + 1\<rparr>) {l} (space_pages ?s) p2"
    and run2: "on_pages (\<lambda>p. retain_active_reference p l) ?s = (?s\<lparr>space_pages := p2\<rparr>, Inr ())"
    by (rule touches_run [OF retain_active_touches v]) (rule that)
  show ?thesis
  proof (rule that [of p2])
    show "act_then (on_pages (\<lambda>p. release_active_reference p m)) (on_pages (\<lambda>p. retain_active_reference p l)) s = (s\<lparr>space_pages := p2\<rparr>, Inr ())"
      using run1 run2 by (simp add: act_then_run)
    show "pages_rel (\<lambda>q a b. b = (if q = l then a\<lparr>active_references := active_references a + 1\<rparr>
       else if q = m then a\<lparr>active_references := active_references a - 1\<rparr> else a)) (space_pages s) p2"
      by (rule pages_rel_trans [OF rel1 rel2 [simplified]]) (use assms(6) in auto)
  qed
qed

lemma snapshot_move_tail:
  assumes inv: "space_inv (add_mset (snapshot_hold s v) H) s" and ok: "snapshot_ok s v" and ready: "snapshot_ready s v = Inr ()"
    and rel: "pages_rel (\<lambda>l a b. b = snapshot_published s v l a) (space_pages s) (space_pages s1)"
    and q: "\<And>l. snapshot_tail v = Some l \<Longrightarrow> q = l"
  obtains p' where "act_when (tail_columns (snapshot_shape v) \<noteq> 0) (act_then (on_pages (\<lambda>p. release_active_reference p (tail_source s v)))
      (on_pages (\<lambda>p. retain_active_reference p q))) s1 = (s1\<lparr>space_pages := p'\<rparr>, Inr ())"
    "pages_rel (\<lambda>l a b. b = (if snapshot_tail v = Some l then a\<lparr>active_references := active_references a + 1\<rparr>
      else if snapshot_tail v \<noteq> None \<and> l = tail_source s v then a\<lparr>active_references := active_references a - 1\<rparr> else a)) (space_pages s1) p'"
proof (cases "snapshot_tail v")
  case None
  then show ?thesis using snapshot_parts(7) [OF inv ok ready] that [of "space_pages s1"] pages_rel_frame(1) [OF rel]
    by (simp add: act_when_def act_return_def pages_rel_refl cong: if_cong)
next
  case (Some l)
  note P = snapshot_parts [OF inv ok ready] and S = snapshot_page [OF inv ok ready] and fr = pages_rel_frame [OF rel]
  let ?m = "tail_source s v"
  have m: "?m \<in> set (snapshot_pins s v)" by (simp add: P(5) Some)
  have out: "?m \<notin> set (snapshot_shared s v)" using P(6) by (simp add: P(5) Some)
  note l = S(8) [OF Some]
  have ne: "l \<noteq> ?m" using l m by auto
  have p: "page_at (space_pages s1) ?m = sealed (tail_columns (snapshot_shape v)) (page_at (space_pages s) ?m)"
    "page_at (space_pages s1) l = published (page_at (space_pages s) l)"
    using pages_relD [OF rel S(1) [OF m]] pages_relD [OF rel, of l] l ne out by (simp_all add: snapshot_published_def Some)
  have pre: "store_inv (space_pages s1)" "valid_page (space_pages s1) ?m" "active_references (page_at (space_pages s1) ?m) \<noteq> 0"
    "valid_page (space_pages s1) l" "active_references (page_at (space_pages s1) l) < references (page_at (space_pages s1) l)"
    using fr(1,6) l S(1,3) [OF m] by (simp_all add: p sealed_def published_def)
  obtain p' where run: "act_then (on_pages (\<lambda>p. release_active_reference p ?m)) (on_pages (\<lambda>p. retain_active_reference p l)) s1 = (s1\<lparr>space_pages := p'\<rparr>, Inr ())"
    and rel': "pages_rel (\<lambda>q a b. b = (if q = l then a\<lparr>active_references := active_references a + 1\<rparr>
       else if q = ?m then a\<lparr>active_references := active_references a - 1\<rparr> else a)) (space_pages s1) p'"
    by (rule move_active_reference [OF pre ne]) (rule that)
  have "q = l" "tail_columns (snapshot_shape v) \<noteq> 0" using q [OF Some] P(7) by (simp_all add: Some)
  then show ?thesis using that [of p'] run rel' by (simp add: act_when_def Some eq_commute [of l] cong: if_cong)
qed

lemma adopt_snapshot_run:
  assumes inv: "space_inv (add_mset (snapshot_hold s v) H) s" and ok: "snapshot_ok s v" and ready: "snapshot_ready s v = Inr ()"
    and s1: "addresses s1 = addresses s" "page_capacity s1 = page_capacity s"
      "\<And>j k. k < page_capacity s \<Longrightarrow> membership s1 j k
        = (if j = space_index (snapshot_destination v) \<and> k < length (snapshot_adopted s v) then snapshot_adopted s v ! k else membership s j k)"
    and rel: "pages_rel (\<lambda>l a b. b = snapshot_published s v l a) (space_pages s) (space_pages s1)"
  defines "i \<equiv> space_index (snapshot_source v)" and "d \<equiv> space_index (snapshot_destination v)"
  obtains p' where "adopt_active_snapshot v s1 = (s1\<lparr>addresses := (addresses s)[i := (addresses s ! i)\<lparr>addr_row := None, addr_reservation := null_reservation,
        addr_active := False, checkpoint_frontier := snapshot_frontier v\<rparr>, d := (addresses s ! d)\<lparr>page_count := pages_for_tokens (snapshot_frontier v),
        committed_frontier := snapshot_frontier v, addr_reservation := addr_reservation (addresses s ! i), addr_row := addr_row (addresses s ! i),
        addr_active := True\<rparr>], space_pages := p'\<rparr>, Inr ())"
    "pages_rel (\<lambda>l a b. b = snapshot_final s v l a) (space_pages s) p'"
proof -
  note R = snapshot_ready_ok [OF inv ready, folded i_def d_def] and P = snapshot_parts [OF inv ok ready, folded i_def d_def]
    and S = snapshot_page [OF inv ok ready] and fr = pages_rel_frame [OF rel]
  let ?n = "pages_for_tokens (snapshot_frontier v)" and ?full = "full_pages (snapshot_shape v)" and ?c = "tail_columns (snapshot_shape v)" and ?t = "snapshot_tail v"
  have len: "length (snapshot_shared s v) = ?full" by (simp add: snapshot_shared_def page_handles_def)
  have mem: "membership s1 i k = membership s i k" if "k < ?n" for k using s1(3) [of k i] that P(1,3) by (simp add: d_def)
  have src: "?t \<noteq> None \<Longrightarrow> membership s1 i ?full = tail_source s v" using mem [of ?full] P(2) len by (simp add: i_def split: option.splits)
  have dst: "membership s1 d ?full = l" if "?t = Some l" for l
    using s1(3) [of ?full d] P(2,3) len by (simp add: that d_def nth_append)
  have hs: "page_handles s1 i [0..<?n] = snapshot_pins s v" using mem R(1) by (simp add: page_handles_def snapshot_pins_def i_def)
  define b1 where "b1 = (addresses s ! i)\<lparr>addr_reservation := null_reservation, addr_row := Some null_row_lease\<rparr>"
  define b where "b = b1\<lparr>addr_row := None, addr_active := False, checkpoint_frontier := snapshot_frontier v\<rparr>"
  have b': "b = (addresses s ! i)\<lparr>addr_row := None, addr_reservation := null_reservation, addr_active := False, checkpoint_frontier := snapshot_frontier v\<rparr>"
    by (simp add: b_def b1_def)
  define a where "a = (addresses s ! d)\<lparr>page_count := ?n, committed_frontier := snapshot_frontier v,
     addr_reservation := addr_reservation (addresses s ! i), addr_row := addr_row (addresses s ! i), addr_active := True\<rparr>"
  define s2 where "s2 = s1\<lparr>addresses := (addresses s)[d := a, i := b1]\<rparr>"
  have rel2: "pages_rel (\<lambda>l a b. b = snapshot_published s v l a) (space_pages s) (space_pages s2)" using rel by (simp add: s2_def)
  obtain p2 where mt: "act_when (?c \<noteq> 0) (act_then (on_pages (\<lambda>p. release_active_reference p (tail_source s v)))
      (on_pages (\<lambda>p. retain_active_reference p (membership s1 d ?full)))) s2 = (s2\<lparr>space_pages := p2\<rparr>, Inr ())"
    and mrel: "pages_rel (\<lambda>l a b. b = (if ?t = Some l then a\<lparr>active_references := active_references a + 1\<rparr>
      else if ?t \<noteq> None \<and> l = tail_source s v then a\<lparr>active_references := active_references a - 1\<rparr> else a)) (space_pages s2) p2"
    by (rule snapshot_move_tail [OF inv ok ready rel2 dst]) (assumption | rule that)+
  have mt': "act_when (?c \<noteq> 0) (act_then (on_pages (\<lambda>p. release_active_reference p (membership s1 i ?full)))
      (on_pages (\<lambda>p. retain_active_reference p (membership s1 d ?full)))) s2 = (s2\<lparr>space_pages := p2\<rparr>, Inr ())"
    using mt src P(7) by (cases "?c = 0") (simp_all add: act_when_def)
  define s3 where "s3 = s2\<lparr>space_pages := p2, addresses := (addresses s)[d := a, i := b]\<rparr>"
  have rel3: "pages_rel (\<lambda>l a b. b = (snapshot_final s v l a)\<lparr>source_pins := source_pins a\<rparr>) (space_pages s) (space_pages s3)"
  proof -
    have "l = tail_source s v \<Longrightarrow> ?t \<noteq> None \<Longrightarrow> l \<notin> set (snapshot_shared s v)" for l using P(6) by (auto simp: P(5) i_def)
    moreover have "?t = Some l \<Longrightarrow> l \<notin> set (snapshot_pins s v)" for l using S(8) by blast
    ultimately show ?thesis unfolding s3_def
      by (auto intro!: pages_rel_trans [OF rel2 mrel] simp: snapshot_published_def snapshot_final_def published_def retired_def sealed_def shared_once_def)
  qed
  have G: "\<forall>l \<in> set (snapshot_pins s v). valid_page (space_pages s3) l \<and> source_pins (page_at (space_pages s3) l) \<noteq> 0"
    using pages_rel_frame(6) [OF rel3] pages_relD [OF rel3 S(1)] S(1,2) by simp
  obtain p3 where run3: "act_for (\<lambda>l. on_pages (\<lambda>p. unpin_source p l)) (snapshot_pins s v) s3 = (s3\<lparr>space_pages := p3\<rparr>, Inr ())"
    and rel4: "touched (\<lambda>pg. pg\<lparr>source_pins := source_pins pg - 1\<rparr>) (set (snapshot_pins s v)) (space_pages s3) p3"
    by (rule touches_loop [OF unpin_source_touches pages_rel_frame(1) [OF rel3] P(6) G]) (rule that)
  have put1: "put_address d (\<lambda>x. x\<lparr>page_count := ?n, committed_frontier := snapshot_frontier v, addr_reservation := addr_reservation (addresses s ! i),
      addr_row := addr_row (addresses s ! i), addr_active := True\<rparr>) s1 = (s1\<lparr>addresses := (addresses s)[d := a]\<rparr>, Inr ())"
    by (simp add: a_def s1(1))
  have put2: "put_address i (\<lambda>a. a\<lparr>addr_reservation := null_reservation, addr_row := Some null_row_lease\<rparr>) (s1\<lparr>addresses := (addresses s)[d := a]\<rparr>) = (s2, Inr ())"
    using P(1) by (simp add: s2_def b1_def)
  have put3: "put_address i (\<lambda>a. a\<lparr>addr_row := None, addr_active := False, checkpoint_frontier := snapshot_frontier v\<rparr>) (s2\<lparr>space_pages := p2\<rparr>) = (s3, Inr ())"
    using R(11) by (simp add: s3_def s2_def b_def)
  show ?thesis
  proof (rule that [of p3])
    have "adopt_active_snapshot v s1 = (s3\<lparr>space_pages := p3\<rparr>, Inr ())"
      using put1 put2 mt' put3 run3
      by (simp only: adopt_active_snapshot_def Let_def i_def [symmetric] d_def [symmetric] hs s1(1) act_then_def act_bind_def prod.case sum.case)
    then show "adopt_active_snapshot v s1 = (s1\<lparr>addresses := (addresses s)[i := (addresses s ! i)\<lparr>addr_row := None, addr_reservation := null_reservation,
        addr_active := False, checkpoint_frontier := snapshot_frontier v\<rparr>, d := (addresses s ! d)\<lparr>page_count := pages_for_tokens (snapshot_frontier v),
        committed_frontier := snapshot_frontier v, addr_reservation := addr_reservation (addresses s ! i), addr_row := addr_row (addresses s ! i),
        addr_active := True\<rparr>], space_pages := p3\<rparr>, Inr ())"
      using P(1) b' by (simp add: s3_def s2_def a_def list_update_swap)
    show "pages_rel (\<lambda>l a b. b = snapshot_final s v l a) (space_pages s) p3"
    proof -
      have "l \<in> set (snapshot_pins s v) \<longleftrightarrow> l \<in> set (snapshot_shared s v) \<or> ?t \<noteq> None \<and> l = tail_source s v" for l by (auto simp: P(5) i_def)
      moreover have "?t = Some l \<Longrightarrow> l \<notin> set (snapshot_pins s v)" for l using S(8) by blast
      ultimately show ?thesis
        by (intro pages_rel_trans [OF rel3 rel4]) (auto simp: snapshot_final_def published_def retired_def sealed_def shared_once_def)
    qed
  qed
qed

text \<open>The commit is the source going idle, which hands its row and its reservation to the transaction, followed by
  the adoption of the destination. The state between the two is not one the code passes through.\<close>

lemma snapshot_source_idle:
  assumes inv: "space_inv (add_mset (snapshot_hold s v) H) s" and ok: "snapshot_ok s v" and ready: "snapshot_ready s v = Inr ()"
    and row: "addr_row (addresses s ! space_index (snapshot_source v)) = Some row"
  defines "i \<equiv> space_index (snapshot_source v)"
  obtains p' where "touched deactivated (set (snapshot_pins s v)) (space_pages s) p'"
    "space_inv (add_mset (adopt_hold (snapshot_pins s v) False (tail_columns (snapshot_shape v)) (snapshot_tail v) (addr_reservation (addresses s ! i)) row)
       (add_mset (res_hold (tail_reservation v)) H)) (s\<lparr>addresses := (addresses s)[i := (addresses s ! i)\<lparr>addr_row := None,
         addr_reservation := null_reservation, addr_active := False, checkpoint_frontier := snapshot_frontier v\<rparr>], space_pages := p'\<rparr>)"
    "\<And>P. keeps P s (s\<lparr>addresses := (addresses s)[i := (addresses s ! i)\<lparr>addr_row := None,
         addr_reservation := null_reservation, addr_active := False, checkpoint_frontier := snapshot_frontier v\<rparr>], space_pages := p'\<rparr>)"
proof -
  note R = snapshot_ready_ok [OF inv ready, folded i_def] and P = snapshot_parts [OF inv ok ready, folded i_def] and S = snapshot_page [OF inv ok ready]
  have G: "\<forall>l \<in> set (snapshot_pins s v). valid_page (space_pages s) l \<and> active_references (page_at (space_pages s) l) \<noteq> 0" using S(1,3) by blast
  obtain p' where rel: "touched deactivated (set (snapshot_pins s v)) (space_pages s) p'"
    by (rule touches_loop [OF deactivate_page_touches space_invD(1) [OF inv] P(6) G]) (rule that)
  define a where "a = (addresses s ! i)\<lparr>addr_row := None, addr_reservation := null_reservation, addr_active := False\<rparr>"
  define b where "b = a\<lparr>committed_frontier := snapshot_frontier v, checkpoint_frontier := snapshot_frontier v\<rparr>"
  define s1 where "s1 = s\<lparr>addresses := (addresses s)[i := a], space_pages := p'\<rparr>"
  define s2 where "s2 = s1\<lparr>addresses := (addresses s1)[i := b]\<rparr>"
  have idle: "space_inv (add_mset (row_hold (addr_row (addresses s ! i))) (add_mset (res_hold (addr_reservation (addresses s ! i))) (add_mset (snapshot_hold s v) H))) s1"
    "keeps Q s s1" for Q
    by (rule space_inv_idle [OF inv R(11,5) rel [folded P(4)] a_def s1_def])+
  have i1: "i < length (addresses s1)" "addresses s1 ! i = a" using R(11) by (simp_all add: s1_def)
  have b1: "b = (addresses s1 ! i)\<lparr>committed_frontier := snapshot_frontier v, checkpoint_frontier := snapshot_frontier v\<rparr>" by (simp add: b_def i1)
  have cf: "committed_frontier a = snapshot_frontier v" using R(7) by (simp add: a_def)
  have fo: "frontier_ok s2 i" using space_invD(9) [OF idle(1) i1(1)] cf i1 by (simp add: frontier_ok_def Let_def s2_def b_def membership_def)
  have "space_inv (add_mset (row_hold (addr_row (addresses s ! i))) (add_mset (res_hold (addr_reservation (addresses s ! i))) (add_mset (snapshot_hold s v) H))) s2"
    using space_inv_complete [OF space_inv_frontier [OF idle(1) i1(1) _ b1, folded s2_def] fo] by simp
  then have fin: "space_inv (add_mset (adopt_hold (snapshot_pins s v) False (tail_columns (snapshot_shape v)) (snapshot_tail v) (addr_reservation (addresses s ! i)) row)
       (add_mset (res_hold (tail_reservation v)) H)) s2"
  proof (rule space_inv_holds)
    show "\<forall>h \<in># add_mset (adopt_hold (snapshot_pins s v) False (tail_columns (snapshot_shape v)) (snapshot_tail v) (addr_reservation (addresses s ! i)) row)
       (add_mset (res_hold (tail_reservation v)) H). reservation_owner (held_pages h) = Some (pool_id (physical_pool (space_pages s2))) \<or> held_pages h = null_reservation"
      using space_invD(5) [OF idle(1)] by (simp add: holds_ok_def s2_def hold_defs snapshot_hold_def)
  qed (simp add: same_holds_def snapshot_hold_def row i_def hold_defs)
  have k2: "keeps Q s s2" for Q
    by (rule keeps_trans [OF idle(2)]) (unfold s2_def, rule keeps_put, simp_all add: b_def i1)
  have "b = (addresses s ! i)\<lparr>addr_row := None, addr_reservation := null_reservation, addr_active := False, checkpoint_frontier := snapshot_frontier v\<rparr>"
    using R(7) by (simp add: b_def a_def)
  then have "s2 = s\<lparr>addresses := (addresses s)[i := (addresses s ! i)\<lparr>addr_row := None,
         addr_reservation := null_reservation, addr_active := False, checkpoint_frontier := snapshot_frontier v\<rparr>], space_pages := p'\<rparr>"
    by (simp add: s2_def s1_def)
  then show ?thesis using that [OF rel] fin k2 by simp
qed

lemma snapshot_adoptable:
  assumes inv: "space_inv (add_mset (snapshot_hold s v) H) s" and ok: "snapshot_ok s v" and ready: "snapshot_ready s v = Inr ()"
    and rel: "touched deactivated (set (snapshot_pins s v)) (space_pages s) (space_pages g)"
    and g: "users g = users s" "page_capacity g = page_capacity s"
  shows "adoptable g (snapshot_shared s v) (snapshot_tail v) (snapshot_frontier v) (addr_reservation (addresses s ! space_index (snapshot_source v)))"
proof -
  note R = snapshot_ready_ok [OF inv ready] and P = snapshot_parts [OF inv ok ready] and S = snapshot_page [OF inv ok ready] and I = space_invD [OF inv]
  note act = activity_okD [OF I(8) [OF R(11)]]
  have L: "l \<in> set (snapshot_pins s v)" if "l \<in> set (snapshot_shared s v)" for l using that by (simp add: P(5))
  have len: "length (snapshot_shared s v) = full_pages (snapshot_shape v)" by (simp add: snapshot_shared_def page_handles_def)
  have pg: "page_at (space_pages g) l = (if l \<in> set (snapshot_pins s v) then deactivated (page_at (space_pages s) l) else page_at (space_pages s) l)"
    if "valid_page (space_pages s) l" for l using pages_relD [OF rel that] .
  have cc: "committed_columns (page_at (space_pages g) l) = committed_columns (page_at (space_pages s) l)" if "valid_page (space_pages s) l" for l
    using pg [OF that] by (simp add: deactivated_def)
  have "min page_size (snapshot_frontier v - j * page_size) \<le> committed_columns (page_at (space_pages g) (snapshot_adopted s v ! j))"
    if j: "j < length (snapshot_adopted s v)" for j
  proof (cases "j < full_pages (snapshot_shape v)")
    case True
    then have in_L: "snapshot_shared s v ! j \<in> set (snapshot_shared s v)" by (simp add: len)
    then show ?thesis using True S(6) [OF in_L] cc [OF S(1) [OF L [OF in_L]]] by (simp add: nth_append len min.coboundedI1 del: page_size_pos(2))
  next
    case False
    obtain l where l: "snapshot_tail v = Some l" using j False by (auto simp: len split: option.splits)
    have je: "j = full_pages (snapshot_shape v)" using j False by (simp add: l len)
    have "snapshot_frontier v - j * page_size = tail_columns (snapshot_shape v)"
      unfolding je P(8,9) by (simp add: minus_div_mult_eq_mod del: page_size_pos(2))
    then show ?thesis using S(8) [OF l] cc [of l] by (simp add: nth_append len je l min.coboundedI2 del: page_size_pos(2))
  qed
  moreover have "length (snapshot_adopted s v) + reservation_pages (addr_reservation (addresses s ! space_index (snapshot_source v))) \<le> page_capacity g"
    using act(3) [OF R(5)] R(6) P(2) g(2) by simp
  moreover have "snapshot_frontier v \<le> length (snapshot_adopted s v) * page_size"
    using P(2) pages_for_tokens_cover [of "snapshot_frontier v"] by simp
  moreover have "users g l \<noteq> {} \<and> device_replica (page_at (space_pages g) l) \<noteq> None \<and> writer_references (page_at (space_pages g) l) = 0"
    if "l \<in> set (snapshot_shared s v)" for l
    using S(1,4,5) [OF L [OF that]] pg [of l] L [OF that] g(1) by (simp add: deactivated_def)
  moreover have "distinct (snapshot_shared s v)" using P(6) by (simp add: P(5))
  ultimately show ?thesis unfolding adoptable_def Let_def
    using act(2) [OF R(5)] pages_rel_frame(3) [OF rel] by auto
qed

lemma snapshot_pages_adopted:
  assumes inv: "space_inv (add_mset (snapshot_hold s v) H) s" and ok: "snapshot_ok s v" and ready: "snapshot_ready s v = Inr ()"
    and rel: "touched deactivated (set (snapshot_pins s v)) (space_pages s) p" and fin: "pages_rel (\<lambda>l a b. b = snapshot_final s v l a) (space_pages s) q"
  shows "store_frame p q" "physical_pool q = physical_pool p" "valid_page q l = valid_page p l"
    "valid_page p l \<Longrightarrow> adopted (snapshot_shared s v) (snapshot_tail v) (snapshot_pins s v) l (page_at p l) (page_at q l)"
    "valid_page p l \<Longrightarrow> frame_of p l = frame_of (space_pages s) l"
proof -
  note P = snapshot_parts [OF inv ok ready] and S = snapshot_page [OF inv ok ready] and f1 = pages_rel_frame [OF rel] and f2 = pages_rel_frame [OF fin]
  show "store_frame p q" using store_frame_rel [OF rel] store_frame_rel [OF fin] by (simp add: store_frame_def)
  show "physical_pool q = physical_pool p" "valid_page q l = valid_page p l" using f1(3,6) f2(3,6) by simp_all
  assume "valid_page p l"
  then have v: "valid_page (space_pages s) l" using f1(6) by simp
  note a = pages_relD [OF rel v] and b = pages_relD [OF fin v]
  have t: "snapshot_tail v = Some l \<Longrightarrow> l \<notin> set (snapshot_pins s v)" using S(8) by blast
  have n: "l \<in> set (snapshot_pins s v) \<longleftrightarrow> l \<in> set (snapshot_shared s v) \<or> snapshot_tail v \<noteq> None \<and> l = tail_source s v" by (auto simp: P(5))
  have m: "l \<in> set (snapshot_shared s v) \<Longrightarrow> snapshot_tail v \<noteq> None \<Longrightarrow> l \<noteq> tail_source s v" using P(6) by (auto simp: P(5))
  show "frame_of p l = frame_of (space_pages s) l" using a by (simp add: frame_of_def deactivated_def)
  show "adopted (snapshot_shared s v) (snapshot_tail v) (snapshot_pins s v) l (page_at p l) (page_at q l)"
    unfolding adopted_def a b snapshot_final_def
    using t n m S(3) [of l] by (auto simp: published_def retired_def sealed_def shared_once_def deactivated_def)
qed

text \<open>A commit that passes its checks: \<open>g\<close> is the state in which the source is idle already.\<close>

lemma commit_snapshot_adoption:
  assumes inv: "space_inv (add_mset (snapshot_hold s v) H) s" and ok: "snapshot_ok s v" and ready: "snapshot_ready s v = Inr ()"
  obtains s2 row pg g where "commit_active_snapshot v s = (s2, v\<lparr>snapshot_tail := None, snapshot_owner := None\<rparr>, Inr ())"
    "addr_row (addresses s ! space_index (snapshot_source v)) = Some row" "touched deactivated (set (snapshot_pins s v)) (space_pages s) pg"
    "g = s\<lparr>addresses := (addresses s)[space_index (snapshot_source v) := (addresses s ! space_index (snapshot_source v))\<lparr>addr_row := None,
       addr_reservation := null_reservation, addr_active := False, checkpoint_frontier := snapshot_frontier v\<rparr>], space_pages := pg\<rparr>"
    "space_inv (add_mset (adopt_hold (snapshot_pins s v) False (tail_columns (snapshot_shape v)) (snapshot_tail v)
       (addr_reservation (addresses s ! space_index (snapshot_source v))) row) (add_mset (res_hold (tail_reservation v)) H)) g" "\<And>P. keeps P s g"
    "adoption g s2 (space_index (snapshot_destination v)) (snapshot_shared s v) (snapshot_tail v) (snapshot_pins s v) (snapshot_frontier v)
       (addr_reservation (addresses s ! space_index (snapshot_source v))) row"
proof -
  note R = snapshot_ready_ok [OF inv ready] and P = snapshot_parts [OF inv ok ready]
  let ?i = "space_index (snapshot_source v)" and ?d = "space_index (snapshot_destination v)"
  obtain row where row: "addr_row (addresses s ! ?i) = Some row" using activity_okD(5) [OF space_invD(8) [OF inv R(11)] R(5)] by blast
  obtain t' cs p1 ms where pub: "publish_active_snapshot v s = (s\<lparr>space_tables := t', issued := issued s @ cs, space_pages := p1, memberships := ms\<rparr>, Inr ())"
    and rel: "pages_rel (\<lambda>l a b. b = snapshot_published s v l a) (space_pages s) p1" and ms: "length ms = length (memberships s)"
    and mem: "\<And>j k. k < page_capacity s \<Longrightarrow> membership (s\<lparr>space_tables := t', issued := issued s @ cs, space_pages := p1, memberships := ms\<rparr>) j k
      = (if j = ?d \<and> k < length (snapshot_adopted s v) then snapshot_adopted s v ! k else membership s j k)"
    and t': "tables_ok t'" "logical_page_capacity t' = logical_page_capacity (space_tables s)" "\<And>R. rows_live t' R = rows_live (space_tables s) R"
      "\<And>k. k < length (snapshot_adopted s v) \<Longrightarrow> host_shadow t' ! (nat (row_lease_number row) * page_capacity s + k) = frame_of (space_pages s) (snapshot_adopted s v ! k)"
      "\<And>n k. n < nat (table_row_count (space_tables s)) \<Longrightarrow> k < page_capacity s \<Longrightarrow> n \<noteq> nat (row_lease_number row) \<Longrightarrow>
         host_shadow t' ! (n * page_capacity s + k) = host_shadow (space_tables s) ! (n * page_capacity s + k)"
    by (rule publish_snapshot_run [OF inv ok ready row]) (assumption | rule that)+
  define s1 where "s1 = s\<lparr>space_tables := t', issued := issued s @ cs, space_pages := p1, memberships := ms\<rparr>"
  define b where "b = (addresses s ! ?i)\<lparr>addr_row := None, addr_reservation := null_reservation, addr_active := False, checkpoint_frontier := snapshot_frontier v\<rparr>"
  define a where "a = (addresses s ! ?d)\<lparr>page_count := pages_for_tokens (snapshot_frontier v), committed_frontier := snapshot_frontier v,
      addr_reservation := addr_reservation (addresses s ! ?i), addr_row := addr_row (addresses s ! ?i), addr_active := True\<rparr>"
  obtain p2 where ad: "adopt_active_snapshot v s1 = (s1\<lparr>addresses := (addresses s)[?i := b, ?d := a], space_pages := p2\<rparr>, Inr ())"
    and fin: "pages_rel (\<lambda>l a b. b = snapshot_final s v l a) (space_pages s) p2"
    unfolding a_def b_def by (rule adopt_snapshot_run [OF inv ok ready, of s1]) (use mem rel in \<open>(simp add: s1_def | rule that | assumption)+\<close>)
  define s2 where "s2 = s1\<lparr>addresses := (addresses s)[?i := b, ?d := a], space_pages := p2\<rparr>"
  have run: "commit_active_snapshot v s = (s2, v\<lparr>snapshot_tail := None, snapshot_owner := None\<rparr>, Inr ())"
    using ready pub ad by (simp add: commit_active_snapshot_def act_then_def act_bind_def act_ask_def s1_def s2_def)
  obtain pg where idle: "touched deactivated (set (snapshot_pins s v)) (space_pages s) pg"
    and ginv: "space_inv (add_mset (adopt_hold (snapshot_pins s v) False (tail_columns (snapshot_shape v)) (snapshot_tail v) (addr_reservation (addresses s ! ?i)) row)
       (add_mset (res_hold (tail_reservation v)) H)) (s\<lparr>addresses := (addresses s)[?i := b], space_pages := pg\<rparr>)"
    and gk: "\<And>P. keeps P s (s\<lparr>addresses := (addresses s)[?i := b], space_pages := pg\<rparr>)"
    by (rule snapshot_source_idle [OF inv ok ready row, folded b_def]) (rule that)
  define g where "g = s\<lparr>addresses := (addresses s)[?i := b], space_pages := pg\<rparr>"
  note pa = snapshot_pages_adopted [OF inv ok ready idle fin]
  have A: "adoption g s2 ?d (snapshot_shared s v) (snapshot_tail v) (snapshot_pins s v) (snapshot_frontier v) (addr_reservation (addresses s ! ?i)) row"
  proof -
    have gf: "space_pages g = pg" "page_capacity g = page_capacity s" "space_tables g = space_tables s" "addresses g = (addresses s)[?i := b]"
      "memberships g = memberships s" "space_id g = space_id s" "space_free g = space_free s" "space_free_count g = space_free_count s"
      "membership g = membership s" "addresses g ! ?d = addresses s ! ?d"
      using P(1) by (simp_all add: g_def)
    have sf: "space_pages s2 = p2" "page_capacity s2 = page_capacity s" "space_tables s2 = t'" "addresses s2 = (addresses s)[?i := b, ?d := a]"
      "memberships s2 = ms" "space_id s2 = space_id s" "space_free s2 = space_free s" "space_free_count s2 = space_free_count s"
      "membership s2 = membership s1"
      by (simp_all add: s2_def s1_def membership_def fun_eq_iff)
    have vN: "valid_page pg (snapshot_adopted s v ! k)" if "k < length (snapshot_adopted s v)" for k
    proof -
      have "snapshot_adopted s v ! k \<in> set (snapshot_pins s v) \<or> snapshot_tail v = Some (snapshot_adopted s v ! k)"
        using nth_mem [OF that] unfolding in_adopted_pages by (auto simp: P(5))
      then show ?thesis using snapshot_page(1,8) [OF inv ok ready] pages_rel_frame(6) [OF idle] by blast
    qed
    have sh: "shown s2 row k = frame_of pg (snapshot_adopted s v ! k)" if "k < length (snapshot_adopted s v)" for k
      using t'(4) [OF that] pa(5) [OF vN [OF that]] by (simp add: shown_def sf)
    have occ: "addr_occupied (addresses s ! ?d)" using R(3) by (simp add: valid_address_def address_at_def)
    show ?thesis unfolding adoption_def Let_def gf sf
      using R(8,9,12) occ ms mem [folded s1_def] pa(1-4) t' sh P(1,2) by (simp add: a_def row)
  qed
  show ?thesis by (rule that [OF run row idle g_def [unfolded b_def] ginv [folded g_def] gk [folded g_def] A])
qed

lemma commit_active_snapshot_step:
  assumes inv: "space_inv (add_mset (snapshot_hold s v) H) s" and ok: "snapshot_ok s v" and run: "commit_active_snapshot v s = (s', v', r)"
  shows "space_inv (add_mset (snapshot_hold s' v') H) s'" "snapshot_ok s' v'" "keeps P s s'" "benign r"
    "r = Inl e \<Longrightarrow> s' = s \<and> v' = v" "r = Inr () \<Longrightarrow> snapshot_owner v' = None"
proof -
  have "space_inv (add_mset (snapshot_hold s' v') H) s' \<and> snapshot_ok s' v' \<and> keeps P s s' \<and> benign r \<and>
    (\<forall>e. r = Inl e \<longrightarrow> s' = s \<and> v' = v) \<and> (r = Inr () \<longrightarrow> snapshot_owner v' = None)" for P
  proof (cases "snapshot_ready s v")
    case (Inl e)
    then have "s' = s" "v' = v" "r = Inl e" using run by (simp_all add: commit_active_snapshot_def act_then_def act_bind_def act_ask_def)
    then show ?thesis using inv ok snapshot_ready_err [OF inv Inl] by (auto simp: keeps_refl)
  next
    case (Inr u)
    then have ready: "snapshot_ready s v = Inr ()" by simp
    let ?i = "space_index (snapshot_source v)"
    obtain s2 row pg g where run2: "commit_active_snapshot v s = (s2, v\<lparr>snapshot_tail := None, snapshot_owner := None\<rparr>, Inr ())"
      and idle: "touched deactivated (set (snapshot_pins s v)) (space_pages s) pg"
      and g: "g = s\<lparr>addresses := (addresses s)[space_index (snapshot_source v) := (addresses s ! space_index (snapshot_source v))\<lparr>addr_row := None,
         addr_reservation := null_reservation, addr_active := False, checkpoint_frontier := snapshot_frontier v\<rparr>], space_pages := pg\<rparr>"
      and ginv: "space_inv (add_mset (adopt_hold (snapshot_pins s v) False (tail_columns (snapshot_shape v)) (snapshot_tail v)
         (addr_reservation (addresses s ! ?i)) row) (add_mset (res_hold (tail_reservation v)) H)) g" and gk: "\<And>P. keeps P s g"
      and A: "adoption g s2 (space_index (snapshot_destination v)) (snapshot_shared s v) (snapshot_tail v) (snapshot_pins s v) (snapshot_frontier v)
         (addr_reservation (addresses s ! ?i)) row"
      by (rule commit_snapshot_adoption [OF inv ok ready]) (rule that)
    have res: "s' = s2" "v' = v\<lparr>snapshot_tail := None, snapshot_owner := None\<rparr>" "r = Inr ()" using run run2 by simp_all
    have "users g = users s" unfolding g using users_put [of "(addresses s ! ?i)\<lparr>addr_row := None, addr_reservation := null_reservation,
        addr_active := False, checkpoint_frontier := snapshot_frontier v\<rparr>" s ?i] by (simp add: fun_eq_iff)
    then have ok': "adoptable g (snapshot_shared s v) (snapshot_tail v) (snapshot_frontier v) (addr_reservation (addresses s ! ?i))"
      using idle by (intro snapshot_adoptable [OF inv ok ready]) (simp_all add: g)
    note last = space_inv_adopt [OF ginv A ok' snapshot_parts(6) [OF inv ok ready]]
    have "space_inv (add_mset (snapshot_hold s2 v') H) s2" using last(1) by (simp add: snapshot_hold_idle res(2))
    then show ?thesis using keeps_trans [OF gk last(2)] by (simp add: res snapshot_ok_def)
  qed
  then show "space_inv (add_mset (snapshot_hold s' v') H) s'" "snapshot_ok s' v'" "keeps P s s'" "benign r"
    "r = Inl e \<Longrightarrow> s' = s \<and> v' = v" "r = Inr () \<Longrightarrow> snapshot_owner v' = None" by blast+
qed

end
