(* ===== verification/Space_Use.thy ===== *)
theory Space_Use
  imports Space_Snapshots Logical_Store_Use
begin

text \<open>
  The address space store in use: the store with the activations, prefix forks and snapshots that are open on it,
  and any sequence of calls of its interface. Handles are plain values, so a call may name any handle, stale or
  foreign ones included, with any frontier, entitlement and row; a transaction is used through the object that
  holds it. Shown for every reachable system: the counters of every page are exactly the addresses that map it and
  the transactions that pin it, the table rows of active addresses name the pages they map, the reservations add
  up to what the pool has set aside, and no call terminates the process.
\<close>

section \<open>Calls\<close>

record space_system =
  sys_store :: KVAddressSpaceStore
  sys_activations :: "KVActivationReservation list"
  sys_forks :: "KVPrefixForkReservation list"
  sys_snapshots :: "KVActiveSnapshotReservation list"

datatype space_call =
    CreateInactive
  | CreateActive nat int
  | Activate KVAddressSpaceHandle nat int
  | Deactivate KVAddressSpaceHandle
  | Release KVAddressSpaceHandle
  | ReleaseAfterDeactivate KVAddressSpaceHandle
  | ResizeEntitlement KVAddressSpaceHandle nat
  | ReleaseGrowth KVAddressSpaceHandle
  | EnsureMapped KVAddressSpaceHandle nat
  | CommitFrontier KVAddressSpaceHandle nat
  | TruncateActive KVAddressSpaceHandle nat
  | TruncateIdle KVAddressSpaceHandle nat
  | TruncateIdlePrefix KVAddressSpaceHandle nat
  | SetCheckpoint KVAddressSpaceHandle nat
  | PrepareActivation KVAddressSpaceHandle nat int "nat option"
  | CommitActivation nat
  | DestroyActivation nat
  | PrepareFork KVAddressSpaceHandle KVAddressSpaceHandle nat nat int bool
  | SettleFork nat
  | CompleteFork nat
  | CommitFork nat
  | AbortFork nat
  | DestroyFork nat
  | PrepareSnapshot KVAddressSpaceHandle KVAddressSpaceHandle nat
  | CommitSnapshot nat
  | AbortSnapshot nat
  | DestroySnapshot nat

definition raised :: "'a res \<Rightarrow> exn option" where
  "raised r = (case r of Inl e \<Rightarrow> Some e | Inr x \<Rightarrow> None)"

definition on_store :: "'a space_action \<Rightarrow> space_system \<Rightarrow> space_system \<times> exn option" where
  "on_store f y = (let (s, r) = f (sys_store y) in (y\<lparr>sys_store := s\<rparr>, raised r))"

definition removed :: "nat \<Rightarrow> 'a list \<Rightarrow> 'a list" where
  "removed k xs = take k xs @ drop (Suc k) xs"

text \<open>An action that yields the new state of an open transaction, and the commits, which also change it when they throw.\<close>

definition on_fork :: "nat \<Rightarrow> (KVPrefixForkReservation \<Rightarrow> KVPrefixForkReservation space_action) \<Rightarrow> space_system \<Rightarrow> space_system \<times> exn option" where
  "on_fork k f y = (if k < length (sys_forks y) then
     (case f (sys_forks y ! k) (sys_store y) of
        (s, Inl e) \<Rightarrow> (y\<lparr>sys_store := s\<rparr>, Some e)
      | (s, Inr v) \<Rightarrow> (y\<lparr>sys_store := s, sys_forks := (sys_forks y)[k := v]\<rparr>, None))
     else (y, None))"

definition on_snapshot ::
  "nat \<Rightarrow> (KVActiveSnapshotReservation \<Rightarrow> KVActiveSnapshotReservation space_action) \<Rightarrow> space_system \<Rightarrow> space_system \<times> exn option" where
  "on_snapshot k f y = (if k < length (sys_snapshots y) then
     (case f (sys_snapshots y ! k) (sys_store y) of
        (s, Inl e) \<Rightarrow> (y\<lparr>sys_store := s\<rparr>, Some e)
      | (s, Inr v) \<Rightarrow> (y\<lparr>sys_store := s, sys_snapshots := (sys_snapshots y)[k := v]\<rparr>, None))
     else (y, None))"

fun call_space :: "space_call \<Rightarrow> space_system \<Rightarrow> space_system \<times> exn option" where
  "call_space CreateInactive y = on_store (\<lambda>s. let (s', h) = create_inactive s in (s', Inr h)) y"
| "call_space (CreateActive n row) y = on_store (create_active n row) y"
| "call_space (Activate h n row) y = on_store (activate h n row) y"
| "call_space (Deactivate h) y = on_store (deactivate h) y"
| "call_space (Release h) y = on_store (release h) y"
| "call_space (ReleaseAfterDeactivate h) y = on_store (release_after_deactivate h) y"
| "call_space (ResizeEntitlement h n) y = on_store (resize_entitlement h n) y"
| "call_space (ReleaseGrowth h) y = on_store (release_growth_entitlement h) y"
| "call_space (EnsureMapped h n) y = on_store (ensure_mapped_to_tokens h n) y"
| "call_space (CommitFrontier h n) y = on_store (commit_frontier h n) y"
| "call_space (TruncateActive h n) y = on_store (truncate_active h n) y"
| "call_space (TruncateIdle h n) y = on_store (truncate_inactive h n) y"
| "call_space (TruncateIdlePrefix h n) y = on_store (truncate_inactive_prefix h n) y"
| "call_space (SetCheckpoint h n) y = on_store (set_checkpoint_requirement h n) y"
| "call_space (PrepareActivation h n row f) y = (case prepare_activation h n row f (sys_store y) of
     (s, Inl e) \<Rightarrow> (y\<lparr>sys_store := s\<rparr>, Some e)
   | (s, Inr v) \<Rightarrow> (y\<lparr>sys_store := s, sys_activations := sys_activations y @ [v]\<rparr>, None))"
| "call_space (CommitActivation k) y = (if k < length (sys_activations y) then
     (case commit_activation (sys_activations y ! k) (sys_store y) of
        (s, v, r) \<Rightarrow> (y\<lparr>sys_store := s, sys_activations := (sys_activations y)[k := v]\<rparr>, raised r)) else (y, None))"
| "call_space (DestroyActivation k) y = (if k < length (sys_activations y) then
     on_store (destroy_activation (sys_activations y ! k)) (y\<lparr>sys_activations := removed k (sys_activations y)\<rparr>) else (y, None))"
| "call_space (PrepareFork src dst f n row staged) y = (case prepare_prefix_fork src dst f n row staged (sys_store y) of
     (s, Inl e) \<Rightarrow> (y\<lparr>sys_store := s\<rparr>, Some e)
   | (s, Inr v) \<Rightarrow> (y\<lparr>sys_store := s, sys_forks := sys_forks y @ [v]\<rparr>, None))"
| "call_space (SettleFork k) y = on_fork k settle_prefix_fork_tail_source y"
| "call_space (CompleteFork k) y = on_fork k complete_prefix_fork_after_tail_release y"
| "call_space (CommitFork k) y = (if k < length (sys_forks y) then
     (case commit_prefix_fork (sys_forks y ! k) (sys_store y) of
        (s, v, r) \<Rightarrow> (y\<lparr>sys_store := s, sys_forks := (sys_forks y)[k := v]\<rparr>, raised r)) else (y, None))"
| "call_space (AbortFork k) y = on_fork k abort_prefix_fork y"
| "call_space (DestroyFork k) y = (if k < length (sys_forks y) then
     on_store (destroy_prefix_fork (sys_forks y ! k)) (y\<lparr>sys_forks := removed k (sys_forks y)\<rparr>) else (y, None))"
| "call_space (PrepareSnapshot src dst f) y = (case prepare_active_snapshot src dst f (sys_store y) of
     (s, Inl e) \<Rightarrow> (y\<lparr>sys_store := s\<rparr>, Some e)
   | (s, Inr v) \<Rightarrow> (y\<lparr>sys_store := s, sys_snapshots := sys_snapshots y @ [v]\<rparr>, None))"
| "call_space (CommitSnapshot k) y = (if k < length (sys_snapshots y) then
     (case commit_active_snapshot (sys_snapshots y ! k) (sys_store y) of
        (s, v, r) \<Rightarrow> (y\<lparr>sys_store := s, sys_snapshots := (sys_snapshots y)[k := v]\<rparr>, raised r)) else (y, None))"
| "call_space (AbortSnapshot k) y = on_snapshot k abort_active_snapshot y"
| "call_space (DestroySnapshot k) y = (if k < length (sys_snapshots y) then
     on_store (destroy_active_snapshot (sys_snapshots y ! k)) (y\<lparr>sys_snapshots := removed k (sys_snapshots y)\<rparr>) else (y, None))"

text \<open>An active address must not be cut below the frontier it promised to keep as a checkpoint; every caller in
  the engine deactivates an address right after setting its requirement.\<close>

definition disciplined :: "space_call \<Rightarrow> KVAddressSpaceStore \<Rightarrow> bool" where
  "disciplined c s = (case c of TruncateActive h n \<Rightarrow> checkpoint_frontier (address_at s h) \<le> n | _ \<Rightarrow> True)"

section \<open>The invariant of the system\<close>

definition open_holds ::
  "KVAddressSpaceStore \<Rightarrow> KVActivationReservation list \<Rightarrow> KVPrefixForkReservation list \<Rightarrow> KVActiveSnapshotReservation list \<Rightarrow> hold multiset" where
  "open_holds s as fs ss = mset (map activation_hold as) + mset (map (fork_hold s) fs) + mset (map (snapshot_hold s) ss)"

definition open_ok :: "KVAddressSpaceStore \<Rightarrow> KVPrefixForkReservation list \<Rightarrow> KVActiveSnapshotReservation list \<Rightarrow> bool" where
  "open_ok s fs ss \<longleftrightarrow> (\<forall>v \<in> set fs. fork_ok s v) \<and> (\<forall>v \<in> set ss. snapshot_ok s v)"

abbreviation sys_holds :: "space_system \<Rightarrow> hold multiset" where
  "sys_holds y \<equiv> open_holds (sys_store y) (sys_activations y) (sys_forks y) (sys_snapshots y)"

definition system_inv :: "space_system \<Rightarrow> bool" where
  "system_inv y \<longleftrightarrow> space_inv (sys_holds y) (sys_store y) \<and> open_ok (sys_store y) (sys_forks y) (sys_snapshots y)"

lemma pins_in: "h \<in># H \<Longrightarrow> l \<in> set (pinned h) \<Longrightarrow> l \<in># pins H"
  by (auto dest!: multi_member_split)

text \<open>Transactions that are not touched keep what they hold, because every call keeps the pinned pages in place.\<close>

lemma open_kept:
  assumes ok: "open_ok s fs ss" and k: "keeps (pins (open_holds s as fs ss)) s s'"
  shows "open_holds s' as fs ss = open_holds s as fs ss" "open_ok s' fs ss"
proof -
  let ?H = "open_holds s as fs ss"
  have f: "fork_ok s' v \<and> fork_hold s' v = fork_hold s v" if v: "v \<in> set fs" for v
  proof -
    have "fork_hold s v \<in># ?H" using v by (simp add: open_holds_def)
    then have "l \<in># pins ?H" if "l \<in> set (fork_pins s v)" for l using pins_in that by (auto simp: fork_hold_def)
    then show ?thesis using fork_kept [OF _ k, of v] ok v by (auto simp: open_ok_def)
  qed
  have n: "snapshot_ok s' v \<and> snapshot_hold s' v = snapshot_hold s v" if v: "v \<in> set ss" for v
  proof -
    have "snapshot_hold s v \<in># ?H" using v by (simp add: open_holds_def)
    then have "l \<in># pins ?H" if "l \<in> set (snapshot_pins s v)" for l using pins_in that by (auto simp: snapshot_hold_def)
    then show ?thesis using snapshot_kept [OF _ k, of v] ok v by (auto simp: open_ok_def)
  qed
  have "map (fork_hold s') fs = map (fork_hold s) fs" "map (snapshot_hold s') ss = map (snapshot_hold s) ss" using f n by auto
  then show "open_holds s' as fs ss = ?H" by (simp only: open_holds_def)
  show "open_ok s' fs ss" using f n by (simp add: open_ok_def)
qed

section \<open>Every call keeps the invariant\<close>

definition tame :: "exn option \<Rightarrow> bool" where
  "tame e \<longleftrightarrow> e \<notin> {Some Terminate, Some Abort, Some Undefined}"

lemma tame_raised [simp]: "tame (raised r) = benign r" "tame None"
  by (auto simp: tame_def raised_def benign_def split: sum.splits)

lemma benign_error: "benign (Inl e) = tame (Some e)"
  by (simp add: benign_def tame_def)

definition stays_sound :: "space_system \<times> exn option \<Rightarrow> bool" where
  "stays_sound z \<longleftrightarrow> system_inv (fst z) \<and> tame (snd z)"

lemma on_store_sound:
  assumes inv: "system_inv y" and f: "\<And>s' r. f (sys_store y) = (s', r) \<Longrightarrow>
    space_inv (sys_holds y) s' \<and> keeps (pins (sys_holds y)) (sys_store y) s' \<and> benign r"
  shows "stays_sound (on_store f y)"
proof -
  obtain s' r where run: "f (sys_store y) = (s', r)" by fastforce
  note k = f [OF run]
  have ok: "open_ok (sys_store y) (sys_forks y) (sys_snapshots y)" using inv by (simp add: system_inv_def)
  have "keeps (pins (sys_holds y)) (sys_store y) s'" using k by simp
  from open_kept [OF ok this] show ?thesis using k by (simp add: stays_sound_def on_store_def run system_inv_def)
qed

text \<open>A transaction is added, changed or removed.\<close>

lemma open_holds_simps:
  "open_holds s (as @ [a]) fs ss = add_mset (activation_hold a) (open_holds s as fs ss)"
  "open_holds s as (fs @ [f]) ss = add_mset (fork_hold s f) (open_holds s as fs ss)"
  "open_holds s as fs (ss @ [n]) = add_mset (snapshot_hold s n) (open_holds s as fs ss)"
  by (simp_all add: open_holds_def)

lemma split_at: "k < length xs \<Longrightarrow> mset xs = add_mset (xs ! k) (mset (removed k xs))"
  by (subst id_take_nth_drop [of k xs]) (simp_all add: removed_def)

lemma split_update: "k < length xs \<Longrightarrow> mset (xs[k := v]) = add_mset v (mset (removed k xs))"
  by (simp add: upd_conv_take_nth_drop removed_def)

lemma removed_update [simp]: "removed k (xs[k := v]) = removed k xs"
  by (simp add: removed_def)

lemma open_holds_at:
  "k < length as \<Longrightarrow> open_holds s as fs ss = add_mset (activation_hold (as ! k)) (open_holds s (removed k as) fs ss)"
  "k < length fs \<Longrightarrow> open_holds s as fs ss = add_mset (fork_hold s (fs ! k)) (open_holds s as (removed k fs) ss)"
  "k < length ss \<Longrightarrow> open_holds s as fs ss = add_mset (snapshot_hold s (ss ! k)) (open_holds s as fs (removed k ss))"
  by (simp_all add: open_holds_def split_at)

lemma open_holds_update:
  "k < length as \<Longrightarrow> open_holds s (as[k := a]) fs ss = add_mset (activation_hold a) (open_holds s (removed k as) fs ss)"
  "k < length fs \<Longrightarrow> open_holds s as (fs[k := f]) ss = add_mset (fork_hold s f) (open_holds s as (removed k fs) ss)"
  "k < length ss \<Longrightarrow> open_holds s as fs (ss[k := n]) = add_mset (snapshot_hold s n) (open_holds s as fs (removed k ss))"
  by (simp_all add: open_holds_def split_update)

lemma open_ok_at:
  "k < length fs \<Longrightarrow> open_ok s fs ss \<longleftrightarrow> fork_ok s (fs ! k) \<and> open_ok s (removed k fs) ss"
  "k < length ss \<Longrightarrow> open_ok s fs ss \<longleftrightarrow> snapshot_ok s (ss ! k) \<and> open_ok s fs (removed k ss)"
proof -
  show "open_ok s fs ss \<longleftrightarrow> fork_ok s (fs ! k) \<and> open_ok s (removed k fs) ss" if "k < length fs"
    using split_at [OF that, THEN arg_cong [where f = set_mset]] by (auto simp: open_ok_def)
  show "open_ok s fs ss \<longleftrightarrow> snapshot_ok s (ss ! k) \<and> open_ok s fs (removed k ss)" if "k < length ss"
    using split_at [OF that, THEN arg_cong [where f = set_mset]] by (auto simp: open_ok_def)
qed

lemma open_ok_update:
  "k < length fs \<Longrightarrow> open_ok s (fs[k := f]) ss \<longleftrightarrow> fork_ok s f \<and> open_ok s (removed k fs) ss"
  "k < length ss \<Longrightarrow> open_ok s fs (ss[k := n]) \<longleftrightarrow> snapshot_ok s n \<and> open_ok s fs (removed k ss)"
proof -
  show "open_ok s (fs[k := f]) ss \<longleftrightarrow> fork_ok s f \<and> open_ok s (removed k fs) ss" if "k < length fs"
    using split_update [OF that, of f, THEN arg_cong [where f = set_mset]] by (auto simp: open_ok_def)
  show "open_ok s fs (ss[k := n]) \<longleftrightarrow> snapshot_ok s n \<and> open_ok s fs (removed k ss)" if "k < length ss"
    using split_update [OF that, of n, THEN arg_cong [where f = set_mset]] by (auto simp: open_ok_def)
qed

lemmas open_at = open_holds_at open_ok_at open_holds_update open_ok_update

lemma store_calls_sound:
  assumes inv: "system_inv y"
  shows "stays_sound (call_space CreateInactive y)" "stays_sound (call_space (CreateActive n row) y)"
    "stays_sound (call_space (Activate h n row) y)" "stays_sound (call_space (Deactivate h) y)"
    "stays_sound (call_space (Release h) y)" "stays_sound (call_space (ReleaseAfterDeactivate h) y)"
    "stays_sound (call_space (ResizeEntitlement h n) y)" "stays_sound (call_space (ReleaseGrowth h) y)"
    "stays_sound (call_space (EnsureMapped h n) y)" "stays_sound (call_space (CommitFrontier h n) y)"
    "stays_sound (call_space (TruncateIdle h n) y)" "stays_sound (call_space (TruncateIdlePrefix h n) y)"
    "stays_sound (call_space (SetCheckpoint h n) y)"
    "checkpoint_frontier (address_at (sys_store y) h) \<le> n \<Longrightarrow> stays_sound (call_space (TruncateActive h n) y)"
proof -
  have I: "space_inv (sys_holds y) (sys_store y)" using inv by (simp add: system_inv_def)
  show "stays_sound (call_space CreateInactive y)" unfolding call_space.simps
    by (rule on_store_sound [OF inv]) (use create_inactive_step [OF I] in \<open>auto split: prod.splits\<close>)
  show "stays_sound (call_space (CreateActive n row) y)" "stays_sound (call_space (Activate h n row) y)"
    "stays_sound (call_space (Deactivate h) y)" "stays_sound (call_space (EnsureMapped h n) y)" "stays_sound (call_space (CommitFrontier h n) y)"
    "stays_sound (call_space (TruncateIdle h n) y)" "stays_sound (call_space (TruncateIdlePrefix h n) y)"
    unfolding call_space.simps
    using create_active_step(1-3) [OF I] activate_step(1-3) [OF I] deactivate_step(1-3) [OF I] ensure_mapped_step(1-3) [OF I]
      commit_frontier_step(1-3) [OF I] truncate_inactive_step(1-3) [OF I] truncate_inactive_prefix_step(1-3) [OF I]
    by (auto intro!: on_store_sound [OF inv])
  show "stays_sound (call_space (Release h) y)" unfolding call_space.simps
    by (rule on_store_sound [OF inv], rule release_step [OF I, of h]) simp
  show "stays_sound (call_space (ReleaseAfterDeactivate h) y)" unfolding call_space.simps
    by (rule on_store_sound [OF inv], rule release_after_deactivate_step [OF I, of h]) simp
  have b: "r = Inr () \<or> (s' = s \<and> r \<in> {Inl InvalidArgument, Inl LogicError, Inl BadAlloc}) \<Longrightarrow> benign r" for r and s' s :: KVAddressSpaceStore
    by auto
  show "stays_sound (call_space (ResizeEntitlement h n) y)" unfolding call_space.simps
    by (rule on_store_sound [OF inv]) (use resize_entitlement_step [OF I] b in blast)
  show "stays_sound (call_space (ReleaseGrowth h) y)" unfolding call_space.simps
    by (rule on_store_sound [OF inv]) (use release_growth_step [OF I] b in blast)
  show "stays_sound (call_space (SetCheckpoint h n) y)" unfolding call_space.simps
    by (rule on_store_sound [OF inv]) (use set_checkpoint_step(1-3) [OF I] b in blast)
  show "stays_sound (call_space (TruncateActive h n) y)" if "checkpoint_frontier (address_at (sys_store y) h) \<le> n"
    unfolding call_space.simps by (rule on_store_sound [OF inv]) (use truncate_active_step [OF I _ that] in blast)
qed

lemma activation_calls_sound:
  assumes inv: "system_inv y"
  shows "stays_sound (call_space (PrepareActivation h n row f) y)" "stays_sound (call_space (CommitActivation k) y)"
    "stays_sound (call_space (DestroyActivation k) y)"
proof -
  note I = inv [unfolded system_inv_def]
  obtain s' r where run: "prepare_activation h n row f (sys_store y) = (s', r)" by fastforce
  note p = prepare_activation_step [OF conjunct1 [OF I] run] and o = open_kept [OF conjunct2 [OF I] prepare_activation_step(2) [OF conjunct1 [OF I] run]]
  show "stays_sound (call_space (PrepareActivation h n row f) y)"
    using p o by (cases r) (simp_all add: run stays_sound_def system_inv_def open_holds_simps benign_error)
  show "stays_sound (call_space (CommitActivation k) y)"
  proof (cases "k < length (sys_activations y)")
    case True
    let ?H = "open_holds (sys_store y) (removed k (sys_activations y)) (sys_forks y) (sys_snapshots y)"
    obtain s' v' r where run: "commit_activation (sys_activations y ! k) (sys_store y) = (s', v', r)" using prod_cases3 by blast
    have i: "space_inv (add_mset (activation_hold (sys_activations y ! k)) ?H) (sys_store y)" using I True by (simp add: open_at)
    note c = commit_activation_step(1-3) [OF i run]
    note o = open_kept [OF conjunct2 [OF I] c(2)]
    show ?thesis using True c(1,3) o by (simp add: run stays_sound_def system_inv_def open_at)
  qed (use inv in \<open>simp add: stays_sound_def\<close>)
  show "stays_sound (call_space (DestroyActivation k) y)"
  proof (cases "k < length (sys_activations y)")
    case True
    let ?y = "y\<lparr>sys_activations := removed k (sys_activations y)\<rparr>"
    let ?H = "sys_holds ?y"
    have i: "space_inv (add_mset (activation_hold (sys_activations y ! k)) ?H) (sys_store y)" using I True by (simp add: open_at)
    obtain s' where d: "destroy_activation (sys_activations y ! k) (sys_store y) = (s', Inr ())" "space_inv ?H s'" "\<And>P. keeps P (sys_store y) s'"
      by (rule destroy_activation_step [OF i]) (rule that)
    note o = open_kept [OF conjunct2 [OF I] d(3)]
    show ?thesis using True d o by (simp add: on_store_def stays_sound_def system_inv_def)
  qed (use inv in \<open>simp add: stays_sound_def\<close>)
qed

lemma fork_calls_sound:
  assumes inv: "system_inv y"
  shows "stays_sound (call_space (PrepareFork src dst f n row staged) y)" "stays_sound (call_space (CommitFork k) y)"
    "stays_sound (call_space (DestroyFork k) y)"
proof -
  note I = inv [unfolded system_inv_def]
  obtain s' r where run: "prepare_prefix_fork src dst f n row staged (sys_store y) = (s', r)" by fastforce
  note p = prepare_prefix_fork_step [OF conjunct1 [OF I] run, unfolded fork_made_def]
  have kp: "keeps P (sys_store y) s'" for P using p by simp
  note o = open_kept [OF conjunct2 [OF I] kp]
  show "stays_sound (call_space (PrepareFork src dst f n row staged) y)"
    using p o by (cases r) (simp_all add: run stays_sound_def system_inv_def open_holds_simps benign_error open_ok_def)
  show "stays_sound (call_space (CommitFork k) y)"
  proof (cases "k < length (sys_forks y)")
    case True
    let ?H = "open_holds (sys_store y) (sys_activations y) (removed k (sys_forks y)) (sys_snapshots y)"
    obtain s' v' r where run: "commit_prefix_fork (sys_forks y ! k) (sys_store y) = (s', v', r)" using prod_cases3 by blast
    have i: "space_inv (add_mset (fork_hold (sys_store y) (sys_forks y ! k)) ?H) (sys_store y)" "fork_ok (sys_store y) (sys_forks y ! k)"
      "open_ok (sys_store y) (removed k (sys_forks y)) (sys_snapshots y)" using I True by (simp_all add: open_at)
    note c = commit_prefix_fork_step(1-4) [OF i(1,2) run]
    note o = open_kept [OF i(3) c(3)]
    show ?thesis using True c(1,2,4) o by (simp add: run stays_sound_def system_inv_def open_at)
  qed (use inv in \<open>simp add: stays_sound_def\<close>)
  show "stays_sound (call_space (DestroyFork k) y)"
  proof (cases "k < length (sys_forks y)")
    case True
    let ?y = "y\<lparr>sys_forks := removed k (sys_forks y)\<rparr>"
    let ?H = "sys_holds ?y"
    have i: "space_inv (add_mset (fork_hold (sys_store y) (sys_forks y ! k)) ?H) (sys_store y)" "fork_ok (sys_store y) (sys_forks y ! k)"
      "open_ok (sys_store y) (removed k (sys_forks y)) (sys_snapshots y)" using I True by (simp_all add: open_at)
    obtain s' where d: "destroy_prefix_fork (sys_forks y ! k) (sys_store y) = (s', Inr ())" "space_inv ?H s'" "\<And>P. keeps P (sys_store y) s'"
      by (rule destroy_prefix_fork_step [OF i(1,2)]) (rule that)
    note o = open_kept [OF i(3) d(3)]
    show ?thesis using True d o by (simp add: on_store_def stays_sound_def system_inv_def)
  qed (use inv in \<open>simp add: stays_sound_def\<close>)
qed

lemma on_fork_sound:
  assumes inv: "system_inv y"
    and f: "\<And>s v H s' r. space_inv (add_mset (fork_hold s v) H) s \<Longrightarrow> fork_ok s v \<Longrightarrow> f v s = (s', r) \<Longrightarrow> benign r \<and> (\<forall>P. keeps P s s') \<and>
      (case r of Inl e \<Rightarrow> s' = s | Inr v' \<Rightarrow> space_inv (add_mset (fork_hold s' v') H) s' \<and> fork_ok s' v')"
  shows "stays_sound (on_fork k f y)"
proof (cases "k < length (sys_forks y)")
  case True
  let ?H = "open_holds (sys_store y) (sys_activations y) (removed k (sys_forks y)) (sys_snapshots y)"
  obtain s' r where run: "f (sys_forks y ! k) (sys_store y) = (s', r)" by fastforce
  have i: "space_inv (add_mset (fork_hold (sys_store y) (sys_forks y ! k)) ?H) (sys_store y)" "fork_ok (sys_store y) (sys_forks y ! k)"
    "open_ok (sys_store y) (removed k (sys_forks y)) (sys_snapshots y)" using inv True by (simp_all add: system_inv_def open_at)
  note c = f [OF i(1,2) run]
  have kp: "keeps P (sys_store y) s'" for P using c by simp
  note o = open_kept [OF i(3) kp]
  show ?thesis
  proof (cases r)
    case (Inl e)
    then show ?thesis using True c inv by (simp add: on_fork_def run stays_sound_def benign_error)
  next
    case (Inr v')
    then show ?thesis using True c o by (simp add: on_fork_def run stays_sound_def system_inv_def open_at)
  qed
qed (use inv in \<open>simp add: stays_sound_def on_fork_def\<close>)

lemma fork_stages_sound:
  assumes inv: "system_inv y"
  shows "stays_sound (call_space (SettleFork k) y)" "stays_sound (call_space (CompleteFork k) y)" "stays_sound (call_space (AbortFork k) y)"
proof -
  have settle: "benign r \<and> (\<forall>P. keeps P s s') \<and> (case r of Inl e \<Rightarrow> s' = s | Inr v' \<Rightarrow> space_inv (add_mset (fork_hold s' v') H) s' \<and> fork_ok s' v')"
    if "space_inv (add_mset (fork_hold s v) H) s" "fork_ok s v" "settle_prefix_fork_tail_source v s = (s', r)" for s v H s' r
    using settle_prefix_fork_step [OF that] by (cases r) auto
  show "stays_sound (call_space (SettleFork k) y)" unfolding call_space.simps by (rule on_fork_sound [OF inv settle])
  have complete: "benign r \<and> (\<forall>P. keeps P s s') \<and> (case r of Inl e \<Rightarrow> s' = s | Inr v' \<Rightarrow> space_inv (add_mset (fork_hold s' v') H) s' \<and> fork_ok s' v')"
    if "space_inv (add_mset (fork_hold s v) H) s" "fork_ok s v" "complete_prefix_fork_after_tail_release v s = (s', r)" for s v H s' r
    using complete_prefix_fork_step [OF that] by (cases r) auto
  show "stays_sound (call_space (CompleteFork k) y)" unfolding call_space.simps by (rule on_fork_sound [OF inv complete])
  have abort: "benign r \<and> (\<forall>P. keeps P s s') \<and> (case r of Inl e \<Rightarrow> s' = s | Inr v' \<Rightarrow> space_inv (add_mset (fork_hold s' v') H) s' \<and> fork_ok s' v')"
    if "space_inv (add_mset (fork_hold s v) H) s" "fork_ok s v" "abort_prefix_fork v s = (s', r)" for s v H s' r
    by (rule abort_prefix_fork_step [OF that(1,2)]) (use that(3) in auto)
  show "stays_sound (call_space (AbortFork k) y)" unfolding call_space.simps by (rule on_fork_sound [OF inv abort])
qed

lemma snapshot_calls_sound:
  assumes inv: "system_inv y"
  shows "stays_sound (call_space (PrepareSnapshot src dst f) y)" "stays_sound (call_space (CommitSnapshot k) y)"
    "stays_sound (call_space (AbortSnapshot k) y)" "stays_sound (call_space (DestroySnapshot k) y)"
proof -
  note I = inv [unfolded system_inv_def]
  obtain s' r where run: "prepare_active_snapshot src dst f (sys_store y) = (s', r)" by fastforce
  note p = prepare_active_snapshot_step [OF conjunct1 [OF I] run, unfolded snapshot_made_def]
  have kp: "keeps P (sys_store y) s'" for P using p by simp
  note o = open_kept [OF conjunct2 [OF I] kp]
  show "stays_sound (call_space (PrepareSnapshot src dst f) y)"
    using p o by (cases r) (simp_all add: run stays_sound_def system_inv_def open_holds_simps benign_error open_ok_def)
  let ?H = "open_holds (sys_store y) (sys_activations y) (sys_forks y) (removed k (sys_snapshots y))"
  show "stays_sound (call_space (CommitSnapshot k) y)"
  proof (cases "k < length (sys_snapshots y)")
    case True
    obtain s' v' r where run: "commit_active_snapshot (sys_snapshots y ! k) (sys_store y) = (s', v', r)" using prod_cases3 by blast
    have i: "space_inv (add_mset (snapshot_hold (sys_store y) (sys_snapshots y ! k)) ?H) (sys_store y)" "snapshot_ok (sys_store y) (sys_snapshots y ! k)"
      "open_ok (sys_store y) (sys_forks y) (removed k (sys_snapshots y))" using I True by (simp_all add: open_at)
    note c = commit_active_snapshot_step(1-4) [OF i(1,2) run]
    note o = open_kept [OF i(3) c(3)]
    show ?thesis using True c(1,2,4) o by (simp add: run stays_sound_def system_inv_def open_at)
  qed (use inv in \<open>simp add: stays_sound_def\<close>)
  show "stays_sound (call_space (AbortSnapshot k) y)"
  proof (cases "k < length (sys_snapshots y)")
    case True
    have i: "space_inv (add_mset (snapshot_hold (sys_store y) (sys_snapshots y ! k)) ?H) (sys_store y)" "snapshot_ok (sys_store y) (sys_snapshots y ! k)"
      "open_ok (sys_store y) (sys_forks y) (removed k (sys_snapshots y))" using I True by (simp_all add: open_at)
    obtain s' v' where d: "abort_active_snapshot (sys_snapshots y ! k) (sys_store y) = (s', Inr v')" "space_inv (add_mset (snapshot_hold s' v') ?H) s'"
      "snapshot_ok s' v'" "\<And>P. keeps P (sys_store y) s'"
      by (rule abort_active_snapshot_step [OF i(1,2)]) (rule that)
    note o = open_kept [OF i(3) d(4)]
    show ?thesis using True d o by (simp add: on_snapshot_def stays_sound_def system_inv_def open_at)
  qed (use inv in \<open>simp add: stays_sound_def on_snapshot_def\<close>)
  show "stays_sound (call_space (DestroySnapshot k) y)"
  proof (cases "k < length (sys_snapshots y)")
    case True
    have i: "space_inv (add_mset (snapshot_hold (sys_store y) (sys_snapshots y ! k)) ?H) (sys_store y)" "snapshot_ok (sys_store y) (sys_snapshots y ! k)"
      "open_ok (sys_store y) (sys_forks y) (removed k (sys_snapshots y))" using I True by (simp_all add: open_at)
    obtain s' where d: "destroy_active_snapshot (sys_snapshots y ! k) (sys_store y) = (s', Inr ())" "space_inv ?H s'" "\<And>P. keeps P (sys_store y) s'"
      by (rule destroy_active_snapshot_step [OF i(1,2)]) (rule that)
    note o = open_kept [OF i(3) d(3)]
    show ?thesis using True d o by (simp add: on_store_def stays_sound_def system_inv_def)
  qed (use inv in \<open>simp add: stays_sound_def\<close>)
qed

theorem call_space_sound:
  assumes "system_inv y" "disciplined c (sys_store y)"
  shows "stays_sound (call_space c y)"
  using store_calls_sound [OF assms(1)] activation_calls_sound [OF assms(1)] fork_calls_sound [OF assms(1)]
    fork_stages_sound [OF assms(1)] snapshot_calls_sound [OF assms(1)] assms(2)
  by (cases c) (simp_all only: disciplined_def space_call.case)

section \<open>The first state\<close>

lemma block_tables_strides:
  assumes mk: "make_tensor d I32 [c, n, 1, 1] = Inr bt" and p: "0 < c" "0 < n"
  shows "bt = \<lparr>data = d, dtype = I32, ne = [c, n, 1, 1], nb = [4, 4 * c, 4 * c * n, 4 * c * n]\<rparr>" "4 * c * n \<le> int i64_max"
proof -
  have m: "checked_mul_i64 a b = Inr x \<longleftrightarrow> x = a * b \<and> a * b \<le> int i64_max" if "0 < a" "0 < b" for a b x
  proof -
    have "a \<le> int i64_max div b \<longleftrightarrow> a * b \<le> int i64_max"
    proof
      assume "a \<le> int i64_max div b"
      then have "a * b \<le> int i64_max div b * b" using that by simp
      also have "... \<le> int i64_max" using that by (simp add: minus_mod_eq_div_mult [symmetric])
      finally show "a * b \<le> int i64_max" .
    next
      assume "a * b \<le> int i64_max"
      then have "a * b div b \<le> int i64_max div b" using that by (intro zdiv_mono1)
      then show "a \<le> int i64_max div b" using that by simp
    qed
    then show ?thesis using that by (auto simp: checked_mul_i64_def)
  qed
  show "bt = \<lparr>data = d, dtype = I32, ne = [c, n, 1, 1], nb = [4, 4 * c, 4 * c * n, 4 * c * n]\<rparr>" "4 * c * n \<le> int i64_max"
    using mk p by (simp_all add: make_tensor_def normalize_shape_def set_contiguous_strides_def res_bind_eq_Inr m)
qed

lemma new_execution_table_ok:
  assumes plan: "plan_kv_execution_tables b sp = Inr (l, b')" and new: "new_execution_table self backing l pool shadow = Inr t"
    and shadow: "length shadow = nat (table_rows sp) * spec_logical_page_capacity sp"
  shows "tables_ok t" "logical_page_capacity t = spec_logical_page_capacity sp"
proof -
  let ?c = "spec_logical_page_capacity sp" and ?n = "table_rows sp"
  have two: "replicate 2 (1 :: int) = [1, 1]" by (simp add: numeral_eq_Suc)
  have l: "table_layout_spec l = sp" "shape (layout_block_tables l) = [int ?c, ?n, 1, 1]" "region_dtype (layout_block_tables l) = I32"
    and p: "0 < ?c" "?c \<le> i32_max" "0 < ?n"
    using plan by (auto simp: plan_kv_execution_tables_def builder_add_tensor_def checked_table_bytes_def res_bind_eq_Inr two split: if_splits)
  obtain bt where bt: "tensor_region_bind (layout_block_tables l) backing = Inr bt"
    and t: "t = \<lparr>table_id = self, table_spec = sp, table_pages = pool_id pool, block_tables = bt, host_shadow = shadow,
      row_in_use = replicate (nat ?n) False, row_generations = replicate (nat ?n) 1\<rparr>"
    using new by (auto simp: new_execution_table_def l(1) Let_def res_bind_eq_Inr split: if_splits)
  obtain sp' where span: "region_bind (region (layout_block_tables l)) backing = Inr sp'"
    and mk: "make_tensor (map_option int (span_data sp')) I32 [int ?c, ?n, 1, 1] = Inr bt"
    using bt by (auto simp: tensor_region_bind_def l(2,3) res_bind_eq_Inr split: if_splits)
  have d: "span_data sp' \<noteq> None" using span by (auto simp: region_bind_def split: option.splits if_splits)
  note bt = block_tables_strides [OF mk]
  show "tables_ok t" "logical_page_capacity t = ?c"
    using p d shadow bt by (simp_all add: tables_ok_def table_inv_def t logical_page_capacity_def table_row_count_def)
qed

lemma space_rows_fresh [simp]: "space_rows (replicate n (fresh_address g)) = {#}" "space_reserved (replicate n (fresh_address g)) = 0"
  by (induction n) (simp_all add: space_rows_def space_reserved_def fresh_address_def)

lemma new_address_space_state:
  assumes "new_address_space self ps t slots cap = Inr s"
  shows "s = \<lparr>space_id = self, space_pages = ps, space_tables = t, page_capacity = cap, addresses = replicate slots (fresh_address 1),
      space_free = map (\<lambda>index. slots - 1 - index) [0..<slots], memberships = replicate (slots * cap) null_logical,
      space_free_count = slots, issued = []\<rparr>" "cap = logical_page_capacity t"
proof -
  have c: "0 < cap" "cap = logical_page_capacity t" "slots \<le> u64_max div cap"
    using assms by (auto simp: new_address_space_def checked_membership_cells_def res_bind_eq_Inr split: if_splits)
  then have "slots * cap \<le> u64_max" using less_eq_div_iff_mult_less_eq by blast
  then have m: "u64_mul slots cap = slots * cap" by (simp add: u64_mul_def)
  then show "s = \<lparr>space_id = self, space_pages = ps, space_tables = t, page_capacity = cap, addresses = replicate slots (fresh_address 1),
      space_free = map (\<lambda>index. slots - 1 - index) [0..<slots], memberships = replicate (slots * cap) null_logical,
      space_free_count = slots, issued = []\<rparr>"
    using assms by (auto simp: new_address_space_def checked_membership_cells_def res_bind_eq_Inr split: if_splits)
  show "cap = logical_page_capacity t" by (rule c)
qed

lemma no_holds [simp]: "pins {#} = {#}" "frozen_pages {#} = {}" "tails {#} = {#}" "held_total {#} = 0" "held_rows {#} = {#}"
  by (simp_all add: pins_def frozen_pages_def tails_def held_total_def held_rows_def)

lemma new_address_space_inv:
  assumes pool: "new_device_pool pid backing pl = Inr p" and pages: "new_logical_store lid p n = Inr ps" "n \<le> u32_max"
    and tables: "tables_ok t" and new: "new_address_space self ps t slots cap = Inr s" "slots \<le> u32_max"
  shows "space_inv {#} s"
proof -
  note s = new_address_space_state [OF new(1)]
  have none: "\<not> valid_page ps l" for l
    using pages(1) by (auto simp: new_logical_store_def valid_page_def vacant_page_def split: if_splits)
  have free: "distinct (map (\<lambda>index. slots - 1 - index) [0..<slots])" "set (map (\<lambda>index. slots - 1 - index) [0..<slots]) = {..<slots}"
  proof -
    show "distinct (map (\<lambda>index. slots - 1 - index) [0..<slots])" by (auto simp: distinct_map inj_on_def)
    have "k \<in> (\<lambda>index. slots - 1 - index) ` {..<slots}" if "k < slots" for k
      using that by (intro image_eqI [of _ _ "slots - 1 - k"]) auto
    then show "set (map (\<lambda>index. slots - 1 - index) [0..<slots]) = {..<slots}" by (auto simp: atLeast0LessThan)
  qed
  have ad: "addresses s ! i = fresh_address 1" if "i < slots" for i using that by (simp add: s(1))
  have mem: "membership s i k = null_logical" if "i < slots" "k < cap" for i k
  proof -
    have "i * cap + k < slots * cap"
      using that mult_le_mono1 [of "Suc i" slots cap] by simp
    then show ?thesis by (simp add: membership_def s(1))
  qed
  have res: "reserved_pages (physical_pool ps) = 0"
    using pages(1) pool by (auto simp: new_logical_store_def new_device_pool_def Let_def res_bind_eq_Inr split: if_splits)
  have "members_ok s i \<and> activity_ok s i \<and> frontier_ok s i" if "i < slots" for i
    using ad [OF that] mem [OF that] by (simp add: members_ok_def activity_ok_def frontier_ok_def pages_of_def page_handles_def fresh_address_def s(1))
  moreover have "slots_fit s" using free new(2) by (auto simp: slots_fit_def s fresh_address_def)
  moreover have "counts_ok {#} s" using none by (simp add: counts_ok_def s(1))
  moreover have "holds_ok {#} ps" by (simp add: holds_ok_def)
  moreover have "accounts_ok {#} s" using res by (simp add: accounts_ok_def s(1) rows_live_def)
  ultimately show ?thesis using new_logical_store_inv [OF pool pages] tables by (simp add: space_inv_but_def s(1))
qed

section \<open>Reachable systems\<close>

inductive space_reachable :: "space_system \<Rightarrow> bool" where
  start: "new_device_pool pid backing pl = Inr p \<Longrightarrow> new_logical_store lid p n = Inr ps \<Longrightarrow> n \<le> u32_max
    \<Longrightarrow> plan_kv_execution_tables b sp = Inr (lay, b') \<Longrightarrow> new_execution_table tid tb lay p shadow = Inr t
    \<Longrightarrow> length shadow = nat (table_rows sp) * spec_logical_page_capacity sp
    \<Longrightarrow> new_address_space self ps t slots cap = Inr s \<Longrightarrow> slots \<le> u32_max
    \<Longrightarrow> space_reachable \<lparr>sys_store = s, sys_activations = [], sys_forks = [], sys_snapshots = []\<rparr>"
| call: "space_reachable y \<Longrightarrow> disciplined c (sys_store y) \<Longrightarrow> call_space c y = (y', e) \<Longrightarrow> space_reachable y'"

lemma space_reachable_inv: "space_reachable y \<Longrightarrow> system_inv y"
proof (induction rule: space_reachable.induct)
  case (start pid backing pl p lid n ps b sp lay b' tid tb shadow t self slots cap s)
  then show ?case using new_address_space_inv [OF start(1-3) new_execution_table_ok(1) [OF start(4-6)] start(7,8)]
    by (simp add: system_inv_def open_holds_def open_ok_def)
next
  case (call y c y' e)
  then show ?case using call_space_sound [of y c] by (simp add: stays_sound_def)
qed

text \<open>A sequence of calls; \<open>run_ok\<close> says that each keeps to the discipline.\<close>

fun run_calls :: "space_call list \<Rightarrow> space_system \<Rightarrow> space_system" where
  "run_calls [] y = y"
| "run_calls (c # cs) y = run_calls cs (fst (call_space c y))"

fun run_ok :: "space_call list \<Rightarrow> space_system \<Rightarrow> bool" where
  "run_ok [] y = True"
| "run_ok (c # cs) y = (disciplined c (sys_store y) \<and> run_ok cs (fst (call_space c y)))"

lemma run_reachable: "space_reachable y \<Longrightarrow> run_ok cs y \<Longrightarrow> space_reachable (run_calls cs y)"
proof (induction cs arbitrary: y)
  case (Cons c cs)
  obtain y' e where "call_space c y = (y', e)" by fastforce
  then show ?case using Cons space_reachable.call [of y c y' e] by simp
qed simp

end
