(* ===== verification/Example_Space.thy ===== *)
theory Example_Space
  imports Space_Use
begin

text \<open>
  One concrete address space store, built by the constructors of the model on a pool of four pages and a table of
  two rows, and the states that sequences of calls lead to. They instantiate the hypotheses of properties elsewhere.
\<close>

section \<open>The first state\<close>

definition example_pages :: LogicalKVPageStore where
  "example_pages = \<lparr>store_id = 3, physical_pool = example_pool, store_pages = replicate 4 vacant_page,
     free_slots = [3, 2, 1, 0], scratch_capacity = 4, free_count = 4\<rparr>"

definition example_system :: space_system where
  "example_system = \<lparr>sys_store = \<lparr>space_id = 5, space_pages = example_pages, space_tables = example_table, page_capacity = 4,
     addresses = replicate 2 (fresh_address 1), space_free = [1, 0], memberships = replicate 8 null_logical,
     space_free_count = 2, issued = []\<rparr>, sys_activations = [], sys_forks = [], sys_snapshots = []\<rparr>"

lemma lists_eval: "replicate 8 x = [x, x, x, x, x, x, x, x]" "replicate 3 x = [x, x, x]" "replicate 4 x = [x, x, x, x]" "replicate 2 x = [x, x]"
  "[0..<4] = [0, 1, 2, 3]" "[0..<3] = [0, 1, 2]" "[0..<2] = [0, 1]" "[Suc 0..<2] = [1]" "[Suc 0..<3] = [1, 2]"
  by (simp_all add: numeral_eq_Suc upt_conv_Cons)

lemma example_system_reachable: "space_reachable example_system"
proof -
  have "new_logical_store 3 example_pool 4 = Inr example_pages" "new_address_space 5 example_pages example_table 2 4 = Inr (sys_store example_system)"
    by (simp_all add: new_logical_store_def capacity_pages_def example_pool_def example_spec_def example_pages_def new_address_space_def
        checked_membership_cells_def u64_mul_def u64_max_def logical_page_capacity_def example_table_def example_system_def lists_eval)
  moreover have "plan_kv_execution_tables new_builder \<lparr>spec_logical_page_capacity = 4, table_rows = 2\<rparr>
      = Inr (example_table_layout, \<lparr>cursor = 32, peak = 32\<rparr>)"
  proof -
    have "is_power_of_two 256" unfolding power_of_two_iff by (rule exI [of _ 8]) simp
    then show ?thesis
      by (simp add: plan_kv_execution_tables_def checked_table_bytes_def checked_i32_def i32_max_def u64_max_def builder_add_tensor_def
          make_tensor_def normalize_shape_def set_contiguous_strides_def checked_mul_i64_def i64_max_def tensor_bytes_def numel_def
          shape_numel_def builder_add_def align_up_def checked_add_def new_builder_def example_table_layout_def lists_eval Let_def)
  qed
  ultimately show ?thesis
    using space_reachable.start [OF example_pool_new _ _ _ example_table_new] by (simp add: u32_max_def example_system_def)
qed

section \<open>Values that recur\<close>

definition first_address :: KVAddressSpaceHandle where
  "first_address = \<lparr>space_owner = Some 5, space_index = 0, space_generation = 1\<rparr>"

definition second_address :: KVAddressSpaceHandle where
  "second_address = \<lparr>space_owner = Some 5, space_index = 1, space_generation = 1\<rparr>"

definition nth_page :: "nat \<Rightarrow> LogicalKVPageHandle" where
  "nth_page n = \<lparr>logical_owner = Some 3, logical_index = n, logical_generation = 1\<rparr>"

definition nth_lease :: "int \<Rightarrow> DeviceKVPageLease" where
  "nth_lease n = \<lparr>lease_owner = Some 7, lease_index = n, lease_generation = 1\<rparr>"

definition nth_row :: "int \<Rightarrow> KVExecutionRowLease" where
  "nth_row n = \<lparr>row_lease_owner = Some 9, row_lease_number = n, row_lease_generation = 1\<rparr>"

definition pool_pages :: "nat \<Rightarrow> DeviceKVPageReservation" where
  "pool_pages n = \<lparr>reservation_owner = Some 7, reservation_pages = n\<rparr>"

text \<open>A live page: epoch, columns, references, active references, protected columns, pins, writers, transfer pin, device page.\<close>

definition page_with :: "u64 \<Rightarrow> nat \<Rightarrow> nat \<Rightarrow> nat \<Rightarrow> nat \<Rightarrow> nat \<Rightarrow> nat \<Rightarrow> bool \<Rightarrow> int \<Rightarrow> LogicalPage" where
  "page_with epoch columns refs active protected held writers incoming frame = \<lparr>page_gen = 1, content_epoch = epoch, committed_columns = columns,
     references = refs, active_references = active, protected_columns = protected, source_pins = held, writer_references = writers,
     destination_pinned = incoming, page_occupied = True, device_replica = Some (nth_lease frame), pending_device_replica = None, host_replica = None\<rparr>"

lemmas example_values = first_address_def second_address_def nth_page_def nth_lease_def nth_row_def pool_pages_def page_with_def
  example_pages_def example_pool_def example_spec_def example_table_def vacant_page_def lists_eval Let_def

lemmas space_eval =
  u32_max_def u64_max_def i32_max_def i64_max_def u32_add_def u32_sub_def u64_add_def u64_sub_def i32_of_u32_def increment_generation_def
  checked_mul_i64_def normalize_shape_def shape_numel_def set_contiguous_strides_def make_tensor_def numel_def tensor_bytes_def
  is_contiguous_def view_def slice_def null_handle_def null_lease_def null_reservation_def lease_valid_def lease_handle_def
  lease_belongs_to_def reservation_belongs_to_def capacity_pages_def available_pages_def valid_handle_def physical_index_def
  contiguous_run_count_def consume_free_run_def release_free_page_def make_empty_reservation_def can_resize_reservation_def
  resize_reservation_def release_reservation_def reservation_clear_def reservation_release_def release_page_def lease_release_def
  leases_current_def preferred_run_def select_run_def append_page_def materialize_pages_def materialize_def materialize_one_def
  dematerialize_def dematerialize_one_def validate_distinct_pages_def null_row_lease_def row_lease_handle_def logical_page_capacity_def
  table_row_count_def acquire_def valid_row_handle_def release_row_def row_lease_release_def table_row_def publish_indices_def publish_def
  null_logical_def page_size_def store_capacity_def store_occupied_def valid_page_def page_at_def require_page_def descriptor_index_def
  physical_def device_resident_def host_resident_def host_replica_of_def page_field_def can_pin_source_def can_pin_active_source_def
  replica_current_def host_replica_current_def can_drop_device_replica_def can_retain_reference_def can_set_writer_def
  can_destructive_truncate_def can_destructive_truncate_inactive_def can_destructive_truncate_inactive_after_host_release_def
  can_dematerialize_def can_release_reference_def can_release_reference_after_active_reference_def can_attach_host_replica_def
  next_epoch_def put_page_def drop_lease_def no_throw_def release_page_descriptor_def fresh_page_def transfer_page_def install_page_def
  materialize_logical_def batch_slots_def materialize_batch_def materialize_transfer_destination_def unpublished_transfer_def
  publish_transfer_destination_def give_back_page_def abort_transfer_destination_def reserve_device_replica_def publish_device_replica_def
  abort_device_replica_def drop_device_replica_def change_page_def retain_active_reference_def release_active_reference_def
  retain_reference_def set_writer_def protect_coverage_def set_protected_coverage_def clear_protection_def pin_source_def unpin_source_def
  commit_coverage_def cut_columns_def destructive_truncate_def destructive_truncate_inactive_def dropped_reference_def release_reference_def
  release_logical_def dematerialize_logical_def attach_host_replica_def rebind_host_replica_def detach_host_replica_def act_return_def
  act_throw_def act_bind_def act_then_def act_ask_def act_change_def act_guard_def act_when_def act_cleanup_def act_noexcept_def
  fresh_address_def copied_pages_def fork_needs_tail_copy_def snapshot_needs_tail_copy_def pages_for_tokens_def next_generation_def
  space_occupied_def valid_address_def address_at_def require_address_def reservation_valid_def require_active_def entitlement_of_def
  membership_def set_membership_def put_address_def on_pages_def on_pages_result_def ask_pages_def on_pool_def acquire_row_def drop_row_def
  drop_reservation_def publish_row_def page_handles_def publish_membership_def create_inactive_def idle_address_def prepare_activation_def
  missing_device_pages_def activation_page_reservation_def activation_ready_def activate_page_def spent_activation_def adopt_activation_def
  commit_activation_def destroy_activation_def activate_def mapped_pages_def address_entitlement_def address_frontier_def bound_row_def
  address_active_def execution_row_of_def logical_page_def physical_page_def page_content_epoch_def has_active_reference_def
  deactivate_page_def deactivate_def unprotect_address_def protect_address_def rebuild_checkpoint_protection_def can_release_def
  can_release_after_deactivate_def release_member_def release_def release_after_deactivate_def create_active_def resize_entitlement_def
  release_growth_entitlement_def materialize_members_def dematerialize_member_def ensure_mapped_to_tokens_def commit_page_def
  commit_frontier_def tail_cut_def pop_page_def truncate_active_def can_truncate_inactive_prefix_def can_truncate_inactive_def
  drop_member_def truncate_inactive_def set_checkpoint_requirement_def truncate_inactive_prefix_def prefix_stable_def
  prepare_prefix_fork_def require_prefix_fork_def prefix_fork_tail_logical_source_def prefix_fork_tail_source_def
  prefix_fork_tail_destination_def settle_prefix_fork_tail_source_def complete_prefix_fork_after_tail_release_def fork_ready_def
  share_page_def publish_prefix_fork_def adopt_prefix_fork_def emptied_fork_def commit_prefix_fork_def unpin_if_pinned_def abort_tail_def
  abort_prefix_fork_def destroy_prefix_fork_def active_snapshot_shape_def prepare_active_snapshot_def require_active_snapshot_def
  active_snapshot_tail_source_def active_snapshot_tail_destination_def snapshot_ready_def retire_page_def publish_active_snapshot_def
  adopt_active_snapshot_def commit_active_snapshot_def abort_active_snapshot_def destroy_active_snapshot_def raised_def on_store_def
  removed_def on_fork_def on_snapshot_def disciplined_def

section \<open>Calls on it\<close>

text \<open>The first address is created active with an entitlement of three pages on row 0.\<close>

definition example_created :: space_system where
  "example_created = \<lparr>sys_store = \<lparr>space_id = 5, space_pages = \<lparr>store_id = 3, physical_pool =
     example_pool\<lparr>free_page_runs := [\<lparr>run_begin = 0, run_count = 4\<rparr>], page_allocated := [False, False, False, False],
     allocated_pages := 0, reserved_pages := 3\<rparr>, store_pages = [vacant_page, vacant_page, vacant_page, vacant_page], free_slots = [3,
     2, 1, 0], scratch_capacity = 4, free_count = 4\<rparr>, space_tables = example_table\<lparr>host_shadow := [0, 0, 0, 0, 0, 0, 0, 0],
     row_in_use := [True, False]\<rparr>, page_capacity = 4, addresses = [\<lparr>addr_generation = 1, page_count = 0, committed_frontier =
     0, checkpoint_frontier = 0, addr_reservation = (pool_pages 3), addr_row = Some (nth_row 0), addr_occupied = True, addr_active =
     True\<rparr>, \<lparr>addr_generation = 1, page_count = 0, committed_frontier = 0, checkpoint_frontier = 0, addr_reservation =
     null_reservation, addr_row = None, addr_occupied = False, addr_active = False\<rparr>], space_free = [1, 0], memberships =
     [null_logical, null_logical, null_logical, null_logical, null_logical, null_logical, null_logical, null_logical], space_free_count = 1,
     issued = []\<rparr>, sys_activations = [], sys_forks = [], sys_snapshots = []\<rparr>"

lemma example_created_call: "call_space (CreateActive 3 0) example_system = (example_created, None)"
  by (simp add: example_system_def example_created_def space_eval example_values)

text \<open>Two pages are mapped for a hundred tokens.\<close>

definition example_mapped :: space_system where
  "example_mapped = \<lparr>sys_store = \<lparr>space_id = 5, space_pages = \<lparr>store_id = 3, physical_pool =
     example_pool\<lparr>free_page_runs := [\<lparr>run_begin = 2, run_count = 2\<rparr>], page_allocated := [True, True, False, False],
     allocated_pages := 2, reserved_pages := 1\<rparr>, store_pages = [(page_with 1 0 1 1 0 0 1 False 0), (page_with 1 0 1 1 0 0 1 False 1),
     vacant_page, vacant_page], free_slots = [3, 2, 1, 0], scratch_capacity = 4, free_count = 2\<rparr>, space_tables =
     example_table\<lparr>host_shadow := [0, 1, 0, 0, 0, 0, 0, 0], row_in_use := [True, False]\<rparr>, page_capacity = 4, addresses =
     [\<lparr>addr_generation = 1, page_count = 2, committed_frontier = 0, checkpoint_frontier = 0, addr_reservation = (pool_pages 1),
     addr_row = Some (nth_row 0), addr_occupied = True, addr_active = True\<rparr>, \<lparr>addr_generation = 1, page_count = 0,
     committed_frontier = 0, checkpoint_frontier = 0, addr_reservation = null_reservation, addr_row = None, addr_occupied = False,
     addr_active = False\<rparr>], space_free = [1, 0], memberships = [(nth_page 0), (nth_page 1), null_logical, null_logical, null_logical,
     null_logical, null_logical, null_logical], space_free_count = 1, issued = [\<lparr>copy_address = 8192, copy_shadow_begin = 0,
     copy_elements = 2\<rparr>]\<rparr>, sys_activations = [], sys_forks = [], sys_snapshots = []\<rparr>"

lemma example_mapped_call: "call_space (EnsureMapped first_address 100) example_created = (example_mapped, None)"
  by (simp add: example_created_def example_mapped_def space_eval example_values)

text \<open>Seventy tokens are committed.\<close>

definition example_committed :: space_system where
  "example_committed = \<lparr>sys_store = \<lparr>space_id = 5, space_pages = \<lparr>store_id = 3, physical_pool =
     example_pool\<lparr>free_page_runs := [\<lparr>run_begin = 2, run_count = 2\<rparr>], page_allocated := [True, True, False, False],
     allocated_pages := 2, reserved_pages := 1\<rparr>, store_pages = [(page_with 1 64 1 1 0 0 1 False 0), (page_with 1 6 1 1 0 0 1 False
     1), vacant_page, vacant_page], free_slots = [3, 2, 1, 0], scratch_capacity = 4, free_count = 2\<rparr>, space_tables =
     example_table\<lparr>host_shadow := [0, 1, 0, 0, 0, 0, 0, 0], row_in_use := [True, False]\<rparr>, page_capacity = 4, addresses =
     [\<lparr>addr_generation = 1, page_count = 2, committed_frontier = 70, checkpoint_frontier = 0, addr_reservation = (pool_pages 1),
     addr_row = Some (nth_row 0), addr_occupied = True, addr_active = True\<rparr>, \<lparr>addr_generation = 1, page_count = 0,
     committed_frontier = 0, checkpoint_frontier = 0, addr_reservation = null_reservation, addr_row = None, addr_occupied = False,
     addr_active = False\<rparr>], space_free = [1, 0], memberships = [(nth_page 0), (nth_page 1), null_logical, null_logical, null_logical,
     null_logical, null_logical, null_logical], space_free_count = 1, issued = [\<lparr>copy_address = 8192, copy_shadow_begin = 0,
     copy_elements = 2\<rparr>]\<rparr>, sys_activations = [], sys_forks = [], sys_snapshots = []\<rparr>"

lemma example_committed_call: "call_space (CommitFrontier first_address 70) example_mapped = (example_committed, None)"
  by (simp add: example_mapped_def example_committed_def space_eval example_values)

text \<open>A second, empty address.\<close>

definition example_source :: space_system where
  "example_source = \<lparr>sys_store = \<lparr>space_id = 5, space_pages = \<lparr>store_id = 3, physical_pool =
     example_pool\<lparr>free_page_runs := [\<lparr>run_begin = 2, run_count = 2\<rparr>], page_allocated := [True, True, False, False],
     allocated_pages := 2, reserved_pages := 1\<rparr>, store_pages = [(page_with 1 64 1 1 0 0 1 False 0), (page_with 1 6 1 1 0 0 1 False
     1), vacant_page, vacant_page], free_slots = [3, 2, 1, 0], scratch_capacity = 4, free_count = 2\<rparr>, space_tables =
     example_table\<lparr>host_shadow := [0, 1, 0, 0, 0, 0, 0, 0], row_in_use := [True, False]\<rparr>, page_capacity = 4, addresses =
     [\<lparr>addr_generation = 1, page_count = 2, committed_frontier = 70, checkpoint_frontier = 0, addr_reservation = (pool_pages 1),
     addr_row = Some (nth_row 0), addr_occupied = True, addr_active = True\<rparr>, \<lparr>addr_generation = 1, page_count = 0,
     committed_frontier = 0, checkpoint_frontier = 0, addr_reservation = null_reservation, addr_row = None, addr_occupied = True,
     addr_active = False\<rparr>], space_free = [1, 0], memberships = [(nth_page 0), (nth_page 1), null_logical, null_logical, null_logical,
     null_logical, null_logical, null_logical], space_free_count = 0, issued = [\<lparr>copy_address = 8192, copy_shadow_begin = 0,
     copy_elements = 2\<rparr>]\<rparr>, sys_activations = [], sys_forks = [], sys_snapshots = []\<rparr>"

lemma example_source_call: "call_space CreateInactive example_committed = (example_source, None)"
  by (simp add: example_committed_def example_source_def space_eval example_values)

text \<open>The first address is deactivated.\<close>

definition example_idle :: space_system where
  "example_idle = \<lparr>sys_store = \<lparr>space_id = 5, space_pages = \<lparr>store_id = 3, physical_pool =
     example_pool\<lparr>free_page_runs := [\<lparr>run_begin = 2, run_count = 2\<rparr>], page_allocated := [True, True, False, False],
     allocated_pages := 2, reserved_pages := 0\<rparr>, store_pages = [(page_with 1 64 1 0 0 0 0 False 0), (page_with 1 6 1 0 0 0 0 False
     1), vacant_page, vacant_page], free_slots = [3, 2, 1, 0], scratch_capacity = 4, free_count = 2\<rparr>, space_tables =
     example_table\<lparr>host_shadow := [0, 1, 0, 0, 0, 0, 0, 0], row_in_use := [False, False], row_generations := [2, 1]\<rparr>,
     page_capacity = 4, addresses = [\<lparr>addr_generation = 1, page_count = 2, committed_frontier = 70, checkpoint_frontier = 0,
     addr_reservation = null_reservation, addr_row = None, addr_occupied = True, addr_active = False\<rparr>, \<lparr>addr_generation = 1,
     page_count = 0, committed_frontier = 0, checkpoint_frontier = 0, addr_reservation = null_reservation, addr_row = None, addr_occupied =
     True, addr_active = False\<rparr>], space_free = [1, 0], memberships = [(nth_page 0), (nth_page 1), null_logical, null_logical,
     null_logical, null_logical, null_logical, null_logical], space_free_count = 0, issued = [\<lparr>copy_address = 8192, copy_shadow_begin
     = 0, copy_elements = 2\<rparr>]\<rparr>, sys_activations = [], sys_forks = [], sys_snapshots = []\<rparr>"

lemma example_idle_call: "call_space (Deactivate first_address) example_source = (example_idle, None)"
  by (simp add: example_source_def example_idle_def space_eval example_values)

text \<open>A fork of the seventy tokens to the second address on row 1: one shared page, one page for the tail.\<close>

definition example_forking :: space_system where
  "example_forking = \<lparr>sys_store = \<lparr>space_id = 5, space_pages = \<lparr>store_id = 3, physical_pool =
     example_pool\<lparr>free_page_runs := [\<lparr>run_begin = 3, run_count = 1\<rparr>], page_allocated := [True, True, True, False],
     allocated_pages := 3, reserved_pages := 1\<rparr>, store_pages = [(page_with 1 64 1 0 0 1 0 False 0), (page_with 1 6 1 0 0 1 0 False
     1), (page_with 1 6 0 0 0 0 0 True 2), vacant_page], free_slots = [3, 2, 1, 0], scratch_capacity = 4, free_count = 1\<rparr>,
     space_tables = example_table\<lparr>host_shadow := [0, 1, 0, 0, 0, 0, 0, 0], row_in_use := [False, True], row_generations := [2,
     1]\<rparr>, page_capacity = 4, addresses = [\<lparr>addr_generation = 1, page_count = 2, committed_frontier = 70, checkpoint_frontier =
     0, addr_reservation = null_reservation, addr_row = None, addr_occupied = True, addr_active = False\<rparr>, \<lparr>addr_generation =
     1, page_count = 0, committed_frontier = 0, checkpoint_frontier = 0, addr_reservation = null_reservation, addr_row = None, addr_occupied
     = True, addr_active = False\<rparr>], space_free = [1, 0], memberships = [(nth_page 0), (nth_page 1), null_logical, null_logical,
     null_logical, null_logical, null_logical, null_logical], space_free_count = 0, issued = [\<lparr>copy_address = 8192, copy_shadow_begin
     = 0, copy_elements = 2\<rparr>]\<rparr>, sys_activations = [], sys_forks = [\<lparr>fork_owner = Some 5, fork_source = first_address,
     fork_destination = second_address, fork_frontier = 70, fork_full_pages = 1, fork_tail_columns = 6, fork_entitlement = 3, fork_pages =
     (pool_pages 1), fork_row = Some (nth_row 1), fork_tail = Some (nth_page 2), staged_tail_release = False, tail_source_settled =
     False\<rparr>], sys_snapshots = []\<rparr>"

lemma example_forking_call: "call_space (PrepareFork first_address second_address 70 3 1 False) example_idle = (example_forking, None)"
  by (simp add: example_idle_def example_forking_def space_eval example_values)

text \<open>The fork is committed.\<close>

definition example_forked :: space_system where
  "example_forked = \<lparr>sys_store = \<lparr>space_id = 5, space_pages = \<lparr>store_id = 3, physical_pool =
     example_pool\<lparr>free_page_runs := [\<lparr>run_begin = 3, run_count = 1\<rparr>], page_allocated := [True, True, True, False],
     allocated_pages := 3, reserved_pages := 1\<rparr>, store_pages = [(page_with 1 64 2 1 64 0 0 False 0), (page_with 1 6 1 0 0 0 0 False
     1), (page_with 1 6 1 1 0 0 1 False 2), vacant_page], free_slots = [3, 2, 1, 0], scratch_capacity = 4, free_count = 1\<rparr>,
     space_tables = example_table\<lparr>host_shadow := [0, 1, 0, 0, 0, 2, 0, 0], row_in_use := [False, True], row_generations := [2,
     1]\<rparr>, page_capacity = 4, addresses = [\<lparr>addr_generation = 1, page_count = 2, committed_frontier = 70, checkpoint_frontier =
     0, addr_reservation = null_reservation, addr_row = None, addr_occupied = True, addr_active = False\<rparr>, \<lparr>addr_generation =
     1, page_count = 2, committed_frontier = 70, checkpoint_frontier = 0, addr_reservation = (pool_pages 1), addr_row = Some (nth_row 1),
     addr_occupied = True, addr_active = True\<rparr>], space_free = [1, 0], memberships = [(nth_page 0), (nth_page 1), null_logical,
     null_logical, (nth_page 0), (nth_page 2), null_logical, null_logical], space_free_count = 0, issued = [\<lparr>copy_address = 8192,
     copy_shadow_begin = 0, copy_elements = 2\<rparr>, \<lparr>copy_address = 8208, copy_shadow_begin = 4, copy_elements =
     2\<rparr>]\<rparr>, sys_activations = [], sys_forks = [\<lparr>fork_owner = None, fork_source = first_address, fork_destination =
     second_address, fork_frontier = 70, fork_full_pages = 1, fork_tail_columns = 6, fork_entitlement = 3, fork_pages = null_reservation,
     fork_row = None, fork_tail = None, staged_tail_release = False, tail_source_settled = False\<rparr>], sys_snapshots = []\<rparr>"

lemma example_forked_call: "call_space (CommitFork 0) example_forking = (example_forked, None)"
  by (simp add: example_forking_def example_forked_def space_eval example_values)

text \<open>From \<open>example_source\<close>: a snapshot of the active first address into the second one.\<close>

definition example_snapping :: space_system where
  "example_snapping = \<lparr>sys_store = \<lparr>space_id = 5, space_pages = \<lparr>store_id = 3, physical_pool =
     example_pool\<lparr>free_page_runs := [\<lparr>run_begin = 3, run_count = 1\<rparr>], page_allocated := [True, True, True, False],
     allocated_pages := 3, reserved_pages := 1\<rparr>, store_pages = [(page_with 1 64 1 1 0 1 1 False 0), (page_with 1 6 1 1 0 1 1 False
     1), (page_with 1 6 0 0 0 0 0 True 2), vacant_page], free_slots = [3, 2, 1, 0], scratch_capacity = 4, free_count = 1\<rparr>,
     space_tables = example_table\<lparr>host_shadow := [0, 1, 0, 0, 0, 0, 0, 0], row_in_use := [True, False]\<rparr>, page_capacity = 4,
     addresses = [\<lparr>addr_generation = 1, page_count = 2, committed_frontier = 70, checkpoint_frontier = 0, addr_reservation =
     (pool_pages 1), addr_row = Some (nth_row 0), addr_occupied = True, addr_active = True\<rparr>, \<lparr>addr_generation = 1, page_count
     = 0, committed_frontier = 0, checkpoint_frontier = 0, addr_reservation = null_reservation, addr_row = None, addr_occupied = True,
     addr_active = False\<rparr>], space_free = [1, 0], memberships = [(nth_page 0), (nth_page 1), null_logical, null_logical, null_logical,
     null_logical, null_logical, null_logical], space_free_count = 0, issued = [\<lparr>copy_address = 8192, copy_shadow_begin = 0,
     copy_elements = 2\<rparr>]\<rparr>, sys_activations = [], sys_forks = [], sys_snapshots = [\<lparr>snapshot_owner = Some 5,
     snapshot_source = first_address, snapshot_destination = second_address, snapshot_frontier = 70, snapshot_shape = \<lparr>full_pages =
     1, immutable_full_pages = 0, unique_full_pages = 1, tail_columns = 6\<rparr>, snapshot_entitlement = 3, tail_reservation = (pool_pages
     0), snapshot_tail = Some (nth_page 2)\<rparr>]\<rparr>"

lemma example_snapping_call: "call_space (PrepareSnapshot first_address second_address 70) example_source = (example_snapping, None)"
  by (simp add: example_source_def example_snapping_def space_eval example_values)

text \<open>The snapshot is committed: the second address goes on, the first one is idle.\<close>

definition example_snapped :: space_system where
  "example_snapped = \<lparr>sys_store = \<lparr>space_id = 5, space_pages = \<lparr>store_id = 3, physical_pool =
     example_pool\<lparr>free_page_runs := [\<lparr>run_begin = 3, run_count = 1\<rparr>], page_allocated := [True, True, True, False],
     allocated_pages := 3, reserved_pages := 1\<rparr>, store_pages = [(page_with 1 64 2 1 64 0 0 False 0), (page_with 1 6 1 0 6 0 0 False
     1), (page_with 1 6 1 1 0 0 1 False 2), vacant_page], free_slots = [3, 2, 1, 0], scratch_capacity = 4, free_count = 1\<rparr>,
     space_tables = example_table\<lparr>host_shadow := [0, 2, 0, 0, 0, 0, 0, 0], row_in_use := [True, False]\<rparr>, page_capacity = 4,
     addresses = [\<lparr>addr_generation = 1, page_count = 2, committed_frontier = 70, checkpoint_frontier = 70, addr_reservation =
     null_reservation, addr_row = None, addr_occupied = True, addr_active = False\<rparr>, \<lparr>addr_generation = 1, page_count = 2,
     committed_frontier = 70, checkpoint_frontier = 0, addr_reservation = (pool_pages 1), addr_row = Some (nth_row 0), addr_occupied = True,
     addr_active = True\<rparr>], space_free = [1, 0], memberships = [(nth_page 0), (nth_page 1), null_logical, null_logical, (nth_page 0),
     (nth_page 2), null_logical, null_logical], space_free_count = 0, issued = [\<lparr>copy_address = 8192, copy_shadow_begin = 0,
     copy_elements = 2\<rparr>, \<lparr>copy_address = 8192, copy_shadow_begin = 0, copy_elements = 2\<rparr>]\<rparr>, sys_activations =
     [], sys_forks = [], sys_snapshots = [\<lparr>snapshot_owner = None, snapshot_source = first_address, snapshot_destination =
     second_address, snapshot_frontier = 70, snapshot_shape = \<lparr>full_pages = 1, immutable_full_pages = 0, unique_full_pages = 1,
     tail_columns = 6\<rparr>, snapshot_entitlement = 3, tail_reservation = (pool_pages 0), snapshot_tail = None\<rparr>]\<rparr>"

lemma example_snapped_call: "call_space (CommitSnapshot 0) example_snapping = (example_snapped, None)"
  by (simp add: example_snapping_def example_snapped_def space_eval example_values)

text \<open>From \<open>example_source\<close>: the active first address promises its seventy tokens as a checkpoint.\<close>

definition example_promised :: space_system where
  "example_promised = \<lparr>sys_store = \<lparr>space_id = 5, space_pages = \<lparr>store_id = 3, physical_pool =
     example_pool\<lparr>free_page_runs := [\<lparr>run_begin = 2, run_count = 2\<rparr>], page_allocated := [True, True, False, False],
     allocated_pages := 2, reserved_pages := 1\<rparr>, store_pages = [(page_with 1 64 1 1 64 0 1 False 0), (page_with 1 6 1 1 6 0 1 False
     1), vacant_page, vacant_page], free_slots = [3, 2, 1, 0], scratch_capacity = 4, free_count = 2\<rparr>, space_tables =
     example_table\<lparr>host_shadow := [0, 1, 0, 0, 0, 0, 0, 0], row_in_use := [True, False]\<rparr>, page_capacity = 4, addresses =
     [\<lparr>addr_generation = 1, page_count = 2, committed_frontier = 70, checkpoint_frontier = 70, addr_reservation = (pool_pages 1),
     addr_row = Some (nth_row 0), addr_occupied = True, addr_active = True\<rparr>, \<lparr>addr_generation = 1, page_count = 0,
     committed_frontier = 0, checkpoint_frontier = 0, addr_reservation = null_reservation, addr_row = None, addr_occupied = True,
     addr_active = False\<rparr>], space_free = [1, 0], memberships = [(nth_page 0), (nth_page 1), null_logical, null_logical, null_logical,
     null_logical, null_logical, null_logical], space_free_count = 0, issued = [\<lparr>copy_address = 8192, copy_shadow_begin = 0,
     copy_elements = 2\<rparr>]\<rparr>, sys_activations = [], sys_forks = [], sys_snapshots = []\<rparr>"

lemma example_promised_call: "call_space (SetCheckpoint first_address 70) example_source = (example_promised, None)"
  by (simp add: example_source_def example_promised_def space_eval example_values)

text \<open>It is cut to sixty-four tokens all the same.\<close>

definition example_broken :: space_system where
  "example_broken = \<lparr>sys_store = \<lparr>space_id = 5, space_pages = \<lparr>store_id = 3, physical_pool =
     example_pool\<lparr>free_page_runs := [\<lparr>run_begin = 1, run_count = 3\<rparr>], page_generations := [1, 2, 1, 1], page_allocated
     := [True, False, False, False], allocated_pages := 1, reserved_pages := 2\<rparr>, store_pages = [(page_with 1 64 1 1 64 0 1 False 0),
     \<lparr>page_gen = 2, content_epoch = 1, committed_columns = 0, references = 0, active_references = 0, protected_columns = 0,
     source_pins = 0, writer_references = 0, destination_pinned = False, page_occupied = False, device_replica = None,
     pending_device_replica = None, host_replica = None\<rparr>, vacant_page, vacant_page], free_slots = [3, 2, 1, 0], scratch_capacity = 4,
     free_count = 3\<rparr>, space_tables = example_table\<lparr>host_shadow := [0, 1, 0, 0, 0, 0, 0, 0], row_in_use := [True,
     False]\<rparr>, page_capacity = 4, addresses = [\<lparr>addr_generation = 1, page_count = 1, committed_frontier = 64,
     checkpoint_frontier = 70, addr_reservation = (pool_pages 2), addr_row = Some (nth_row 0), addr_occupied = True, addr_active =
     True\<rparr>, \<lparr>addr_generation = 1, page_count = 0, committed_frontier = 0, checkpoint_frontier = 0, addr_reservation =
     null_reservation, addr_row = None, addr_occupied = True, addr_active = False\<rparr>], space_free = [1, 0], memberships = [(nth_page
     0), null_logical, null_logical, null_logical, null_logical, null_logical, null_logical, null_logical], space_free_count = 0, issued =
     [\<lparr>copy_address = 8192, copy_shadow_begin = 0, copy_elements = 2\<rparr>]\<rparr>, sys_activations = [], sys_forks = [],
     sys_snapshots = []\<rparr>"

lemma example_broken_call: "call_space (TruncateActive first_address 64) example_promised = (example_broken, None)"
  by (simp add: example_promised_def example_broken_def space_eval example_values)

end
