(* ===== verification/Space_Properties.thy ===== *)
theory Space_Properties
  imports Example_Space
begin

text \<open>
  What holds of every address space store in use. The theorems are about reachable systems; their proofs read the
  facts off the invariant of \<open>Space_Use\<close>, and the examples of \<open>Example_Space\<close> instantiate them.
\<close>

section \<open>The examples are reachable\<close>

lemma example_reachable:
  "space_reachable example_created" "space_reachable example_mapped" "space_reachable example_committed" "space_reachable example_source"
  "space_reachable example_idle" "space_reachable example_forking" "space_reachable example_forked"
  "space_reachable example_snapping" "space_reachable example_snapped" "space_reachable example_promised"
proof -
  note next_call = space_reachable.call
  show c: "space_reachable example_created" by (rule next_call [OF example_system_reachable _ example_created_call]) (simp add: disciplined_def)
  show m: "space_reachable example_mapped" by (rule next_call [OF c _ example_mapped_call]) (simp add: disciplined_def)
  show k: "space_reachable example_committed" by (rule next_call [OF m _ example_committed_call]) (simp add: disciplined_def)
  show s: "space_reachable example_source" by (rule next_call [OF k _ example_source_call]) (simp add: disciplined_def)
  show i: "space_reachable example_idle" by (rule next_call [OF s _ example_idle_call]) (simp add: disciplined_def)
  show f: "space_reachable example_forking" by (rule next_call [OF i _ example_forking_call]) (simp add: disciplined_def)
  show "space_reachable example_forked" by (rule next_call [OF f _ example_forked_call]) (simp add: disciplined_def)
  show n: "space_reachable example_snapping" by (rule next_call [OF s _ example_snapping_call]) (simp add: disciplined_def)
  show "space_reachable example_snapped" by (rule next_call [OF n _ example_snapped_call]) (simp add: disciplined_def)
  show "space_reachable example_promised" by (rule next_call [OF s _ example_promised_call]) (simp add: disciplined_def)
qed

section \<open>Reading the invariant\<close>

lemma reachable_space:
  assumes "space_reachable y"
  shows "space_inv (sys_holds y) (sys_store y)" "open_ok (sys_store y) (sys_forks y) (sys_snapshots y)"
  using space_reachable_inv [OF assms] by (simp_all add: system_inv_def)

lemma users_members: "users s l = {i. i < length (addresses s) \<and> (\<exists>k < page_count (addresses s ! i). membership s i k = l)}"
  by (auto simp: users_def in_pages_of)

lemma holds_sum:
  "count (pins (mset hs)) l = (\<Sum>h \<leftarrow> hs. count_list (pinned h) l)" "held_total (mset hs) = (\<Sum>h \<leftarrow> hs. reservation_pages (held_pages h))"
  by (induction hs) (simp_all add: count_mset)

lemma sys_holds_list:
  "sys_holds y = mset (map activation_hold (sys_activations y) @ map (fork_hold (sys_store y)) (sys_forks y)
     @ map (snapshot_hold (sys_store y)) (sys_snapshots y))"
  by (simp add: open_holds_def)

lemma pins_open:
  "count (pins (sys_holds y)) l = (\<Sum>v \<leftarrow> sys_forks y. count_list (fork_pins (sys_store y) v) l)
     + (\<Sum>v \<leftarrow> sys_snapshots y. count_list (snapshot_pins (sys_store y) v) l)"
  unfolding sys_holds_list holds_sum by (simp add: comp_def activation_hold_def fork_hold_def snapshot_hold_def)

lemma held_open:
  "held_total (sys_holds y) = (\<Sum>v \<leftarrow> sys_activations y. reservation_pages (activation_pages v))
     + (\<Sum>v \<leftarrow> sys_forks y. reservation_pages (fork_pages v)) + (\<Sum>v \<leftarrow> sys_snapshots y. reservation_pages (tail_reservation v))"
  unfolding sys_holds_list holds_sum by (simp add: comp_def activation_hold_def fork_hold_def snapshot_hold_def)

section \<open>Pages\<close>





text \<open>C26: For every mapped page of an active address the execution table row the address is bound to holds the
  index of the physical page, and the pool accepts the handle of that page.\<close>

theorem space_rows_published:
  assumes "space_reachable y" "address_active (sys_store y) h" "k < page_count (address_at (sys_store y) h)"
  defines "s \<equiv> sys_store y"
  shows "\<exists>d. physical_page s h k = Inr d \<and> valid_handle (physical_pool (space_pages s)) d \<and> 0 \<le> bound_row s h \<and> bound_row s h < table_row_count (space_tables s)
    \<and> host_shadow (space_tables s) ! (nat (bound_row s h) * page_capacity s + k) = handle_index d"
proof -
  note inv = reachable_space(1) [OF assms(1), folded s_def] and I = space_invD [OF inv]
  let ?i = "space_index h"
  have h: "valid_address s h" "addr_active (addresses s ! ?i)" "?i < length (addresses s)" "k < page_count (addresses s ! ?i)"
    using assms(2,3) valid_addressD by (auto simp: address_active_def address_at_def s_def)
  let ?l = "membership s ?i k"
  have l: "?l \<in> set (pages_of s ?i)" "valid_page (space_pages s) ?l" using h(4) members_okD(4) [OF I(7) [OF h(3)]] by (auto simp: membership_in)
  obtain m where m: "device_replica (page_at (space_pages s) ?l) = Some m" using activity_okD(4) [OF I(8) [OF h(3)] h(2) l(1)] by blast
  obtain row where row: "addr_row (addresses s ! ?i) = Some row" "\<forall>k < page_count (addresses s ! ?i). shown s row k = frame_of (space_pages s) (membership s ?i k)"
    using activity_okD(5) [OF I(8) [OF h(3)] h(2)] by blast
  have "row \<in># space_rows (addresses s)" by (rule address_row_in [OF h(3) row(1)])
  then have v: "valid_row_handle (space_tables s) (row_lease_handle row)" "row_number (row_lease_handle row) = row_lease_number row"
    using row_live [OF inv, of row] by simp_all
  have b: "bound_row s h = row_lease_number row" using h(1) row(1) by (simp add: bound_row_def address_at_def)
  have held: "lease_belongs_to m (physical_pool (space_pages s))" "valid_handle (physical_pool (space_pages s)) (lease_handle m)"
    using leases_held_live [OF store_inv_held [OF I(1)] page_lease_held(1) [OF I(1) l(2) m]] by auto
  have "physical_page s h k = Inr (lease_handle m)"
    using h l(2) m by (simp add: physical_page_def logical_page_def require_address_def address_at_def physical_def require_page_def)
  moreover have "handle_index (lease_handle m) = lease_index m" using live_lease_index [OF held(1)] by simp
  ultimately show ?thesis using v b row(2) h(4) held(2) m
    by (intro exI [of _ "lease_handle m"]) (auto simp: valid_row_handle_def shown_def frame_of_def split: if_splits)
qed

theorem space_rows_published_witness:
  "\<exists>d. physical_page (sys_store example_forked) second_address 1 = Inr d \<and> handle_index d = 2
    \<and> host_shadow (space_tables (sys_store example_forked)) ! (1 * 4 + 1) = handle_index d"
proof -
  have "address_active (sys_store example_forked) second_address" "1 < page_count (address_at (sys_store example_forked) second_address)"
    by (simp_all add: example_forked_def second_address_def address_active_def valid_address_def address_at_def)
  from space_rows_published [OF example_reachable(7) this]
  obtain d where d: "physical_page (sys_store example_forked) second_address 1 = Inr d"
    "host_shadow (space_tables (sys_store example_forked)) ! (nat (bound_row (sys_store example_forked) second_address)
       * page_capacity (sys_store example_forked) + 1) = handle_index d" by blast
  moreover have "bound_row (sys_store example_forked) second_address = 1" "page_capacity (sys_store example_forked) = 4"
    "host_shadow (space_tables (sys_store example_forked)) ! 5 = 2"
    by (simp_all add: example_forked_def second_address_def bound_row_def valid_address_def address_at_def nth_row_def example_table_def)
  ultimately show ?thesis by auto
qed

text \<open>C27: In every reachable system the pages the pool has set aside are exactly the reservations of the
  addresses and of the open activations, forks and snapshots, and the pool never promises more than it has.\<close>

theorem space_reservations_exact:
  assumes "space_reachable y"
  shows "reserved_pages (physical_pool (space_pages (sys_store y)))
      = (\<Sum>a \<leftarrow> addresses (sys_store y). reservation_pages (addr_reservation a))
        + (\<Sum>v \<leftarrow> sys_activations y. reservation_pages (activation_pages v))
        + (\<Sum>v \<leftarrow> sys_forks y. reservation_pages (fork_pages v)) + (\<Sum>v \<leftarrow> sys_snapshots y. reservation_pages (tail_reservation v))
    \<and> allocated_pages (physical_pool (space_pages (sys_store y))) + reserved_pages (physical_pool (space_pages (sys_store y)))
      \<le> capacity_pages (physical_pool (space_pages (sys_store y)))"
proof -
  note I = space_invD [OF reachable_space(1) [OF assms]]
  show ?thesis using I(6) held_open [of y] store_pool_inv [OF I(1)] by (simp add: accounts_ok_def space_reserved_def pool_inv_def)
qed

theorem space_reservations_exact_witness:
  "space_reachable example_forking \<and> reserved_pages (physical_pool (space_pages (sys_store example_forking)))
      = (\<Sum>a \<leftarrow> addresses (sys_store example_forking). reservation_pages (addr_reservation a))
        + (\<Sum>v \<leftarrow> sys_activations example_forking. reservation_pages (activation_pages v))
        + (\<Sum>v \<leftarrow> sys_forks example_forking. reservation_pages (fork_pages v))
        + (\<Sum>v \<leftarrow> sys_snapshots example_forking. reservation_pages (tail_reservation v))"
  using space_reservations_exact [OF example_reachable(6)] example_reachable(6) by blast

section \<open>Addresses\<close>

text \<open>C28: Growing an active address within its entitlement always succeeds as long as enough page descriptors are
  free, and leaves it active with exactly the pages for the requested tokens, or the larger number it had.\<close>

theorem growth_within_entitlement_succeeds:
  assumes "space_reachable y" "address_active (sys_store y) h"
    and "pages_for_tokens tokens \<le> entitlement_of (address_at (sys_store y) h)"
    and "pages_for_tokens tokens - page_count (address_at (sys_store y) h) \<le> free_count (space_pages (sys_store y))"
  shows "\<exists>y'. call_space (EnsureMapped h tokens) y = (y', None) \<and> space_reachable y' \<and> address_active (sys_store y') h
    \<and> page_count (address_at (sys_store y') h) = max (page_count (address_at (sys_store y) h)) (pages_for_tokens tokens)"
proof -
  obtain s' where s': "ensure_mapped_to_tokens h tokens (sys_store y) = (s', Inr ())" "address_active s' h"
    "page_count (address_at s' h) = max (page_count (address_at (sys_store y) h)) (pages_for_tokens tokens)"
    by (rule ensure_mapped_succeeds [OF reachable_space(1) [OF assms(1)] assms(2-4)])
  have c: "call_space (EnsureMapped h tokens) y = (y\<lparr>sys_store := s'\<rparr>, None)" using s'(1) by (simp add: on_store_def raised_def)
  have "space_reachable (y\<lparr>sys_store := s'\<rparr>)" by (rule space_reachable.call [OF assms(1) _ c]) (simp add: disciplined_def)
  then show ?thesis using c s'(2,3) by simp
qed

theorem growth_within_entitlement_succeeds_witness:
  "\<exists>y'. call_space (EnsureMapped first_address 100) example_created = (y', None) \<and> page_count (address_at (sys_store y') first_address) = 2"
proof -
  have "address_active (sys_store example_created) first_address" "pages_for_tokens 100 = 2"
    "entitlement_of (address_at (sys_store example_created) first_address) = 3" "page_count (address_at (sys_store example_created) first_address) = 0"
    "free_count (space_pages (sys_store example_created)) = 4"
    by (simp_all add: example_created_def first_address_def address_active_def valid_address_def address_at_def pages_for_tokens_def
        entitlement_of_def reservation_valid_def pool_pages_def u32_add_def u32_max_def)
  then show ?thesis using growth_within_entitlement_succeeds [OF example_reachable(1), of first_address 100] by fastforce
qed



section \<open>Forks and snapshots\<close>

lemma reachable_fork:
  assumes "space_reachable y" "k < length (sys_forks y)"
  shows "space_inv (add_mset (fork_hold (sys_store y) (sys_forks y ! k)) (open_holds (sys_store y) (sys_activations y) (removed k (sys_forks y)) (sys_snapshots y))) (sys_store y)"
    "fork_ok (sys_store y) (sys_forks y ! k)"
  using reachable_space [OF assms(1)] assms(2) by (simp_all add: open_at)

lemma reachable_snapshot:
  assumes "space_reachable y" "k < length (sys_snapshots y)"
  shows "space_inv (add_mset (snapshot_hold (sys_store y) (sys_snapshots y ! k)) (open_holds (sys_store y) (sys_activations y) (sys_forks y) (removed k (sys_snapshots y)))) (sys_store y)"
    "snapshot_ok (sys_store y) (sys_snapshots y ! k)"
  using reachable_space [OF assms(1)] assms(2) by (simp_all add: open_at)

lemma adopted_address:
  assumes ad: "adoption s s' d L t ps f r row" and h: "valid_address s h" "space_index h = d" and len: "length (adopted_pages L t) \<le> page_capacity s"
    and t: "\<forall>l. t = Some l \<longrightarrow> valid_page (space_pages s) l"
  shows "address_active s' h" "committed_frontier (address_at s' h) = f" "page_count (address_at s' h) = length (adopted_pages L t)"
    "bound_row s' h = row_lease_number row" "addr_reservation (address_at s' h) = r"
    "j < length L \<Longrightarrow> membership s' d j = L ! j"
    "t \<noteq> None \<Longrightarrow> references (page_at (space_pages s') (membership s' d (length L))) = 1"
    "i \<noteq> d \<Longrightarrow> addresses s' ! i = addresses s ! i" "i \<noteq> d \<Longrightarrow> n < page_capacity s \<Longrightarrow> membership s' i n = membership s i n"
proof -
  note A = adoption_fields [OF ad]
  have v: "valid_address s' h" using h A(1,5,6) by (simp add: valid_address_def)
  then show "address_active s' h" "committed_frontier (address_at s' h) = f" "page_count (address_at s' h) = length (adopted_pages L t)"
    "bound_row s' h = row_lease_number row" "addr_reservation (address_at s' h) = r"
    using h(2) A(1,5) by (simp_all add: address_active_def address_at_def bound_row_def)
  show "membership s' d j = L ! j" if "j < length L" using A(11) [of j d] len that by (simp add: nth_append)
  show "references (page_at (space_pages s') (membership s' d (length L))) = 1" if "t \<noteq> None"
  proof -
    obtain l where l: "t = Some l" using \<open>t \<noteq> None\<close> by blast
    have "membership s' d (length L) = l" using A(11) [of "length L" d] len by (simp add: l)
    then show ?thesis using A(15) [of l] t by (simp add: adopted_def l)
  qed
  show "i \<noteq> d \<Longrightarrow> addresses s' ! i = addresses s ! i" "i \<noteq> d \<Longrightarrow> n < page_capacity s \<Longrightarrow> membership s' i n = membership s i n"
    using A(5,11) by simp_all
qed

text \<open>C30: A committed fork makes its destination active at the forked frontier. Whole pages are shared, not copied:
  the destination maps the very pages of the source; a partly filled last page is a page of its own. The source
  keeps its pages, its frontier and its state.\<close>

theorem fork_shares_prefix:
  assumes "space_reachable y" "k < length (sys_forks y)" "call_space (CommitFork k) y = (y', None)"
  defines "v \<equiv> sys_forks y ! k" and "s \<equiv> sys_store y" and "s' \<equiv> sys_store y'"
  shows "address_active s' (fork_destination v) \<and> committed_frontier (address_at s' (fork_destination v)) = fork_frontier v
    \<and> page_count (address_at s' (fork_destination v)) = pages_for_tokens (fork_frontier v)
    \<and> (\<forall>j < fork_frontier v div page_size. membership s' (space_index (fork_destination v)) j = membership s (space_index (fork_source v)) j)
    \<and> (fork_frontier v mod page_size = 0
       \<or> references (page_at (space_pages s') (membership s' (space_index (fork_destination v)) (fork_frontier v div page_size))) = 1)
    \<and> address_at s' (fork_source v) = address_at s (fork_source v)
    \<and> (\<forall>j < page_capacity s. membership s' (space_index (fork_source v)) j = membership s (space_index (fork_source v)) j)"
proof -
  let ?H = "open_holds s (sys_activations y) (removed k (sys_forks y)) (sys_snapshots y)"
  have inv: "space_inv (add_mset (fork_hold s v) ?H) s" and ok: "fork_ok s v" using reachable_fork [OF assms(1,2)] by (simp_all add: s_def v_def)
  have ready: "fork_ready s v = Inr ()"
    using assms(2,3) by (cases "fork_ready s v") (simp_all add: commit_prefix_fork_def act_then_def act_bind_def act_ask_def raised_def s_def v_def)
  obtain t row where run: "commit_prefix_fork v s = (t, (emptied_fork v)\<lparr>fork_owner := None\<rparr>, Inr ())"
    and ad: "adoption s t (space_index (fork_destination v)) (fork_shared s v) (fork_tail v) (fork_pins s v) (fork_frontier v) (fork_pages v) row"
    by (rule commit_fork_adoption [OF inv ok ready])
  have s': "s' = t" using assms(2,3) run by (auto simp: s'_def s_def v_def)
  note F = fork_parts [OF inv ok ready]
  note k' = ok [unfolded fork_ok_def if_not_P [OF F(11)]]
  have len: "length (fork_shared s v) = fork_frontier v div page_size" using k' by (simp add: fork_shared_def page_handles_def)
  have tail: "fork_tail v = None \<longleftrightarrow> fork_frontier v mod page_size = 0" using k' by auto
  have "valid_address s (fork_destination v)"
    using fork_ready_ok(1) [OF ready] by (auto simp: require_prefix_fork_def split: if_splits)
  note N = adopted_address [OF ad this refl] 
  have "length (adopted_pages (fork_shared s v) (fork_tail v)) \<le> page_capacity s" "\<forall>l. fork_tail v = Some l \<longrightarrow> valid_page (space_pages s) l"
    using F(7,8) fork_tail_page(1) [OF inv] by auto
  note N = N [OF this]
  have "fork_shared s v ! j = membership s (space_index (fork_source v)) j" if "j < length (fork_shared s v)" for j
    using that by (simp add: fork_shared_def page_handles_def)
  then show ?thesis unfolding s' using N F(3,7) len tail by (auto simp: address_at_def)
qed

theorem fork_shares_prefix_witness:
  "membership (sys_store example_forked) 1 0 = membership (sys_store example_forking) 0 0
    \<and> committed_frontier (address_at (sys_store example_forked) second_address) = 70"
proof -
  have v: "fork_destination (sys_forks example_forking ! 0) = second_address" "fork_source (sys_forks example_forking ! 0) = first_address"
    "fork_frontier (sys_forks example_forking ! 0) = 70" "0 < length (sys_forks example_forking)"
    "space_index first_address = 0" "space_index second_address = 1"
    by (simp_all add: example_forking_def first_address_def second_address_def)
  show ?thesis using fork_shares_prefix [OF example_reachable(6) v(4) example_forked_call] v by simp
qed

text \<open>C31: A committed snapshot hands the execution over: the destination is active at the frontier on the row and
  with the entitlement the source had, shares the whole pages and has a partly filled last page of its own; the source
  is idle, keeps its pages and its frontier, and protects all of it as a checkpoint.\<close>

theorem snapshot_hands_over:
  assumes "space_reachable y" "k < length (sys_snapshots y)" "call_space (CommitSnapshot k) y = (y', None)"
  defines "v \<equiv> sys_snapshots y ! k" and "s \<equiv> sys_store y" and "s' \<equiv> sys_store y'"
  shows "address_active s' (snapshot_destination v) \<and> committed_frontier (address_at s' (snapshot_destination v)) = snapshot_frontier v
    \<and> page_count (address_at s' (snapshot_destination v)) = page_count (address_at s (snapshot_source v))
    \<and> bound_row s' (snapshot_destination v) = bound_row s (snapshot_source v)
    \<and> addr_reservation (address_at s' (snapshot_destination v)) = addr_reservation (address_at s (snapshot_source v))
    \<and> (\<forall>j < snapshot_frontier v div page_size. membership s' (space_index (snapshot_destination v)) j = membership s (space_index (snapshot_source v)) j)
    \<and> (snapshot_frontier v mod page_size = 0
       \<or> references (page_at (space_pages s') (membership s' (space_index (snapshot_destination v)) (snapshot_frontier v div page_size))) = 1)
    \<and> address_at s' (snapshot_source v) = (address_at s (snapshot_source v))\<lparr>addr_row := None, addr_reservation := null_reservation,
        addr_active := False, checkpoint_frontier := snapshot_frontier v\<rparr>
    \<and> (\<forall>j < page_capacity s. membership s' (space_index (snapshot_source v)) j = membership s (space_index (snapshot_source v)) j)"
proof -
  let ?H = "open_holds s (sys_activations y) (sys_forks y) (removed k (sys_snapshots y))"
  let ?i = "space_index (snapshot_source v)" and ?d = "space_index (snapshot_destination v)"
  have inv: "space_inv (add_mset (snapshot_hold s v) ?H) s" and ok: "snapshot_ok s v" using reachable_snapshot [OF assms(1,2)] by (simp_all add: s_def v_def)
  have ready: "snapshot_ready s v = Inr ()"
    using assms(2,3) by (cases "snapshot_ready s v") (simp_all add: commit_active_snapshot_def act_then_def act_bind_def act_ask_def raised_def s_def v_def)
  obtain t row pg g where run: "commit_active_snapshot v s = (t, v\<lparr>snapshot_tail := None, snapshot_owner := None\<rparr>, Inr ())"
    and row: "addr_row (addresses s ! ?i) = Some row" and idle: "touched deactivated (set (snapshot_pins s v)) (space_pages s) pg"
    and g: "g = s\<lparr>addresses := (addresses s)[?i := (addresses s ! ?i)\<lparr>addr_row := None,
       addr_reservation := null_reservation, addr_active := False, checkpoint_frontier := snapshot_frontier v\<rparr>], space_pages := pg\<rparr>"
    and ad: "adoption g t ?d (snapshot_shared s v) (snapshot_tail v) (snapshot_pins s v) (snapshot_frontier v) (addr_reservation (addresses s ! ?i)) row"
    by (rule commit_snapshot_adoption [OF inv ok ready])
  have s': "s' = t" using assms(2,3) run by (auto simp: s'_def s_def v_def)
  note P = snapshot_parts [OF inv ok ready] and R = snapshot_ready_ok [OF inv ready]
  have len: "length (snapshot_shared s v) = snapshot_frontier v div page_size" using P(8) by (simp add: snapshot_shared_def page_handles_def)
  have "valid_address g (snapshot_destination v)" using R(3) P(1) by (simp add: valid_address_def g nth_list_update)
  note N = adopted_address [OF ad this refl]
  have gf: "page_capacity g = page_capacity s" "membership g = membership s" by (simp_all add: g)
  have "length (snapshot_adopted s v) \<le> page_capacity g" "\<forall>l. snapshot_tail v = Some l \<longrightarrow> valid_page (space_pages g) l"
    using P(2,3) snapshot_page(8) [OF inv ok ready] pages_rel_frame(6) [OF idle] by (auto simp: g)
  note N = N [OF this]
  have sh: "snapshot_shared s v ! j = membership s ?i j" if "j < length (snapshot_shared s v)" for j
    using that by (simp add: snapshot_shared_def page_handles_def)
  have br: "bound_row s (snapshot_source v) = row_lease_number row" using R(2) row by (simp add: bound_row_def address_at_def)
  have src: "addresses t ! ?i = (addresses s ! ?i)\<lparr>addr_row := None, addr_reservation := null_reservation, addr_active := False, checkpoint_frontier := snapshot_frontier v\<rparr>"
    using N(8) [OF P(1)] R(11) by (simp add: g)
  show ?thesis unfolding s'
    using N(1-7) N(9) [OF P(1)] sh len br src P(2,7,9) R(6) gf by (auto simp: address_at_def)
qed

theorem snapshot_hands_over_witness:
  "address_active (sys_store example_snapped) second_address \<and> membership (sys_store example_snapped) 1 0 = membership (sys_store example_snapping) 0 0
    \<and> checkpoint_frontier (address_at (sys_store example_snapped) first_address) = 70"
proof -
  have v: "snapshot_destination (sys_snapshots example_snapping ! 0) = second_address" "snapshot_source (sys_snapshots example_snapping ! 0) = first_address"
    "snapshot_frontier (sys_snapshots example_snapping ! 0) = 70" "0 < length (sys_snapshots example_snapping)"
    "space_index first_address = 0" "space_index second_address = 1"
    by (simp_all add: example_snapping_def first_address_def second_address_def)
  show ?thesis using snapshot_hands_over [OF example_reachable(8) v(4) example_snapped_call] v by simp
qed

section \<open>Giving up and failing\<close>

text \<open>Actions that change pages, reservations and rows but no address and no membership.\<close>

definition spares_addresses :: "'a space_action \<Rightarrow> bool" where
  "spares_addresses m \<longleftrightarrow> (\<forall>s. addresses (fst (m s)) = addresses s \<and> memberships (fst (m s)) = memberships s \<and> page_capacity (fst (m s)) = page_capacity s)"

named_theorems spares \<open>actions that spare the addresses\<close>

lemma spares_run:
  assumes "spares_addresses m" "m s = (s', r)"
  shows "addresses s' = addresses s" "memberships s' = memberships s" "page_capacity s' = page_capacity s"
  using assms unfolding spares_addresses_def by (metis fst_conv)+

lemma sparesI:
  assumes "\<And>s s' r. m s = (s', r) \<Longrightarrow> addresses s' = addresses s \<and> memberships s' = memberships s \<and> page_capacity s' = page_capacity s"
  shows "spares_addresses m"
  unfolding spares_addresses_def using assms by (metis prod.collapse)

lemma spares_bind [spares]:
  assumes "spares_addresses m" "\<And>x. spares_addresses (f x)"
  shows "spares_addresses (act_bind m f)"
proof (rule sparesI)
  fix s s' r
  assume run: "act_bind m f s = (s', r)"
  obtain t q where t: "m s = (t, q)" by fastforce
  show "addresses s' = addresses s \<and> memberships s' = memberships s \<and> page_capacity s' = page_capacity s"
    using run t spares_run [OF assms(1) t] spares_run [OF assms(2)] by (cases q) (auto simp: act_bind_def)
qed

lemma spares_then [spares]: "spares_addresses m \<Longrightarrow> spares_addresses k \<Longrightarrow> spares_addresses (act_then m k)"
  unfolding act_then_def by (rule spares_bind)

lemma spares_cleanup [spares]:
  assumes "spares_addresses m" "spares_addresses k"
  shows "spares_addresses (act_cleanup m k)"
proof (rule sparesI)
  fix s s' r
  assume run: "act_cleanup m k s = (s', r)"
  obtain t q where t: "m s = (t, q)" by fastforce
  obtain u w where u: "k t = (u, w)" by fastforce
  show "addresses s' = addresses s \<and> memberships s' = memberships s \<and> page_capacity s' = page_capacity s"
    using run t u spares_run [OF assms(1) t] spares_run [OF assms(2) u] by (cases q; cases w) (auto simp: act_cleanup_def)
qed

lemma spares_noexcept [spares]:
  assumes "spares_addresses m"
  shows "spares_addresses (act_noexcept m)"
proof (rule sparesI)
  fix s s' r
  assume run: "act_noexcept m s = (s', r)"
  obtain t q where t: "m s = (t, q)" by fastforce
  show "addresses s' = addresses s \<and> memberships s' = memberships s \<and> page_capacity s' = page_capacity s"
    using run t spares_run [OF assms t] by (cases q) (auto simp: act_noexcept_def)
qed

lemma spares_state: "(\<And>t. spares_addresses (m t)) \<Longrightarrow> spares_addresses (\<lambda>s. m s s)"
  by (simp add: spares_addresses_def)

lemma spares_unless: "(\<And>t. spares_addresses (m t)) \<Longrightarrow> spares_addresses (\<lambda>s. if c s then (s, Inr x) else m s s)"
  by (simp add: spares_addresses_def)

lemma spares_basic [spares]:
  "spares_addresses (act_return x)" "spares_addresses (act_ask q)" "spares_addresses (act_guard b e)" "spares_addresses (ask_pages q')"
  by (simp_all add: spares_addresses_def act_return_def act_ask_def act_guard_def ask_pages_def)

lemma spares_calls [spares]:
  "spares_addresses (on_pages f)" "spares_addresses (on_pages_result g)" "spares_addresses (acquire_row n)" "spares_addresses (drop_row r)"
  by (auto simp: on_pages_def on_pages_result_def acquire_row_def drop_row_def act_change_def intro!: sparesI split: sum.splits prod.splits option.splits)

lemma spares_pool [spares]: "spares_addresses (on_pool f)" unfolding on_pool_def by (rule spares)

lemma spares_drop [spares]: "spares_addresses (drop_reservation r)" unfolding drop_reservation_def by (intro spares)

lemma spares_when [spares]: "spares_addresses m \<Longrightarrow> spares_addresses (act_when b m)" by (simp add: act_when_def spares)

lemma spares_for [spares]: "(\<And>x. spares_addresses (f x)) \<Longrightarrow> spares_addresses (act_for f xs)"
  by (induction xs) (simp_all add: spares)

lemma spares_prepare_fork: "spares_addresses (prepare_prefix_fork src dst f n row staged)"
proof -
  have "spares_addresses (\<lambda>s. act_for (\<lambda>l. on_pages (\<lambda>p. pin_source p l)) (page_handles s i ks) s)" for i ks
    by (rule spares_state) (intro spares)
  moreover have "spares_addresses (\<lambda>s. (s, Inr (g s)))" for g :: "KVAddressSpaceStore \<Rightarrow> 'a" by (simp add: spares_addresses_def)
  ultimately show ?thesis unfolding prepare_prefix_fork_def Let_def by (auto intro!: spares split: prod.splits)
qed

lemma spares_destroy_fork: "spares_addresses (destroy_prefix_fork v)"
proof -
  have u: "spares_addresses (unpin_if_pinned l)" for l
    unfolding unpin_if_pinned_def Let_def by (rule spares_state) (intro spares)
  have t: "spares_addresses (abort_tail x r)" for x r unfolding abort_tail_def by (cases x) (simp_all add: spares)
  have "spares_addresses (abort_prefix_fork v)" unfolding abort_prefix_fork_def by (intro spares spares_unless u t)
  then show ?thesis unfolding destroy_prefix_fork_def by (auto intro!: spares)
qed



text \<open>C33: A commit of an activation, of a fork or of a snapshot that throws has changed nothing: neither the store nor
  the transaction, which can be tried again or given up.\<close>

theorem commits_all_or_nothing:
  assumes "space_reachable y" "c = CommitActivation k \<or> c = CommitFork k \<or> c = CommitSnapshot k" "call_space c y = (y', Some e)"
  shows "y' = y"
proof -
  have none: "(sys_activations y)[k := sys_activations y ! k] = sys_activations y" "(sys_forks y)[k := sys_forks y ! k] = sys_forks y"
    "(sys_snapshots y)[k := sys_snapshots y ! k] = sys_snapshots y" by simp_all
  from assms(2) show ?thesis
  proof (elim disjE)
    assume c: "c = CommitActivation k"
    then have k: "k < length (sys_activations y)" using assms(3) by (auto split: if_splits)
    then have i: "space_inv (add_mset (activation_hold (sys_activations y ! k)) (open_holds (sys_store y) (removed k (sys_activations y)) (sys_forks y) (sys_snapshots y))) (sys_store y)"
      using reachable_space(1) [OF assms(1)] by (simp add: open_at)
    obtain s' v' r where run: "commit_activation (sys_activations y ! k) (sys_store y) = (s', v', r)" using prod_cases3 by blast
    then have "r = Inl e" using assms(3) k c by (auto simp: raised_def split: sum.splits)
    then show ?thesis using commit_activation_step(4) [OF i run] assms(3) k c run none by simp
  next
    assume c: "c = CommitFork k"
    then have k: "k < length (sys_forks y)" using assms(3) by (auto split: if_splits)
    obtain s' v' r where run: "commit_prefix_fork (sys_forks y ! k) (sys_store y) = (s', v', r)" using prod_cases3 by blast
    then have "r = Inl e" using assms(3) k c by (auto simp: raised_def split: sum.splits)
    then show ?thesis using commit_prefix_fork_step(5) [OF reachable_fork [OF assms(1) k] run] assms(3) k c run none by simp
  next
    assume c: "c = CommitSnapshot k"
    then have k: "k < length (sys_snapshots y)" using assms(3) by (auto split: if_splits)
    obtain s' v' r where run: "commit_active_snapshot (sys_snapshots y ! k) (sys_store y) = (s', v', r)" using prod_cases3 by blast
    then have "r = Inl e" using assms(3) k c by (auto simp: raised_def split: sum.splits)
    then show ?thesis using commit_active_snapshot_step(5) [OF reachable_snapshot [OF assms(1) k] run] assms(3) k c run none by simp
  qed
qed

text \<open>Committing the fork of \<open>example_forked\<close> once more is refused.\<close>

theorem commits_all_or_nothing_witness:
  "\<exists>y'. call_space (CommitFork 0) example_forked = (y', Some LogicError) \<and> y' = example_forked"
proof -
  have "fork_ready (sys_store example_forked) (sys_forks example_forked ! 0) = Inl LogicError" "sys_forks example_forked \<noteq> []"
    by (simp_all add: example_forked_def fork_ready_def require_prefix_fork_def)
  then obtain y' where r: "call_space (CommitFork 0) example_forked = (y', Some LogicError)"
    by (simp add: commit_prefix_fork_def act_then_def act_bind_def act_ask_def raised_def)
  show ?thesis using commits_all_or_nothing [OF example_reachable(7) _ r, of 0] r by simp
qed

section \<open>Cutting an active address below its checkpoint\<close>


end
