(* ===== verification/KV_Capacity.thy ===== *)
theory KV_Capacity
  imports Prelude Complex_Main
begin

text \<open>
  How many KV page groups the engine gives a sequence pool at startup. A target publishes a capacity curve (the
  bytes its smallest pool needs and the bytes of every further page group); the policy asks for a number of tokens
  or for as much as fits while leaving a headroom. Sizes are \<^verbatim>\<open>size_t\<close>, page counts \<^verbatim>\<open>uint32_t\<close>.
\<close>

section \<open>Data\<close>

datatype KvCapacityMode = Explicit | Automatic

record KvCapacityPolicy =
  policy_mode :: KvCapacityMode
  explicit_tokens :: nat
  automatic_headroom_bytes :: nat
  slack_floor_bytes :: nat

record SequenceCapacityCurve =
  main_page_tokens :: nat
  minimum_main_page_groups :: nat
  maximum_main_page_groups :: nat
  minimum_device_reservation_bytes :: nat
  bytes_per_additional_main_page_group :: nat

record KvCapacityResolution =
  resolution_mode :: KvCapacityMode
  main_page_groups :: nat
  resolution_maximum_groups :: nat
  resolution_tokens :: nat
  requested_concurrency :: nat
  effective_concurrency :: nat
  unbacked_concurrency_ratio :: real
  minimum_runtime_reservation_bytes :: nat
  resolution_bytes_per_group :: nat
  runtime_reservation_bytes :: nat
  available_after_weights_bytes :: nat
  available_after_startup_bytes :: nat
  resolution_headroom_bytes :: nat
  resolution_slack_floor_bytes :: nat
  desktop_reserve_bytes :: nat
  planned_slack_bytes :: nat

definition explicit_capacity :: "nat \<Rightarrow> nat \<Rightarrow> KvCapacityPolicy" where
  "explicit_capacity tokens slack_floor =
     \<lparr>policy_mode = Explicit, explicit_tokens = tokens, automatic_headroom_bytes = 0, slack_floor_bytes = slack_floor\<rparr>"

definition automatic_capacity :: "nat \<Rightarrow> nat \<Rightarrow> KvCapacityPolicy" where
  "automatic_capacity headroom slack_floor =
     \<lparr>policy_mode = Automatic, explicit_tokens = 0, automatic_headroom_bytes = headroom,
      slack_floor_bytes = (if slack_floor = 0 then headroom else slack_floor)\<rparr>"

section \<open>The curve\<close>

definition capacity_add :: "nat \<Rightarrow> nat \<Rightarrow> nat res" where
  "capacity_add a b = (if b > u64_max - a then Inl OverflowError else Inr (u64_add a b))"

definition capacity_mul :: "nat \<Rightarrow> nat \<Rightarrow> nat res" where
  "capacity_mul a b = (if b \<noteq> 0 \<and> a > u64_max div b then Inl OverflowError else Inr (u64_mul a b))"

definition validate_curve :: "SequenceCapacityCurve \<Rightarrow> unit res" where
  "validate_curve c =
     (if main_page_tokens c = 0 \<or> minimum_main_page_groups c = 0
        \<or> minimum_main_page_groups c > maximum_main_page_groups c \<or> minimum_device_reservation_bytes c = 0
      then Inl InvalidArgument
      else if minimum_main_page_groups c < maximum_main_page_groups c \<and> bytes_per_additional_main_page_group c = 0
      then Inl InvalidArgument
      else Inr ())"

definition explicit_page_groups :: "KvCapacityPolicy \<Rightarrow> SequenceCapacityCurve \<Rightarrow> nat res" where
  "explicit_page_groups p c =
     (if explicit_tokens p = 0 then Inl InvalidArgument
      else let pages = u64_add 1 ((explicit_tokens p - 1) div main_page_tokens c) in
        if pages > u32_max then Inl OverflowError else Inr pages)"

definition reservation_bytes :: "SequenceCapacityCurve \<Rightarrow> nat \<Rightarrow> nat res" where
  "reservation_bytes c groups =
     res_bind (validate_curve c) (\<lambda>_.
       if groups < minimum_main_page_groups c \<or> groups > maximum_main_page_groups c then Inl InvalidArgument
       else res_bind (capacity_mul (u32_sub groups (minimum_main_page_groups c)) (bytes_per_additional_main_page_group c))
         (\<lambda>increment. capacity_add (minimum_device_reservation_bytes c) increment))"

definition resolved_tokens :: "SequenceCapacityCurve \<Rightarrow> nat \<Rightarrow> nat res" where
  "resolved_tokens c groups =
     res_bind (validate_curve c) (\<lambda>_.
       if groups < minimum_main_page_groups c \<or> groups > maximum_main_page_groups c then Inl InvalidArgument
       else let tokens = u64_mul groups (main_page_tokens c) in
         if tokens > u32_max then Inl OverflowError else Inr tokens)"

section \<open>The resolution\<close>

text \<open>The page count and the bytes the reservation may use, by mode.\<close>

definition capacity_request :: "KvCapacityPolicy \<Rightarrow> SequenceCapacityCurve \<Rightarrow> nat \<Rightarrow> (nat \<times> nat) res" where
  "capacity_request p c available =
     (case policy_mode p of
        Explicit \<Rightarrow>
          if automatic_headroom_bytes p \<noteq> 0 then Inl InvalidArgument
          else res_bind (explicit_page_groups p c) (\<lambda>pages.
            if slack_floor_bytes p > 0
            then if available < slack_floor_bytes p then Inl InvalidArgument
                 else Inr (pages, u64_sub available (slack_floor_bytes p))
            else Inr (pages, available))
      | Automatic \<Rightarrow>
          let required_slack = max (automatic_headroom_bytes p) (slack_floor_bytes p) in
          if available < required_slack then Inl InvalidArgument
          else let budget = u64_sub available required_slack in
            if budget < minimum_device_reservation_bytes c then Inl InvalidArgument
            else if minimum_main_page_groups c < maximum_main_page_groups c
            then let additional = u64_sub budget (minimum_device_reservation_bytes c) div bytes_per_additional_main_page_group c;
                     candidate = u64_add (minimum_main_page_groups c) additional in
                 Inr (min candidate (maximum_main_page_groups c), budget)
            else Inr (minimum_main_page_groups c, budget))"

definition resolve_kv_capacity :: "KvCapacityPolicy \<Rightarrow> SequenceCapacityCurve \<Rightarrow> nat \<Rightarrow> KvCapacityResolution res" where
  "resolve_kv_capacity p c available =
     res_bind (validate_curve c) (\<lambda>_.
     res_bind (capacity_request p c available) (\<lambda>(pages, budget).
     res_bind (reservation_bytes c pages) (\<lambda>reservation.
       if reservation > budget then Inl InvalidArgument
       else res_bind (resolved_tokens c pages) (\<lambda>tokens.
         Inr \<lparr>resolution_mode = policy_mode p, main_page_groups = pages,
              resolution_maximum_groups = maximum_main_page_groups c, resolution_tokens = tokens,
              requested_concurrency = 0, effective_concurrency = 0, unbacked_concurrency_ratio = 1,
              minimum_runtime_reservation_bytes = minimum_device_reservation_bytes c,
              resolution_bytes_per_group = bytes_per_additional_main_page_group c,
              runtime_reservation_bytes = reservation, available_after_weights_bytes = available,
              available_after_startup_bytes = 0, resolution_headroom_bytes = automatic_headroom_bytes p,
              resolution_slack_floor_bytes = slack_floor_bytes p, desktop_reserve_bytes = 0,
              planned_slack_bytes = u64_sub available reservation\<rparr>))))"

section \<open>Lemmas\<close>

lemma capacity_mul_ok: "capacity_mul a b = Inr x \<longleftrightarrow> a * b \<le> u64_max \<and> x = a * b"
proof (cases "b = 0")
  case True
  then show ?thesis by (auto simp: capacity_mul_def u64_mul_def)
next
  case False
  then have "a \<le> u64_max div b \<longleftrightarrow> a * b \<le> u64_max" by (simp add: less_eq_div_iff_mult_less_eq)
  then show ?thesis using False by (auto simp: capacity_mul_def u64_mul_exact not_less)
qed

lemma capacity_add_ok: "a \<le> u64_max \<Longrightarrow> capacity_add a b = Inr x \<longleftrightarrow> a + b \<le> u64_max \<and> x = a + b"
  by (auto simp: capacity_add_def u64_add_exact not_less)

lemma reservation_bytes_ok:
  assumes "reservation_bytes c g = Inr n" "minimum_device_reservation_bytes c \<le> u64_max"
  shows "minimum_main_page_groups c \<le> g" "g \<le> maximum_main_page_groups c"
    "n = minimum_device_reservation_bytes c + (g - minimum_main_page_groups c) * bytes_per_additional_main_page_group c"
  using assms by (auto simp: reservation_bytes_def capacity_mul_ok capacity_add_ok u32_sub_def split: if_splits)

lemma explicit_page_groups_ok:
  assumes "explicit_page_groups p c = Inr g" "0 < main_page_tokens c" "explicit_tokens p \<le> u32_max"
  shows "explicit_tokens p \<le> g * main_page_tokens c" "g * main_page_tokens c < explicit_tokens p + main_page_tokens c"
proof -
  let ?t = "explicit_tokens p" and ?m = "main_page_tokens c"
  have t: "0 < ?t" and g: "g = 1 + (?t - 1) div ?m"
  proof -
    have "1 + (?t - 1) div ?m \<le> u64_max" using assms(3) div_le_dividend [of "?t - 1" ?m] max_bounds(2) by linarith
    then show "0 < ?t" "g = 1 + (?t - 1) div ?m" using assms(1) by (auto simp: explicit_page_groups_def Let_def u64_add_exact split: if_splits)
  qed
  define q where "q = (?t - 1) div ?m"
  have "?t - 1 = q * ?m + (?t - 1) mod ?m" "(?t - 1) mod ?m < ?m" using assms(2) by (simp_all add: q_def)
  moreover have "g * ?m = ?m + q * ?m" unfolding g q_def [symmetric] by simp
  ultimately show "?t \<le> g * ?m" "g * ?m < ?t + ?m" using t by linarith+
qed

section \<open>Properties\<close>

text \<open>The largest quotient: one more page group would not fit.\<close>

lemma next_group_exceeds:
  assumes "(0::nat) < s" "m \<le> b"
  shows "b < m + ((b - m) div s + 1) * s"
proof -
  have "b - m < ((b - m) div s + 1) * s" using assms(1) by (simp add: dividend_less_div_times)
  then show ?thesis using assms(2) by linarith
qed

text \<open>C35: A resolved capacity lies on the target's curve, costs exactly what the curve says, and leaves the demanded
  slack. An explicit request gets the fewest page groups that hold its tokens; an automatic one gets the most that fit:
  all of them, or one more would break into the slack.\<close>

theorem capacity_resolution_exact:
  assumes run: "resolve_kv_capacity p c available = Inr r"
    and typed: "maximum_main_page_groups c \<le> u32_max" "main_page_tokens c \<le> u32_max" "explicit_tokens p \<le> u32_max"
      "minimum_device_reservation_bytes c \<le> u64_max" "available + minimum_main_page_groups c \<le> u64_max"
  defines "slack \<equiv> (case policy_mode p of Explicit \<Rightarrow> slack_floor_bytes p | Automatic \<Rightarrow> max (automatic_headroom_bytes p) (slack_floor_bytes p))"
  shows "minimum_main_page_groups c \<le> main_page_groups r \<and> main_page_groups r \<le> maximum_main_page_groups c
    \<and> runtime_reservation_bytes r = minimum_device_reservation_bytes c
        + (main_page_groups r - minimum_main_page_groups c) * bytes_per_additional_main_page_group c
    \<and> runtime_reservation_bytes r + planned_slack_bytes r = available \<and> slack \<le> planned_slack_bytes r
    \<and> resolution_tokens r = main_page_groups r * main_page_tokens c
    \<and> (case policy_mode p of
         Explicit \<Rightarrow> explicit_tokens p \<le> resolution_tokens r \<and> resolution_tokens r < explicit_tokens p + main_page_tokens c
       | Automatic \<Rightarrow> main_page_groups r = maximum_main_page_groups c
           \<or> available < runtime_reservation_bytes r + bytes_per_additional_main_page_group c + slack)"
proof -
  let ?min = "minimum_main_page_groups c" and ?max = "maximum_main_page_groups c" and ?base = "minimum_device_reservation_bytes c"
    and ?step = "bytes_per_additional_main_page_group c"
  have valid: "0 < main_page_tokens c" "?min \<le> ?max" "?min < ?max \<longrightarrow> 0 < ?step"
    using run by (auto simp: resolve_kv_capacity_def validate_curve_def split: if_splits)
  obtain pages budget n tokens where req: "capacity_request p c available = Inr (pages, budget)"
    and n: "reservation_bytes c pages = Inr n" "n \<le> budget" and tok: "resolved_tokens c pages = Inr tokens"
    and r: "main_page_groups r = pages" "runtime_reservation_bytes r = n" "resolution_tokens r = tokens" "planned_slack_bytes r = u64_sub available n"
    using run by (auto simp: resolve_kv_capacity_def split: if_splits)
  note nb = reservation_bytes_ok [OF n(1) typed(4)]
  have budget: "budget + slack = available" using req
    by (auto simp: capacity_request_def slack_def Let_def u64_sub_def max_def split: KvCapacityMode.splits if_splits)
  have "pages * main_page_tokens c \<le> u64_max"
  proof -
    have "pages * main_page_tokens c \<le> u32_max * u32_max" using nb(2) typed(1,2) by (intro mult_le_mono) linarith+
    then show ?thesis by (simp add: u32_max_def u64_max_def)
  qed
  then have t: "tokens = pages * main_page_tokens c"
    using tok by (auto simp: resolved_tokens_def Let_def u64_mul_exact split: if_splits)
  have sl: "planned_slack_bytes r = available - n" "n \<le> available" using r(4) n(2) budget by (simp_all add: u64_sub_def)
  have mode: "case policy_mode p of Explicit \<Rightarrow> explicit_tokens p \<le> tokens \<and> tokens < explicit_tokens p + main_page_tokens c
     | Automatic \<Rightarrow> pages = ?max \<or> available < n + ?step + slack"
  proof (cases "policy_mode p")
    case Explicit
    then have "explicit_page_groups p c = Inr pages" using req by (auto simp: capacity_request_def split: if_splits)
    then show ?thesis using explicit_page_groups_ok [OF _ valid(1) typed(3)] by (simp add: Explicit t)
  next
    case Automatic
    have "pages = ?max \<or> budget < n + ?step"
    proof (cases "?min < ?max")
      case True
      define k where "k = (budget - ?base) div ?step"
      have fit: "?base \<le> budget" and pages: "pages = min (u64_add ?min k) ?max"
        using req True by (auto simp: capacity_request_def Automatic Let_def u64_sub_def k_def split: if_splits)
      have "?min + k \<le> u64_max"
      proof -
        have "k \<le> budget" using div_le_dividend [of "budget - ?base" ?step] unfolding k_def by linarith
        then show ?thesis using budget typed(5) by linarith
      qed
      then have p2: "pages = min (?min + k) ?max" by (simp add: pages u64_add_exact)
      show ?thesis
      proof (cases "?max \<le> ?min + k")
        case False
        then have "pages - ?min = k" using p2 by simp
        then have "n = ?base + k * ?step" using nb(3) by simp
        then show ?thesis using next_group_exceeds [of ?step ?base budget] valid(3) True fit by (simp add: k_def)
      qed (simp add: p2)
    qed (use nb valid(2) in simp)
    then show ?thesis using budget by (auto simp: Automatic)
  qed
  have "slack \<le> available - n" "n + (available - n) = available" using n(2) budget by linarith+
  then show ?thesis unfolding r(1-3) sl(1) using nb t mode by blast
qed

text \<open>A curve of 16 to 64 groups of 64 tokens, 1000 bytes for the smallest pool and 100 for each further group, 3500 bytes
  of which 500 are headroom: 36 groups.\<close>

definition example_curve :: SequenceCapacityCurve where
  "example_curve = \<lparr>main_page_tokens = 64, minimum_main_page_groups = 16, maximum_main_page_groups = 64,
     minimum_device_reservation_bytes = 1000, bytes_per_additional_main_page_group = 100\<rparr>"

theorem capacity_resolution_exact_witness:
  "\<exists>r. resolve_kv_capacity (automatic_capacity 500 0) example_curve 3500 = Inr r \<and> main_page_groups r = 36 \<and> runtime_reservation_bytes r = 3000"
proof -
  obtain r where r: "resolve_kv_capacity (automatic_capacity 500 0) example_curve 3500 = Inr r" "main_page_groups r = 36"
    by (simp add: resolve_kv_capacity_def automatic_capacity_def example_curve_def validate_curve_def capacity_request_def reservation_bytes_def
        resolved_tokens_def capacity_mul_def capacity_add_def u64_sub_def u64_add_def u64_mul_def u32_sub_def u64_max_def u32_max_def Let_def)
  have "runtime_reservation_bytes r = 3000"
    using capacity_resolution_exact [OF r(1)] r(2) by (simp add: example_curve_def automatic_capacity_def u32_max_def u64_max_def)
  then show ?thesis using r by blast
qed

end
