(* ===== verification/Spec2Isabelle.thy ===== *)
theory Spec2Isabelle
  imports Page_Clients Reservation_Bundle Execution_Table Host_Arena_Use Logical_Store_Use Space_Properties
    KV_Capacity
begin

text \<open>
  Verification library of the KV-cache core of the ninfer inference engine.

  \<^bold>\<open>The program.\<close> The engine keeps the attention keys and values of every sequence in pages of 64 tokens.
  A pool of device pages hands out leases against reservations
  (\<^verbatim>\<open>src/core/paged_kv_cache.cpp\<close>); an execution table tells the GPU which physical page holds which
  logical page of a sequence (same file); a pinned host arena holds pages that left the device
  (\<^verbatim>\<open>src/core/host_kv_arena.cpp\<close>); a logical page store gives each page one reference-counted identity
  across device and host, and an address-space store builds sequences from logical pages, shares
  prefixes between them and turns active sequences into retained checkpoints (both in
  \<^verbatim>\<open>src/runtime/logical_kv_store.h\<close>). Below them lie tensors and layouts (\<^verbatim>\<open>src/core/tensor.cpp\<close>,
  \<^verbatim>\<open>src/core/layout.cpp\<close>, \<^verbatim>\<open>src/core/dtype.cpp\<close>) and the storage schemas (\<^verbatim>\<open>src/core/paged_kv_storage.h\<close>).

  \<^bold>\<open>Theories.\<close>
  \<^item> \<open>Prelude\<close>: results with exceptions (\<open>exn\<close>, \<open>res\<close>), fixed-width arithmetic on naturals with the wrap-around
    written out, list lemmas. \<open>Actions\<close>: methods that change an object and may throw half-way, as
    functions that return the state at the throw.
  \<^item> \<open>Free_Extents\<close>: the abstract specification of a list of free spans, and the locale both allocators
    are interpreted in.
  \<^item> \<open>Tensor_Layout\<close>, \<open>KV_Geometry\<close>: tensors, slices, views, the layout builder, storage schemas, page
    geometries and planned layouts. Regions are disjoint, aligned and inside the backing; slices and views
    address only elements of their source; schemas never exceed the 16-bit payload.
  \<^item> \<open>Device_Page_Pool\<close>, \<open>Page_Clients\<close>: the pool and any number of clients that hold reservations and
    leases. Leases are exclusive, the counters are sums over the clients, and no call faults.
  \<^item> \<open>Reservation_Bundle\<close>: reserving in several pools, all or nothing.
  \<^item> \<open>Execution_Table\<close>: row leases and publications; a publication writes exactly its range.
  \<^item> \<open>Host_KV_Arena\<close>, \<open>Host_Arena_Use\<close>: the arena; live allocations and free extents partition the
    backing, allocation succeeds exactly when it should, planned recipes apply exactly as planned.
  \<^item> \<open>Lease_Accounting\<close>, \<open>Logical_Page_Store\<close>, \<open>Logical_Store_Use\<close>: the logical pages over the pool they own;
    exclusive physical pages, exact counters, host replicas that cover a prefix of current content, and
    which exceptions and terminations its calls can end in.
  \<^item> \<open>Address_Space\<close>: address spaces with their transactions (activation, prefix fork, active
    snapshot).
  \<^item> \<open>Example_Pool\<close>: the concrete pool the witnesses run on.

  \<^bold>\<open>Correspondence.\<close> A class is a record with one field per member, a method is a function with the
  method's name (suffixed where HOL or another class has the name) that returns the new object, and
  an exception is a value: \<open>Inl\<close> of the kind of exception, \<open>Terminate\<close> for \<^verbatim>\<open>std::terminate\<close> and \<open>Undefined\<close>
  for an access out of bounds. Owner pointers are identities (natural numbers); move-only capabilities are
  records that are passed in and handed back. Unsigned 32- and 64-bit counters are naturals with
  explicit modulus; generations and epochs, which wrap by design, are machine words.

  \<^bold>\<open>Bounds.\<close> All definitions are total functions on finite lists, so no fuel is used. The recursions
  on lists are structural.

  \<^bold>\<open>Not modelled.\<close> CUDA streams and kernels (a publication returns the copies it issues), the bytes
  of the pages, threads, HTTP and model code. Memory allocation by the standard library is assumed to
  succeed.
\<close>

end
